(* ===== verification/Vurn_Prelude.thy ===== *)
theory Vurn_Prelude
  imports Main "HOL-Library.Word" "HOL-Library.List_Lexorder"
begin

text \<open>
  Shared vocabulary of the development: the machine types of the Rust sources, the
  \<open>Result\<close> type with its question-mark operator, little- and big-endian byte strings,
  slices, and the collections of facts that the component proofs use.

  \<^item> \<open>Vec<u8>\<close>, \<open>&[u8]\<close> and \<open>[u8; N]\<close> are lists of 8-bit words; the
    fixed length of an array is part of the well-formedness predicate of the record it sits in.
  \<^item> \<open>u16\<close>, \<open>u32\<close>, \<open>u64\<close> keep their width. \<open>usize\<close> values are lengths of
    buffers in memory and are natural numbers.
  \<^item> \<open>Result<T, E>\<close> is \<open>'e + 'a\<close>, with \<open>Inl\<close> for \<open>Err\<close>.
  \<^item> \<open>x.len() as u16\<close> is \<open>word_of_nat (length x)\<close>, which truncates as Rust does.
\<close>

unbundle bit_operations_syntax

type_synonym u8 = "8 word"
type_synonym u16 = "16 word"
type_synonym u32 = "32 word"
type_synonym u64 = "64 word"
type_synonym bytes = "u8 list"

named_theorems codec_simps \<open>length and round-trip facts of the byte codecs\<close>
named_theorems result_iff \<open>when a result computation succeeds\<close>
named_theorems reader_intros \<open>readers that never look past what they consume\<close>
named_theorems wf_intros \<open>well-formedness preserved by the operations\<close>


section \<open>Results\<close>

text \<open>The question-mark operator: the error is returned early, the value is passed on.\<close>

fun res_bind :: "'e + 'a \<Rightarrow> ('a \<Rightarrow> 'e + 'b) \<Rightarrow> 'e + 'b" where
  "res_bind (Inl e) f = Inl e"
| "res_bind (Inr x) f = f x"

lemma res_bind_Inr_iff [result_iff]: "res_bind m f = Inr y \<longleftrightarrow> (\<exists>x. m = Inr x \<and> f x = Inr y)"
  by (cases m) auto

lemma res_bind_split:
  "P (res_bind m f) \<longleftrightarrow> (\<forall>e. m = Inl e \<longrightarrow> P (Inl e)) \<and> (\<forall>x. m = Inr x \<longrightarrow> P (f x))"
  by (cases m) auto

definition is_ok :: "'e + 'a \<Rightarrow> bool" where
  "is_ok m = (case m of Inl _ \<Rightarrow> False | Inr _ \<Rightarrow> True)"

lemma is_ok_simps [simp]: "\<not> is_ok (Inl e)" "is_ok (Inr x)"
  by (simp_all add: is_ok_def)

lemma is_okE: "is_ok m \<Longrightarrow> (\<And>x. m = Inr x \<Longrightarrow> P) \<Longrightarrow> P"
  by (cases m) auto


section \<open>Slices\<close>

definition slice :: "nat \<Rightarrow> nat \<Rightarrow> 'a list \<Rightarrow> 'a list" where
  "slice a b xs = take (b - a) (drop a xs)"

lemma length_slice [simp]: "a \<le> b \<Longrightarrow> b \<le> length xs \<Longrightarrow> length (slice a b xs) = b - a"
  by (simp add: slice_def)

lemma slice_append_mid [simp]:
  "length xs = a \<Longrightarrow> a + length ys = b \<Longrightarrow> slice a b (xs @ ys @ zs) = ys"
  by (auto simp: slice_def)

lemma slice_append_end [simp]:
  "length xs = a \<Longrightarrow> a + length ys = b \<Longrightarrow> slice a b (xs @ ys) = ys"
  by (auto simp: slice_def)


section \<open>Little- and big-endian integers\<close>

lemma unat_lt2p: "unat (w :: 'a::len word) < 2 ^ LENGTH('a)"
  by (rule unsigned_less)

lemma unat_inc_less: "(x :: 'a::len word) < y \<Longrightarrow> unat (x + 1) = Suc (unat x)"
  by unat_arith

lemma word_eq_add_of_nat:
  fixes u n :: "'a::len word"
  assumes "unat u = unat n + c"
  shows "u = n + word_of_nat c"
proof -
  have "u = word_of_nat (unat u)" by simp
  also have "\<dots> = n + word_of_nat c" unfolding assms by simp
  finally show ?thesis .
qed

lemma unat_add_of_nat:
  fixes n :: "'a::len word"
  assumes "unat n + c < 2 ^ LENGTH('a)"
  shows "unat (n + word_of_nat c) = unat n + c"
proof -
  have "unat (word_of_nat (unat n + c) :: 'a word) = unat n + c"
    using assms by (simp only: unat_of_nat mod_less)
  then show ?thesis by simp
qed

lemma unat_word_of_nat_u32 [simp]: "unat (word_of_nat n :: u32) = n mod 2 ^ 32"
  by (simp add: unat_of_nat)

fun le_val :: "bytes \<Rightarrow> nat" where
  "le_val [] = 0"
| "le_val (b # bs) = unat b + 256 * le_val bs"

primrec to_le :: "nat \<Rightarrow> nat \<Rightarrow> bytes" where
  "to_le 0 v = []"
| "to_le (Suc n) v = word_of_nat (v mod 256) # to_le n (v div 256)"

lemma length_to_le [simp, codec_simps]: "length (to_le n v) = n"
  by (induction n arbitrary: v) auto

lemma unat_byte_of_nat [simp]: "unat (word_of_nat (v mod 256) :: u8) = v mod 256"
  by (simp add: unat_of_nat)

lemma le_val_to_le: "le_val (to_le n v) = v mod 256 ^ n"
proof (induction n arbitrary: v)
  case 0
  then show ?case by simp
next
  case (Suc n)
  have "v mod 256 ^ Suc n = v mod 256 + 256 * (v div 256 mod 256 ^ n)"
    by (metis add.commute mod_mult2_eq power_Suc)
  then show ?case using Suc by simp
qed

lemma le_val_bound: "le_val bs < 256 ^ length bs"
proof (induction bs)
  case Nil
  then show ?case by simp
next
  case (Cons b bs)
  have "unat b < 256" using unat_lt2p[of b] by simp
  with Cons show ?case by simp
qed

lemma to_le_le_val: "to_le (length bs) (le_val bs) = bs"
proof (induction bs)
  case Nil
  then show ?case by simp
next
  case (Cons b bs)
  have "unat b < 256" using unat_lt2p[of b] by simp
  with Cons show ?case by simp
qed

definition u16_le :: "u16 \<Rightarrow> bytes" where
  "u16_le w = to_le 2 (unat w)"

definition u32_le :: "u32 \<Rightarrow> bytes" where
  "u32_le w = to_le 4 (unat w)"

definition u64_le :: "u64 \<Rightarrow> bytes" where
  "u64_le w = to_le 8 (unat w)"

definition u64_be :: "u64 \<Rightarrow> bytes" where
  "u64_be w = rev (u64_le w)"

definition le_u16 :: "bytes \<Rightarrow> u16" where
  "le_u16 bs = word_of_nat (le_val bs)"

definition le_u32 :: "bytes \<Rightarrow> u32" where
  "le_u32 bs = word_of_nat (le_val bs)"

definition le_u64 :: "bytes \<Rightarrow> u64" where
  "le_u64 bs = word_of_nat (le_val bs)"

definition be_u64 :: "bytes \<Rightarrow> u64" where
  "be_u64 bs = le_u64 (rev bs)"

lemma length_u16_le [simp, codec_simps]: "length (u16_le w) = 2"
  by (simp add: u16_le_def)

lemma length_u32_le [simp, codec_simps]: "length (u32_le w) = 4"
  by (simp add: u32_le_def)

lemma length_u64_le [simp, codec_simps]: "length (u64_le w) = 8"
  by (simp add: u64_le_def)

lemma length_u64_be [simp, codec_simps]: "length (u64_be w) = 8"
  by (simp add: u64_be_def)

lemma le_u16_u16_le [simp, codec_simps]: "le_u16 (u16_le w) = w"
proof -
  have "unat w < 65536" using unat_lt2p[of w] by simp
  then show ?thesis by (simp add: le_u16_def u16_le_def le_val_to_le)
qed

lemma le_u32_u32_le [simp, codec_simps]: "le_u32 (u32_le w) = w"
proof -
  have "unat w < 4294967296" using unat_lt2p[of w] by simp
  then show ?thesis by (simp add: le_u32_def u32_le_def le_val_to_le)
qed

lemma le_u64_u64_le [simp, codec_simps]: "le_u64 (u64_le w) = w"
proof -
  have "unat w < 18446744073709551616" using unat_lt2p[of w] by simp
  then show ?thesis by (simp add: le_u64_def u64_le_def le_val_to_le)
qed

lemma be_u64_u64_be [simp, codec_simps]: "be_u64 (u64_be w) = w"
  by (simp add: be_u64_def u64_be_def)

lemma u64_be_inj: "u64_be a = u64_be b \<longleftrightarrow> a = b"
  by (metis be_u64_u64_be)

lemma u16_len [simp, codec_simps]: "n < 65536 \<Longrightarrow> unat (word_of_nat n :: u16) = n"
  by (simp add: unat_of_nat)

lemma u16_le_le_u16: "u16_le (le_u16 [a, b]) = [a, b]"
proof -
  have v: "le_val [a, b] < 65536" using le_val_bound[of "[a, b]"] by simp
  have "u16_le (le_u16 [a, b]) = to_le (length [a, b]) (le_val [a, b])"
    unfolding u16_le_def le_u16_def using v by (simp add: numeral_2_eq_2 del: le_val.simps)
  then show ?thesis by (simp only: to_le_le_val)
qed

lemma u16_le_split: "u16_le w = [u16_le w ! 0, u16_le w ! 1]"
  by (simp add: u16_le_def numeral_2_eq_2)

lemma u16_le_nth: "[(u16_le w @ xs) ! 0, (u16_le w @ xs) ! 1] = u16_le w"
  by (subst (3) u16_le_split) (simp add: nth_append)

end
