(* ===== verification/Crypto_Env.thy ===== *)
theory Crypto_Env
  imports Vurn_Prelude
begin

text \<open>
  The third-party cryptography the core crate calls (crates \<open>hmac\<close>, \<open>sha2\<close>,
  \<open>x25519-dalek\<close>, \<open>ml-kem\<close>, \<open>aes-gcm\<close>, \<open>ml-dsa\<close>, \<open>base64\<close>, \<open>pbkdf2\<close>) is not part of this
  repository: it is a parameter of the model, one record of functions that every definition
  using it takes as its argument. The operating system's randomness is an explicit byte string
  handed to the operation that draws it. What the code relies on is stated as named predicates
  over the record; every theorem that needs one says so.
\<close>

record crypto =
  c_hmac :: "bytes \<Rightarrow> bytes \<Rightarrow> bytes"  \<comment> \<open>HMAC-SHA256: key, data\<close>
  c_sha256 :: "bytes \<Rightarrow> bytes"
  c_x25519 :: "bytes \<Rightarrow> bytes \<Rightarrow> bytes"  \<comment> \<open>secret, peer public key\<close>
  c_x25519_base :: "bytes \<Rightarrow> bytes"  \<comment> \<open>public key of a secret\<close>
  c_kem_keygen :: "bytes \<Rightarrow> bytes \<times> bytes"  \<comment> \<open>randomness; encapsulation key, decapsulation key\<close>
  c_kem_encaps :: "bytes \<Rightarrow> bytes \<Rightarrow> (bytes \<times> bytes) option"
    \<comment> \<open>key, randomness; ciphertext, secret\<close>
  c_kem_decaps :: "bytes \<Rightarrow> bytes \<Rightarrow> bytes option"
  c_seal :: "bytes \<Rightarrow> bytes \<Rightarrow> bytes \<Rightarrow> bytes \<Rightarrow> bytes option"
    \<comment> \<open>AES-256-GCM: key, nonce, associated data, message\<close>
  c_open :: "bytes \<Rightarrow> bytes \<Rightarrow> bytes \<Rightarrow> bytes \<Rightarrow> bytes option"
  c_dsa_pk :: "bytes \<Rightarrow> bytes"  \<comment> \<open>ML-DSA-87 verifying key of a seed\<close>
  c_dsa_sign :: "bytes \<Rightarrow> bytes \<Rightarrow> bytes option"  \<comment> \<open>seed, message\<close>
  c_dsa_decodes :: "bytes \<Rightarrow> bool"  \<comment> \<open>the signature bytes decode\<close>
  c_dsa_verify :: "bytes \<Rightarrow> bytes \<Rightarrow> bytes \<Rightarrow> bool"  \<comment> \<open>key, message, signature\<close>
  c_b64_encode :: "bytes \<Rightarrow> string"  \<comment> \<open>URL-safe alphabet, no padding\<close>
  c_b64_decode :: "string \<Rightarrow> bytes option"
  c_lower :: "string \<Rightarrow> string"  \<comment> \<open>Unicode lower-casing of UTF-8 text\<close>
  c_pbkdf2 :: "string \<Rightarrow> bytes \<Rightarrow> nat \<Rightarrow> bytes"  \<comment> \<open>password, salt, iterations\<close>


section \<open>Documented behaviour\<close>

text \<open>AES-GCM accepts messages and associated data up to \<open>2^36\<close> bytes.\<close>

definition aead_max :: nat where
  "aead_max = 2 ^ 36"

definition hmac_ok :: "crypto \<Rightarrow> bool" where
  "hmac_ok C \<longleftrightarrow> (\<forall>k d. length (c_hmac C k d) = 32)"

definition sha_ok :: "crypto \<Rightarrow> bool" where
  "sha_ok C \<longleftrightarrow> (\<forall>d. length (c_sha256 C d) = 32)"

definition dh_ok :: "crypto \<Rightarrow> bool" where
  "dh_ok C \<longleftrightarrow>
     (\<forall>a b. c_x25519 C a (c_x25519_base C b) = c_x25519 C b (c_x25519_base C a)) \<and>
     (\<forall>a b. length (c_x25519 C a b) = 32) \<and> (\<forall>a. length (c_x25519_base C a) = 32)"

definition kem_ok :: "crypto \<Rightarrow> bool" where
  "kem_ok C \<longleftrightarrow>
     (\<forall>s pk sk. c_kem_keygen C s = (pk, sk) \<longrightarrow>
        length pk = 1568 \<and> length sk = 3168 \<and>
        (\<forall>r. \<exists>ct ss. c_kem_encaps C pk r = Some (ct, ss) \<and> length ct = 1568 \<and>
              length ss = 32 \<and> c_kem_decaps C sk ct = Some ss))"

definition aead_ok :: "crypto \<Rightarrow> bool" where
  "aead_ok C \<longleftrightarrow>
     (\<forall>k n a m. length k = 32 \<longrightarrow> length n = 12 \<longrightarrow> length a \<le> aead_max \<longrightarrow> length m \<le> aead_max \<longrightarrow>
        (\<exists>c. c_seal C k n a m = Some c \<and> length c = length m + 16 \<and> c_open C k n a c = Some m))"

definition dsa_ok :: "crypto \<Rightarrow> bool" where
  "dsa_ok C \<longleftrightarrow>
     (\<forall>s m. length s = 32 \<longrightarrow>
        length (c_dsa_pk C s) = 2592 \<and>
        (\<exists>sig. c_dsa_sign C s m = Some sig \<and> length sig = 4627 \<and> c_dsa_decodes C sig \<and>
               c_dsa_verify C (c_dsa_pk C s) m sig))"

definition b64_ok :: "crypto \<Rightarrow> bool" where
  "b64_ok C \<longleftrightarrow>
     (\<forall>d. c_b64_decode C (c_b64_encode C d) = Some d \<and> CHR ''?'' \<notin> set (c_b64_encode C d))"

lemma hmac_len: "hmac_ok C \<Longrightarrow> length (c_hmac C k d) = 32"
  by (simp add: hmac_ok_def)

lemma sha_len: "sha_ok C \<Longrightarrow> length (c_sha256 C d) = 32"
  by (simp add: sha_ok_def)

lemma dh_len:
  "dh_ok C \<Longrightarrow> length (c_x25519 C a b) = 32"
  "dh_ok C \<Longrightarrow> length (c_x25519_base C a) = 32"
  by (simp_all add: dh_ok_def)

lemma dh_commute:
  "dh_ok C \<Longrightarrow> c_x25519 C a (c_x25519_base C b) = c_x25519 C b (c_x25519_base C a)"
  by (simp add: dh_ok_def)

lemma kem_keyE:
  assumes "kem_ok C" and "c_kem_keygen C s = (pk, sk)"
  obtains ct ss where "length pk = 1568" "length sk = 3168" "c_kem_encaps C pk r = Some (ct, ss)"
    "length ct = 1568" "length ss = 32" "c_kem_decaps C sk ct = Some ss"
  using assms by (auto simp: kem_ok_def) (metis that)

lemma kem_len:
  "kem_ok C \<Longrightarrow> c_kem_keygen C s = (pk, sk) \<Longrightarrow> length pk = 1568 \<and> length sk = 3168"
  by (simp add: kem_ok_def)

lemma aeadE:
  assumes "aead_ok C" "length k = 32" "length n = 12" "length a \<le> aead_max" "length m \<le> aead_max"
  obtains c where "c_seal C k n a m = Some c" "length c = length m + 16" "c_open C k n a c = Some m"
  using assms unfolding aead_ok_def by metis

lemma dsa_signE:
  assumes "dsa_ok C" "length s = 32"
  obtains sig where "c_dsa_sign C s m = Some sig" "length sig = 4627" "c_dsa_decodes C sig"
    "c_dsa_verify C (c_dsa_pk C s) m sig" "length (c_dsa_pk C s) = 2592"
  using assms unfolding dsa_ok_def by metis


section \<open>An instance\<close>

text \<open>
  A concrete record that satisfies every predicate above, so that theorems with these
  hypotheses can be applied to closed terms. It has no cryptographic strength.
\<close>

definition pad32 :: "bytes \<Rightarrow> bytes" where
  "pad32 x = take 32 (x @ replicate 32 0)"

lemma length_pad32 [simp]: "length (pad32 x) = 32"
  by (simp add: pad32_def)

lemma pad32_id [simp]: "length x = 32 \<Longrightarrow> pad32 x = x"
  by (simp add: pad32_def)

fun hex_digit :: "nat \<Rightarrow> char" where
  "hex_digit n = char_of (97 + n)"

definition toy_b64 :: "bytes \<Rightarrow> string" where
  "toy_b64 d = concat (map (\<lambda>b. [hex_digit (unat b div 16), hex_digit (unat b mod 16)]) d)"

fun toy_unb64 :: "string \<Rightarrow> bytes option" where
  "toy_unb64 [] = Some []"
| "toy_unb64 [c] = None"
| "toy_unb64 (c # d # cs) =
     map_option (\<lambda>bs. word_of_nat ((of_char c - 97) * 16 + (of_char d - 97)) # bs) (toy_unb64 cs)"

definition toy_crypto :: crypto where
  "toy_crypto =
     \<lparr>c_hmac = (\<lambda>k d. map (\<lambda>b. b + sum_list d) (pad32 k)),
      c_sha256 = (\<lambda>d. pad32 d),
      c_x25519 = (\<lambda>sk pk. map2 (+) (pad32 sk) (pad32 pk)),
      c_x25519_base = pad32,
      c_kem_keygen = (\<lambda>s. (replicate 1568 0, replicate 3168 0)),
      c_kem_encaps = (\<lambda>pk r. Some (replicate 1568 0, replicate 32 7)),
      c_kem_decaps = (\<lambda>sk ct. Some (replicate 32 7)),
      c_seal = (\<lambda>k n a m. Some (take 16 (pad32 k) @ m)),
      c_open = (\<lambda>k n a c. if take 16 c = take 16 (pad32 k) then Some (drop 16 c) else None),
      c_dsa_pk = (\<lambda>s. replicate 2592 1),
      c_dsa_sign = (\<lambda>s m. Some (replicate 4627 2)),
      c_dsa_decodes = (\<lambda>sig. True),
      c_dsa_verify = (\<lambda>pk m sig. hd sig = 2),
      c_b64_encode = toy_b64,
      c_b64_decode = toy_unb64,
      c_lower = id,
      c_pbkdf2 = (\<lambda>p s i. replicate 32 0)\<rparr>"

lemma toy_b64_roundtrip: "toy_unb64 (toy_b64 d) = Some d"
proof (induction d)
  case Nil
  then show ?case by (simp add: toy_b64_def)
next
  case (Cons b d)
  have b: "unat b < 256" using unat_lt2p[of b] by simp
  then have "unat b div 16 < 16" by auto
  then have hi: "(of_char (hex_digit (unat b div 16)) :: nat) = 97 + unat b div 16"
    by simp
  have lo: "(of_char (hex_digit (unat b mod 16)) :: nat) = 97 + unat b mod 16"
    by (simp add: trans_less_add1)
  have "(word_of_nat (unat b div 16 * 16 + unat b mod 16) :: u8) = b"
    by simp
  with Cons show ?case
    by (simp add: toy_b64_def hi lo del: hex_digit.simps div_mult_mod_eq)
qed

lemma toy_b64_alphabet: "CHR ''?'' \<notin> set (toy_b64 d)"
proof -
  have "(of_char (CHR ''?'') :: nat) \<noteq> of_char (hex_digit (n mod 16))" for n
    by (simp add: trans_less_add1)
  moreover have "unat b div 16 mod 16 = unat b div 16" for b :: u8
  proof -
    have "unat b < 256" using unat_lt2p[of b] by simp
    then show ?thesis by auto
  qed
  ultimately have "CHR ''?'' \<noteq> hex_digit (unat b mod 16)"
    and "CHR ''?'' \<noteq> hex_digit (unat b div 16)" for b :: u8
    by (metis)+
  then show ?thesis
    by (auto simp: toy_b64_def simp del: hex_digit.simps)
qed

lemma toy_ok:
  "hmac_ok toy_crypto" "sha_ok toy_crypto" "dh_ok toy_crypto" "kem_ok toy_crypto"
  "aead_ok toy_crypto" "dsa_ok toy_crypto" "b64_ok toy_crypto"
proof -
  have comm: "map2 (+) xs ys = map2 (+) ys xs" for xs ys :: bytes
    by (induction xs ys rule: list_induct2') (auto simp: add.commute)
  show "dh_ok toy_crypto"
    by (auto simp: dh_ok_def toy_crypto_def intro: comm)
  show "b64_ok toy_crypto"
    by (simp add: b64_ok_def toy_crypto_def toy_b64_roundtrip toy_b64_alphabet)
  show "dsa_ok toy_crypto"
    by (simp add: dsa_ok_def toy_crypto_def)
qed (simp_all add: hmac_ok_def sha_ok_def kem_ok_def aead_ok_def toy_crypto_def)

end
