(* ===== verification/Codec.thy ===== *)
theory Codec
  imports Vurn_Prelude
begin

text \<open>
  Readers and codecs. A reader models the \<open>take\<close> closure of \<open>Session::from_bytes\<close>: the
  cursor \<open>p\<close> into the buffer is the suffix that is left, and running out of input is an error
  value. The locale \<open>codec\<close> is the contract of a self-delimiting encoding, \<open>ext_codec\<close> adds
  that the reader never looks past what it consumes; their lemmas (prefix freedom, lists of
  records, rejection of truncated input) are proved once and reused by interpretation.
\<close>

type_synonym ('e, 'a) reader = "bytes \<Rightarrow> 'e + ('a \<times> bytes)"

definition rd_pure :: "'a \<Rightarrow> ('e, 'a) reader" where
  "rd_pure x = (\<lambda>d. Inr (x, d))"

definition rd_bind :: "('e, 'a) reader \<Rightarrow> ('a \<Rightarrow> ('e, 'b) reader) \<Rightarrow> ('e, 'b) reader" where
  "rd_bind m f = (\<lambda>d. res_bind (m d) (\<lambda>(x, r). f x r))"

definition rd_fail :: "'e \<Rightarrow> ('e, 'a) reader" where
  "rd_fail e = (\<lambda>d. Inl e)"

definition rd_take :: "'e \<Rightarrow> nat \<Rightarrow> ('e, bytes) reader" where
  "rd_take e n = (\<lambda>d. if length d < n then Inl e else Inr (take n d, drop n d))"

primrec rd_many :: "nat \<Rightarrow> ('e, 'a) reader \<Rightarrow> ('e, 'a list) reader" where
  "rd_many 0 m = rd_pure []"
| "rd_many (Suc n) m = rd_bind m (\<lambda>x. rd_bind (rd_many n m) (\<lambda>xs. rd_pure (x # xs)))"

lemma rd_pure_app [simp]: "rd_pure x d = Inr (x, d)"
  by (simp add: rd_pure_def)

lemma rd_fail_app [simp]: "rd_fail e d = Inl e"
  by (simp add: rd_fail_def)

lemma rd_bind_Inr [result_iff]:
  "rd_bind m f d = Inr y \<longleftrightarrow> (\<exists>x r. m d = Inr (x, r) \<and> f x r = Inr y)"
  by (auto simp: rd_bind_def result_iff)

lemma rd_bind_step: "m d = Inr (x, r) \<Longrightarrow> rd_bind m f d = f x r"
  by (simp add: rd_bind_def)

lemma rd_bind_err: "m d = Inl e \<Longrightarrow> rd_bind m f d = Inl e"
  by (simp add: rd_bind_def)

lemma rd_take_app [simp, codec_simps]: "length xs = n \<Longrightarrow> rd_take e n (xs @ r) = Inr (xs, r)"
  by (simp add: rd_take_def)

lemma rd_take_all [simp, codec_simps]: "length xs = n \<Longrightarrow> rd_take e n xs = Inr (xs, [])"
  by (simp add: rd_take_def)

lemma rd_take_Inr [result_iff]:
  "rd_take e n d = Inr (x, r) \<longleftrightarrow> n \<le> length d \<and> x = take n d \<and> r = drop n d"
  by (auto simp: rd_take_def)

lemma length_rd_many: "rd_many n m d = Inr (xs, r) \<Longrightarrow> length xs = n"
  by (induction n arbitrary: d xs r) (auto simp: result_iff)


section \<open>Readers that do not look ahead\<close>

definition extends :: "('e, 'a) reader \<Rightarrow> bool" where
  "extends m \<longleftrightarrow> (\<forall>d x r e. m d = Inr (x, r) \<longrightarrow> m (d @ e) = Inr (x, r @ e))"

lemma extendsD: "extends m \<Longrightarrow> m d = Inr (x, r) \<Longrightarrow> m (d @ e) = Inr (x, r @ e)"
  by (simp add: extends_def)

lemma extends_pure [reader_intros]: "extends (rd_pure x)"
  by (simp add: extends_def)

lemma extends_fail [reader_intros]: "extends (rd_fail e)"
  by (simp add: extends_def)

lemma extends_take [reader_intros]: "extends (rd_take e n)"
  by (auto simp: extends_def rd_take_def split: if_splits)

lemma extends_bind [reader_intros]:
  assumes "extends m" and "\<And>x. extends (f x)"
  shows "extends (rd_bind m f)"
  unfolding extends_def
proof (intro allI impI)
  fix d y r e
  assume "rd_bind m f d = Inr (y, r)"
  then obtain x r' where "m d = Inr (x, r')" and "f x r' = Inr (y, r)"
    by (auto simp: result_iff)
  then have "m (d @ e) = Inr (x, r' @ e)" and "f x (r' @ e) = Inr (y, r @ e)"
    using assms by (auto dest: extendsD)
  then show "rd_bind m f (d @ e) = Inr (y, r @ e)"
    by (simp add: rd_bind_step)
qed

lemma extends_if [reader_intros]:
  "extends m \<Longrightarrow> extends m' \<Longrightarrow> extends (if b then m else m')"
  by simp

lemma extends_many [reader_intros]: "extends m \<Longrightarrow> extends (rd_many n m)"
  by (induction n) (auto intro!: reader_intros)


section \<open>The contract of an encoding\<close>

locale codec =
  fixes enc :: "'a \<Rightarrow> bytes"
    and rd :: "bytes \<Rightarrow> 'e + ('a \<times> bytes)"
    and valid :: "'a \<Rightarrow> bool"
  assumes rd_enc: "valid x \<Longrightarrow> rd (enc x @ r) = Inr (x, r)"
begin

lemma rd_enc_all: "valid x \<Longrightarrow> rd (enc x) = Inr (x, [])"
  using rd_enc[of x "[]"] by simp

lemma prefix_free:
  assumes "valid x" and "valid y" and "enc x @ r = enc y @ s"
  shows "x = y \<and> r = s"
proof -
  have "rd (enc x @ r) = Inr (x, r)" using assms(1) by (rule rd_enc)
  moreover have "rd (enc x @ r) = Inr (y, s)"
    unfolding assms(3) using assms(2) by (rule rd_enc)
  ultimately show ?thesis by simp
qed

lemma enc_inj: "valid x \<Longrightarrow> valid y \<Longrightarrow> enc x = enc y \<longleftrightarrow> x = y"
  using prefix_free[of x y "[]" "[]"] by auto

lemma rd_many_enc:
  assumes "\<forall>x\<in>set xs. valid x"
  shows "rd_many (length xs) rd (concat (map enc xs) @ r) = Inr (xs, r)"
  using assms
proof (induction xs)
  case Nil
  then show ?case by simp
next
  case (Cons x xs)
  have "rd (enc x @ concat (map enc xs) @ r) = Inr (x, concat (map enc xs) @ r)"
    using Cons.prems by (simp add: rd_enc)
  moreover have "rd_many (length xs) rd (concat (map enc xs) @ r) = Inr (xs, r)"
    using Cons by simp
  ultimately show ?case by (simp add: rd_bind_step)
qed

end

locale ext_codec = codec +
  assumes extend: "rd d = Inr (x, r) \<Longrightarrow> rd (d @ e) = Inr (x, r @ e)"
begin

lemma truncated_rejected:
  assumes "valid x" and "enc x = a @ b" and "b \<noteq> []"
  shows "\<exists>e. rd a = Inl e"
proof (cases "rd a")
  case (Inl e)
  then show ?thesis by blast
next
  case (Inr p)
  obtain y r where p: "p = (y, r)" by (cases p)
  from Inr p have "rd (a @ b) = Inr (y, r @ b)"
    by (simp add: extend)
  moreover have "rd (a @ b) = Inr (x, [])"
    using rd_enc_all[OF assms(1)] assms(2) by simp
  ultimately have "r @ b = []" by simp
  with assms(3) show ?thesis by simp
qed

end


section \<open>Fixed-width fields\<close>

definition rd_byte :: "'e \<Rightarrow> ('e, u8) reader" where
  "rd_byte e = rd_bind (rd_take e 1) (\<lambda>b. rd_pure (hd b))"

definition rd_u16 :: "'e \<Rightarrow> ('e, u16) reader" where
  "rd_u16 e = rd_bind (rd_take e 2) (\<lambda>b. rd_pure (le_u16 b))"

definition rd_u32 :: "'e \<Rightarrow> ('e, u32) reader" where
  "rd_u32 e = rd_bind (rd_take e 4) (\<lambda>b. rd_pure (le_u32 b))"

lemma rd_byte_app [simp, codec_simps]: "rd_byte e (b # r) = Inr (b, r)"
  by (simp add: rd_byte_def rd_bind_def rd_take_def)

lemma rd_u16_app [simp, codec_simps]: "rd_u16 e (u16_le w @ r) = Inr (w, r)"
  by (simp add: rd_u16_def rd_bind_def)

lemma rd_u32_app [simp, codec_simps]: "rd_u32 e (u32_le w @ r) = Inr (w, r)"
  by (simp add: rd_u32_def rd_bind_def)

lemma extends_fields [reader_intros]:
  "extends (rd_byte e)" "extends (rd_u16 e)" "extends (rd_u32 e)"
  by (auto simp: rd_byte_def rd_u16_def rd_u32_def intro!: reader_intros)

interpretation u16_codec: ext_codec u16_le "rd_u16 e" "\<lambda>_. True"
  by unfold_locales (auto intro: extendsD reader_intros)

interpretation u32_codec: ext_codec u32_le "rd_u32 e" "\<lambda>_. True"
  by unfold_locales (auto intro: extendsD reader_intros)

end
