(* ===== verification/Ratchet_Keys.thy ===== *)
theory Ratchet_Keys
  imports Crypto_Env Codec
begin

text \<open>
  \<open>core/src/ratchet.rs\<close>, the stateless part: constants, key derivation, the X25519 and ML-KEM
  wrappers with their length checks, the package header and the AEAD wrappers.
\<close>

section \<open>Constants and errors\<close>

definition KEM_PK_LEN :: nat where [simp]: "KEM_PK_LEN = 1568"
definition KEM_SK_LEN :: nat where [simp]: "KEM_SK_LEN = 3168"
definition KEM_CT_LEN :: nat where [simp]: "KEM_CT_LEN = 1568"
definition PKG_VERSION :: u8 where "PKG_VERSION = 0x0A"
definition SESSION_VERSION :: u8 where "SESSION_VERSION = 0x0B"
definition MAX_SKIP :: u32 where "MAX_SKIP = 1000"
definition MAX_SKIPPED_TOTAL :: nat where "MAX_SKIPPED_TOTAL = 2000"
definition FLAG_DH :: u8 where "FLAG_DH = 0x01"
definition FLAG_KEM_PK :: u8 where "FLAG_KEM_PK = 0x02"
definition FLAG_KEM_CT :: u8 where "FLAG_KEM_CT = 0x04"
definition LBL_MK :: u8 where "LBL_MK = 0x01"
definition LBL_CK :: u8 where "LBL_CK = 0x02"
definition LBL_RK :: u8 where "LBL_RK = 0x03"
definition LBL_CK_SEED :: u8 where "LBL_CK_SEED = 0x04"
definition LBL_KEM_MIX :: u8 where "LBL_KEM_MIX = 0x05"
definition LBL_EK :: u8 where "LBL_EK = 0x06"
definition LBL_NONCE :: u8 where "LBL_NONCE = 0x07"

datatype decrypt_error = Malformed | OutOfOrder | NoState | AuthFailed


section \<open>Key derivation\<close>

definition hmac256 :: "crypto \<Rightarrow> bytes \<Rightarrow> bytes \<Rightarrow> bytes" where
  "hmac256 C key d = c_hmac C key d"

definition chain_step :: "crypto \<Rightarrow> bytes \<Rightarrow> bytes \<times> bytes" where
  "chain_step C ck = (hmac256 C ck [LBL_MK], hmac256 C ck [LBL_CK])"

definition root_step :: "crypto \<Rightarrow> bytes \<Rightarrow> bytes \<Rightarrow> bytes \<times> bytes" where
  "root_step C rk dh_out = (hmac256 C rk (LBL_RK # dh_out), hmac256 C rk (LBL_CK_SEED # dh_out))"

definition mix_kem :: "crypto \<Rightarrow> bytes \<Rightarrow> bytes option \<Rightarrow> bytes" where
  "mix_kem C dh_mk kem_ss =
     (case kem_ss of Some ss \<Rightarrow> hmac256 C dh_mk (LBL_KEM_MIX # ss) | None \<Rightarrow> dh_mk)"

definition aead_key :: "crypto \<Rightarrow> bytes \<Rightarrow> bytes \<times> bytes" where
  "aead_key C final_mk =
     (hmac256 C final_mk [LBL_EK], take 12 (hmac256 C final_mk [LBL_NONCE]))"

lemma length_hmac256 [codec_simps]: "hmac_ok C \<Longrightarrow> length (hmac256 C k d) = 32"
  by (simp add: hmac256_def hmac_len)

lemma chain_step_len:
  "hmac_ok C \<Longrightarrow> chain_step C ck = (mk, nxt) \<Longrightarrow> length mk = 32 \<and> length nxt = 32"
  by (auto simp: chain_step_def length_hmac256)

lemma root_step_len:
  "hmac_ok C \<Longrightarrow> root_step C rk d = (rk', ck) \<Longrightarrow> length rk' = 32 \<and> length ck = 32"
  by (auto simp: root_step_def length_hmac256)


section \<open>X25519 and ML-KEM\<close>

definition x25519_shared :: "crypto \<Rightarrow> bytes \<Rightarrow> bytes \<Rightarrow> decrypt_error + bytes" where
  "x25519_shared C sk pk = Inr (c_x25519 C sk pk)"

definition x25519_keypair :: "crypto \<Rightarrow> bytes \<Rightarrow> bytes \<times> bytes" where
  "x25519_keypair C rnd = (c_x25519_base C rnd, rnd)"

definition kem_keypair :: "crypto \<Rightarrow> bytes \<Rightarrow> bytes \<times> bytes" where
  "kem_keypair C rnd = c_kem_keygen C rnd"

definition kem_encapsulate :: "crypto \<Rightarrow> bytes \<Rightarrow> bytes \<Rightarrow> decrypt_error + (bytes \<times> bytes)" where
  "kem_encapsulate C pk rnd =
     (if length pk \<noteq> KEM_PK_LEN then Inl Malformed
      else case c_kem_encaps C pk rnd of
             None \<Rightarrow> Inl Malformed
           | Some (ct, ss) \<Rightarrow> Inr (ct, ss))"

definition kem_decapsulate :: "crypto \<Rightarrow> bytes \<Rightarrow> bytes \<Rightarrow> decrypt_error + bytes" where
  "kem_decapsulate C sk ct =
     (if length sk \<noteq> KEM_SK_LEN \<or> length ct \<noteq> KEM_CT_LEN then Inl Malformed
      else case c_kem_decaps C sk ct of
             None \<Rightarrow> Inl AuthFailed
           | Some ss \<Rightarrow> Inr ss)"

definition valid_kem_pair :: "crypto \<Rightarrow> bytes \<Rightarrow> bytes \<Rightarrow> bool" where
  "valid_kem_pair C pk sk \<longleftrightarrow> (\<exists>rnd. kem_keypair C rnd = (pk, sk))"

lemma kem_roundtripE:
  assumes "kem_ok C" and "valid_kem_pair C pk sk"
  obtains ct ss where "kem_encapsulate C pk rnd = Inr (ct, ss)" "length ct = KEM_CT_LEN"
    "length ss = 32" "kem_decapsulate C sk ct = Inr ss"
proof -
  from assms(2) obtain s where s: "c_kem_keygen C s = (pk, sk)"
    by (auto simp: valid_kem_pair_def kem_keypair_def)
  obtain ct ss where "length pk = 1568" "length sk = 3168" "c_kem_encaps C pk rnd = Some (ct, ss)"
    "length ct = 1568" "length ss = 32" "c_kem_decaps C sk ct = Some ss"
    by (rule kem_keyE[OF assms(1) s])
  then show ?thesis
    by (intro that[of ct ss]) (simp_all add: kem_encapsulate_def kem_decapsulate_def)
qed


section \<open>The package header\<close>

record header =
  h_flags :: u8
  h_pn :: u32
  h_n :: u32
  h_dh :: bytes
  h_kem_pk :: "bytes option"
  h_kem_ct :: "bytes option"

definition opt_bytes :: "bytes option \<Rightarrow> bytes" where
  "opt_bytes b = (case b of Some x \<Rightarrow> x | None \<Rightarrow> [])"

definition build_header ::
    "u8 \<Rightarrow> u32 \<Rightarrow> u32 \<Rightarrow> bytes \<Rightarrow> bytes option \<Rightarrow> bytes option \<Rightarrow> bytes" where
  "build_header flags pn n dh_pub kem_pk kem_ct =
     [PKG_VERSION] @ [flags] @ u32_le pn @ u32_le n @ dh_pub @ opt_bytes kem_pk @ opt_bytes kem_ct"

text \<open>An optional fixed-size field at offset \<open>pos\<close>: present when its flag bit is set.\<close>

definition read_flagged :: "u8 \<Rightarrow> u8 \<Rightarrow> nat \<Rightarrow> bytes \<Rightarrow> nat \<Rightarrow> decrypt_error + (bytes option \<times> nat)" where
  "read_flagged flags fbit len pkg pos =
     (if flags AND fbit \<noteq> 0 then
        (if length pkg < pos + len then Inl Malformed
         else Inr (Some (slice pos (pos + len) pkg), pos + len))
      else Inr (None, pos))"

definition parse_header :: "bytes \<Rightarrow> decrypt_error + (header \<times> bytes)" where
  "parse_header pkg =
     (if length pkg < 42 + 16 then Inl Malformed
      else if pkg ! 0 \<noteq> PKG_VERSION then Inl Malformed
      else let flags = pkg ! 1 in
        if flags AND FLAG_DH = 0 then Inl Malformed
        else let pn = le_u32 (slice 2 6 pkg); n = le_u32 (slice 6 10 pkg);
                 dh_pub = slice 10 42 pkg in
          res_bind (read_flagged flags FLAG_KEM_PK KEM_PK_LEN pkg 42) (\<lambda>(kem_pk, pos1).
          res_bind (read_flagged flags FLAG_KEM_CT KEM_CT_LEN pkg pos1) (\<lambda>(kem_ct, pos2).
            Inr (\<lparr>h_flags = flags, h_pn = pn, h_n = n, h_dh = dh_pub,
                   h_kem_pk = kem_pk, h_kem_ct = kem_ct\<rparr>, drop pos2 pkg))))"

definition package_sender_key :: "bytes \<Rightarrow> bytes option" where
  "package_sender_key package =
     (case parse_header package of Inl _ \<Rightarrow> None | Inr (h, _) \<Rightarrow> Some (h_dh h))"

text \<open>The flag byte \<open>Session::encrypt\<close> builds, and the headers it can produce.\<close>

definition header_flags :: "bytes option \<Rightarrow> bytes option \<Rightarrow> u8" where
  "header_flags kem_pk kem_ct =
     FLAG_DH OR (if kem_pk = None then 0 else FLAG_KEM_PK) OR (if kem_ct = None then 0 else FLAG_KEM_CT)"

definition header_fields_ok :: "bytes \<Rightarrow> bytes option \<Rightarrow> bytes option \<Rightarrow> bool" where
  "header_fields_ok dh_pub kem_pk kem_ct \<longleftrightarrow>
     length dh_pub = 32 \<and> (\<forall>x. kem_pk = Some x \<longrightarrow> length x = KEM_PK_LEN) \<and>
     (\<forall>x. kem_ct = Some x \<longrightarrow> length x = KEM_CT_LEN)"

lemma header_flags_bits:
  "header_flags a b AND FLAG_DH \<noteq> 0"
  "header_flags a b AND FLAG_KEM_PK \<noteq> 0 \<longleftrightarrow> a \<noteq> None"
  "header_flags a b AND FLAG_KEM_CT \<noteq> 0 \<longleftrightarrow> b \<noteq> None"
  by (auto simp: header_flags_def FLAG_DH_def FLAG_KEM_PK_def FLAG_KEM_CT_def)

lemma length_build_header [codec_simps]:
  "length (build_header f p n dh a b) = 10 + length dh + length (opt_bytes a) + length (opt_bytes b)"
  by (simp add: build_header_def)

lemma opt_bytes_simps [simp]: "opt_bytes None = []" "opt_bytes (Some x) = x"
  by (simp_all add: opt_bytes_def)

lemma parse_build_header:
  assumes ok: "header_fields_ok dh kpk kct" and ct: "16 \<le> length ct"
  shows "parse_header (build_header (header_flags kpk kct) p n dh kpk kct @ ct) =
    Inr (\<lparr>h_flags = header_flags kpk kct, h_pn = p, h_n = n, h_dh = dh,
          h_kem_pk = kpk, h_kem_ct = kct\<rparr>, ct)"
proof -
  let ?f = "header_flags kpk kct"
  define rest where "rest = opt_bytes kpk @ opt_bytes kct @ ct"
  define pkg where "pkg = build_header ?f p n dh kpk kct @ ct"
  have dh: "length dh = 32" using ok by (simp add: header_fields_ok_def)
  have pkg: "pkg = ([PKG_VERSION, ?f] @ u32_le p @ u32_le n @ dh) @ rest"
    by (simp add: pkg_def rest_def build_header_def)
  have len: "42 + 16 \<le> length pkg" using dh ct by (simp add: pkg rest_def)
  have h01: "pkg ! 0 = PKG_VERSION" "pkg ! 1 = ?f" by (simp_all add: pkg)
  have s1: "slice 2 6 pkg = u32_le p"
    unfolding pkg using slice_append_mid[of "[PKG_VERSION, ?f]" 2 "u32_le p" 6] by simp
  have s2: "slice 6 10 pkg = u32_le n"
    unfolding pkg using slice_append_mid[of "[PKG_VERSION, ?f] @ u32_le p" 6 "u32_le n" 10] by simp
  have s3: "slice 10 42 pkg = dh"
    unfolding pkg
    using slice_append_mid[of "[PKG_VERSION, ?f] @ u32_le p @ u32_le n" 10 dh 42] dh by simp
  have hd42: "length ([PKG_VERSION, ?f] @ u32_le p @ u32_le n @ dh) = 42" using dh by simp
  define p1 where "p1 = 42 + length (opt_bytes kpk)"
  have r1: "read_flagged ?f FLAG_KEM_PK KEM_PK_LEN pkg 42 = Inr (kpk, p1)"
  proof (cases kpk)
    case None
    then show ?thesis using header_flags_bits(2)[of kpk kct] by (simp add: read_flagged_def p1_def)
  next
    case (Some x)
    then have x: "length x = KEM_PK_LEN" using ok by (simp add: header_fields_ok_def)
    then have "slice 42 (42 + KEM_PK_LEN) pkg = x"
      unfolding pkg rest_def using slice_append_mid[OF hd42, of x] Some by simp
    with Some x header_flags_bits(2)[of kpk kct] show ?thesis
      using dh by (simp add: read_flagged_def p1_def pkg rest_def)
  qed
  define p2 where "p2 = p1 + length (opt_bytes kct)"
  have len1: "length (([PKG_VERSION, ?f] @ u32_le p @ u32_le n @ dh) @ opt_bytes kpk) = p1"
    using hd42 by (simp add: p1_def)
  have r2: "read_flagged ?f FLAG_KEM_CT KEM_CT_LEN pkg p1 = Inr (kct, p2)"
  proof (cases kct)
    case None
    then show ?thesis using header_flags_bits(3)[of kpk kct] by (simp add: read_flagged_def p2_def)
  next
    case (Some x)
    then have x: "length x = KEM_CT_LEN" using ok by (simp add: header_fields_ok_def)
    then have "slice p1 (p1 + KEM_CT_LEN) pkg = x"
      unfolding pkg rest_def using slice_append_mid[OF len1, of x] Some by simp
    with Some x header_flags_bits(3)[of kpk kct] show ?thesis
      using dh by (simp add: read_flagged_def p2_def p1_def pkg rest_def)
  qed
  have "length ((([PKG_VERSION, ?f] @ u32_le p @ u32_le n @ dh) @ opt_bytes kpk) @ opt_bytes kct) = p2"
    using len1 by (simp add: p2_def)
  then have "drop p2 pkg = ct"
    unfolding pkg rest_def by (metis append.assoc append_eq_conv_conj)
  then show ?thesis
    using len h01 s1 s2 s3 r1 r2 header_flags_bits(1)[of kpk kct]
    by (simp add: parse_header_def pkg_def[symmetric] del: One_nat_def)
qed

text \<open>Whatever parses splits into a header prefix and the ciphertext.\<close>

lemma parse_header_rest:
  assumes "parse_header pkg = Inr (h, ct)"
  shows "\<exists>hdr. pkg = hdr @ ct \<and> take (length pkg - length ct) pkg = hdr"
proof -
  from assms obtain pos where "ct = drop pos pkg"
    by (auto simp: parse_header_def Let_def result_iff split: if_splits)
  then have "pkg = take (length pkg - length ct) pkg @ ct"
    by (cases "pos \<le> length pkg") simp_all
  then show ?thesis by metis
qed

lemma parse_header_dh_len:
  assumes "parse_header pkg = Inr (h, ct)"
  shows "length (h_dh h) = 32"
  using assms by (auto simp: parse_header_def Let_def result_iff slice_def split: if_splits)

lemma parse_header_kem_pk_len:
  assumes "parse_header pkg = Inr (h, ct)" and "h_kem_pk h = Some pk"
  shows "length pk = KEM_PK_LEN"
  using assms
  by (auto simp: parse_header_def Let_def result_iff read_flagged_def split: if_splits)


section \<open>AEAD wrappers\<close>

definition aead_encrypt :: "crypto \<Rightarrow> bytes \<Rightarrow> bytes \<Rightarrow> bytes \<Rightarrow> bytes \<Rightarrow> decrypt_error + bytes" where
  "aead_encrypt C session_id header final_mk plaintext =
     (let (ek, nonce) = aead_key C final_mk in
      if length ek \<noteq> 32 then Inl NoState
      else case c_seal C ek nonce (session_id @ header) plaintext of
             None \<Rightarrow> Inl AuthFailed
           | Some ct \<Rightarrow> Inr ct)"

definition aead_decrypt :: "crypto \<Rightarrow> bytes \<Rightarrow> bytes \<Rightarrow> bytes \<Rightarrow> bytes \<Rightarrow> decrypt_error + bytes" where
  "aead_decrypt C session_id header final_mk ct =
     (let (ek, nonce) = aead_key C final_mk in
      if length ek \<noteq> 32 then Inl NoState
      else case c_open C ek nonce (session_id @ header) ct of
             None \<Rightarrow> Inl AuthFailed
           | Some pt \<Rightarrow> Inr pt)"

lemma aead_roundtripE:
  assumes "hmac_ok C" "aead_ok C" "length sid + length hdr \<le> aead_max" "length pt \<le> aead_max"
  obtains ct where "aead_encrypt C sid hdr mk pt = Inr ct" "length ct = length pt + 16"
    "aead_decrypt C sid hdr mk ct = Inr pt"
proof -
  obtain ek nonce where k: "aead_key C mk = (ek, nonce)" by (cases "aead_key C mk")
  then have "length ek = 32" "length nonce = 12"
    using assms(1) by (auto simp: aead_key_def length_hmac256)
  moreover from this obtain c where "c_seal C ek nonce (sid @ hdr) pt = Some c"
    "length c = length pt + 16" "c_open C ek nonce (sid @ hdr) c = Some pt"
    using aeadE[OF assms(2), of ek nonce "sid @ hdr" pt] assms(3,4) by auto
  ultimately show ?thesis
    using k by (intro that[of c]) (simp_all add: aead_encrypt_def aead_decrypt_def)
qed

end
