(* ===== verification/Ordered_Map.thy ===== *)
theory Ordered_Map
  imports Vurn_Prelude
begin

text \<open>
  The standard library's \<open>BTreeMap\<close>, as far as the sources use it: insert, remove, lookup,
  membership, length, and iteration in key order. The model is the list of entries in ascending
  key order. The locale \<open>finite_map\<close> is the interface the ratchet's skipped-key store relies
  on; it is interpreted here on the model.
\<close>

type_synonym ('k, 'v) btree = "('k \<times> 'v) list"

definition bt_get :: "('k, 'v) btree \<Rightarrow> 'k \<Rightarrow> 'v option" where
  "bt_get m k = map_of m k"

primrec bt_insert :: "'k::linorder \<Rightarrow> 'v \<Rightarrow> ('k, 'v) btree \<Rightarrow> ('k, 'v) btree" where
  "bt_insert k v [] = [(k, v)]"
| "bt_insert k v (e # es) =
     (if k < fst e then (k, v) # e # es
      else if k = fst e then (k, v) # es
      else e # bt_insert k v es)"

definition bt_remove :: "'k \<Rightarrow> ('k, 'v) btree \<Rightarrow> ('k, 'v) btree" where
  "bt_remove k m = filter (\<lambda>e. fst e \<noteq> k) m"

definition bt_wf :: "('k::linorder, 'v) btree \<Rightarrow> bool" where
  "bt_wf m \<longleftrightarrow> sorted_wrt (<) (map fst m)"

lemma bt_get_Nil [simp]: "bt_get [] k = None"
  by (simp add: bt_get_def)

lemma bt_wf_Nil [simp]: "bt_wf []"
  by (simp add: bt_wf_def)

lemma bt_wf_Cons: "bt_wf (e # m) \<longleftrightarrow> (\<forall>x\<in>set m. fst e < fst x) \<and> bt_wf m"
  by (auto simp: bt_wf_def)

lemma bt_get_insert: "bt_get (bt_insert k v m) k' = (if k' = k then Some v else bt_get m k')"
  by (induction m) (auto simp: bt_get_def)

lemma bt_get_remove: "bt_get (bt_remove k m) k' = (if k' = k then None else bt_get m k')"
  by (induction m) (auto simp: bt_get_def bt_remove_def)

lemma set_bt_insert: "set (bt_insert k v m) \<subseteq> insert (k, v) (set m)"
  by (induction m) auto

lemma bt_wf_insert [wf_intros]: "bt_wf m \<Longrightarrow> bt_wf (bt_insert k v m)"
proof (induction m)
  case Nil
  then show ?case by (simp add: bt_wf_def)
next
  case (Cons e m)
  show ?case
    using Cons set_bt_insert[of k v m] by (auto simp: bt_wf_Cons)
qed

lemma bt_wf_remove [wf_intros]: "bt_wf m \<Longrightarrow> bt_wf (bt_remove k m)"
  by (induction m) (auto simp: bt_wf_Cons bt_remove_def)

lemma bt_get_None: "bt_get m k = None \<longleftrightarrow> k \<notin> fst ` set m"
  by (simp add: bt_get_def map_of_eq_None_iff)

lemma bt_get_Some_iff: "bt_wf m \<Longrightarrow> bt_get m k = Some v \<longleftrightarrow> (k, v) \<in> set m"
  by (simp add: bt_get_def bt_wf_def map_of_eq_Some_iff strict_sorted_iff)

lemma length_bt_insert:
  "length (bt_insert k v m) \<le> Suc (length m)"
  by (induction m) auto

lemma length_bt_insert_new:
  "bt_get m k = None \<Longrightarrow> length (bt_insert k v m) = Suc (length m)"
  by (induction m) (auto simp: bt_get_None)

lemma length_bt_remove: "length (bt_remove k m) \<le> length m"
  by (simp add: bt_remove_def)

lemma length_bt_remove_present:
  assumes "bt_wf m" and "bt_get m k = Some v"
  shows "Suc (length (bt_remove k m)) = length m"
  using assms
proof (induction m)
  case Nil
  then show ?case by (simp add: bt_get_def)
next
  case (Cons e m)
  show ?case
  proof (cases "fst e = k")
    case True
    with Cons.prems have "k \<notin> fst ` set m"
      by (auto simp: bt_wf_Cons)
    then have "bt_remove k m = m"
      by (auto simp: bt_remove_def filter_id_conv rev_image_eqI)
    with True show ?thesis by (simp add: bt_remove_def)
  next
    case False
    with Cons.prems have "bt_get m k = Some v" and "bt_wf m"
      by (auto simp: bt_get_def bt_wf_Cons split: if_splits)
    with Cons.IH False show ?thesis by (simp add: bt_remove_def)
  qed
qed

text \<open>Inserting the entries in ascending order rebuilds the map (used when it is deserialised).\<close>

lemma bt_insert_last:
  "\<forall>x\<in>set m. fst x < k \<Longrightarrow> bt_insert k v m = m @ [(k, v)]"
  by (induction m) auto

lemma fold_bt_insert:
  assumes "bt_wf (m @ es)"
  shows "fold (\<lambda>(k, v) acc. bt_insert k v acc) es m = m @ es"
  using assms
proof (induction es arbitrary: m)
  case Nil
  then show ?case by simp
next
  case (Cons e es)
  obtain k v where e: "e = (k, v)" by (cases e)
  from Cons.prems have "\<forall>x\<in>set m. fst x < k"
    by (auto simp: bt_wf_def e sorted_wrt_append)
  then have "bt_insert k v m = m @ [e]"
    by (simp add: bt_insert_last e)
  with Cons.IH[of "m @ [e]"] Cons.prems e show ?case by simp
qed

lemma bt_wf_fold_insert:
  "bt_wf m \<Longrightarrow> bt_wf (fold (\<lambda>(k, v) acc. bt_insert k v acc) es m)"
  by (induction es arbitrary: m) (auto intro: wf_intros)

lemma length_fold_insert:
  "length (fold (\<lambda>(k, v) acc. bt_insert k v acc) es m) \<le> length m + length es"
proof (induction es arbitrary: m)
  case Nil
  then show ?case by simp
next
  case (Cons e es)
  obtain k v where e: "e = (k, v)" by (cases e)
  from Cons[of "bt_insert k v m"] length_bt_insert[of k v m] e show ?case by simp
qed


section \<open>The interface\<close>

locale finite_map =
  fixes mget :: "'m \<Rightarrow> 'k \<Rightarrow> 'v option"
    and mput :: "'k \<Rightarrow> 'v \<Rightarrow> 'm \<Rightarrow> 'm"
    and mdel :: "'k \<Rightarrow> 'm \<Rightarrow> 'm"
    and msize :: "'m \<Rightarrow> nat"
    and minv :: "'m \<Rightarrow> bool"
  assumes get_put: "mget (mput k v m) k' = (if k' = k then Some v else mget m k')"
    and get_del: "mget (mdel k m) k' = (if k' = k then None else mget m k')"
    and inv_put: "minv m \<Longrightarrow> minv (mput k v m)"
    and inv_del: "minv m \<Longrightarrow> minv (mdel k m)"
    and size_put: "mget m k = None \<Longrightarrow> msize (mput k v m) = Suc (msize m)"
    and size_del: "minv m \<Longrightarrow> mget m k = Some v \<Longrightarrow> Suc (msize (mdel k m)) = msize m"
begin

text \<open>Storing a run of fresh keys, as the skip loop does.\<close>

primrec put_run :: "nat \<Rightarrow> (nat \<Rightarrow> 'k) \<Rightarrow> (nat \<Rightarrow> 'v) \<Rightarrow> 'm \<Rightarrow> 'm" where
  "put_run 0 key val m = m"
| "put_run (Suc c) key val m = mput (key c) (val c) (put_run c key val m)"

lemma get_put_run_other:
  "(\<forall>i<c. key i \<noteq> k) \<Longrightarrow> mget (put_run c key val m) k = mget m k"
  by (induction c) (auto simp: get_put)

lemma get_put_run:
  assumes "inj_on key {..<c}" and "i < c"
  shows "mget (put_run c key val m) (key i) = Some (val i)"
  using assms
proof (induction c)
  case 0
  then show ?case by simp
next
  case (Suc c)
  show ?case
  proof (cases "i = c")
    case True
    then show ?thesis by (simp add: get_put)
  next
    case False
    with Suc.prems have "key i \<noteq> key c" and "i < c" and "inj_on key {..<c}"
      by (auto simp: inj_on_def)
    with Suc.IH show ?thesis by (simp add: get_put)
  qed
qed

lemma size_put_run:
  assumes "inj_on key {..<c}" and "\<forall>i<c. mget m (key i) = None"
  shows "msize (put_run c key val m) = msize m + c"
  using assms
proof (induction c)
  case 0
  then show ?case by simp
next
  case (Suc c)
  have "\<forall>i<c. key i \<noteq> key c"
    using Suc.prems(1) by (auto simp: inj_on_def)
  then have "mget (put_run c key val m) (key c) = None"
    using Suc.prems(2) by (simp add: get_put_run_other)
  moreover have "inj_on key {..<c}"
    using Suc.prems(1) by (auto simp: inj_on_def)
  ultimately show ?case
    using Suc by (simp add: size_put)
qed

lemma inv_put_run: "minv m \<Longrightarrow> minv (put_run c key val m)"
  by (induction c) (auto intro: inv_put)

end

interpretation bt: finite_map bt_get bt_insert bt_remove length bt_wf
  by unfold_locales
    (auto simp: bt_get_insert bt_get_remove length_bt_insert_new length_bt_remove_present
      intro: wf_intros)

end
