(* ===== verification/Ratchet.thy ===== *)
theory Ratchet
  imports Ratchet_Keys Ordered_Map
begin

text \<open>
  \<open>core/src/ratchet.rs\<close>, the stateful part: the \<open>Session\<close> record and its operations. A method
  taking \<open>&mut self\<close> returns the session it leaves behind together with its \<open>Result\<close>, so the
  state after an error is visible. The randomness a method draws is an argument.
\<close>

section \<open>Session state\<close>

text \<open>The key of the skipped-message-key store, ordered as Rust orders the tuple.\<close>

datatype skip_key = SkipKey (sk_dh: bytes) (sk_n: u32)

instantiation skip_key :: linorder
begin

definition less_skip_key :: "skip_key \<Rightarrow> skip_key \<Rightarrow> bool" where
  "less_skip_key a b \<longleftrightarrow> sk_dh a < sk_dh b \<or> (sk_dh a = sk_dh b \<and> sk_n a < sk_n b)"

definition less_eq_skip_key :: "skip_key \<Rightarrow> skip_key \<Rightarrow> bool" where
  "less_eq_skip_key a b \<longleftrightarrow> sk_dh a < sk_dh b \<or> (sk_dh a = sk_dh b \<and> sk_n a \<le> sk_n b)"

instance
  by standard (auto simp: less_skip_key_def less_eq_skip_key_def intro: skip_key.expand)

end

record advertised_kem =
  adv_pk :: bytes
  adv_sk :: bytes

record session =
  session_id :: bytes
  rk :: bytes
  dh_s :: "bytes \<times> bytes"
  dh_r :: "bytes option"
  ck_s :: "bytes option"
  ck_r :: "bytes option"
  n_s :: u32
  n_r :: u32
  pn :: u32
  kem_advertised :: "advertised_kem list"
  kem_peer :: "bytes option"
  advertise_kem_next :: bool
  skipped :: "(skip_key, bytes) btree"
  initialized :: bool

record session_start =
  st_root :: bytes
  st_session_id :: bytes
  st_our_dh :: "bytes \<times> bytes"
  st_peer_dh :: "bytes option"
  st_our_kem :: "(bytes \<times> bytes) option"

text \<open>Fresh randomness of one \<open>encrypt\<close> call: X25519 secret, KEM key, encapsulation.\<close>

record enc_rand =
  e_dh :: bytes
  e_kem :: bytes
  e_ss :: bytes

text \<open>A method on the session: the session afterwards and the result.\<close>

type_synonym 'a session_result = "session \<times> (decrypt_error + 'a)"

fun sbind :: "'a session_result \<Rightarrow> ('a \<Rightarrow> session \<Rightarrow> 'b session_result) \<Rightarrow> 'b session_result" where
  "sbind (s, Inl e) f = (s, Inl e)"
| "sbind (s, Inr x) f = f x s"

lemma sbind_Inr_iff [result_iff]:
  "sbind m f = (s', Inr y) \<longleftrightarrow> (\<exists>s x. m = (s, Inr x) \<and> f x s = (s', Inr y))"
  by (cases "(m, f)" rule: sbind.cases) auto


section \<open>Starting a session\<close>

text \<open>\<open>None\<close> is the panic of the \<open>expect\<close> on a missing peer key.\<close>

definition start_alice :: "crypto \<Rightarrow> session_start \<Rightarrow> session option" where
  "start_alice C start =
     (let sess = \<lparr>session_id = st_session_id start, rk = st_root start, dh_s = st_our_dh start,
                  dh_r = st_peer_dh start, ck_s = None, ck_r = None, n_s = 0, n_r = 0, pn = 0,
                  kem_advertised = [], kem_peer = None, advertise_kem_next = True,
                  skipped = [], initialized = True\<rparr>
      in case dh_r sess of
           None \<Rightarrow> None
         | Some peer \<Rightarrow>
             (case x25519_shared C (snd (dh_s sess)) peer of
                Inl _ \<Rightarrow> None
              | Inr dh \<Rightarrow>
                  (let (rk', ck) = root_step C (rk sess) dh;
                       sess1 = sess\<lparr>rk := rk', ck_s := Some ck, pn := 0, n_s := 0\<rparr>
                   in Some (case st_our_kem start of
                        Some (pk, sk) \<Rightarrow>
                          sess1\<lparr>kem_advertised :=
                            kem_advertised sess1 @ [\<lparr>adv_pk = pk, adv_sk = sk\<rparr>]\<rparr>
                      | None \<Rightarrow> sess1))))"

definition start_bob :: "crypto \<Rightarrow> bytes \<Rightarrow> session_start \<Rightarrow> session" where
  "start_bob C rnd start =
     (let (kem_pk, kem_sk) = kem_keypair C rnd in
      \<lparr>session_id = st_session_id start, rk = st_root start, dh_s = st_our_dh start,
       dh_r = None, ck_s = None, ck_r = None, n_s = 0, n_r = 0, pn = 0,
       kem_advertised = [\<lparr>adv_pk = kem_pk, adv_sk = kem_sk\<rparr>], kem_peer = None,
       advertise_kem_next = True, skipped = [], initialized = False\<rparr>)"


section \<open>Sending\<close>

definition open_send_chain :: "crypto \<Rightarrow> bytes \<Rightarrow> session \<Rightarrow> session" where
  "open_send_chain C rnd s =
     (case ck_s s of
        Some _ \<Rightarrow> s
      | None \<Rightarrow>
          (case dh_r s of
             None \<Rightarrow> s
           | Some peer_dh \<Rightarrow>
               (let s1 = s\<lparr>dh_s := x25519_keypair C rnd, advertise_kem_next := True\<rparr> in
                case x25519_shared C (snd (dh_s s1)) peer_dh of
                  Inl _ \<Rightarrow> s1
                | Inr dh \<Rightarrow>
                    (let (rk2, ck) = root_step C (rk s1) dh in
                     s1\<lparr>rk := rk2, ck_s := Some ck, n_s := 0\<rparr>))))"

text \<open>The advertisement of a fresh ML-KEM key, newest first and at most two.\<close>

definition advertise_kem :: "crypto \<Rightarrow> bytes \<Rightarrow> session \<Rightarrow> session \<times> bytes option" where
  "advertise_kem C rnd s =
     (if advertise_kem_next s then
        (let (pk, sk) = kem_keypair C rnd in
         (s\<lparr>kem_advertised := take 2 (\<lparr>adv_pk = pk, adv_sk = sk\<rparr> # kem_advertised s),
            advertise_kem_next := False\<rparr>, Some pk))
      else (s, None))"

definition encapsulate_to_peer ::
    "crypto \<Rightarrow> bytes \<Rightarrow> session \<Rightarrow> decrypt_error + (bytes option \<times> bytes option)" where
  "encapsulate_to_peer C rnd s =
     (case kem_peer s of
        None \<Rightarrow> Inr (None, None)
      | Some peer_pk \<Rightarrow>
          res_bind (kem_encapsulate C peer_pk rnd) (\<lambda>(ct, ss). Inr (Some ct, Some ss)))"

definition encrypt :: "crypto \<Rightarrow> enc_rand \<Rightarrow> bytes \<Rightarrow> session \<Rightarrow> bytes session_result" where
  "encrypt C rnd plaintext s =
     (let s1 = open_send_chain C (e_dh rnd) s in
      case ck_s s1 of
        None \<Rightarrow> (s1, Inl NoState)
      | Some ck \<Rightarrow>
          (let (mk, nxt) = chain_step C ck;
               n = n_s s1;
               s2 = s1\<lparr>ck_s := Some nxt, n_s := n_s s1 + 1\<rparr>;
               (s3, kem_pk) = advertise_kem C (e_kem rnd) s2
           in case encapsulate_to_peer C (e_ss rnd) s3 of
                Inl e \<Rightarrow> (s3, Inl e)
              | Inr (kem_ct, kem_ss) \<Rightarrow>
                  (let header = build_header (header_flags kem_pk kem_ct) (pn s3) n
                                  (fst (dh_s s3)) kem_pk kem_ct;
                       final_mk = mix_kem C mk kem_ss
                   in (s3, res_bind (aead_encrypt C (session_id s3) header final_mk plaintext)
                              (\<lambda>ct. Inr (header @ ct))))))"


section \<open>Receiving\<close>

definition derive_initial_receive_chain :: "crypto \<Rightarrow> bytes \<Rightarrow> session \<Rightarrow> unit session_result" where
  "derive_initial_receive_chain C peer_dh s =
     (case x25519_shared C (snd (dh_s s)) peer_dh of
        Inl e \<Rightarrow> (s, Inl e)
      | Inr dh \<Rightarrow>
          (let (rk', ck) = root_step C (rk s) dh in
           (s\<lparr>rk := rk', ck_r := Some ck, n_r := 0, dh_r := Some peer_dh, initialized := True\<rparr>,
            Inr ())))"

text \<open>The \<open>while\<close> loop of \<open>skip_to\<close>: one derived and stored key per step.\<close>

function skip_loop :: "crypto \<Rightarrow> bytes \<Rightarrow> u32 \<Rightarrow> bytes \<Rightarrow> session \<Rightarrow> bytes \<times> session" where
  "skip_loop C dh until ck s =
     (if n_r s < until then
        (let (mk, nxt) = chain_step C ck in
         skip_loop C dh until nxt
           (s\<lparr>skipped := bt_insert (SkipKey dh (n_r s)) mk (skipped s), n_r := n_r s + 1\<rparr>))
      else (ck, s))"
  by pat_completeness auto
termination
proof (relation "measure (\<lambda>(C, dh, until, ck, s). unat until - unat (n_r s))", goal_cases)
  case 1
  show ?case by simp
next
  case (2 C dh until ck s mk nxt)
  then have "unat (n_r s) < unat until" by (simp add: word_less_nat_alt)
  moreover from 2 have "unat (n_r s + 1) = Suc (unat (n_r s))"
    by (simp add: unat_inc_less)
  ultimately show ?case by simp
qed

declare skip_loop.simps [simp del]

definition skip_to :: "crypto \<Rightarrow> u32 \<Rightarrow> session \<Rightarrow> unit session_result" where
  "skip_to C until s =
     (if until \<le> n_r s then (s, Inr ())
      else if until - n_r s > MAX_SKIP then (s, Inl OutOfOrder)
      else if length (skipped s) + unat (until - n_r s) > MAX_SKIPPED_TOTAL then (s, Inl OutOfOrder)
      else case dh_r s of
             None \<Rightarrow> (s, Inr ())
           | Some dh \<Rightarrow>
               (case ck_r s of
                  None \<Rightarrow> (s, Inr ())
                | Some ck \<Rightarrow>
                    (let (ck', s') = skip_loop C dh until ck s in
                     (s'\<lparr>ck_r := Some ck'\<rparr>, Inr ()))))"

definition kem_candidates :: "crypto \<Rightarrow> advertised_kem list \<Rightarrow> bytes option \<Rightarrow> bytes option list" where
  "kem_candidates C advs kem_ct =
     (case kem_ct of
        None \<Rightarrow> [None]
      | Some ct \<Rightarrow>
          (let oks = concat (map (\<lambda>adv. case kem_decapsulate C (adv_sk adv) ct of
                                          Inl _ \<Rightarrow> [] | Inr ss \<Rightarrow> [Some ss]) advs)
           in if oks = [] then [None] else oks))"

primrec try_candidates ::
    "crypto \<Rightarrow> bytes \<Rightarrow> bytes \<Rightarrow> bytes \<Rightarrow> bytes \<Rightarrow> bytes option list \<Rightarrow> decrypt_error + bytes" where
  "try_candidates C sid header ct mk [] = Inl AuthFailed"
| "try_candidates C sid header ct mk (ss # sss) =
     (case aead_decrypt C sid header (mix_kem C mk ss) ct of
        Inr pt \<Rightarrow> Inr pt
      | Inl _ \<Rightarrow> try_candidates C sid header ct mk sss)"

definition open_aead ::
    "crypto \<Rightarrow> session \<Rightarrow> bytes \<Rightarrow> bytes \<Rightarrow> bytes option \<Rightarrow> bytes \<Rightarrow> decrypt_error + bytes" where
  "open_aead C s header ct kem_ct mk =
     try_candidates C (session_id s) header ct mk (kem_candidates C (kem_advertised s) kem_ct)"

definition ratchet :: "crypto \<Rightarrow> bytes \<Rightarrow> session \<Rightarrow> unit session_result" where
  "ratchet C peer_dh s =
     (case x25519_shared C (snd (dh_s s)) peer_dh of
        Inl e \<Rightarrow> (s, Inl e)
      | Inr dh1 \<Rightarrow>
          (let (rk1, ck) = root_step C (rk s) dh1;
               s1 = s\<lparr>rk := rk1, ck_r := Some ck, n_r := 0, dh_r := Some peer_dh\<rparr>
           in (s1\<lparr>pn := n_s s1, ck_s := None\<rparr>, Inr ())))"

text \<open>
  The chain selection in the middle of \<open>decrypt\<close>: a header key that is not the current one
  opens a new chain, a gap in the current chain is skipped over, an old number is refused.
\<close>

definition select_chain :: "crypto \<Rightarrow> header \<Rightarrow> session \<Rightarrow> unit session_result" where
  "select_chain C h s =
     (let new_chain = (case dh_r s of None \<Rightarrow> True | Some cur \<Rightarrow> cur \<noteq> h_dh h) in
      if new_chain then
        (if h_pn h < n_r s then (s, Inl OutOfOrder)
         else sbind (skip_to C (h_pn h) s) (\<lambda>_ s1. ratchet C (h_dh h) s1))
      else if n_r s < h_n h then skip_to C (h_n h) s
      else if h_n h < n_r s then (s, Inl OutOfOrder)
      else (s, Inr ()))"

definition receive_in_order ::
    "crypto \<Rightarrow> header \<Rightarrow> bytes \<Rightarrow> bytes \<Rightarrow> session \<Rightarrow> bytes session_result" where
  "receive_in_order C h hdr ct s =
     (case ck_r s of
        None \<Rightarrow> (s, Inl NoState)
      | Some ck \<Rightarrow>
          (let (mk, nxt) = chain_step C ck;
               s1 = s\<lparr>ck_r := Some nxt, n_r := n_r s + 1\<rparr>
           in case open_aead C s1 hdr ct (h_kem_ct h) mk of
                Inl e \<Rightarrow> (s1, Inl e)
              | Inr plaintext \<Rightarrow>
                  (case h_kem_pk h of
                     Some kem_pk \<Rightarrow> (s1\<lparr>kem_peer := Some kem_pk\<rparr>, Inr plaintext)
                   | None \<Rightarrow> (s1, Inr plaintext))))"

definition decrypt :: "crypto \<Rightarrow> bytes \<Rightarrow> session \<Rightarrow> bytes session_result" where
  "decrypt C package s =
     (case parse_header package of
        Inl e \<Rightarrow> (s, Inl e)
      | Inr (h, ct) \<Rightarrow>
          (let hdr = take (length package - length ct) package;
               store_key = SkipKey (h_dh h) (h_n h)
           in case bt_get (skipped s) store_key of
                Some mk \<Rightarrow>
                  (case open_aead C s hdr ct (h_kem_ct h) mk of
                     Inl e \<Rightarrow> (s, Inl e)
                   | Inr pt \<Rightarrow> (s\<lparr>skipped := bt_remove store_key (skipped s)\<rparr>, Inr pt))
              | None \<Rightarrow>
                  sbind (if initialized s then (s, Inr ())
                         else derive_initial_receive_chain C (h_dh h) s) (\<lambda>_ s1.
                  sbind (select_chain C h s1) (\<lambda>_ s2.
                  receive_in_order C h hdr ct s2))))"

end
