(* ===== verification/Ratchet_Inv.thy ===== *)
theory Ratchet_Inv
  imports Ratchet
begin

text \<open>
  Well-formedness of a session and its preservation by every operation; the closed form of the
  skip loop; the bounds on the skipped-key store. \<open>chain_key\<close> and \<open>msg_key\<close> are the
  specification of a symmetric chain: the key after \<open>n\<close> steps and the key of message \<open>n\<close>.
\<close>

section \<open>Chains\<close>

primrec chain_key :: "crypto \<Rightarrow> bytes \<Rightarrow> nat \<Rightarrow> bytes" where
  "chain_key C ck 0 = ck"
| "chain_key C ck (Suc n) = snd (chain_step C (chain_key C ck n))"

definition msg_key :: "crypto \<Rightarrow> bytes \<Rightarrow> nat \<Rightarrow> bytes" where
  "msg_key C ck n = fst (chain_step C (chain_key C ck n))"

lemma chain_step_key: "chain_step C (chain_key C ck n) = (msg_key C ck n, chain_key C ck (Suc n))"
  by (simp add: msg_key_def prod_eq_iff)

lemma chain_key_add: "chain_key C (chain_key C ck m) n = chain_key C ck (m + n)"
  by (induction n) auto

lemma msg_key_add: "msg_key C (chain_key C ck m) n = msg_key C ck (m + n)"
  by (simp add: msg_key_def chain_key_add)

lemma length_chain_key: "hmac_ok C \<Longrightarrow> length ck = 32 \<Longrightarrow> length (chain_key C ck n) = 32"
  by (cases n) (auto simp: chain_step_def length_hmac256)

lemma length_msg_key: "hmac_ok C \<Longrightarrow> length (msg_key C ck n) = 32"
  by (simp add: msg_key_def chain_step_def length_hmac256)


section \<open>Well-formed sessions\<close>

definition len32_opt :: "bytes option \<Rightarrow> bool" where
  "len32_opt b \<longleftrightarrow> (case b of None \<Rightarrow> True | Some x \<Rightarrow> length x = 32)"

lemma len32_opt_simps [simp]: "len32_opt None" "len32_opt (Some x) \<longleftrightarrow> length x = 32"
  by (simp_all add: len32_opt_def)

definition store_ok :: "(skip_key, bytes) btree \<Rightarrow> bool" where
  "store_ok m \<longleftrightarrow> bt_wf m \<and> length m \<le> MAX_SKIPPED_TOTAL \<and>
     (\<forall>(k, v) \<in> set m. length (sk_dh k) = 32 \<and> length v = 32)"

definition adv_ok :: "advertised_kem list \<Rightarrow> bool" where
  "adv_ok advs \<longleftrightarrow> length advs \<le> 2 \<and>
     (\<forall>a\<in>set advs. length (adv_pk a) = KEM_PK_LEN \<and> length (adv_sk a) = KEM_SK_LEN)"

definition wf_session :: "session \<Rightarrow> bool" where
  "wf_session s \<longleftrightarrow>
     length (session_id s) = 32 \<and> length (rk s) = 32 \<and>
     length (fst (dh_s s)) = 32 \<and> length (snd (dh_s s)) = 32 \<and>
     len32_opt (dh_r s) \<and> len32_opt (ck_s s) \<and> len32_opt (ck_r s) \<and>
     adv_ok (kem_advertised s) \<and>
     (case kem_peer s of None \<Rightarrow> True | Some pk \<Rightarrow> length pk = KEM_PK_LEN) \<and>
     store_ok (skipped s)"

lemma store_ok_Nil [wf_intros]: "store_ok []"
  by (simp add: store_ok_def)

lemma store_ok_remove [wf_intros]: "store_ok m \<Longrightarrow> store_ok (bt_remove k m)"
proof -
  assume m: "store_ok m"
  then have "length (bt_remove k m) \<le> MAX_SKIPPED_TOTAL"
    using length_bt_remove[of k m] by (simp add: store_ok_def)
  moreover have "set (bt_remove k m) \<subseteq> set m" by (auto simp: bt_remove_def)
  ultimately show ?thesis using m by (auto simp: store_ok_def intro: wf_intros)
qed

lemma store_ok_get: "store_ok m \<Longrightarrow> bt_get m k = Some v \<Longrightarrow> length v = 32"
  by (auto simp: store_ok_def bt_get_Some_iff)

lemma adv_ok_push [wf_intros]:
  assumes "kem_ok C" "kem_keypair C rnd = (k, sk)" "adv_ok advs"
  shows "adv_ok (\<lparr>adv_pk = k, adv_sk = sk\<rparr> # take (Suc 0) advs)"
proof -
  have "length k = 1568 \<and> length sk = 3168"
    using assms(1,2) by (simp add: kem_keypair_def kem_len)
  moreover have "set (take (Suc 0) advs) \<subseteq> set advs" by (rule set_take_subset)
  ultimately show ?thesis
    using assms(3) by (auto simp: adv_ok_def)
qed


section \<open>The skip loop in closed form\<close>

definition skip_keys :: "bytes \<Rightarrow> u32 \<Rightarrow> nat \<Rightarrow> skip_key" where
  "skip_keys dh n0 i = SkipKey dh (n0 + word_of_nat i)"

lemma skip_keys_inj: "c \<le> 2 ^ 32 \<Longrightarrow> inj_on (skip_keys dh n0) {..<c}"
proof (rule inj_onI)
  fix i j
  assume c: "c \<le> 2 ^ 32" and ij: "i \<in> {..<c}" "j \<in> {..<c}"
    and "skip_keys dh n0 i = skip_keys dh n0 j"
  then have "(word_of_nat i :: u32) = word_of_nat j" by (simp add: skip_keys_def)
  then have "unat (word_of_nat i :: u32) = unat (word_of_nat j :: u32)" by simp
  then have "i mod 2 ^ 32 = j mod 2 ^ 32" by (simp only: unat_word_of_nat_u32)
  with c ij show "i = j" by simp
qed

lemma skip_loop_run:
  assumes "unat until = unat n0 + c" and "i \<le> c"
    and "n_r s = n0 + word_of_nat i" and "ck = chain_key C ck0 i"
    and "skipped s = bt.put_run i (skip_keys dh n0) (msg_key C ck0) m0"
  shows "skip_loop C dh until ck s =
    (chain_key C ck0 c,
     s\<lparr>skipped := bt.put_run c (skip_keys dh n0) (msg_key C ck0) m0, n_r := until\<rparr>)"
  using assms
proof (induction "c - i" arbitrary: i ck s)
  case 0
  then have "i = c" by simp
  moreover have "until = n0 + word_of_nat c"
    using "0.prems"(1) by (rule word_eq_add_of_nat)
  ultimately show ?case
    using "0.prems" by (simp add: skip_loop.simps)
next
  case (Suc k)
  then have ic: "i < c" by simp
  have bound: "unat n0 + c < 2 ^ 32"
    using Suc.prems(1) unat_lt2p[of until] by simp
  have "unat (n_r s) = unat n0 + i"
    using Suc.prems(3) bound ic by (simp add: unat_add_of_nat)
  then have less: "n_r s < until"
    using Suc.prems(1) ic by (simp add: word_less_nat_alt)
  define s' where
    "s' = s\<lparr>skipped := bt_insert (SkipKey dh (n_r s)) (msg_key C ck0 i) (skipped s), n_r := n_r s + 1\<rparr>"
  have step: "skip_loop C dh until ck s = skip_loop C dh until (chain_key C ck0 (Suc i)) s'"
    by (subst skip_loop.simps)
      (simp add: less Suc.prems(4) chain_step_key s'_def del: chain_key.simps)
  have "skip_loop C dh until (chain_key C ck0 (Suc i)) s' =
    (chain_key C ck0 c,
     s'\<lparr>skipped := bt.put_run c (skip_keys dh n0) (msg_key C ck0) m0, n_r := until\<rparr>)"
  proof (rule Suc.hyps(1))
    show "k = c - Suc i" using Suc.hyps(2) by simp
    show "Suc i \<le> c" using ic by simp
    show "n_r s' = n0 + word_of_nat (Suc i)" using Suc.prems(3) by (simp add: s'_def)
    show "skipped s' = bt.put_run (Suc i) (skip_keys dh n0) (msg_key C ck0) m0"
      using Suc.prems(3,5) by (simp add: s'_def skip_keys_def)
  qed (simp_all add: Suc.prems(1))
  with step show ?case by (simp add: s'_def)
qed

definition skip_store ::
    "crypto \<Rightarrow> bytes \<Rightarrow> u32 \<Rightarrow> bytes \<Rightarrow> nat \<Rightarrow> (skip_key, bytes) btree \<Rightarrow> (skip_key, bytes) btree" where
  "skip_store C dh n0 ck c m = bt.put_run c (skip_keys dh n0) (msg_key C ck) m"

lemma skip_loop_closed:
  assumes "n_r s \<le> until" and "c = unat until - unat (n_r s)"
  shows "skip_loop C dh until ck s =
    (chain_key C ck c, s\<lparr>skipped := skip_store C dh (n_r s) ck c (skipped s), n_r := until\<rparr>)"
proof -
  have "unat until = unat (n_r s) + c"
    using assms by (simp add: word_le_nat_alt)
  then show ?thesis
    unfolding skip_store_def by (intro skip_loop_run[where i = 0]) simp_all
qed

lemma skip_store_get:
  assumes "c \<le> 2 ^ 32"
  shows "i < c \<Longrightarrow> bt_get (skip_store C dh n0 ck c m) (skip_keys dh n0 i) = Some (msg_key C ck i)"
    and "(\<And>i. i < c \<Longrightarrow> skip_keys dh n0 i \<noteq> k) \<Longrightarrow> bt_get (skip_store C dh n0 ck c m) k = bt_get m k"
  using bt.get_put_run[OF skip_keys_inj[OF assms]]
  by (auto simp: skip_store_def bt.get_put_run_other)

lemma length_skip_store: "length (skip_store C dh n0 ck c m) \<le> length m + c"
proof (induction c)
  case 0
  then show ?case by (simp add: skip_store_def)
next
  case (Suc c)
  show ?case
    using Suc length_bt_insert[of "skip_keys dh n0 c" "msg_key C ck c" "skip_store C dh n0 ck c m"]
    by (simp add: skip_store_def)
qed

lemma set_skip_store:
  "set (skip_store C dh n0 ck c m) \<subseteq> set m \<union> {(skip_keys dh n0 i, msg_key C ck i) | i. i < c}"
proof (induction c)
  case 0
  then show ?case by (simp add: skip_store_def)
next
  case (Suc c)
  then show ?case
    using set_bt_insert[of "skip_keys dh n0 c" "msg_key C ck c" "skip_store C dh n0 ck c m"]
    by (auto simp: skip_store_def less_Suc_eq)
qed

lemma store_ok_skip_store:
  assumes "hmac_ok C" "store_ok m" "length dh = 32" "length m + c \<le> MAX_SKIPPED_TOTAL"
  shows "store_ok (skip_store C dh n0 ck c m)"
  unfolding store_ok_def
proof (intro conjI)
  show "bt_wf (skip_store C dh n0 ck c m)"
    using assms(2) unfolding skip_store_def store_ok_def by (blast intro: bt.inv_put_run)
  show "length (skip_store C dh n0 ck c m) \<le> MAX_SKIPPED_TOTAL"
    using length_skip_store[of C dh n0 ck c m] assms(4) by simp
  show "\<forall>(k, v)\<in>set (skip_store C dh n0 ck c m). length (sk_dh k) = 32 \<and> length v = 32"
    using set_skip_store[of C dh n0 ck c m] assms(1-3)
    by (fastforce simp: store_ok_def skip_keys_def length_msg_key)
qed

text \<open>The four outcomes of \<open>skip_to\<close>.\<close>

lemma skip_to_noop: "until \<le> n_r s \<Longrightarrow> skip_to C until s = (s, Inr ())"
  by (simp add: skip_to_def)

lemma skip_to_store:
  assumes "n_r s < until" "until - n_r s \<le> MAX_SKIP"
    and "length (skipped s) + unat (until - n_r s) \<le> MAX_SKIPPED_TOTAL"
    and "dh_r s = Some dh" "ck_r s = Some ck"
  shows "skip_to C until s =
    (s\<lparr>ck_r := Some (chain_key C ck (unat (until - n_r s))), n_r := until,
       skipped := skip_store C dh (n_r s) ck (unat (until - n_r s)) (skipped s)\<rparr>, Inr ())"
proof -
  have "unat (until - n_r s) = unat until - unat (n_r s)"
    using assms(1) by (simp add: unat_sub)
  then show ?thesis
    using assms skip_loop_closed[of s until "unat (until - n_r s)" C dh ck]
    by (simp add: skip_to_def not_less not_le)
qed

lemma skip_to_rejected:
  assumes "n_r s < until"
    and "MAX_SKIP < until - n_r s \<or> MAX_SKIPPED_TOTAL < length (skipped s) + unat (until - n_r s)"
  shows "skip_to C until s = (s, Inl OutOfOrder)"
  using assms by (auto simp: skip_to_def)

lemma skip_to_error:
  "skip_to C until s = (s', Inl e) \<Longrightarrow> s' = s \<and> e = OutOfOrder"
  by (auto simp: skip_to_def Let_def split: if_splits option.splits prod.splits)

lemma skip_to_cases:
  assumes "skip_to C until s = (s', r)"
  obtains (same) "s' = s"
  | (stored) dh ck c where "n_r s < until" "dh_r s = Some dh" "ck_r s = Some ck"
      "c = unat (until - n_r s)" "length (skipped s) + c \<le> MAX_SKIPPED_TOTAL" "r = Inr ()"
      "s' = s\<lparr>ck_r := Some (chain_key C ck c), n_r := until,
              skipped := skip_store C dh (n_r s) ck c (skipped s)\<rparr>"
proof (cases "until \<le> n_r s \<or> MAX_SKIP < until - n_r s \<or>
    MAX_SKIPPED_TOTAL < length (skipped s) + unat (until - n_r s) \<or> dh_r s = None \<or> ck_r s = None")
  case True
  then have "s' = s" using assms by (auto simp: skip_to_def split: if_splits option.splits)
  then show ?thesis by (rule same)
next
  case False
  then obtain dh ck where "dh_r s = Some dh" "ck_r s = Some ck" by auto
  with False assms skip_to_store[of s until dh ck C] show ?thesis
    by (intro stored[of dh ck]) (auto simp: not_le not_less)
qed


section \<open>Every operation preserves well-formedness\<close>

definition wf_start :: "session_start \<Rightarrow> bool" where
  "wf_start st \<longleftrightarrow>
     length (st_root st) = 32 \<and> length (st_session_id st) = 32 \<and>
     length (fst (st_our_dh st)) = 32 \<and> length (snd (st_our_dh st)) = 32 \<and>
     len32_opt (st_peer_dh st) \<and>
     (case st_our_kem st of None \<Rightarrow> True
      | Some (k, sk) \<Rightarrow> length k = KEM_PK_LEN \<and> length sk = KEM_SK_LEN)"

lemma wf_start_alice:
  assumes "hmac_ok C" "wf_start st" "start_alice C st = Some s"
  shows "wf_session s"
  using assms
  by (auto simp: start_alice_def x25519_shared_def root_step_def length_hmac256 wf_start_def
      wf_session_def adv_ok_def Let_def split: option.splits intro: wf_intros)

lemma wf_start_bob:
  assumes "kem_ok C" "wf_start st"
  shows "wf_session (start_bob C rnd st)"
proof -
  obtain k sk where k: "c_kem_keygen C rnd = (k, sk)" by (cases "c_kem_keygen C rnd")
  with assms kem_len[OF assms(1) k] show ?thesis
    by (auto simp: start_bob_def wf_start_def wf_session_def adv_ok_def kem_keypair_def intro: wf_intros)
qed

lemma wf_open_send_chain [wf_intros]:
  assumes "hmac_ok C" "dh_ok C" "length rnd = 32" "wf_session s"
  shows "wf_session (open_send_chain C rnd s)"
  using assms
  by (auto simp: open_send_chain_def x25519_shared_def x25519_keypair_def root_step_def
      length_hmac256 dh_len wf_session_def Let_def split: option.splits)

lemma wf_advertise_kem:
  assumes "kem_ok C" "wf_session s" "advertise_kem C rnd s = (s', k)"
  shows "wf_session s'"
  using assms
  by (auto simp: advertise_kem_def wf_session_def split: if_splits prod.splits
      intro: wf_intros)

lemma wf_encrypt:
  assumes "hmac_ok C" "dh_ok C" "kem_ok C" "length (e_dh R) = 32" "wf_session s"
    and "encrypt C R pt s = (s', r)"
  shows "wf_session s'"
proof -
  define s1 where "s1 = open_send_chain C (e_dh R) s"
  have s1: "wf_session s1" using assms by (auto simp: s1_def intro: wf_intros)
  show ?thesis
  proof (cases "ck_s s1")
    case None
    with assms(6) s1 show ?thesis by (simp add: encrypt_def s1_def[symmetric])
  next
    case (Some ck)
    obtain mk nxt where step: "chain_step C ck = (mk, nxt)" by (cases "chain_step C ck")
    define s2 where "s2 = s1\<lparr>ck_s := Some nxt, n_s := n_s s1 + 1\<rparr>"
    obtain s3 k where adv: "advertise_kem C (e_kem R) s2 = (s3, k)"
      by (cases "advertise_kem C (e_kem R) s2")
    have "wf_session s2"
      using s1 chain_step_len[OF assms(1) step] by (simp add: s2_def wf_session_def)
    then have "wf_session s3" by (rule wf_advertise_kem[OF assms(3) _ adv])
    moreover have "s' = s3"
      using assms(6) Some step adv
      by (auto simp: encrypt_def s1_def[symmetric] s2_def[symmetric] Let_def
          split: sum.splits prod.splits)
    ultimately show ?thesis by simp
  qed
qed

lemma wf_skip_to:
  assumes "hmac_ok C" "wf_session s" "skip_to C until s = (s', r)"
  shows "wf_session s'"
  using assms(3)
proof (cases rule: skip_to_cases)
  case same
  with assms show ?thesis by simp
next
  case (stored dh ck c)
  then have "length dh = 32" "length ck = 32" using assms(2) by (auto simp: wf_session_def)
  with stored assms show ?thesis
    by (auto simp: wf_session_def length_chain_key intro: store_ok_skip_store)
qed

lemma wf_ratchet:
  assumes "hmac_ok C" "wf_session s" "length peer = 32" "ratchet C peer s = (s', r)"
  shows "wf_session s'"
  using assms
  by (auto simp: ratchet_def x25519_shared_def root_step_def length_hmac256 wf_session_def Let_def)

lemma wf_derive_initial:
  assumes "hmac_ok C" "wf_session s" "length peer = 32"
    and "derive_initial_receive_chain C peer s = (s', r)"
  shows "wf_session s'"
  using assms
  by (auto simp: derive_initial_receive_chain_def x25519_shared_def root_step_def length_hmac256
      wf_session_def Let_def)

lemma wf_select_chain:
  assumes "hmac_ok C" "wf_session s" "length (h_dh h) = 32" "select_chain C h s = (s', r)"
  shows "wf_session s'"
proof -
  consider "s' = s" | "skip_to C (h_n h) s = (s', r)"
    | s1 r1 where "skip_to C (h_pn h) s = (s1, r1)" "s' = s1"
    | s1 where "skip_to C (h_pn h) s = (s1, Inr ())" "ratchet C (h_dh h) s1 = (s', r)"
    using assms(4)
    by (cases "skip_to C (h_pn h) s"; cases "snd (skip_to C (h_pn h) s)")
      (auto simp: select_chain_def Let_def split: if_splits option.splits)
  then show ?thesis
    using assms by cases (auto dest: wf_skip_to wf_ratchet)
qed

lemma wf_receive_in_order:
  assumes "hmac_ok C" "wf_session s" "receive_in_order C h hdr ct s = (s', r)"
    and "\<forall>k. h_kem_pk h = Some k \<longrightarrow> length k = KEM_PK_LEN"
  shows "wf_session s'"
  using assms
  by (auto simp: receive_in_order_def wf_session_def chain_step_def length_hmac256 Let_def
      split: option.splits sum.splits)

lemma wf_decrypt:
  assumes "hmac_ok C" "wf_session s" "decrypt C pkg s = (s', r)"
  shows "wf_session s'"
proof (cases "parse_header pkg")
  case (Inl e)
  with assms show ?thesis by (simp add: decrypt_def)
next
  case (Inr p)
  then obtain h ct where hdr: "parse_header pkg = Inr (h, ct)" by (cases p) simp
  have dh: "length (h_dh h) = 32" by (rule parse_header_dh_len[OF hdr])
  have kpk: "\<forall>k. h_kem_pk h = Some k \<longrightarrow> length k = KEM_PK_LEN"
    using parse_header_kem_pk_len[OF hdr] by simp
  show ?thesis
  proof (cases "bt_get (skipped s) (SkipKey (h_dh h) (h_n h))")
    case (Some mk)
    with assms hdr show ?thesis
      by (auto simp: decrypt_def wf_session_def Let_def split: sum.splits intro: wf_intros)
  next
    case None
    define m1 where "m1 = (if initialized s then (s, Inr ()) else derive_initial_receive_chain C (h_dh h) s)"
    obtain s1 r1 where m1: "m1 = (s1, r1)" by (cases m1)
    have s1: "wf_session s1"
      using m1 assms(1,2) dh by (auto simp: m1_def split: if_splits dest: wf_derive_initial)
    obtain s2 r2 where m2: "select_chain C h s1 = (s2, r2)" by (cases "select_chain C h s1")
    have s2: "wf_session s2" by (rule wf_select_chain[OF assms(1) s1 dh m2])
    have "decrypt C pkg s = sbind m1 (\<lambda>_ s1. sbind (select_chain C h s1) (\<lambda>_ s2.
        receive_in_order C h (take (length pkg - length ct) pkg) ct s2))"
      using None hdr by (simp add: decrypt_def m1_def)
    then have "s' = s1 \<or> s' = s2 \<or>
        receive_in_order C h (take (length pkg - length ct) pkg) ct s2 = (s', r)"
      using assms(3) m1 m2 by (cases r1; cases r2) auto
    then show ?thesis
      using s1 s2 wf_receive_in_order[OF assms(1) s2 _ kpk] by blast
  qed
qed

end
