(* ===== verification/Ratchet_Recv.thy ===== *)
theory Ratchet_Recv
  imports Ratchet_Inv
begin

text \<open>
  The receiving side of one chain against its specification. The abstract receiver \<open>rx\<close> knows
  only the next message number and the set of numbers it jumped over; \<open>rx_step\<close> says which
  message is delivered. \<open>decrypt\<close> refines it (\<open>decrypt_refines_rx\<close>) for genuine packages,
  and from that follows delivery in any order, exactly once.
\<close>

section \<open>What opening a package depends on\<close>

lemma open_aead_cong:
  assumes "session_id s' = session_id s" "kem_advertised s' = kem_advertised s"
  shows "open_aead C s' = open_aead C s"
  using assms by (intro ext) (simp add: open_aead_def)

definition same_opener :: "session \<Rightarrow> session \<Rightarrow> bool" where
  "same_opener s s' \<longleftrightarrow> session_id s' = session_id s \<and> kem_advertised s' = kem_advertised s"

lemma same_opener_refl [simp]: "same_opener s s"
  by (simp add: same_opener_def)

lemma same_opener_trans: "same_opener s s' \<Longrightarrow> same_opener s' s'' \<Longrightarrow> same_opener s s''"
  by (simp add: same_opener_def)

lemma same_opener_open: "same_opener s s' \<Longrightarrow> open_aead C s' = open_aead C s"
  by (rule open_aead_cong) (simp_all add: same_opener_def)

text \<open>The header bytes that are authenticated: everything before the ciphertext.\<close>

definition header_part :: "bytes \<Rightarrow> bytes \<Rightarrow> bytes" where
  "header_part pkg ct = take (length pkg - length ct) pkg"

lemma header_part_app [simp]: "header_part (h @ ct) ct = h"
  by (simp add: header_part_def)

lemma decrypt_stored:
  assumes "parse_header pkg = Inr (h, ct)"
    and "bt_get (skipped s) (SkipKey (h_dh h) (h_n h)) = Some mk"
  shows "decrypt C pkg s =
    (case open_aead C s (header_part pkg ct) ct (h_kem_ct h) mk of
       Inl e \<Rightarrow> (s, Inl e)
     | Inr pt \<Rightarrow> (s\<lparr>skipped := bt_remove (SkipKey (h_dh h) (h_n h)) (skipped s)\<rparr>, Inr pt))"
  using assms by (simp add: decrypt_def header_part_def)

lemma decrypt_fresh:
  assumes "parse_header pkg = Inr (h, ct)"
    and "bt_get (skipped s) (SkipKey (h_dh h) (h_n h)) = None" and "initialized s"
  shows "decrypt C pkg s =
    sbind (select_chain C h s) (\<lambda>_ s2. receive_in_order C h (header_part pkg ct) ct s2)"
  using assms by (simp add: decrypt_def header_part_def)

lemma receive_ok:
  assumes "ck_r s = Some ck"
    and "open_aead C s hdr ct (h_kem_ct h) (fst (chain_step C ck)) = Inr pt"
  shows "receive_in_order C h hdr ct s =
    (s\<lparr>ck_r := Some (snd (chain_step C ck)), n_r := n_r s + 1,
       kem_peer := (case h_kem_pk h of None \<Rightarrow> kem_peer s | Some k \<Rightarrow> Some k)\<rparr>, Inr pt)"
proof -
  have "open_aead C (s\<lparr>ck_r := k, n_r := m\<rparr>) = open_aead C s" for k m
    by (rule open_aead_cong) simp_all
  then show ?thesis
    using assms by (auto simp: receive_in_order_def split: prod.splits option.splits)
qed

lemma receive_bad:
  assumes "ck_r s = Some ck"
    and "open_aead C s hdr ct (h_kem_ct h) (fst (chain_step C ck)) = Inl e"
  shows "receive_in_order C h hdr ct s =
    (s\<lparr>ck_r := Some (snd (chain_step C ck)), n_r := n_r s + 1\<rparr>, Inl e)"
proof -
  have "open_aead C (s\<lparr>ck_r := k, n_r := m\<rparr>) = open_aead C s" for k m
    by (rule open_aead_cong) simp_all
  then show ?thesis
    using assms by (auto simp: receive_in_order_def split: prod.splits option.splits)
qed


section \<open>The abstract receiver\<close>

record rx =
  rx_next :: nat
  rx_missing :: "nat set"

text \<open>\<open>others\<close> counts the stored keys of other chains, which share the capacity.\<close>

definition rx_step :: "nat \<Rightarrow> rx \<Rightarrow> nat \<Rightarrow> rx \<times> bool" where
  "rx_step others x n =
     (if n \<in> rx_missing x then (x\<lparr>rx_missing := rx_missing x - {n}\<rparr>, True)
      else if n < rx_next x then (x, False)
      else if n - rx_next x > 1000 \<or> card (rx_missing x) + others + (n - rx_next x) > 2000 then (x, False)
      else (\<lparr>rx_next = Suc n, rx_missing = rx_missing x \<union> {rx_next x..<n}\<rparr>, True))"

text \<open>
  A chain as the receiver sees it: the peer's ratchet key, and the chain key the peer had
  before message number \<open>base\<close>.
\<close>

record chain =
  ch_dh :: bytes
  ch_ck :: bytes
  ch_base :: nat

definition chain_msg_key :: "crypto \<Rightarrow> chain \<Rightarrow> nat \<Rightarrow> bytes" where
  "chain_msg_key C ch n = msg_key C (ch_ck ch) (n - ch_base ch)"

definition rx_rel :: "crypto \<Rightarrow> chain \<Rightarrow> nat \<Rightarrow> rx \<Rightarrow> session \<Rightarrow> bool" where
  "rx_rel C ch others x s \<longleftrightarrow>
     initialized s \<and> dh_r s = Some (ch_dh ch) \<and>
     ck_r s = Some (chain_key C (ch_ck ch) (rx_next x - ch_base ch)) \<and>
     unat (n_r s) = rx_next x \<and> ch_base ch \<le> rx_next x \<and>
     rx_missing x \<subseteq> {ch_base ch..<rx_next x} \<and>
     bt_wf (skipped s) \<and> length (skipped s) = card (rx_missing x) + others \<and>
     length (skipped s) \<le> MAX_SKIPPED_TOTAL \<and>
     (\<forall>n. bt_get (skipped s) (SkipKey (ch_dh ch) n) =
          (if unat n \<in> rx_missing x then Some (chain_msg_key C ch (unat n)) else None))"

text \<open>A package the peer really produced as message \<open>n\<close> of the chain.\<close>

definition genuine :: "crypto \<Rightarrow> session \<Rightarrow> chain \<Rightarrow> bytes \<Rightarrow> nat \<Rightarrow> bytes \<Rightarrow> bool" where
  "genuine C s ch pkg n pt \<longleftrightarrow>
     (\<exists>h ct. parse_header pkg = Inr (h, ct) \<and> h_dh h = ch_dh ch \<and> unat (h_n h) = n \<and>
        ch_base ch \<le> n \<and>
        open_aead C s (header_part pkg ct) ct (h_kem_ct h) (chain_msg_key C ch n) = Inr pt)"

lemma genuine_opener:
  assumes "same_opener s s'"
  shows "genuine C s' ch pkg n pt = genuine C s ch pkg n pt"
  unfolding genuine_def same_opener_open[OF assms] ..

lemma rx_missing_finite: "rx_rel C ch others x s \<Longrightarrow> finite (rx_missing x)"
  by (auto simp: rx_rel_def intro: finite_subset)


section \<open>Refinement, one message\<close>

lemma decrypt_missing:
  assumes rel: "rx_rel C ch others x s" and gen: "genuine C s ch pkg n pt" and n: "n \<in> rx_missing x"
  shows "\<exists>s'. decrypt C pkg s = (s', Inr pt) \<and> same_opener s s' \<and>
    rx_rel C ch others (x\<lparr>rx_missing := rx_missing x - {n}\<rparr>) s'"
proof -
  from gen obtain h ct where h: "parse_header pkg = Inr (h, ct)" "h_dh h = ch_dh ch" "unat (h_n h) = n"
    and op: "open_aead C s (header_part pkg ct) ct (h_kem_ct h) (chain_msg_key C ch n) = Inr pt"
    by (auto simp: genuine_def)
  define k where "k = SkipKey (h_dh h) (h_n h)"
  have get: "bt_get (skipped s) k = Some (chain_msg_key C ch n)"
    using rel h n by (simp add: rx_rel_def k_def)
  define s' where "s' = s\<lparr>skipped := bt_remove k (skipped s)\<rparr>"
  have dec: "decrypt C pkg s = (s', Inr pt)"
    using decrypt_stored[OF h(1), of s "chain_msg_key C ch n" C] get op by (simp add: k_def s'_def)
  have len: "Suc (length (bt_remove k (skipped s))) = card (rx_missing x) + others"
    using rel get length_bt_remove_present[of "skipped s" k] by (simp add: rx_rel_def)
  have "rx_rel C ch others (x\<lparr>rx_missing := rx_missing x - {n}\<rparr>) s'"
    unfolding rx_rel_def
  proof (intro conjI allI)
    show "length (skipped s') \<le> MAX_SKIPPED_TOTAL"
      using len rel by (simp add: s'_def rx_rel_def)
    show "length (skipped s') = card (rx_missing (x\<lparr>rx_missing := rx_missing x - {n}\<rparr>)) + others"
      using len card_Suc_Diff1[OF rx_missing_finite[OF rel] n] by (simp add: s'_def)
    show "bt_get (skipped s') (SkipKey (ch_dh ch) m) =
        (if unat m \<in> rx_missing (x\<lparr>rx_missing := rx_missing x - {n}\<rparr>)
         then Some (chain_msg_key C ch (unat m)) else None)" for m
      using rel h by (auto simp: s'_def k_def bt_get_remove rx_rel_def word_unat_eq_iff)
  qed (use rel in \<open>auto simp: rx_rel_def s'_def intro: wf_intros\<close>)
  with dec show ?thesis by (auto simp: s'_def same_opener_def)
qed

lemma rx_store_none:
  assumes "rx_rel C ch others x s" "n \<notin> rx_missing x" "h_dh h = ch_dh ch" "unat (h_n h) = n"
  shows "bt_get (skipped s) (SkipKey (h_dh h) (h_n h)) = None"
  using assms by (simp add: rx_rel_def)

lemma decrypt_old:
  assumes rel: "rx_rel C ch others x s" and h: "parse_header pkg = Inr (h, ct)"
    and hd: "h_dh h = ch_dh ch" "unat (h_n h) = n" and n: "n \<notin> rx_missing x" "n < rx_next x"
  shows "decrypt C pkg s = (s, Inl OutOfOrder)"
proof -
  have "h_n h < n_r s" using rel hd n by (simp add: rx_rel_def word_less_nat_alt)
  then have "select_chain C h s = (s, Inl OutOfOrder)"
    using rel hd by (auto simp: select_chain_def rx_rel_def)
  then show ?thesis
    using decrypt_fresh[OF h] rx_store_none[OF rel n(1) hd] rel by (simp add: rx_rel_def)
qed

lemma decrypt_too_far:
  assumes rel: "rx_rel C ch others x s" and h: "parse_header pkg = Inr (h, ct)"
    and hd: "h_dh h = ch_dh ch" "unat (h_n h) = n" and n: "n \<notin> rx_missing x" "rx_next x < n"
    and far: "n - rx_next x > 1000 \<or> card (rx_missing x) + others + (n - rx_next x) > 2000"
  shows "decrypt C pkg s = (s, Inl OutOfOrder)"
proof -
  have less: "n_r s < h_n h" using rel hd n by (simp add: rx_rel_def word_less_nat_alt)
  then have "unat (h_n h - n_r s) = n - rx_next x"
    using rel hd by (simp add: unat_sub rx_rel_def)
  then have "skip_to C (h_n h) s = (s, Inl OutOfOrder)"
    using far rel less
    by (intro skip_to_rejected) (auto simp: MAX_SKIP_def MAX_SKIPPED_TOTAL_def word_less_nat_alt rx_rel_def)
  then have "select_chain C h s = (s, Inl OutOfOrder)"
    using rel hd less by (auto simp: select_chain_def rx_rel_def)
  then show ?thesis
    using decrypt_fresh[OF h] rx_store_none[OF rel n(1) hd] rel by (simp add: rx_rel_def)
qed

text \<open>The keys of the gap: the store that bridges it holds the key of every message between the next one
  and message \<open>n\<close>, and is unchanged at the other numbers of the chain.\<close>

lemma bridged_fresh:
  assumes rel: "rx_rel C ch others x s" and i: "rx_next x + i < 2 ^ 32"
  shows "unat (n_r s + word_of_nat i) = rx_next x + i"
    and "bt_get (skipped s) (skip_keys (ch_dh ch) (n_r s) i) = None"
proof -
  show "unat (n_r s + word_of_nat i) = rx_next x + i"
    using rel i by (simp add: unat_add_of_nat rx_rel_def)
  then show "bt_get (skipped s) (skip_keys (ch_dh ch) (n_r s) i) = None"
    using rel by (auto simp: rx_rel_def skip_keys_def)
qed

lemma bridged_keys:
  assumes rel: "rx_rel C ch others x s" and n: "rx_next x \<le> n" "n < 2 ^ 32"
  shows "bt_get (skip_store C (ch_dh ch) (n_r s) (chain_key C (ch_ck ch) (rx_next x - ch_base ch)) (n - rx_next x) (skipped s))
      (SkipKey (ch_dh ch) m) =
    (if unat m \<in> rx_missing x \<union> {rx_next x..<n} then Some (chain_msg_key C ch (unat m)) else None)"
proof (cases "rx_next x \<le> unat m \<and> unat m < n")
  case True
  define i where "i = unat m - rx_next x"
  have i: "i < n - rx_next x" "unat m = rx_next x + i" using True by (auto simp: i_def)
  have "m = n_r s + word_of_nat i" using i rel by (intro word_eq_add_of_nat) (simp add: rx_rel_def)
  moreover have "rx_next x - ch_base ch + i = rx_next x + i - ch_base ch" using rel by (simp add: rx_rel_def)
  moreover have "n - rx_next x \<le> 2 ^ 32" using n by simp
  ultimately show ?thesis
    using skip_store_get(1)[OF _ i(1), of C "ch_dh ch" "n_r s" "chain_key C (ch_ck ch) (rx_next x - ch_base ch)" "skipped s"]
      True i by (simp add: skip_keys_def chain_msg_key_def msg_key_add)
next
  case False
  have "skip_keys (ch_dh ch) (n_r s) i \<noteq> SkipKey (ch_dh ch) m" if i: "i < n - rx_next x" for i
  proof
    assume "skip_keys (ch_dh ch) (n_r s) i = SkipKey (ch_dh ch) m"
    then have "unat m = rx_next x + i" using bridged_fresh(1)[OF rel, of i] i n by (auto simp: skip_keys_def)
    with False i show False by simp
  qed
  moreover have "n - rx_next x \<le> 2 ^ 32" using n by simp
  ultimately have "bt_get (skip_store C (ch_dh ch) (n_r s) (chain_key C (ch_ck ch) (rx_next x - ch_base ch)) (n - rx_next x) (skipped s))
      (SkipKey (ch_dh ch) m) = bt_get (skipped s) (SkipKey (ch_dh ch) m)"
    by (intro skip_store_get(2))
  with False rel show ?thesis by (auto simp: rx_rel_def)
qed

text \<open>After the gap has been bridged (or without one) the chain stands at message \<open>n\<close>.\<close>

lemma select_chain_bridge:
  assumes rel: "rx_rel C ch others x s" and hd: "h_dh h = ch_dh ch" "unat (h_n h) = n"
    and n: "rx_next x \<le> n" "n - rx_next x \<le> 1000"
      "card (rx_missing x) + others + (n - rx_next x) \<le> 2000"
  shows "\<exists>s'. select_chain C h s = (s', Inr ()) \<and> same_opener s s' \<and> kem_peer s' = kem_peer s \<and>
    rx_rel C ch others \<lparr>rx_next = n, rx_missing = rx_missing x \<union> {rx_next x..<n}\<rparr> s'"
proof (cases "rx_next x = n")
  case True
  then have "\<not> n_r s < h_n h" "\<not> h_n h < n_r s" using rel hd by (simp_all add: rx_rel_def word_less_nat_alt)
  then have "select_chain C h s = (s, Inr ())" using rel hd by (auto simp: select_chain_def rx_rel_def)
  with True rel show ?thesis by (intro exI[of _ s]) (simp add: rx_rel_def)
next
  case False
  define c where "c = n - rx_next x"
  define ck where "ck = chain_key C (ch_ck ch) (rx_next x - ch_base ch)"
  define st where "st = skip_store C (ch_dh ch) (n_r s) ck c (skipped s)"
  define s' where "s' = s\<lparr>ck_r := Some (chain_key C ck c), n_r := h_n h, skipped := st\<rparr>"
  have less: "n_r s < h_n h" using rel hd n False by (simp add: rx_rel_def word_less_nat_alt)
  have c: "unat (h_n h - n_r s) = c" using rel hd less by (simp add: unat_sub rx_rel_def c_def)
  have sel: "select_chain C h s = (s', Inr ())"
  proof -
    have "skip_to C (h_n h) s = (s', Inr ())"
      using skip_to_store[of s "h_n h" "ch_dh ch" ck C] rel less c n
      by (simp add: rx_rel_def ck_def[symmetric] s'_def st_def MAX_SKIP_def MAX_SKIPPED_TOTAL_def
          word_le_nat_alt c_def[symmetric])
    then show ?thesis using rel hd less by (auto simp: select_chain_def rx_rel_def)
  qed
  have c32: "c \<le> 2 ^ 32" using n(2) by (simp add: c_def)
  have n32: "n < 2 ^ 32" using hd(2) unat_lt2p[of "h_n h"] by simp
  have fresh: "bt_get (skipped s) (skip_keys (ch_dh ch) (n_r s) i) = None" if "i < c" for i
    using that n32 by (intro bridged_fresh(2)[OF rel]) (simp add: c_def)
  note get = bridged_keys[OF rel n(1) n32, folded ck_def c_def, folded st_def]
  have len: "length st = card (rx_missing x \<union> {rx_next x..<n}) + others"
  proof -
    have "length st = length (skipped s) + c"
      unfolding st_def skip_store_def
      by (rule bt.size_put_run[OF skip_keys_inj[OF c32]]) (use fresh in auto)
    moreover have "card (rx_missing x \<union> {rx_next x..<n}) = card (rx_missing x) + c"
      using rel rx_missing_finite[OF rel]
      by (subst card_Un_disjoint) (auto simp: rx_rel_def c_def)
    ultimately show ?thesis using rel by (simp add: rx_rel_def)
  qed
  have "rx_rel C ch others \<lparr>rx_next = n, rx_missing = rx_missing x \<union> {rx_next x..<n}\<rparr> s'"
  proof -
    have "rx_next x - ch_base ch + c = n - ch_base ch"
      using rel n by (simp add: rx_rel_def c_def)
    then have "chain_key C ck c = chain_key C (ch_ck ch) (n - ch_base ch)"
      by (simp add: ck_def chain_key_add)
    moreover have "bt_wf st"
      using rel unfolding st_def skip_store_def rx_rel_def by (blast intro: bt.inv_put_run)
    moreover have "length st \<le> MAX_SKIPPED_TOTAL"
      using length_skip_store[of C "ch_dh ch" "n_r s" ck c "skipped s"] rel n(3)
      by (simp add: st_def rx_rel_def c_def MAX_SKIPPED_TOTAL_def)
    ultimately show ?thesis
      using rel n hd get len by (auto simp: rx_rel_def s'_def)
  qed
  with sel show ?thesis by (auto simp: s'_def same_opener_def)
qed

lemma decrypt_next:
  assumes rel: "rx_rel C ch others x s" and gen: "genuine C s ch pkg n pt"
    and n: "n \<notin> rx_missing x" "rx_next x \<le> n" "n - rx_next x \<le> 1000"
      "card (rx_missing x) + others + (n - rx_next x) \<le> 2000" "Suc n < 2 ^ 32"
  shows "\<exists>s'. decrypt C pkg s = (s', Inr pt) \<and> same_opener s s' \<and>
    rx_rel C ch others \<lparr>rx_next = Suc n, rx_missing = rx_missing x \<union> {rx_next x..<n}\<rparr> s'"
proof -
  from gen obtain h ct where h: "parse_header pkg = Inr (h, ct)"
    and hd: "h_dh h = ch_dh ch" "unat (h_n h) = n" and base: "ch_base ch \<le> n"
    and op: "open_aead C s (header_part pkg ct) ct (h_kem_ct h) (chain_msg_key C ch n) = Inr pt"
    by (auto simp: genuine_def)
  obtain s1 where sel: "select_chain C h s = (s1, Inr ())" and so: "same_opener s s1"
    and rel1: "rx_rel C ch others \<lparr>rx_next = n, rx_missing = rx_missing x \<union> {rx_next x..<n}\<rparr> s1"
    using select_chain_bridge[OF rel hd n(2-4)] by blast
  define ck where "ck = chain_key C (ch_ck ch) (n - ch_base ch)"
  have ck: "ck_r s1 = Some ck" using rel1 by (simp add: rx_rel_def ck_def)
  have step: "chain_step C ck = (chain_msg_key C ch n, chain_key C (ch_ck ch) (Suc n - ch_base ch))"
    unfolding ck_def chain_step_key chain_msg_key_def Suc_diff_le[OF base] ..
  have "open_aead C s1 (header_part pkg ct) ct (h_kem_ct h) (fst (chain_step C ck)) = Inr pt"
    unfolding step same_opener_open[OF so] using op by simp
  then have rcv: "receive_in_order C h (header_part pkg ct) ct s1 =
      (s1\<lparr>ck_r := Some (snd (chain_step C ck)), n_r := n_r s1 + 1,
         kem_peer := (case h_kem_pk h of None \<Rightarrow> kem_peer s1 | Some k \<Rightarrow> Some k)\<rparr>, Inr pt)"
    by (rule receive_ok[OF ck])
  define s2 where "s2 = s1\<lparr>ck_r := Some (snd (chain_step C ck)), n_r := n_r s1 + 1,
         kem_peer := (case h_kem_pk h of None \<Rightarrow> kem_peer s1 | Some k \<Rightarrow> Some k)\<rparr>"
  have "decrypt C pkg s = (s2, Inr pt)"
    using decrypt_fresh[OF h rx_store_none[OF rel n(1) hd]] rel sel rcv
    by (simp add: rx_rel_def s2_def)
  moreover have "same_opener s s2" using so by (simp add: s2_def same_opener_def)
  moreover have "unat (n_r s1 + 1) = Suc n"
    using rel1 n(5) unat_add_of_nat[of "n_r s1" 1] by (simp add: rx_rel_def)
  then have "rx_rel C ch others \<lparr>rx_next = Suc n, rx_missing = rx_missing x \<union> {rx_next x..<n}\<rparr> s2"
    using rel1 step base by (auto simp: rx_rel_def s2_def)
  ultimately show ?thesis by blast
qed

text \<open>The simulation: \<open>decrypt\<close> does on the session what \<open>rx_step\<close> does on the specification.\<close>

lemma decrypt_simulates_rx:
  assumes rel: "rx_rel C ch others x s" and gen: "genuine C s ch pkg n pt" and n: "Suc n < 2 ^ 32"
    and step: "rx_step others x n = (x', ok)"
  shows "\<exists>s'. decrypt C pkg s = (s', if ok then Inr pt else Inl OutOfOrder) \<and>
    same_opener s s' \<and> rx_rel C ch others x' s' \<and> (ok \<or> s' = s)"
proof -
  from gen obtain h ct where h: "parse_header pkg = Inr (h, ct)"
    and hd: "h_dh h = ch_dh ch" "unat (h_n h) = n" by (auto simp: genuine_def)
  consider (missing) "n \<in> rx_missing x"
    | (old) "n \<notin> rx_missing x" "n < rx_next x"
    | (far) "n \<notin> rx_missing x" "rx_next x \<le> n"
        "n - rx_next x > 1000 \<or> card (rx_missing x) + others + (n - rx_next x) > 2000"
    | (ahead) "n \<notin> rx_missing x" "rx_next x \<le> n" "n - rx_next x \<le> 1000"
        "card (rx_missing x) + others + (n - rx_next x) \<le> 2000"
    by linarith
  then show ?thesis
  proof cases
    case missing
    with step decrypt_missing[OF rel gen] show ?thesis by (auto simp: rx_step_def)
  next
    case old
    with step decrypt_old[OF rel h hd] rel show ?thesis by (auto simp: rx_step_def)
  next
    case far
    moreover have "card (rx_missing x) + others \<le> 2000"
      using rel by (simp add: rx_rel_def MAX_SKIPPED_TOTAL_def)
    ultimately have "rx_next x < n" by linarith
    with far step decrypt_too_far[OF rel h hd] rel show ?thesis by (auto simp: rx_step_def)
  next
    case ahead
    with step decrypt_next[OF rel gen] n show ?thesis by (auto simp: rx_step_def)
  qed
qed


section \<open>Delivery sequences\<close>

primrec decrypt_run :: "crypto \<Rightarrow> bytes list \<Rightarrow> session \<Rightarrow> session \<times> (decrypt_error + bytes) list" where
  "decrypt_run C [] s = (s, [])"
| "decrypt_run C (pkg # pkgs) s =
     (let (s1, r) = decrypt C pkg s; (s2, rs) = decrypt_run C pkgs s1 in (s2, r # rs))"

primrec rx_run :: "nat \<Rightarrow> rx \<Rightarrow> nat list \<Rightarrow> rx \<times> bool list" where
  "rx_run others x [] = (x, [])"
| "rx_run others x (n # ns) =
     (let (x1, ok) = rx_step others x n; (x2, oks) = rx_run others x1 ns in (x2, ok # oks))"

text \<open>A message in transit: package, number and plaintext.\<close>

type_synonym transit = "bytes \<times> nat \<times> bytes"

definition result_of :: "bool \<Rightarrow> bytes \<Rightarrow> decrypt_error + bytes" where
  "result_of ok pt = (if ok then Inr pt else Inl OutOfOrder)"

lemma decrypt_run_simulates_rx:
  assumes "rx_rel C ch others x s"
    and "\<forall>(pkg, n, pt) \<in> set ms. genuine C s ch pkg n pt \<and> Suc n < 2 ^ 32"
  shows "\<exists>s'. decrypt_run C (map fst ms) s =
      (s', map2 result_of (snd (rx_run others x (map (fst \<circ> snd) ms))) (map (snd \<circ> snd) ms)) \<and>
    same_opener s s' \<and> rx_rel C ch others (fst (rx_run others x (map (fst \<circ> snd) ms))) s'"
  using assms
proof (induction ms arbitrary: x s)
  case Nil
  then show ?case by simp
next
  case (Cons m ms)
  obtain pkg n pt where m: "m = (pkg, n, pt)" by (cases m)
  obtain x1 ok where step: "rx_step others x n = (x1, ok)" by (cases "rx_step others x n")
  obtain s1 where s1: "decrypt C pkg s = (s1, result_of ok pt)" "same_opener s s1" "rx_rel C ch others x1 s1"
    using decrypt_simulates_rx[OF Cons.prems(1) _ _ step, of pkg pt] Cons.prems(2)
    unfolding m result_of_def by force
  have "\<forall>(pkg, n, pt) \<in> set ms. genuine C s1 ch pkg n pt \<and> Suc n < 2 ^ 32"
    using Cons.prems(2) genuine_opener[OF s1(2)] by auto
  from Cons.IH[OF s1(3) this] obtain s2 where s2:
    "decrypt_run C (map fst ms) s1 =
      (s2, map2 result_of (snd (rx_run others x1 (map (fst \<circ> snd) ms))) (map (snd \<circ> snd) ms))"
    "same_opener s1 s2" "rx_rel C ch others (fst (rx_run others x1 (map (fst \<circ> snd) ms))) s2"
    by blast
  then show ?case
    using s1 same_opener_trans[OF s1(2) s2(2)]
    by (simp add: m step comp_def Let_def case_prod_beta)
qed

text \<open>Which arrivals are first arrivals.\<close>

primrec first_arrivals :: "nat list \<Rightarrow> nat set \<Rightarrow> bool list" where
  "first_arrivals [] D = []"
| "first_arrivals (n # ns) D = (n \<notin> D) # first_arrivals ns (insert n D)"

definition rx_delivered :: "nat \<Rightarrow> nat set \<Rightarrow> rx \<Rightarrow> bool" where
  "rx_delivered base D x \<longleftrightarrow>
     base \<le> rx_next x \<and> rx_next x \<le> base + 1001 \<and> D \<subseteq> {base..<rx_next x} \<and>
     rx_missing x = {base..<rx_next x} - D"

lemma rx_step_delivered:
  assumes inv: "rx_delivered base D x" and n: "base \<le> n" "n \<le> base + 1000" and others: "others \<le> 1000"
  shows "\<exists>x'. rx_step others x n = (x', n \<notin> D) \<and> rx_delivered base (insert n D) x'"
proof (cases "n < rx_next x")
  case True
  with inv n show ?thesis
    by (auto simp: rx_step_def rx_delivered_def insert_absorb)
next
  case False
  have "card (rx_missing x) \<le> card {base..<rx_next x}"
    using inv by (intro card_mono) (auto simp: rx_delivered_def)
  with False inv n others have "card (rx_missing x) + others + (n - rx_next x) \<le> 2000"
    and "n - rx_next x \<le> 1000" and "n \<notin> rx_missing x" and "n \<notin> D"
    by (auto simp: rx_delivered_def)
  with False inv n show ?thesis
    by (auto simp: rx_step_def rx_delivered_def)
qed

lemma rx_run_delivered:
  assumes "rx_delivered base D x" and "\<forall>n\<in>set ns. base \<le> n \<and> n \<le> base + 1000" and "others \<le> 1000"
  shows "snd (rx_run others x ns) = first_arrivals ns D"
  using assms
proof (induction ns arbitrary: x D)
  case Nil
  then show ?case by simp
next
  case (Cons n ns)
  obtain x' where "rx_step others x n = (x', n \<notin> D)" "rx_delivered base (insert n D) x'"
    using rx_step_delivered[OF Cons.prems(1), of n others] Cons.prems by auto
  with Cons show ?case by (simp split: prod.splits) (metis snd_conv)
qed

lemma any_order_once:
  assumes rel: "rx_rel C ch others \<lparr>rx_next = ch_base ch, rx_missing = {}\<rparr> s"
    and ms: "\<forall>(pkg, n, pt) \<in> set ms. genuine C s ch pkg n pt \<and> n \<le> ch_base ch + 1000"
    and bounds: "ch_base ch + 1001 < 2 ^ 32" "others \<le> 1000"
  shows "snd (decrypt_run C (map fst ms) s) =
    map2 result_of (first_arrivals (map (fst \<circ> snd) ms) {}) (map (snd \<circ> snd) ms)"
proof -
  have "\<forall>(pkg, n, pt) \<in> set ms. genuine C s ch pkg n pt \<and> Suc n < 2 ^ 32"
    using ms bounds by force
  moreover have "snd (rx_run others \<lparr>rx_next = ch_base ch, rx_missing = {}\<rparr> (map (fst \<circ> snd) ms)) =
      first_arrivals (map (fst \<circ> snd) ms) {}"
    using ms bounds
    by (intro rx_run_delivered[where base = "ch_base ch"]) (auto simp: rx_delivered_def genuine_def)
  ultimately show ?thesis
    using decrypt_run_simulates_rx[OF rel] by fastforce
qed


section \<open>What a failed decryption leaves behind\<close>

text \<open>A stored key survives a failed open; the whole session is unchanged.\<close>

lemma decrypt_stored_fails_unchanged:
  assumes "parse_header pkg = Inr (h, ct)"
    and "bt_get (skipped s) (SkipKey (h_dh h) (h_n h)) = Some mk"
    and "decrypt C pkg s = (s', Inl e)"
  shows "s' = s"
  using assms by (simp add: decrypt_stored split: sum.splits)

text \<open>
  On the in-order path it does not: the chain has moved on, so the genuine package that
  carries the same number afterwards is refused as out of order.
\<close>

lemma in_order_failure_advances:
  assumes h: "parse_header pkg = Inr (h, ct)" and init: "initialized s"
    and cur: "dh_r s = Some (h_dh h)" "h_n h = n_r s" "ck_r s = Some ck"
    and none: "bt_get (skipped s) (SkipKey (h_dh h) (h_n h)) = None"
    and bad: "open_aead C s (header_part pkg ct) ct (h_kem_ct h) (fst (chain_step C ck)) = Inl e"
  shows "decrypt C pkg s =
    (s\<lparr>ck_r := Some (snd (chain_step C ck)), n_r := n_r s + 1\<rparr>, Inl e)"
proof -
  have "select_chain C h s = (s, Inr ())" using cur by (simp add: select_chain_def)
  then show ?thesis
    using decrypt_fresh[OF h none init] receive_bad[OF cur(3) bad] by simp
qed

end
