(* ===== verification/Ratchet_Conv.thy ===== *)
theory Ratchet_Conv
  imports Ratchet_Recv
begin

text \<open>
  Two sessions talking to each other. \<open>has_floor C a b\<close> says that the sending chain of \<open>a\<close> and
  the receiving side of \<open>b\<close> agree; every exchanged message keeps it, in one direction or the
  other. From it follows that a conversation of any length and any turn-taking decrypts, and that
  the side that spoke last has the floor after it.
\<close>

section \<open>Sending on an open chain\<close>

definition kem_link :: "crypto \<Rightarrow> session \<Rightarrow> session \<Rightarrow> bool" where
  "kem_link C a b \<longleftrightarrow>
     kem_peer a = None \<or>
     (\<exists>adv rest. kem_advertised b = adv # rest \<and> kem_peer a = Some (adv_pk adv) \<and>
        valid_kem_pair C (adv_pk adv) (adv_sk adv))"

definition crypto_ok :: "crypto \<Rightarrow> bool" where
  "crypto_ok C \<longleftrightarrow> hmac_ok C \<and> dh_ok C \<and> kem_ok C \<and> aead_ok C"

lemma open_chain_noop: "ck_s s \<noteq> None \<Longrightarrow> open_send_chain C rnd s = s"
  by (auto simp: open_send_chain_def)

text \<open>The session after sending one message on an open chain.\<close>

definition after_send :: "crypto \<Rightarrow> enc_rand \<Rightarrow> bytes \<Rightarrow> session \<Rightarrow> session" where
  "after_send C R k s =
     fst (advertise_kem C (e_kem R) (s\<lparr>ck_s := Some (snd (chain_step C k)), n_s := n_s s + 1\<rparr>))"

definition sent_kem_pk :: "crypto \<Rightarrow> enc_rand \<Rightarrow> session \<Rightarrow> bytes option" where
  "sent_kem_pk C R s = (if advertise_kem_next s then Some (fst (kem_keypair C (e_kem R))) else None)"

lemma after_send_simps [simp]:
  "session_id (after_send C R k s) = session_id s" "rk (after_send C R k s) = rk s"
  "dh_s (after_send C R k s) = dh_s s" "dh_r (after_send C R k s) = dh_r s"
  "ck_s (after_send C R k s) = Some (snd (chain_step C k))" "ck_r (after_send C R k s) = ck_r s"
  "n_s (after_send C R k s) = n_s s + 1" "n_r (after_send C R k s) = n_r s"
  "pn (after_send C R k s) = pn s" "kem_peer (after_send C R k s) = kem_peer s"
  "skipped (after_send C R k s) = skipped s" "initialized (after_send C R k s) = initialized s"
  by (simp_all add: after_send_def advertise_kem_def split: prod.splits)

lemma after_send_advertised:
  "kem_advertised (after_send C R k s) =
     (if advertise_kem_next s
      then \<lparr>adv_pk = fst (kem_keypair C (e_kem R)), adv_sk = snd (kem_keypair C (e_kem R))\<rparr>
           # take 1 (kem_advertised s)
      else kem_advertised s)"
  by (simp add: after_send_def advertise_kem_def split: prod.splits)

lemma sent_kem_pk_len: "kem_ok C \<Longrightarrow> sent_kem_pk C R s = Some x \<Longrightarrow> length x = 1568"
  using kem_len[of C "e_kem R"]
  by (cases "c_kem_keygen C (e_kem R)") (auto simp: sent_kem_pk_def kem_keypair_def split: if_splits)

lemma encapsulateE:
  assumes "kem_ok C" "kem_link C a b"
  obtains kct kss where "encapsulate_to_peer C rnd a = Inr (kct, kss)"
    "\<forall>x. kct = Some x \<longrightarrow> length x = KEM_CT_LEN"
    "\<And>mk hdr ct sid pt. aead_decrypt C sid hdr (mix_kem C mk kss) ct = Inr pt \<Longrightarrow>
      try_candidates C sid hdr ct mk (kem_candidates C (kem_advertised b) kct) = Inr pt"
proof (cases "kem_peer a")
  case None
  then show ?thesis
    by (intro that[of None None]) (simp_all add: encapsulate_to_peer_def kem_candidates_def)
next
  case (Some k)
  with assms(2) obtain adv rest where b: "kem_advertised b = adv # rest" "k = adv_pk adv"
    and v: "valid_kem_pair C (adv_pk adv) (adv_sk adv)" by (auto simp: kem_link_def)
  obtain ct ss where "kem_encapsulate C (adv_pk adv) rnd = Inr (ct, ss)" "length ct = KEM_CT_LEN"
    "kem_decapsulate C (adv_sk adv) ct = Inr ss"
    using kem_roundtripE[OF assms(1) v] by blast
  with Some b show ?thesis
    by (intro that[of "Some ct" "Some ss"])
      (simp_all add: encapsulate_to_peer_def kem_candidates_def Let_def)
qed

lemma encrypt_open:
  assumes C: "crypto_ok C" and k: "ck_s a = Some k" and link: "kem_link C a b"
    and sid: "session_id b = session_id a" "length (session_id a) = 32" "length (fst (dh_s a)) = 32"
    and pt: "length pt \<le> aead_max"
  obtains pkg h ct where "encrypt C R pt a = (after_send C R k a, Inr pkg)"
    "parse_header pkg = Inr (h, ct)" "h_dh h = fst (dh_s a)" "h_n h = n_s a" "h_pn h = pn a"
    "h_kem_pk h = sent_kem_pk C R a"
    "open_aead C b (header_part pkg ct) ct (h_kem_ct h) (fst (chain_step C k)) = Inr pt"
proof -
  have ok: "hmac_ok C" "kem_ok C" "aead_ok C" using C by (simp_all add: crypto_ok_def)
  define mk nxt where "mk = fst (chain_step C k)" and "nxt = snd (chain_step C k)"
  define kpk where "kpk = sent_kem_pk C R a"
  have adv: "advertise_kem C (e_kem R) (a\<lparr>ck_s := Some nxt, n_s := n_s a + 1\<rparr>) = (after_send C R k a, kpk)"
    by (simp add: after_send_def nxt_def kpk_def sent_kem_pk_def advertise_kem_def split: prod.splits)
  have "kem_link C (after_send C R k a) b" using link by (simp add: kem_link_def)
  then obtain kct kss where enc: "encapsulate_to_peer C (e_ss R) (after_send C R k a) = Inr (kct, kss)"
    and kct: "\<forall>x. kct = Some x \<longrightarrow> length x = KEM_CT_LEN"
    and cand: "\<And>hdr ct sid pt. aead_decrypt C sid hdr (mix_kem C mk kss) ct = Inr pt \<Longrightarrow>
      try_candidates C sid hdr ct mk (kem_candidates C (kem_advertised b) kct) = Inr pt"
    using encapsulateE[OF ok(2)] by metis
  define hdr where "hdr = build_header (header_flags kpk kct) (pn a) (n_s a) (fst (dh_s a)) kpk kct"
  have fields: "header_fields_ok (fst (dh_s a)) kpk kct"
    using sid(3) kct sent_kem_pk_len[OF ok(2)] by (auto simp: header_fields_ok_def kpk_def)
  have "length hdr \<le> 42 + 1568 + 1568"
    using fields by (cases kpk; cases kct) (auto simp: hdr_def length_build_header header_fields_ok_def)
  then have "length (session_id a) + length hdr \<le> aead_max"
    using sid(2) by (simp add: aead_max_def)
  then obtain ct where ct: "aead_encrypt C (session_id a) hdr (mix_kem C mk kss) pt = Inr ct"
    "length ct = length pt + 16" "aead_decrypt C (session_id a) hdr (mix_kem C mk kss) ct = Inr pt"
    using aead_roundtripE[OF ok(1) ok(3) _ pt] by metis
  define h where "h = \<lparr>h_flags = header_flags kpk kct, h_pn = pn a, h_n = n_s a,
    h_dh = fst (dh_s a), h_kem_pk = kpk, h_kem_ct = kct\<rparr>"
  have "encrypt C R pt a = (after_send C R k a, Inr (hdr @ ct))"
    using k adv enc ct(1)
    by (simp add: encrypt_def open_chain_noop mk_def nxt_def hdr_def case_prod_beta Let_def)
  moreover have "parse_header (hdr @ ct) = Inr (h, ct)"
    unfolding hdr_def h_def using parse_build_header[OF fields] ct(2) by simp
  moreover have "open_aead C b (header_part (hdr @ ct) ct) ct (h_kem_ct h) mk = Inr pt"
    using cand[OF ct(3)] sid(1) by (simp add: open_aead_def h_def)
  ultimately show ?thesis
    by (intro that[of "hdr @ ct" h ct]) (simp_all add: h_def kpk_def mk_def)
qed

text \<open>Before the responder has received anything it cannot send.\<close>

lemma encrypt_no_chain:
  "ck_s s = None \<Longrightarrow> dh_r s = None \<Longrightarrow> encrypt C R pt s = (s, Inl NoState)"
  by (simp add: encrypt_def open_send_chain_def)


section \<open>Agreement of two sessions\<close>

definition dh_pair :: "crypto \<Rightarrow> bytes \<times> bytes \<Rightarrow> bool" where
  "dh_pair C p \<longleftrightarrow> fst p = c_x25519_base C (snd p)"

text \<open>The responder as it will be once it has seen the initiator's first header.\<close>

definition awake :: "crypto \<Rightarrow> bytes \<Rightarrow> session \<Rightarrow> session" where
  "awake C peer s = (if initialized s then s else fst (derive_initial_receive_chain C peer s))"

lemma derive_initial_ok:
  "derive_initial_receive_chain C peer s = (fst (derive_initial_receive_chain C peer s), Inr ())"
  by (simp add: derive_initial_receive_chain_def x25519_shared_def case_prod_beta Let_def)

lemma awake_simps [simp]:
  "session_id (awake C p s) = session_id s" "dh_s (awake C p s) = dh_s s"
  "ck_s (awake C p s) = ck_s s" "pn (awake C p s) = pn s" "n_s (awake C p s) = n_s s"
  "kem_advertised (awake C p s) = kem_advertised s" "kem_peer (awake C p s) = kem_peer s"
  "skipped (awake C p s) = skipped s" "initialized (awake C p s)"
  by (simp_all add: awake_def derive_initial_receive_chain_def x25519_shared_def case_prod_beta Let_def)

lemma awake_id [simp]: "initialized s \<Longrightarrow> awake C p s = s"
  by (simp add: awake_def)

lemma decrypt_awake:
  assumes "parse_header pkg = Inr (h, ct)" and "bt_get (skipped s) (SkipKey (h_dh h) (h_n h)) = None"
  shows "decrypt C pkg s = decrypt C pkg (awake C (h_dh h) s)"
proof (cases "initialized s")
  case True
  then show ?thesis by simp
next
  case False
  then have "decrypt C pkg s = sbind (derive_initial_receive_chain C (h_dh h) s) (\<lambda>_ s1.
      sbind (select_chain C h s1) (\<lambda>_ s2. receive_in_order C h (header_part pkg ct) ct s2))"
    using assms by (simp add: decrypt_def header_part_def)
  also have "derive_initial_receive_chain C (h_dh h) s = (awake C (h_dh h) s, Inr ())"
    using False by (subst derive_initial_ok) (simp add: awake_def)
  finally show ?thesis
    using assms decrypt_fresh[OF assms(1), of "awake C (h_dh h) s"] by simp
qed

definition has_floor :: "crypto \<Rightarrow> session \<Rightarrow> session \<Rightarrow> bool" where
  "has_floor C a b \<longleftrightarrow>
     (let b' = awake C (fst (dh_s a)) b in
      initialized a \<and> session_id b = session_id a \<and> length (session_id a) = 32 \<and>
      skipped a = [] \<and> skipped b = [] \<and> dh_pair C (dh_s a) \<and> dh_pair C (dh_s b) \<and>
      dh_r a = Some (fst (dh_s b)) \<and> ck_s a \<noteq> None \<and> ck_r b' = ck_s a \<and> n_r b' = n_s a \<and>
      dh_r b' = Some (fst (dh_s a)) \<and> rk b' = rk a \<and> ck_s b = None \<and> pn b = n_r a \<and>
      kem_link C a b \<and> kem_link C b a)"

lemma floor_len: "dh_ok C \<Longrightarrow> dh_pair C p \<Longrightarrow> length (fst p) = 32"
  by (simp add: dh_pair_def dh_len)

lemma kem_link_learned:
  assumes "kem_link C b a" and "kem_advertised a' = kem_advertised (after_send C R k a)"
    and "kem_peer b' = (case sent_kem_pk C R a of None \<Rightarrow> kem_peer b | Some x \<Rightarrow> Some x)"
  shows "kem_link C b' a'"
proof (cases "advertise_kem_next a")
  case True
  then show ?thesis
    using assms(2,3)
    by (auto simp: kem_link_def after_send_advertised sent_kem_pk_def valid_kem_pair_def)
next
  case False
  then show ?thesis
    using assms by (simp add: kem_link_def after_send_advertised sent_kem_pk_def)
qed

text \<open>The side that has the floor sends, the other receives.\<close>

lemma floor_same:
  assumes C: "crypto_ok C" and f: "has_floor C a b" and pt: "length pt \<le> aead_max"
  obtains a' pkg b' where "encrypt C R pt a = (a', Inr pkg)" "decrypt C pkg b = (b', Inr pt)"
    "has_floor C a' b'" "initialized b'" "dh_s a' = dh_s a" "dh_s b' = dh_s b"
proof -
  define w where "w = awake C (fst (dh_s a)) b"
  obtain k where k: "ck_s a = Some k" "ck_r w = Some k"
    using f by (auto simp: has_floor_def Let_def w_def)
  have len: "length (fst (dh_s a)) = 32"
    using f C floor_len[of C "dh_s a"] by (simp add: has_floor_def Let_def crypto_ok_def)
  have link: "kem_link C a b" "session_id b = session_id a" "length (session_id a) = 32"
    using f by (simp_all add: has_floor_def Let_def)
  obtain pkg h ct where enc: "encrypt C R pt a = (after_send C R k a, Inr pkg)"
    and h: "parse_header pkg = Inr (h, ct)" "h_dh h = fst (dh_s a)" "h_n h = n_s a" "h_pn h = pn a"
      "h_kem_pk h = sent_kem_pk C R a"
    and op: "open_aead C b (header_part pkg ct) ct (h_kem_ct h) (fst (chain_step C k)) = Inr pt"
    using encrypt_open[OF C k(1) link len pt] by metis
  have wf: "dh_r w = Some (h_dh h)" "n_r w = h_n h" "skipped w = []" "initialized w"
    using f h by (simp_all add: has_floor_def Let_def w_def)
  have sel: "select_chain C h w = (w, Inr ())" using wf by (simp add: select_chain_def)
  have "open_aead C w = open_aead C b" by (rule open_aead_cong) (simp_all add: w_def)
  then have rcv: "receive_in_order C h (header_part pkg ct) ct w =
      (w\<lparr>ck_r := Some (snd (chain_step C k)), n_r := n_r w + 1,
         kem_peer := (case h_kem_pk h of None \<Rightarrow> kem_peer w | Some x \<Rightarrow> Some x)\<rparr>, Inr pt)"
    using receive_ok[OF k(2)] op by simp
  define b' where "b' = w\<lparr>ck_r := Some (snd (chain_step C k)), n_r := n_r w + 1,
         kem_peer := (case h_kem_pk h of None \<Rightarrow> kem_peer w | Some x \<Rightarrow> Some x)\<rparr>"
  have "decrypt C pkg b = decrypt C pkg w"
    using decrypt_awake[OF h(1), of b C] f h(2) by (simp add: has_floor_def Let_def w_def)
  also have "\<dots> = (b', Inr pt)"
    using decrypt_fresh[OF h(1), of w C] wf sel rcv by (simp add: b'_def)
  finally have dec: "decrypt C pkg b = (b', Inr pt)" .
  have klb: "kem_link C b' (after_send C R k a)"
    by (rule kem_link_learned[of C b a])
      (use f h(5) in \<open>simp_all add: has_floor_def Let_def b'_def w_def cong: option.case_cong\<close>)
  have klf: "kem_link C (after_send C R k a) b'"
    using link(1) by (simp add: kem_link_def b'_def w_def)
  have "has_floor C (after_send C R k a) b'"
    using f klb klf wf(4) unfolding has_floor_def Let_def w_def[symmetric]
    by (simp add: b'_def) (simp add: w_def)
  with enc dec wf(4) show ?thesis
    by (intro that[of "after_send C R k a" pkg b']) (simp_all add: b'_def w_def)
qed

text \<open>The other side answers: it opens a new chain and takes the floor.\<close>

lemma floor_turn:
  assumes C: "crypto_ok C" and f: "has_floor C a b" and init: "initialized b"
    and fresh: "c_x25519_base C (e_dh R) \<noteq> fst (dh_s b)" and pt: "length pt \<le> aead_max"
  obtains b' pkg a' where "encrypt C R pt b = (b', Inr pkg)" "decrypt C pkg a = (a', Inr pt)"
    "has_floor C b' a'" "initialized a'" "initialized b'"
    "dh_s b' = x25519_keypair C (e_dh R)" "dh_s a' = dh_s a"
proof -
  have ok: "hmac_ok C" "dh_ok C" "kem_ok C" using C by (simp_all add: crypto_ok_def)
  define np where "np = x25519_keypair C (e_dh R)"
  define dh where "dh = c_x25519 C (snd np) (fst (dh_s a))"
  define k where "k = snd (root_step C (rk a) dh)"
  define b1 where "b1 = b\<lparr>dh_s := np, advertise_kem_next := True,
     rk := fst (root_step C (rk a) dh), ck_s := Some k, n_s := 0\<rparr>"
  have b: "ck_s b = None" "dh_r b = Some (fst (dh_s a))" "rk b = rk a" "pn b = n_r a" "skipped b = []"
    using f init by (simp_all add: has_floor_def Let_def)
  have opened: "open_send_chain C (e_dh R) b = b1"
    using b by (simp add: open_send_chain_def x25519_shared_def b1_def np_def dh_def k_def
        case_prod_beta Let_def)
  have enc1: "encrypt C R pt b = encrypt C R pt b1"
    using opened open_chain_noop[of b1] by (simp add: encrypt_def b1_def)
  have np: "dh_pair C np" "length (fst np) = 32"
    using ok(2) by (simp_all add: np_def dh_pair_def x25519_keypair_def dh_len)
  have link: "kem_link C b1 a" "session_id a = session_id b1" "length (session_id b1) = 32"
    using f by (simp_all add: has_floor_def Let_def b1_def kem_link_def)
  have "ck_s b1 = Some k" "length (fst (dh_s b1)) = 32" using np by (simp_all add: b1_def)
  then obtain pkg h ct where enc: "encrypt C R pt b1 = (after_send C R k b1, Inr pkg)"
    and h: "parse_header pkg = Inr (h, ct)" "h_dh h = fst np" "h_n h = 0" "h_pn h = n_r a"
      "h_kem_pk h = sent_kem_pk C R b1"
    and op: "open_aead C a (header_part pkg ct) ct (h_kem_ct h) (fst (chain_step C k)) = Inr pt"
    using encrypt_open[OF C _ link _ pt, of k R] b(4) by (auto simp: b1_def)
  have a: "skipped a = []" "initialized a" "dh_r a = Some (fst (dh_s b))" "dh_pair C (dh_s a)"
    using f by (simp_all add: has_floor_def Let_def)
  have "c_x25519 C (snd (dh_s a)) (fst np) = dh"
    using dh_commute[OF ok(2)] a(4) np(1) by (simp add: dh_def dh_pair_def)
  define a1 where "a1 = a\<lparr>rk := rk b1, ck_r := Some k, n_r := 0, dh_r := Some (fst np),
     pn := n_s a, ck_s := None\<rparr>"
  have rat: "ratchet C (fst np) a = (a1, Inr ())"
    using \<open>c_x25519 C (snd (dh_s a)) (fst np) = dh\<close>
    by (simp add: ratchet_def x25519_shared_def a1_def b1_def k_def case_prod_beta Let_def)
  have "fst np \<noteq> fst (dh_s b)" using fresh by (simp add: np_def x25519_keypair_def)
  then have sel: "select_chain C h a = (a1, Inr ())"
    using a(3) h rat by (auto simp: select_chain_def skip_to_noop)
  have "open_aead C a1 = open_aead C a" by (rule open_aead_cong) (simp_all add: a1_def)
  then have rcv: "receive_in_order C h (header_part pkg ct) ct a1 =
      (a1\<lparr>ck_r := Some (snd (chain_step C k)), n_r := n_r a1 + 1,
         kem_peer := (case h_kem_pk h of None \<Rightarrow> kem_peer a1 | Some x \<Rightarrow> Some x)\<rparr>, Inr pt)"
    using receive_ok[of a1 k] op by (simp add: a1_def)
  define a' where "a' = a1\<lparr>ck_r := Some (snd (chain_step C k)), n_r := n_r a1 + 1,
         kem_peer := (case h_kem_pk h of None \<Rightarrow> kem_peer a1 | Some x \<Rightarrow> Some x)\<rparr>"
  have dec: "decrypt C pkg a = (a', Inr pt)"
    using decrypt_fresh[OF h(1), of a C] a sel rcv by (simp add: a'_def)
  have klb: "kem_link C a' (after_send C R k b1)"
    by (rule kem_link_learned[of C a b1])
      (use f h(5) in \<open>simp_all add: has_floor_def Let_def a'_def a1_def b1_def kem_link_def cong: option.case_cong\<close>)
  have klf: "kem_link C (after_send C R k b1) a'"
    using link(1) by (simp add: kem_link_def a'_def a1_def)
  have nr: "n_r b = n_s a" using f init by (simp add: has_floor_def Let_def)
  have "has_floor C (after_send C R k b1) a'"
    using klb klf a b np(1) link init nr
    unfolding has_floor_def Let_def
    by (simp add: a'_def a1_def) (simp add: b1_def)
  with enc enc1 dec a(2) init show ?thesis
    by (intro that[of "after_send C R k b1" pkg a']) (simp_all add: a'_def a1_def b1_def np_def)
qed


section \<open>Conversations\<close>

text \<open>
  One turn: who sends (\<open>True\<close> is the initiator), what, and with which randomness. The package is
  handed to the other side, whose result is the result of the turn.
\<close>

type_synonym turn = "bool \<times> bytes \<times> enc_rand"

definition send_recv ::
    "crypto \<Rightarrow> enc_rand \<Rightarrow> bytes \<Rightarrow> session \<Rightarrow> session \<Rightarrow> session \<times> session \<times> (decrypt_error + bytes)" where
  "send_recv C R pt a b =
     (case encrypt C R pt a of
        (a', Inl e) \<Rightarrow> (a', b, Inl e)
      | (a', Inr pkg) \<Rightarrow> (let (b', r) = decrypt C pkg b in (a', b', r)))"

fun conv_run :: "crypto \<Rightarrow> turn list \<Rightarrow> session \<Rightarrow> session \<Rightarrow> (decrypt_error + bytes) list" where
  "conv_run C [] a b = []"
| "conv_run C ((who, pt, R) # ts) a b =
     (if who then (let (a', b', r) = send_recv C R pt a b in r # conv_run C ts a' b')
      else (let (b', a', r) = send_recv C R pt b a in r # conv_run C ts a' b'))"

text \<open>The two sessions after a conversation.\<close>

fun conv_end :: "crypto \<Rightarrow> turn list \<Rightarrow> session \<Rightarrow> session \<Rightarrow> session \<times> session" where
  "conv_end C [] a b = (a, b)"
| "conv_end C ((who, pt, R) # ts) a b =
     (if who then (let (a', b', r) = send_recv C R pt a b in conv_end C ts a' b')
      else (let (b', a', r) = send_recv C R pt b a in conv_end C ts a' b'))"

definition conv_ok :: "crypto \<Rightarrow> turn list \<Rightarrow> bytes list \<Rightarrow> bool" where
  "conv_ok C ts pubs \<longleftrightarrow>
     (\<forall>(who, pt, R) \<in> set ts. length pt \<le> aead_max) \<and>
     distinct (pubs @ map (\<lambda>(who, pt, R). c_x25519_base C (e_dh R)) ts)"

text \<open>Either side may have the floor; the other one has already been heard from.\<close>

definition in_step :: "crypto \<Rightarrow> session \<Rightarrow> session \<Rightarrow> bool" where
  "in_step C a b \<longleftrightarrow> has_floor C a b \<and> initialized b \<or> has_floor C b a \<and> initialized a"

lemma floor_sends:
  assumes C: "crypto_ok C" and f: "in_step C a b" and pt: "length pt \<le> aead_max"
    and fresh: "c_x25519_base C (e_dh R) \<notin> {fst (dh_s a), fst (dh_s b)}"
  obtains a' b' where "send_recv C R pt a b = (a', b', Inr pt)" "has_floor C a' b'" "initialized b'"
    "fst (dh_s a') \<in> {fst (dh_s a), c_x25519_base C (e_dh R)}" "dh_s b' = dh_s b"
proof (cases "has_floor C a b \<and> initialized b")
  case True
  then obtain a' pkg b' where "encrypt C R pt a = (a', Inr pkg)" "decrypt C pkg b = (b', Inr pt)"
    "has_floor C a' b'" "initialized b'" "dh_s a' = dh_s a" "dh_s b' = dh_s b"
    using floor_same[OF C _ pt] by metis
  then show ?thesis
    by (intro that[of a' b']) (simp_all add: send_recv_def)
next
  case False
  then have f': "has_floor C b a" "initialized a" using f by (auto simp: in_step_def)
  obtain a' pkg b' where t: "encrypt C R pt a = (a', Inr pkg)" "decrypt C pkg b = (b', Inr pt)"
    "has_floor C a' b'" "initialized b'" "initialized a'"
    "dh_s a' = x25519_keypair C (e_dh R)" "dh_s b' = dh_s b"
    by (rule floor_turn[OF C f' _ pt, of R]) (use fresh in auto)
  then show ?thesis
    by (intro that[of a' b']) (simp_all add: send_recv_def x25519_keypair_def)
qed

text \<open>Sending counts at most one message, receiving none.\<close>

lemma encrypt_counter: "unat (n_s (fst (encrypt C R pt s))) \<le> Suc (unat (n_s s))"
proof -
  have inc: "unat (n + 1) \<le> Suc (unat n)" for n :: u32 by (simp add: unat_word_ariths)
  have "unat (n_s (open_send_chain C (e_dh R) s)) \<le> unat (n_s s)"
    by (auto simp: open_send_chain_def case_prod_beta Let_def split: option.split sum.split)
  moreover have "n_s (fst (advertise_kem C k s')) = n_s s'" for k s'
    by (simp add: advertise_kem_def case_prod_beta Let_def)
  ultimately show ?thesis
    using inc[of "n_s (open_send_chain C (e_dh R) s)"]
    by (auto simp: encrypt_def case_prod_beta Let_def split: option.split sum.split)
qed

lemma sbind_counter:
  "n_s (fst m) = k \<Longrightarrow> (\<And>x s. n_s (fst (f x s)) = n_s s) \<Longrightarrow> n_s (fst (sbind m f)) = k"
  by (cases "(m, f)" rule: sbind.cases) auto

lemma decrypt_counter: "n_s (fst (decrypt C pkg s)) = n_s s"
proof -
  have loop: "n_s (snd (skip_loop C dh until ck s)) = n_s s" for dh until ck s
    by (induction C dh until ck s rule: skip_loop.induct)
      (subst skip_loop.simps, simp add: case_prod_beta Let_def del: skip_loop.simps)
  have skip: "n_s (fst (skip_to C until s)) = n_s s" for until s
    using loop by (auto simp: skip_to_def case_prod_beta Let_def split: option.split)
  have rat: "n_s (fst (ratchet C p s)) = n_s s" for p s
    by (auto simp: ratchet_def case_prod_beta Let_def split: sum.split)
  have sel: "n_s (fst (select_chain C h s)) = n_s s" for h s
    using skip by (auto simp: select_chain_def Let_def rat intro!: sbind_counter split: option.split)
  have ini: "n_s (fst (derive_initial_receive_chain C p s)) = n_s s" for p s
    by (auto simp: derive_initial_receive_chain_def case_prod_beta Let_def split: sum.split)
  have rcv: "n_s (fst (receive_in_order C h hdr ct s)) = n_s s" for h hdr ct s
    by (auto simp: receive_in_order_def case_prod_beta Let_def split: sum.split option.split)
  show ?thesis
    by (auto simp: decrypt_def case_prod_beta Let_def sel ini rcv intro!: sbind_counter split: sum.split option.split)
qed

lemma send_recv_counters:
  assumes "send_recv C R pt a b = (a', b', r)"
  shows "unat (n_s a') \<le> Suc (unat (n_s a))" "n_s b' = n_s b"
  using assms encrypt_counter[of C R pt a] decrypt_counter[of C _ b]
  by (auto simp: send_recv_def case_prod_beta Let_def split: prod.splits sum.splits) (metis fst_conv)+

text \<open>Who has the floor after a conversation: the side that spoke last.\<close>

definition floor_of :: "crypto \<Rightarrow> bool \<Rightarrow> nat \<Rightarrow> session \<times> session \<Rightarrow> bool" where
  "floor_of C who n ab \<longleftrightarrow> (let (s, r) = if who then ab else prod.swap ab in
     has_floor C s r \<and> initialized r \<and> unat (n_s s) \<le> n \<and> unat (n_s r) \<le> n)"

lemma conv_in_step:
  assumes C: "crypto_ok C" and "floor_of C who n (a, b)" "conv_ok C ts pubs"
    and "fst (dh_s a) \<in> set pubs" "fst (dh_s b) \<in> set pubs"
  shows "conv_run C ts a b = map (\<lambda>(who, pt, R). Inr pt) ts \<and>
    floor_of C (last (who # map fst ts)) (n + length ts) (conv_end C ts a b)"
  using assms(2-)
proof (induction ts arbitrary: who n a b pubs)
  case Nil
  then show ?case by simp
next
  case (Cons t ts)
  obtain w pt R where t: "t = (w, pt, R)" by (cases t)
  let ?p = "c_x25519_base C (e_dh R)"
  have pt: "length pt \<le> aead_max" and ok: "conv_ok C ts (pubs @ [?p])"
    and fresh: "?p \<notin> set pubs"
    using Cons.prems(2) by (auto simp: conv_ok_def t)
  have sym: "in_step C a b" "in_step C b a" and n: "unat (n_s a) \<le> n" "unat (n_s b) \<le> n"
    using Cons.prems(1) by (auto simp: in_step_def floor_of_def Let_def split: if_splits)
  have fr: "?p \<notin> {fst (dh_s a), fst (dh_s b)}" "?p \<notin> {fst (dh_s b), fst (dh_s a)}"
    using fresh Cons.prems(3,4) by auto
  show ?case
  proof (cases w)
    case True
    obtain a' b' where s: "send_recv C R pt a b = (a', b', Inr pt)" "has_floor C a' b'" "initialized b'"
      "fst (dh_s a') \<in> {fst (dh_s a), ?p}" "dh_s b' = dh_s b"
      using floor_sends[OF C sym(1) pt fr(1)] by metis
    have "floor_of C w (Suc n) (a', b')"
      using s(2,3) send_recv_counters[OF s(1)] n True by (simp add: floor_of_def)
    from Cons.IH[OF this ok] show ?thesis using s(1,4,5) Cons.prems(3,4) by (auto simp: t True)
  next
    case False
    obtain b' a' where s: "send_recv C R pt b a = (b', a', Inr pt)" "has_floor C b' a'" "initialized a'"
      "fst (dh_s b') \<in> {fst (dh_s b), ?p}" "dh_s a' = dh_s a"
      using floor_sends[OF C sym(2) pt fr(2)] by metis
    have "floor_of C w (Suc n) (a', b')"
      using s(2,3) send_recv_counters[OF s(1)] n False by (simp add: floor_of_def)
    from Cons.IH[OF this ok] show ?thesis using s(1,4,5) Cons.prems(3,4) by (auto simp: t False)
  qed
qed

text \<open>How the application starts the two sides from one bootstrap.\<close>

definition matching_starts :: "crypto \<Rightarrow> session_start \<Rightarrow> session_start \<Rightarrow> bool" where
  "matching_starts C sa sb \<longleftrightarrow>
     st_root sb = st_root sa \<and> st_session_id sb = st_session_id sa \<and>
     length (st_session_id sa) = 32 \<and> st_peer_dh sa = Some (fst (st_our_dh sb)) \<and>
     dh_pair C (st_our_dh sa) \<and> dh_pair C (st_our_dh sb) \<and>
     (case st_our_kem sa of None \<Rightarrow> True | Some (pk, sk) \<Rightarrow> valid_kem_pair C pk sk)"

lemma start_floor:
  assumes C: "crypto_ok C" and m: "matching_starts C sa sb"
  obtains a where "start_alice C sa = Some a" "has_floor C a (start_bob C rnd sb)"
    "dh_s a = st_our_dh sa" "dh_s (start_bob C rnd sb) = st_our_dh sb"
proof -
  let ?b = "start_bob C rnd sb"
  have dh: "c_x25519 C (snd (st_our_dh sb)) (fst (st_our_dh sa)) =
      c_x25519 C (snd (st_our_dh sa)) (fst (st_our_dh sb))"
    using m C by (simp add: matching_starts_def dh_pair_def crypto_ok_def dh_commute)
  obtain a where a: "start_alice C sa = Some a"
    and fields: "session_id a = st_session_id sa" "dh_s a = st_our_dh sa" "dh_r a = st_peer_dh sa"
      "rk a = fst (root_step C (st_root sa) (c_x25519 C (snd (st_our_dh sa)) (fst (st_our_dh sb))))"
      "ck_s a = Some (snd (root_step C (st_root sa)
          (c_x25519 C (snd (st_our_dh sa)) (fst (st_our_dh sb)))))"
      "n_s a = 0" "n_r a = 0" "pn a = 0" "kem_peer a = None" "skipped a = []" "initialized a"
    using m by (auto simp: start_alice_def matching_starts_def x25519_shared_def case_prod_beta
        Let_def split: option.split)
  have bf: "session_id ?b = st_session_id sb" "dh_s ?b = st_our_dh sb" "kem_peer ?b = None"
    "ck_s ?b = None" "pn ?b = 0" "skipped ?b = []" "\<not> initialized ?b" "rk ?b = st_root sb"
    by (simp_all add: start_bob_def case_prod_beta Let_def)
  have aw: "awake C p ?b = ?b\<lparr>rk := fst (root_step C (st_root sb) (c_x25519 C (snd (st_our_dh sb)) p)),
      ck_r := Some (snd (root_step C (st_root sb) (c_x25519 C (snd (st_our_dh sb)) p))),
      n_r := 0, dh_r := Some p, initialized := True\<rparr>" for p
    using bf by (simp add: awake_def derive_initial_receive_chain_def x25519_shared_def
        case_prod_beta Let_def)
  have "has_floor C a ?b"
    using m fields bf dh by (simp add: has_floor_def aw matching_starts_def kem_link_def)
  with a fields bf show ?thesis by (intro that[of a]) simp_all
qed

text \<open>
  Whatever the turn-taking after the initiator's first message, every message of the
  conversation decrypts to what was sent, and the side that spoke last has the floor.
\<close>

lemma conversation_end:
  assumes C: "crypto_ok C" and m: "matching_starts C sa sb"
    and ok: "conv_ok C ts [fst (st_our_dh sa), fst (st_our_dh sb)]" and first: "ts \<noteq> [] \<longrightarrow> fst (hd ts)"
  obtains a where "start_alice C sa = Some a"
    "conv_run C ts a (start_bob C rnd sb) = map (\<lambda>(who, pt, R). Inr pt) ts"
    "ts = [] \<longrightarrow> has_floor C a (start_bob C rnd sb)"
    "ts \<noteq> [] \<longrightarrow> floor_of C (fst (last ts)) (unat (n_s a) + length ts) (conv_end C ts a (start_bob C rnd sb))"
proof -
  let ?b = "start_bob C rnd sb"
  obtain a where a: "start_alice C sa = Some a" "has_floor C a ?b"
    "dh_s a = st_our_dh sa" "dh_s ?b = st_our_dh sb"
    by (rule start_floor[OF C m])
  show ?thesis
  proof (cases ts)
    case Nil
    then show ?thesis using a by (intro that[of a]) simp_all
  next
    case (Cons t us)
    then obtain pt R where t: "t = (True, pt, R)" using first by (cases t) auto
    have pt: "length pt \<le> aead_max" using ok by (simp add: conv_ok_def Cons t)
    obtain a' pkg b' where s: "encrypt C R pt a = (a', Inr pkg)"
      "decrypt C pkg ?b = (b', Inr pt)" "has_floor C a' b'" "initialized b'"
      "dh_s a' = dh_s a" "dh_s b' = dh_s ?b"
      using floor_same[OF C a(2) pt] by metis
    have sr: "send_recv C R pt a ?b = (a', b', Inr pt)" using s by (simp add: send_recv_def)
    have "n_s ?b = 0" by (simp add: start_bob_def case_prod_beta Let_def)
    then have "floor_of C True (Suc (unat (n_s a))) (a', b')"
      using s(3,4) send_recv_counters[OF sr] by (simp add: floor_of_def)
    from conv_in_step[OF C this, of us "[fst (st_our_dh sa), fst (st_our_dh sb)]"]
    have "conv_run C us a' b' = map (\<lambda>(who, pt, R). Inr pt) us \<and>
        floor_of C (last (True # map fst us)) (Suc (unat (n_s a)) + length us) (conv_end C us a' b')"
      using s a ok by (auto simp: conv_ok_def Cons t)
    then show ?thesis using a(1) sr
      by (intro that[of a]) (simp_all add: Cons t last_map split: if_splits)
  qed
qed

lemma conversation:
  assumes "crypto_ok C" "matching_starts C sa sb"
    and "conv_ok C ((True, pt, R) # ts) [fst (st_our_dh sa), fst (st_our_dh sb)]"
  shows "\<exists>a. start_alice C sa = Some a \<and>
    conv_run C ((True, pt, R) # ts) a (start_bob C rnd sb) =
      map (\<lambda>(who, pt, R). Inr pt) ((True, pt, R) # ts)"
  using conversation_end[OF assms, of rnd] by (metis fst_conv list.sel(1))

end
