(* ===== verification/Ratchet_Burst.thy ===== *)
theory Ratchet_Burst
  imports Ratchet_Conv
begin

text \<open>
  A burst: the side that has the floor sends a run of messages on its open chain, and the
  packages reach the other side in any order, some of them never, some several times. This
  joins the sending side (\<open>Ratchet_Conv\<close>) with the refinement of the receiving side
  (\<open>Ratchet_Recv\<close>).
\<close>

primrec encrypt_run ::
    "crypto \<Rightarrow> (bytes \<times> enc_rand) list \<Rightarrow> session \<Rightarrow> session \<times> (decrypt_error + bytes) list" where
  "encrypt_run C [] s = (s, [])"
| "encrypt_run C (m # ms) s =
     (let (s1, r) = encrypt C (snd m) (fst m) s; (s2, rs) = encrypt_run C ms s1 in (s2, r # rs))"

text \<open>The chain of a sending session, as the receiver sees it from now on.\<close>

definition chain_of :: "session \<Rightarrow> bytes \<Rightarrow> chain" where
  "chain_of a k = \<lparr>ch_dh = fst (dh_s a), ch_ck = k, ch_base = unat (n_s a)\<rparr>"

text \<open>What one session must agree on with its peer for its open chain to be readable.\<close>

definition can_send :: "crypto \<Rightarrow> bytes \<Rightarrow> nat \<Rightarrow> session \<Rightarrow> session \<Rightarrow> bool" where
  "can_send C k i a b \<longleftrightarrow>
     ck_s a = Some (chain_key C k i) \<and> kem_link C a b \<and> session_id b = session_id a \<and>
     length (session_id a) = 32 \<and> length (fst (dh_s a)) = 32"

lemma can_send_after:
  "can_send C k i a b \<Longrightarrow> can_send C k (Suc i) (after_send C R (chain_key C k i) a) b"
  by (simp add: can_send_def kem_link_def)

lemma encrypt_run_genuine:
  assumes C: "crypto_ok C"
    and "can_send C k i a b" "ch_ck ch = k" "ch_dh ch = fst (dh_s a)" "unat (n_s a) = ch_base ch + i"
    and "ch_base ch + i + length ms < 2 ^ 32" "\<forall>m\<in>set ms. length (fst m) \<le> aead_max"
  shows "\<exists>a' pkgs. encrypt_run C ms a = (a', map Inr pkgs) \<and> length pkgs = length ms \<and>
    (\<forall>j < length ms. genuine C b ch (pkgs ! j) (ch_base ch + i + j) (fst (ms ! j)))"
  using assms(2-)
proof (induction ms arbitrary: a i)
  case Nil
  then show ?case by simp
next
  case (Cons m ms)
  let ?k = "chain_key C k i"
  let ?a = "after_send C (snd m) ?k a"
  have snd: "ck_s a = Some ?k" "kem_link C a b" "session_id b = session_id a"
    "length (session_id a) = 32" "length (fst (dh_s a)) = 32" "length (fst m) \<le> aead_max"
    using Cons.prems by (simp_all add: can_send_def)
  obtain pkg h ct where e: "encrypt C (snd m) (fst m) a = (?a, Inr pkg)"
    and h: "parse_header pkg = Inr (h, ct)" "h_dh h = fst (dh_s a)" "h_n h = n_s a"
    and op: "open_aead C b (header_part pkg ct) ct (h_kem_ct h) (fst (chain_step C ?k)) = Inr (fst m)"
    using encrypt_open[OF C snd, of "snd m"] by metis
  have "unat (n_s a + 1) = Suc (unat (n_s a))"
    using Cons.prems(4,5) by (simp add: unat_add_of_nat[of "n_s a" 1, simplified])
  then have next_n: "unat (n_s ?a) = ch_base ch + Suc i" using Cons.prems(4) by simp
  obtain a' pkgs where run: "encrypt_run C ms ?a = (a', map Inr pkgs)" "length pkgs = length ms"
    and gen: "\<forall>j < length ms. genuine C b ch (pkgs ! j) (ch_base ch + Suc i + j) (fst (ms ! j))"
    using Cons.IH[OF can_send_after[OF Cons.prems(1)] Cons.prems(2) _ next_n] Cons.prems by auto
  have first: "genuine C b ch pkg (ch_base ch + i) (fst m)"
    using h op Cons.prems(2-4) by (auto simp: genuine_def chain_msg_key_def msg_key_def)
  have "genuine C b ch ((pkg # pkgs) ! j) (ch_base ch + i + j) (fst ((m # ms) ! j))"
    if "j < length (m # ms)" for j
    using that first gen by (cases j) auto
  with e run show ?case
    by (intro exI[of _ a'] exI[of _ "pkg # pkgs"]) simp
qed

lemma floor_rx_rel:
  assumes "has_floor C a b" "ck_s a = Some k"
  shows "rx_rel C (chain_of a k) 0 \<lparr>rx_next = unat (n_s a), rx_missing = {}\<rparr> (awake C (fst (dh_s a)) b)"
  using assms by (simp add: has_floor_def Let_def rx_rel_def chain_of_def MAX_SKIPPED_TOTAL_def)

lemma first_arrivals_shift:
  "first_arrivals (map (\<lambda>i. base + i) ns) ((\<lambda>i. base + i) ` D) = first_arrivals ns D" for base :: nat
proof (induction ns arbitrary: D)
  case Nil
  then show ?case by simp
next
  case (Cons n ns)
  have "insert (base + n) ((\<lambda>i. base + i) ` D) = (\<lambda>i. base + i) ` insert n D" by simp
  with Cons[of "insert n D"] show ?case by (simp add: inj_image_mem_iff del: image_insert)
qed

lemma decrypt_run_awake:
  assumes "parse_header pkg = Inr (h, ct)" "skipped s = []" "h_dh h = p"
  shows "decrypt_run C (pkg # pkgs) s = decrypt_run C (pkg # pkgs) (awake C p s)"
  using decrypt_awake[OF assms(1), of s C] assms(2,3) by simp

lemma burst:
  assumes C: "crypto_ok C" and f: "has_floor C a b"
    and ms: "length ms \<le> 1001" "\<forall>m\<in>set ms. length (fst m) \<le> aead_max"
    and room: "unat (n_s a) + 1001 < 2 ^ 32" and idx: "\<forall>i\<in>set arr. i < length ms"
  shows "\<exists>a' pkgs. encrypt_run C ms a = (a', map Inr pkgs) \<and> length pkgs = length ms \<and>
    snd (decrypt_run C (map (\<lambda>i. pkgs ! i) arr) b) =
      map2 result_of (first_arrivals arr {}) (map (\<lambda>i. fst (ms ! i)) arr)"
proof -
  define w where "w = awake C (fst (dh_s a)) b"
  obtain k where k: "ck_s a = Some k" using f by (auto simp: has_floor_def Let_def)
  let ?ch = "chain_of a k"
  have "length (fst (dh_s a)) = 32"
    using f C floor_len[of C "dh_s a"] by (simp add: has_floor_def Let_def crypto_ok_def)
  then have "can_send C k 0 a b"
    using f k by (simp add: can_send_def has_floor_def Let_def)
  then have "\<exists>a' pkgs. encrypt_run C ms a = (a', map Inr pkgs) \<and> length pkgs = length ms \<and>
    (\<forall>j < length ms. genuine C b ?ch (pkgs ! j) (ch_base ?ch + 0 + j) (fst (ms ! j)))"
    by (rule encrypt_run_genuine[OF C]) (use ms room in \<open>simp_all add: chain_of_def\<close>)
  then obtain a' pkgs where run: "encrypt_run C ms a = (a', map Inr pkgs)" "length pkgs = length ms"
    and gen: "\<forall>j < length ms. genuine C b ?ch (pkgs ! j) (unat (n_s a) + j) (fst (ms ! j))"
    by (auto simp only: chain_of_def chain.simps add_0_right)
  define tr where "tr = map (\<lambda>i. (pkgs ! i, unat (n_s a) + i, fst (ms ! i))) arr"
  have "same_opener b w" by (simp add: same_opener_def w_def)
  then have "\<forall>(pkg, n, pt)\<in>set tr. genuine C w ?ch pkg n pt \<and> n \<le> ch_base ?ch + 1000"
    using gen idx ms(1) by (auto simp: tr_def genuine_opener chain_of_def dest!: bspec)
  then have "snd (decrypt_run C (map fst tr) w) =
      map2 result_of (first_arrivals (map (fst \<circ> snd) tr) {}) (map (snd \<circ> snd) tr)"
    using any_order_once[of C ?ch 0 w tr] floor_rx_rel[OF f k] room by (simp add: w_def chain_of_def)
  also have "map (snd \<circ> snd) tr = map (\<lambda>i. fst (ms ! i)) arr" by (simp add: tr_def comp_def)
  also have "first_arrivals (map (fst \<circ> snd) tr) {} = first_arrivals arr {}"
    using first_arrivals_shift[of "unat (n_s a)" arr "{}"] by (simp add: tr_def comp_def)
  also have "map fst tr = map (\<lambda>i. pkgs ! i) arr" by (simp add: tr_def comp_def)
  finally have res: "snd (decrypt_run C (map (\<lambda>i. pkgs ! i) arr) w) =
      map2 result_of (first_arrivals arr {}) (map (\<lambda>i. fst (ms ! i)) arr)" .
  have "snd (decrypt_run C (map (\<lambda>i. pkgs ! i) arr) b) = snd (decrypt_run C (map (\<lambda>i. pkgs ! i) arr) w)"
  proof (cases arr)
    case Nil
    then show ?thesis by simp
  next
    case (Cons i js)
    with idx gen obtain h ct where "parse_header (pkgs ! i) = Inr (h, ct)" "h_dh h = fst (dh_s a)"
      by (auto simp: genuine_def chain_of_def)
    with f Cons show ?thesis
      unfolding w_def Cons list.map by (subst decrypt_run_awake) (auto simp: has_floor_def Let_def)
  qed
  with run res show ?thesis by auto
qed

end
