(* ===== verification/Ratchet_Persist.thy ===== *)
theory Ratchet_Persist
  imports Ratchet_Inv
begin

text \<open>
  Saving and restoring a session (\<open>Session::to_bytes\<close> and \<open>Session::from_bytes\<close> of
  \<open>core/src/ratchet.rs\<close>). The reader is the composition of the \<open>take\<close> calls in source order.
  Saved sessions are a codec in the sense of the locale \<open>ext_codec\<close>: they round-trip, and every
  truncation of one is refused.
\<close>

datatype persist_error = Truncated | BadVersion u8 | BadSkippedCount

abbreviation ptake :: "nat \<Rightarrow> (persist_error, bytes) reader" where
  "ptake \<equiv> rd_take Truncated"

section \<open>Fields\<close>

definition bool_byte :: "bool \<Rightarrow> u8" where
  "bool_byte b = (if b then 1 else 0)"

definition write_opt_ck :: "bytes option \<Rightarrow> bytes" where
  "write_opt_ck ck = (case ck of Some v \<Rightarrow> [1] @ v | None \<Rightarrow> [0])"

definition read_opt_ck :: "(persist_error, bytes option) reader" where
  "read_opt_ck = rd_bind (rd_byte Truncated) (\<lambda>mark.
     if mark = 0 then rd_pure None else rd_bind (ptake 32) (\<lambda>v. rd_pure (Some v)))"

definition read_opt_dh :: "(persist_error, bytes option) reader" where
  "read_opt_dh = rd_bind (rd_byte Truncated) (\<lambda>mark.
     if mark = 1 then rd_bind (ptake 32) (\<lambda>v. rd_pure (Some v)) else rd_pure None)"

definition write_sized :: "bytes \<Rightarrow> bytes" where
  "write_sized v = u16_le (word_of_nat (length v)) @ v"

definition read_sized :: "(persist_error, bytes) reader" where
  "read_sized = rd_bind (rd_u16 Truncated) (\<lambda>len. ptake (unat len))"

definition write_opt_sized :: "bytes option \<Rightarrow> bytes" where
  "write_opt_sized x = (case x of Some v \<Rightarrow> [1] @ write_sized v | None \<Rightarrow> [0])"

definition read_opt_sized :: "(persist_error, bytes option) reader" where
  "read_opt_sized = rd_bind (rd_byte Truncated) (\<lambda>mark.
     if mark = 1 then rd_bind read_sized (\<lambda>v. rd_pure (Some v)) else rd_pure None)"

definition write_adv :: "advertised_kem \<Rightarrow> bytes" where
  "write_adv a = write_sized (adv_pk a) @ write_sized (adv_sk a)"

definition read_adv :: "(persist_error, advertised_kem) reader" where
  "read_adv = rd_bind read_sized (\<lambda>pk. rd_bind read_sized (\<lambda>sk.
     rd_pure \<lparr>adv_pk = pk, adv_sk = sk\<rparr>))"

definition write_skipped :: "skip_key \<times> bytes \<Rightarrow> bytes" where
  "write_skipped e = sk_dh (fst e) @ u32_le (sk_n (fst e)) @ snd e"

definition read_skipped :: "(persist_error, skip_key \<times> bytes) reader" where
  "read_skipped = rd_bind (ptake 32) (\<lambda>dh. rd_bind (rd_u32 Truncated) (\<lambda>n.
     rd_bind (ptake 32) (\<lambda>mk. rd_pure (SkipKey dh n, mk))))"


section \<open>Sessions\<close>

text \<open>Everything up to the skipped-key store, which both versions share.\<close>

definition write_body :: "session \<Rightarrow> bytes" where
  "write_body s =
     session_id s @ rk s @ fst (dh_s s) @ snd (dh_s s) @ write_opt_ck (dh_r s) @
     write_opt_ck (ck_s s) @ write_opt_ck (ck_r s) @
     u32_le (n_s s) @ u32_le (n_r s) @ u32_le (pn s) @ write_opt_sized (kem_peer s) @
     [word_of_nat (length (kem_advertised s))] @ concat (map write_adv (kem_advertised s)) @
     [bool_byte (advertise_kem_next s)] @ [bool_byte (initialized s)]"

definition to_bytes :: "session \<Rightarrow> bytes" where
  "to_bytes s =
     [SESSION_VERSION] @ write_body s @ u32_le (word_of_nat (length (skipped s))) @
     concat (map write_skipped (skipped s))"

definition read_store :: "(persist_error, (skip_key, bytes) btree) reader" where
  "read_store = rd_bind (rd_u32 Truncated) (\<lambda>n.
     if unat n > MAX_SKIPPED_TOTAL then rd_fail BadSkippedCount
     else rd_bind (rd_many (unat n) read_skipped) (\<lambda>es.
       rd_pure (fold (\<lambda>(k, v) m. bt_insert k v m) es [])))"

definition read_session :: "(persist_error, session) reader" where
  "read_session =
     rd_bind (rd_byte Truncated) (\<lambda>ver.
     if ver \<noteq> SESSION_VERSION \<and> ver \<noteq> PKG_VERSION then rd_fail (BadVersion ver) else
     rd_bind (ptake 32) (\<lambda>sid.
     rd_bind (ptake 32) (\<lambda>root.
     rd_bind (ptake 32) (\<lambda>dh_pub.
     rd_bind (ptake 32) (\<lambda>dh_sec.
     rd_bind read_opt_dh (\<lambda>peer.
     rd_bind read_opt_ck (\<lambda>cs.
     rd_bind read_opt_ck (\<lambda>cr.
     rd_bind (rd_u32 Truncated) (\<lambda>ns.
     rd_bind (rd_u32 Truncated) (\<lambda>nr.
     rd_bind (rd_u32 Truncated) (\<lambda>p.
     rd_bind read_opt_sized (\<lambda>kpeer.
     rd_bind (rd_byte Truncated) (\<lambda>n_kem.
     rd_bind (rd_many (unat n_kem) read_adv) (\<lambda>advs.
     rd_bind (rd_byte Truncated) (\<lambda>adv_next.
     rd_bind (rd_byte Truncated) (\<lambda>init.
     rd_bind (if ver = SESSION_VERSION then read_store else rd_pure []) (\<lambda>store.
     rd_pure \<lparr>session_id = sid, rk = root, dh_s = (dh_pub, dh_sec), dh_r = peer,
       ck_s = cs, ck_r = cr, n_s = ns, n_r = nr, pn = p, kem_advertised = advs,
       kem_peer = kpeer, advertise_kem_next = (adv_next \<noteq> 0), skipped = store,
       initialized = (init \<noteq> 0)\<rparr>)))))))))))))))))"

definition from_bytes :: "bytes \<Rightarrow> persist_error + session" where
  "from_bytes d = res_bind (read_session d) (\<lambda>(s, _). Inr s)"

text \<open>What builds before the skipped-key store wrote.\<close>

definition legacy_bytes :: "session \<Rightarrow> bytes" where
  "legacy_bytes s = [PKG_VERSION] @ write_body s"


section \<open>The field codecs\<close>

lemmas field_readers = read_opt_ck_def read_opt_dh_def read_sized_def read_opt_sized_def
  read_adv_def read_skipped_def read_store_def

lemma extends_read [reader_intros]:
  "extends read_opt_ck" "extends read_opt_dh" "extends read_sized" "extends read_opt_sized"
  "extends read_adv" "extends read_skipped" "extends read_store" "extends read_session"
  unfolding field_readers read_session_def by (intro reader_intros)+

lemma read_sized_app [simp, codec_simps]:
  "length v < 65536 \<Longrightarrow> read_sized (write_sized v @ r) = Inr (v, r)"
  by (simp add: read_sized_def write_sized_def rd_bind_def)

lemma read_opt_ck_app [simp, codec_simps]:
  "len32_opt x \<Longrightarrow> read_opt_ck (write_opt_ck x @ r) = Inr (x, r)"
  by (cases x) (simp_all add: read_opt_ck_def write_opt_ck_def rd_bind_def)

lemma read_opt_dh_app [simp, codec_simps]:
  "len32_opt x \<Longrightarrow> read_opt_dh (write_opt_ck x @ r) = Inr (x, r)"
  by (cases x) (simp_all add: read_opt_dh_def write_opt_ck_def rd_bind_def)

lemma read_opt_sized_app [simp, codec_simps]:
  "(\<forall>v. y = Some v \<longrightarrow> length v < 65536) \<Longrightarrow> read_opt_sized (write_opt_sized y @ r) = Inr (y, r)"
  by (cases y) (simp_all add: read_opt_sized_def write_opt_sized_def rd_bind_def)

definition adv_small :: "advertised_kem \<Rightarrow> bool" where
  "adv_small a \<longleftrightarrow> length (adv_pk a) < 65536 \<and> length (adv_sk a) < 65536"

interpretation adv_codec: ext_codec write_adv read_adv adv_small
proof unfold_locales
  show "adv_small x \<Longrightarrow> read_adv (write_adv x @ r) = Inr (x, r)" for x r
    by (simp add: read_adv_def write_adv_def adv_small_def rd_bind_def)
qed (rule extendsD[OF extends_read(5)])

definition skipped_ok :: "skip_key \<times> bytes \<Rightarrow> bool" where
  "skipped_ok e \<longleftrightarrow> length (sk_dh (fst e)) = 32 \<and> length (snd e) = 32"

interpretation skipped_codec: ext_codec write_skipped read_skipped skipped_ok
proof unfold_locales
  show "skipped_ok x \<Longrightarrow> read_skipped (write_skipped x @ r) = Inr (x, r)" for x r
    by (simp add: read_skipped_def write_skipped_def skipped_ok_def rd_bind_def)
qed (rule extendsD[OF extends_read(6)])

lemma read_store_app:
  assumes "store_ok m"
  shows "read_store (u32_le (word_of_nat (length m)) @ concat (map write_skipped m) @ r) = Inr (m, r)"
proof -
  have len: "length m \<le> 2000" "unat (word_of_nat (length m) :: u32) = length m"
    using assms by (auto simp: store_ok_def MAX_SKIPPED_TOTAL_def)
  have "rd_many (length m) read_skipped (concat (map write_skipped m) @ r) = Inr (m, r)"
    using assms by (intro skipped_codec.rd_many_enc) (auto simp: store_ok_def skipped_ok_def)
  moreover have "fold (\<lambda>(k, v) acc. bt_insert k v acc) m [] = m"
    using fold_bt_insert[of "[]" m] assms by (simp add: store_ok_def)
  ultimately show ?thesis
    using len by (simp add: read_store_def rd_bind_def MAX_SKIPPED_TOTAL_def)
qed

lemma read_advs_app:
  assumes "adv_ok advs"
  shows "rd_many (unat (word_of_nat (length advs) :: u8)) read_adv (concat (map write_adv advs) @ r) =
    Inr (advs, r)"
proof -
  have "unat (word_of_nat (length advs) :: u8) = length advs"
    using assms by (simp add: adv_ok_def unat_of_nat)
  moreover have "\<forall>a\<in>set advs. adv_small a" using assms by (simp add: adv_ok_def adv_small_def)
  ultimately show ?thesis by (simp add: adv_codec.rd_many_enc)
qed


section \<open>The session codec\<close>

lemma wf_fields:
  assumes "wf_session s"
  shows "length (session_id s) = 32" "length (rk s) = 32" "length (fst (dh_s s)) = 32"
    "length (snd (dh_s s)) = 32" "len32_opt (dh_r s)" "len32_opt (ck_s s)" "len32_opt (ck_r s)"
    "\<forall>v. kem_peer s = Some v \<longrightarrow> length v < 65536" "adv_ok (kem_advertised s)" "store_ok (skipped s)"
  using assms by (auto simp: wf_session_def split: option.splits)

lemma bool_byte_iff [simp]: "bool_byte b \<noteq> 0 \<longleftrightarrow> b" "bool_byte b = 0 \<longleftrightarrow> \<not> b"
  by (simp_all add: bool_byte_def)

lemma read_write_session:
  assumes "wf_session s"
  shows "read_session (to_bytes s @ r) = Inr (s, r)"
  using wf_fields[OF assms]
  by (simp add: read_session_def to_bytes_def write_body_def rd_bind_def
      read_advs_app[simplified] read_store_app)

lemma read_legacy_session:
  assumes "wf_session s"
  shows "read_session (legacy_bytes s @ r) = Inr (s\<lparr>skipped := []\<rparr>, r)"
  using wf_fields[OF assms]
  by (simp add: read_session_def legacy_bytes_def write_body_def rd_bind_def
      read_advs_app[simplified] PKG_VERSION_def SESSION_VERSION_def)

interpretation session_codec: ext_codec to_bytes read_session wf_session
  by unfold_locales (simp_all add: read_write_session extendsD[OF extends_read(8)])

lemma from_bytes_truncated:
  assumes "wf_session s" "to_bytes s = a @ b" "b \<noteq> []"
  shows "\<exists>e. from_bytes a = Inl e"
  using session_codec.truncated_rejected[OF assms] by (auto simp: from_bytes_def)

text \<open>Whatever is loaded has an ordered store within its bound.\<close>

lemma read_store_bounded:
  "read_store d = Inr (m, r) \<Longrightarrow> bt_wf m \<and> length m \<le> MAX_SKIPPED_TOTAL"
proof -
  assume "read_store d = Inr (m, r)"
  then obtain n :: u32 and es r' where n: "unat n \<le> MAX_SKIPPED_TOTAL"
    "rd_many (unat n) read_skipped r' = Inr (es, r)" "m = fold (\<lambda>(k, v) m. bt_insert k v m) es []"
    unfolding read_store_def rd_bind_Inr by (force simp: result_iff split: if_splits)
  then show ?thesis
    using length_rd_many[OF n(2)] length_fold_insert[of es "[]"] bt_wf_fold_insert[of "[]" es] by simp
qed

lemma from_bytes_store:
  assumes "from_bytes d = Inr s"
  shows "bt_wf (skipped s) \<and> length (skipped s) \<le> MAX_SKIPPED_TOTAL"
  using assms
  by (auto simp: from_bytes_def read_session_def result_iff read_store_bounded split: if_splits)

end
