(* ===== verification/Machine.thy ===== *)
theory Machine
  imports Vurn_Prelude
begin

text \<open>
  State machines with a step function that may stop (\<open>None\<close> is a panic or the end of the task):
  runs over input sequences, reachability, and invariants by rule induction. Interpreted on the
  ratchet session and on the P2P node.
\<close>

primrec run_steps :: "('i \<Rightarrow> 's \<Rightarrow> 's option) \<Rightarrow> 'i list \<Rightarrow> 's \<Rightarrow> 's option" where
  "run_steps step [] s = Some s"
| "run_steps step (i # is) s = Option.bind (step i s) (run_steps step is)"

inductive reaches :: "('i \<Rightarrow> 's \<Rightarrow> 's option) \<Rightarrow> 's \<Rightarrow> 's \<Rightarrow> bool" for step where
  reaches_refl: "reaches step s s"
| reaches_step: "reaches step s s' \<Longrightarrow> step i s' = Some s'' \<Longrightarrow> reaches step s s''"

inductive_cases reachesE: "reaches step s s'"

lemma run_steps_append:
  "run_steps step (is @ js) s = Option.bind (run_steps step is s) (run_steps step js)"
proof (induction "is" arbitrary: s)
  case Nil
  then show ?case by simp
next
  case (Cons i "is")
  then show ?case by (cases "step i s") auto
qed

lemma reaches_iff_run: "reaches step s s' \<longleftrightarrow> (\<exists>is. run_steps step is s = Some s')"
proof
  assume "reaches step s s'"
  then show "\<exists>is. run_steps step is s = Some s'"
  proof (induction rule: reaches.induct)
    case (reaches_refl s)
    show ?case by (rule exI[of _ "[]"]) simp
  next
    case (reaches_step s s' i s'')
    then obtain "is" where "run_steps step is s = Some s'" by blast
    with reaches_step.hyps(2) have "run_steps step (is @ [i]) s = Some s''" by (simp add: run_steps_append)
    then show ?case by blast
  qed
next
  assume "\<exists>is. run_steps step is s = Some s'"
  then obtain "is" where "run_steps step is s = Some s'" by blast
  then show "reaches step s s'"
  proof (induction "is" arbitrary: s' rule: rev_induct)
    case Nil
    then show ?case by (simp add: reaches_refl)
  next
    case (snoc i "is")
    then obtain s1 where "run_steps step is s = Some s1" "step i s1 = Some s'"
      by (auto simp: run_steps_append bind_eq_Some_conv)
    with snoc.IH show ?case by (blast intro: reaches_step)
  qed
qed

locale machine =
  fixes step :: "'i \<Rightarrow> 's \<Rightarrow> 's option"
    and inv :: "'s \<Rightarrow> bool"
  assumes step_inv: "inv s \<Longrightarrow> step i s = Some s' \<Longrightarrow> inv s'"
begin

lemma reaches_inv: "reaches step s s' \<Longrightarrow> inv s \<Longrightarrow> inv s'"
  by (induction rule: reaches.induct) (auto intro: step_inv)

lemma run_inv: "run_steps step is s = Some s' \<Longrightarrow> inv s \<Longrightarrow> inv s'"
  using reaches_inv reaches_iff_run by metis

end

text \<open>A machine that never stops from a state satisfying its invariant.\<close>

locale live_machine = machine +
  assumes step_live: "inv s \<Longrightarrow> \<exists>s'. step i s = Some s'"
begin

lemma run_live: "inv s \<Longrightarrow> \<exists>s'. run_steps step is s = Some s' \<and> inv s'"
proof (induction "is" arbitrary: s)
  case Nil
  then show ?case by simp
next
  case (Cons i "is")
  then obtain s1 where "step i s = Some s1" "inv s1" using step_live step_inv by metis
  with Cons.IH show ?case by simp
qed

end

end
