(* ===== verification/Ratchet_Props.thy ===== *)
theory Ratchet_Props
  imports Ratchet_Burst Ratchet_Persist Machine
begin

text \<open>
  The properties of the ratchet: a session as a state machine that stays well-formed under any
  sequence of sends and receives and can be saved at any moment; messages in any order of arrival; and what a
  package that does not authenticate does to a session.
\<close>

section \<open>The session as a machine\<close>

datatype session_input = Send bytes enc_rand | Receive bytes

text \<open>A drawn X25519 secret has 32 bytes.\<close>

definition drawn :: "enc_rand \<Rightarrow> enc_rand" where
  "drawn R = R\<lparr>e_dh := take 32 (e_dh R @ replicate 32 0)\<rparr>"

definition session_step :: "crypto \<Rightarrow> session_input \<Rightarrow> session \<Rightarrow> session option" where
  "session_step C i s =
     (case i of Send pt R \<Rightarrow> Some (fst (encrypt C (drawn R) pt s)) | Receive pkg \<Rightarrow> Some (fst (decrypt C pkg s)))"

definition session_inv :: "crypto \<Rightarrow> session \<Rightarrow> bool" where
  "session_inv C s \<longleftrightarrow> (hmac_ok C \<and> dh_ok C \<and> kem_ok C \<longrightarrow> wf_session s)"

interpretation session_loop: live_machine "session_step C" "session_inv C"
proof unfold_locales
  fix s i s'
  assume inv: "session_inv C s" and step: "session_step C i s = Some s'"
  show "session_inv C s'"
    unfolding session_inv_def
  proof
    assume ok: "hmac_ok C \<and> dh_ok C \<and> kem_ok C"
    then have wf: "wf_session s" using inv by (simp add: session_inv_def)
    show "wf_session s'"
    proof (cases i)
      case (Send pt R)
      obtain r where "encrypt C (drawn R) pt s = (s', r)"
        using step by (cases "encrypt C (drawn R) pt s") (simp add: session_step_def Send)
      moreover have "length (e_dh (drawn R)) = 32" by (simp add: drawn_def)
      ultimately show ?thesis using wf_encrypt[of C "drawn R" s pt s' r] ok wf by simp
    next
      case (Receive pkg)
      then obtain r where "decrypt C pkg s = (s', r)"
        using step by (cases "decrypt C pkg s") (simp add: session_step_def)
      then show ?thesis using wf_decrypt[of C s pkg s' r] ok wf by simp
    qed
  qed
qed (simp add: session_step_def split: session_input.split)


section \<open>The starting sessions\<close>

lemma start_alice_counts: "start_alice C st = Some a \<Longrightarrow> n_s a = 0"
  by (auto simp: start_alice_def x25519_shared_def case_prod_beta Let_def split: option.splits)

text \<open>A pair of starts for the examples.\<close>

definition demo_a :: session_start where
  "demo_a = \<lparr>st_root = replicate 32 9, st_session_id = replicate 32 8,
     st_our_dh = (replicate 32 1, replicate 32 1), st_peer_dh = Some (replicate 32 2), st_our_kem = None\<rparr>"

definition demo_b :: session_start where
  "demo_b = \<lparr>st_root = replicate 32 9, st_session_id = replicate 32 8,
     st_our_dh = (replicate 32 2, replicate 32 2), st_peer_dh = None, st_our_kem = None\<rparr>"

definition demo_rand :: "u8 \<Rightarrow> enc_rand" where
  "demo_rand b = \<lparr>e_dh = replicate 32 b, e_kem = [], e_ss = []\<rparr>"

lemma toy_pad32: "length d = 32 \<Longrightarrow> c_x25519_base toy_crypto d = d"
  by (simp add: toy_crypto_def pad32_def)

lemma demo_matching: "matching_starts toy_crypto demo_a demo_b"
  by (simp add: matching_starts_def demo_a_def demo_b_def dh_pair_def toy_pad32)

lemma toy_crypto_ok: "crypto_ok toy_crypto"
  by (simp add: crypto_ok_def toy_ok)


section \<open>Theorems\<close>

text \<open>C2: After any conversation of two matching sessions in which every package reached the other
  side in turn, the next up to 1001 messages of the side that spoke last (of the initiator, if nobody
  has spoken yet) decrypt in any order of arrival: whatever arrives, in whatever order and however
  often, the first arrival of each package yields exactly the message sent under it and every
  repetition is refused as out of order. These are messages of a chain whose first message has
  arrived, or of the initiator's first chain; \<open>new_chain_ignores_number\<close> says what happens to
  any other chain whose first message is overtaken.\<close>

theorem burst_any_order:
  assumes C: "crypto_ok C" and m: "matching_starts C sa sb"
    and conv: "conv_ok C ts [fst (st_our_dh sa), fst (st_our_dh sb)]" "ts \<noteq> [] \<longrightarrow> fst (hd ts)"
    and ms: "length ms \<le> 1001" "\<forall>m \<in> set ms. length (fst m) \<le> aead_max"
    and room: "length ts + 1001 < 2 ^ 32" and idx: "\<forall>i \<in> set arr. i < length ms"
  shows "\<exists>a. start_alice C sa = Some a \<and>
    conv_run C ts a (start_bob C rnd sb) = map (\<lambda>(who, pt, R). Inr pt) ts \<and>
    (let (alice, bob) = conv_end C ts a (start_bob C rnd sb);
         (s, r) = if ts = [] \<or> fst (last ts) then (alice, bob) else (bob, alice)
     in \<exists>s' pkgs. encrypt_run C ms s = (s', map Inr pkgs) \<and> length pkgs = length ms \<and>
          snd (decrypt_run C (map (\<lambda>i. pkgs ! i) arr) r) =
            map2 result_of (first_arrivals arr {}) (map (\<lambda>i. fst (ms ! i)) arr))"
proof -
  obtain a where a: "start_alice C sa = Some a"
    "conv_run C ts a (start_bob C rnd sb) = map (\<lambda>(who, pt, R). Inr pt) ts"
    "ts = [] \<longrightarrow> has_floor C a (start_bob C rnd sb)"
    "ts \<noteq> [] \<longrightarrow> floor_of C (fst (last ts)) (unat (n_s a) + length ts) (conv_end C ts a (start_bob C rnd sb))"
    by (rule conversation_end[OF C m conv])
  obtain alice bob where e: "conv_end C ts a (start_bob C rnd sb) = (alice, bob)" by fastforce
  define sr where "sr = (if ts = [] \<or> fst (last ts) then (alice, bob) else (bob, alice))"
  have "has_floor C (fst sr) (snd sr)" "unat (n_s (fst sr)) + 1001 < 2 ^ 32"
    using a(3,4) e room start_alice_counts[OF a(1)]
    by (cases "ts = []"; force simp: sr_def floor_of_def Let_def split: if_splits)+
  from burst[OF C this(1) ms this(2) idx] show ?thesis
    using a(1,2) e by (simp add: sr_def split: if_splits) blast+
qed

theorem burst_any_order_witness:
  "\<exists>a alice bob s' pkgs. start_alice toy_crypto demo_a = Some a \<and>
    conv_end toy_crypto [(True, [7], demo_rand 5), (False, [8], demo_rand 6)] a (start_bob toy_crypto [] demo_b) =
      (alice, bob) \<and>
    encrypt_run toy_crypto [([1], demo_rand 3), ([2], demo_rand 4)] bob = (s', map Inr pkgs) \<and>
    snd (decrypt_run toy_crypto (map (\<lambda>i. pkgs ! i) [1, 0, 1]) alice) = [Inr [2], Inr [1], Inl OutOfOrder]"
proof -
  have "conv_ok toy_crypto [(True, [7], demo_rand 5), (False, [8], demo_rand 6)]
      [fst (st_our_dh demo_a), fst (st_our_dh demo_b)]"
    by (simp add: conv_ok_def demo_rand_def demo_a_def demo_b_def toy_pad32 aead_max_def replicate_eq_replicate)
  from burst_any_order[OF toy_crypto_ok demo_matching this, of "[([1], demo_rand 3), ([2], demo_rand 4)]" "[1, 0, 1]" "[]"]
  show ?thesis
    by (auto simp: aead_max_def result_of_def case_prod_beta
        simp del: conv_run.simps conv_end.simps encrypt_run.simps decrypt_run.simps)
      (metis prod.collapse)
qed

text \<open>C6: On one receiving chain the session implements the abstract receiver, which knows only the next
  number and the set of missing numbers: for every sequence of genuine packages, each decryption
  yields the message or refuses it as out of order exactly as the abstract receiver accepts or
  rejects its number, and the two remain related.\<close>

theorem decrypt_refines_receiver:
  assumes "rx_rel C ch others x s"
    and "\<forall>(pkg, n, pt) \<in> set ms. genuine C s ch pkg n pt \<and> Suc n < 2 ^ 32"
  shows "\<exists>s'. decrypt_run C (map fst ms) s =
      (s', map2 result_of (snd (rx_run others x (map (fst \<circ> snd) ms))) (map (snd \<circ> snd) ms)) \<and>
    rx_rel C ch others (fst (rx_run others x (map (fst \<circ> snd) ms))) s'"
  using decrypt_run_simulates_rx[OF assms] by blast

theorem decrypt_refines_receiver_witness:
  "\<exists>s pkg s'. decrypt_run toy_crypto [pkg, pkg] s = (s', [Inr [5], Inl OutOfOrder])"
proof -
  obtain a where a: "start_alice toy_crypto demo_a = Some a" "has_floor toy_crypto a (start_bob toy_crypto [] demo_b)"
    by (rule start_floor[OF toy_crypto_ok demo_matching])
  obtain k where k: "ck_s a = Some k" using a(2) by (auto simp: has_floor_def Let_def)
  let ?b = "start_bob toy_crypto [] demo_b"
  let ?w = "awake toy_crypto (fst (dh_s a)) ?b"
  have n0: "n_s a = 0" by (rule start_alice_counts[OF a(1)])
  have "length (fst (dh_s a)) = 32"
    using a(2) floor_len[of toy_crypto "dh_s a"] by (simp add: has_floor_def Let_def toy_ok)
  then have "can_send toy_crypto k 0 a ?b" using a(2) k by (simp add: can_send_def has_floor_def Let_def)
  then have "\<exists>a' pkgs. encrypt_run toy_crypto [([5], demo_rand 3)] a = (a', map Inr pkgs) \<and>
      length pkgs = length [([5 :: u8], demo_rand 3)] \<and>
      (\<forall>j < length [([5 :: u8], demo_rand 3)]. genuine toy_crypto ?b (chain_of a k) (pkgs ! j)
         (ch_base (chain_of a k) + 0 + j) (fst ([([5], demo_rand 3)] ! j)))"
    by (rule encrypt_run_genuine[OF toy_crypto_ok]) (simp_all add: chain_of_def n0 aead_max_def)
  then obtain pkg where "genuine toy_crypto ?b (chain_of a k) pkg 0 [5]"
    by (auto simp: chain_of_def n0)
  moreover have "same_opener ?b ?w" by (simp add: same_opener_def)
  ultimately have gen: "genuine toy_crypto ?w (chain_of a k) pkg 0 [5]" by (simp add: genuine_opener)
  have rel: "rx_rel toy_crypto (chain_of a k) 0 \<lparr>rx_next = 0, rx_missing = {}\<rparr> ?w"
    using floor_rx_rel[OF a(2) k] by (simp add: n0)
  have "\<forall>(pkg, n, pt) \<in> set [(pkg, 0, [5]), (pkg, 0, [5])]. genuine toy_crypto ?w (chain_of a k) pkg n pt \<and> Suc n < 2 ^ 32"
    using gen by simp
  from decrypt_refines_receiver[OF rel this] show ?thesis
    by (auto simp: rx_step_def result_of_def)
qed

text \<open>C9: A session never gets stuck and never grows out of its bounds: after any sequence of sends and
  receives, of genuine, forged or garbled packages alike, there is a next session, its keys have
  their lengths, it keeps at most 2000 skipped keys in an ordered store and advertises at most two
  KEM keys.\<close>

theorem session_stays_wellformed:
  assumes "hmac_ok C" "dh_ok C" "kem_ok C" "wf_session s"
  shows "\<exists>s'. run_steps (session_step C) inputs s = Some s' \<and> wf_session s' \<and>
    length (skipped s') \<le> MAX_SKIPPED_TOTAL \<and> length (kem_advertised s') \<le> 2"
proof -
  have "session_inv C s" using assms(4) by (simp add: session_inv_def)
  from session_loop.run_live[OF this, of inputs] obtain s' where
    "run_steps (session_step C) inputs s = Some s'" "wf_session s'"
    using assms(1-3) by (auto simp: session_inv_def)
  then show ?thesis by (auto simp: wf_session_def store_ok_def adv_ok_def)
qed

theorem session_stays_wellformed_witness:
  "\<exists>s'. run_steps (session_step toy_crypto) [Receive [1, 2, 3], Send [4] (demo_rand 5)]
      (start_bob toy_crypto [] demo_b) = Some s' \<and> wf_session s'"
proof -
  have "wf_session (start_bob toy_crypto [] demo_b)"
    by (rule wf_start_bob) (simp_all add: toy_ok wf_start_def demo_b_def)
  from session_stays_wellformed[OF toy_ok(1,3,4) this] show ?thesis by blast
qed

text \<open>C10: Saving a session loses nothing: whatever was sent and received before, the bytes of a session
  load as exactly this session; what builds before the skipped-key store wrote loads as the
  session without stored keys; and every proper prefix of the bytes is rejected.\<close>

theorem saved_session_restores:
  assumes "hmac_ok C" "dh_ok C" "kem_ok C" "wf_session s"
    and "run_steps (session_step C) inputs s = Some s'"
  shows "from_bytes (to_bytes s') = Inr s' \<and> from_bytes (legacy_bytes s') = Inr (s'\<lparr>skipped := []\<rparr>) \<and>
    (\<forall>a b. to_bytes s' = a @ b \<longrightarrow> b \<noteq> [] \<longrightarrow> \<not> is_ok (from_bytes a))"
proof -
  have "session_inv C s'"
    by (rule session_loop.run_inv[OF assms(5)]) (simp add: session_inv_def assms(4))
  then have wf: "wf_session s'" using assms(1-3) by (simp add: session_inv_def)
  have "\<not> is_ok (from_bytes a)" if split: "to_bytes s' = a @ b" "b \<noteq> []" for a b
    using from_bytes_truncated[OF wf split] by (auto simp: is_ok_def)
  then show ?thesis
    using read_write_session[OF wf, of "[]"] read_legacy_session[OF wf, of "[]"]
    by (simp add: from_bytes_def)
qed

theorem saved_session_restores_witness:
  "from_bytes (to_bytes (start_bob toy_crypto [] demo_b)) = Inr (start_bob toy_crypto [] demo_b)"
proof -
  have "wf_session (start_bob toy_crypto [] demo_b)"
    by (rule wf_start_bob) (simp_all add: toy_ok wf_start_def demo_b_def)
  from saved_session_restores[OF toy_ok(1,3,4) this, of "[]"] show ?thesis by simp
qed

section \<open>Packages that do not authenticate\<close>

lemma refuse_old:
  assumes "parse_header pkg = Inr (h, ct)" "initialized s" "dh_r s = Some (h_dh h)" "h_n h < n_r s"
    and "bt_get (skipped s) (SkipKey (h_dh h) (h_n h)) = None"
  shows "decrypt C pkg s = (s, Inl OutOfOrder)"
  using assms by (auto simp: decrypt_fresh select_chain_def)

text \<open>C39: A package for a stored key that does not authenticate leaves the whole session as it was, so
  the genuine package with this number still decrypts afterwards.\<close>

theorem stored_key_survives_forgery:
  assumes "parse_header pkg = Inr (h, ct)" "bt_get (skipped s) (SkipKey (h_dh h) (h_n h)) = Some mk"
    and "decrypt C pkg s = (s', Inl e)"
    and "parse_header pkg' = Inr (h', ct')" "h_dh h' = h_dh h" "h_n h' = h_n h"
    and "open_aead C s (header_part pkg' ct') ct' (h_kem_ct h') mk = Inr pt"
  shows "decrypt C pkg' s' = (s\<lparr>skipped := bt_remove (SkipKey (h_dh h) (h_n h)) (skipped s)\<rparr>, Inr pt)"
  using decrypt_stored_fails_unchanged[OF assms(1-3)] decrypt_stored[OF assms(4), of s mk C] assms(2,5-7)
  by simp

text \<open>On the in-order path a package that does not authenticate burns its number: the chain has
  moved on, and every package carrying the same number, the genuine one too, is refused as out of
  order from then on.\<close>

theorem forged_package_burns_number:
  assumes h: "parse_header pkg = Inr (h, ct)" and init: "initialized s"
    and cur: "dh_r s = Some (h_dh h)" "h_n h = n_r s" "ck_r s = Some ck"
    and none: "bt_get (skipped s) (SkipKey (h_dh h) (h_n h)) = None"
    and bad: "open_aead C s (header_part pkg ct) ct (h_kem_ct h) (fst (chain_step C ck)) = Inl e"
    and h': "parse_header pkg' = Inr (h', ct')" "h_dh h' = h_dh h" "h_n h' = h_n h"
    and room: "unat (n_r s) + 1 < 2 ^ 32"
  shows "let s1 = fst (decrypt C pkg s) in decrypt C pkg' s1 = (s1, Inl OutOfOrder)"
proof -
  let ?s1 = "s\<lparr>ck_r := Some (snd (chain_step C ck)), n_r := n_r s + 1\<rparr>"
  have d: "decrypt C pkg s = (?s1, Inl e)" by (rule in_order_failure_advances[OF h init cur none bad])
  have "n_r s < n_r s + 1" using room by (simp add: word_less_nat_alt unat_add_of_nat[of "n_r s" 1, simplified])
  then have "decrypt C pkg' ?s1 = (?s1, Inl OutOfOrder)"
    using h' init cur none by (intro refuse_old[OF h'(1)]) simp_all
  then show ?thesis by (simp add: d Let_def)
qed

text \<open>A package that opens a new chain is always opened with the chain's first key, whatever number
  it carries: afterwards the session has consumed exactly one number, nothing of the new chain is
  stored, and the chain's message 0 is refused as out of order when it arrives later.\<close>

theorem new_chain_ignores_number:
  assumes h: "parse_header pkg = Inr (h, ct)" and init: "initialized s"
    and fresh: "dh_r s \<noteq> Some (h_dh h)" "h_pn h = n_r s"
    and none: "bt_get (skipped s) (SkipKey (h_dh h) (h_n h)) = None"
    and h0: "parse_header pkg0 = Inr (h0, ct0)" "h_dh h0 = h_dh h" "h_n h0 = 0"
    and none0: "bt_get (skipped s) (SkipKey (h_dh h) 0) = None"
  shows "let s1 = fst (decrypt C pkg s) in
    n_r s1 = 1 \<and> skipped s1 = skipped s \<and> decrypt C pkg0 s1 = (s1, Inl OutOfOrder)"
proof -
  obtain s2 where s2: "ratchet C (h_dh h) s = (s2, Inr ())" "n_r s2 = 0" "dh_r s2 = Some (h_dh h)"
    "ck_r s2 \<noteq> None" "skipped s2 = skipped s" "initialized s2"
    using init by (simp add: ratchet_def x25519_shared_def case_prod_beta Let_def)
  have new: "(case dh_r s of None \<Rightarrow> True | Some cur \<Rightarrow> cur \<noteq> h_dh h) = True"
    using fresh(1) by (cases "dh_r s") simp_all
  have "select_chain C h s = (s2, Inr ())"
    using fresh(2) s2(1) skip_to_noop[of "h_pn h" s C] by (simp add: select_chain_def new)
  then have d: "decrypt C pkg s = receive_in_order C h (header_part pkg ct) ct s2"
    using decrypt_fresh[OF h none init] by simp
  define s1 where "s1 = fst (decrypt C pkg s)"
  have s1: "n_r s1 = 1 \<and> skipped s1 = skipped s \<and> dh_r s1 = Some (h_dh h) \<and> initialized s1"
    using s2 by (auto simp: s1_def d receive_in_order_def case_prod_beta Let_def split: sum.split option.split)
  have "decrypt C pkg0 s1 = (s1, Inl OutOfOrder)"
    by (rule refuse_old[OF h0(1)]) (use s1 h0 none0 in simp_all)
  then show ?thesis using s1 by (simp add: s1_def[symmetric] Let_def)
qed


section \<open>Examples\<close>

text \<open>A primitive that accepts nothing, and a session in the middle of a chain.\<close>

definition no_open :: crypto where
  "no_open = toy_crypto\<lparr>c_open := (\<lambda>k n a c. None)\<rparr>"

definition demo_session :: session where
  "demo_session = \<lparr>session_id = replicate 32 8, rk = replicate 32 9, dh_s = (replicate 32 1, replicate 32 1),
     dh_r = Some (replicate 32 2), ck_s = None, ck_r = Some (replicate 32 3), n_s = 0, n_r = 4, pn = 0,
     kem_advertised = [], kem_peer = None, advertise_kem_next = False,
     skipped = [(SkipKey (replicate 32 2) 1, replicate 32 6)], initialized = True\<rparr>"

definition demo_package :: "u32 \<Rightarrow> u32 \<Rightarrow> u8 \<Rightarrow> bytes \<Rightarrow> bytes" where
  "demo_package p n d ct = build_header (header_flags None None) p n (replicate 32 d) None None @ ct"

definition demo_header :: "u32 \<Rightarrow> u32 \<Rightarrow> u8 \<Rightarrow> header" where
  "demo_header p n d = \<lparr>h_flags = header_flags None None, h_pn = p, h_n = n, h_dh = replicate 32 d,
     h_kem_pk = None, h_kem_ct = None\<rparr>"

lemma demo_parse_package:
  "16 \<le> length ct \<Longrightarrow> parse_header (demo_package p n d ct) = Inr (demo_header p n d, ct)"
  unfolding demo_package_def demo_header_def
  by (rule parse_build_header) (simp_all add: header_fields_ok_def)

lemma no_open_fails: "\<exists>e. open_aead no_open s hdr ct None mk = Inl e"
  by (simp add: open_aead_def kem_candidates_def no_open_def aead_decrypt_def case_prod_beta Let_def)

lemma demo_lookup:
  "bt_get (skipped demo_session) (SkipKey (replicate 32 2) 4) = None"
  "bt_get (skipped demo_session) (SkipKey (replicate 32 7) n) = None"
  "bt_get (skipped demo_session) (SkipKey (replicate 32 2) 1) = Some (replicate 32 6)"
  by (simp_all add: bt_get_def demo_session_def)

theorem forged_package_burns_number_witness:
  "let s1 = fst (decrypt no_open (demo_package 0 4 2 (replicate 16 0)) demo_session) in
    decrypt no_open (demo_package 0 4 2 (replicate 16 5)) s1 = (s1, Inl OutOfOrder)"
proof -
  have p: "parse_header (demo_package 0 4 2 (replicate 16 b)) = Inr (demo_header 0 4 2, replicate 16 b)" for b
    by (rule demo_parse_package) simp
  obtain e where "open_aead no_open demo_session (header_part (demo_package 0 4 2 (replicate 16 0)) (replicate 16 0))
      (replicate 16 0) (h_kem_ct (demo_header 0 4 2)) (fst (chain_step no_open (replicate 32 3))) = Inl e"
    unfolding demo_header_def header.simps using no_open_fails by blast
  from forged_package_burns_number[OF p _ _ _ _ _ this p]
  show ?thesis by (simp add: demo_header_def demo_session_def bt_get_def)
qed

theorem new_chain_ignores_number_witness:
  "decrypt toy_crypto (demo_package 4 0 7 (replicate 16 5))
      (fst (decrypt toy_crypto (demo_package 4 3 7 (replicate 16 0)) demo_session)) =
    (fst (decrypt toy_crypto (demo_package 4 3 7 (replicate 16 0)) demo_session), Inl OutOfOrder)"
proof -
  have p: "parse_header (demo_package 4 n 7 (replicate 16 b)) = Inr (demo_header 4 n 7, replicate 16 b)" for n b
    by (rule demo_parse_package) simp
  from new_chain_ignores_number[OF p _ _ _ _ p, of demo_session 3 0 toy_crypto 0 5]
  show ?thesis by (simp add: demo_header_def demo_session_def bt_get_def Let_def)
qed

definition pick_open :: crypto where
  "pick_open = toy_crypto\<lparr>c_open := (\<lambda>k n a c. if c = replicate 16 0 then None else Some [])\<rparr>"

theorem stored_key_survives_forgery_witness:
  "decrypt pick_open (demo_package 0 1 2 (replicate 16 5))
      (fst (decrypt pick_open (demo_package 0 1 2 (replicate 16 0)) demo_session)) =
    (demo_session\<lparr>skipped := []\<rparr>, Inr [])"
proof -
  have p: "parse_header (demo_package 0 1 2 (replicate 16 b)) = Inr (demo_header 0 1 2, replicate 16 b)" for b
    by (rule demo_parse_package) simp
  have "hmac_ok pick_open" using toy_ok(1) by (simp add: pick_open_def hmac_ok_def)
  then have k: "length (fst (aead_key pick_open mk)) = 32" for mk
    by (simp add: aead_key_def length_hmac256 case_prod_beta Let_def)
  have op: "open_aead pick_open demo_session hdr ct None mk = (if ct = replicate 16 0 then Inl AuthFailed else Inr [])"
    for hdr ct mk
    using k[of "mix_kem pick_open mk None"]
    by (simp add: open_aead_def kem_candidates_def aead_decrypt_def case_prod_beta Let_def)
      (simp add: pick_open_def)
  have st: "bt_get (skipped demo_session) (SkipKey (h_dh (demo_header 0 1 2)) (h_n (demo_header 0 1 2))) = Some (replicate 32 6)"
    by (simp add: demo_header_def demo_lookup)
  have d: "decrypt pick_open (demo_package 0 1 2 (replicate 16 0)) demo_session = (demo_session, Inl AuthFailed)"
    using decrypt_stored[OF p st] by (simp add: op demo_header_def)
  have "open_aead pick_open demo_session (header_part (demo_package 0 1 2 (replicate 16 5)) (replicate 16 5))
      (replicate 16 5) (h_kem_ct (demo_header 0 1 2)) (replicate 32 6) = Inr []"
    by (simp add: op demo_header_def replicate_eq_replicate)
  from stored_key_survives_forgery[OF p st d p refl refl this]
  show ?thesis by (simp add: d) (simp add: demo_session_def demo_header_def bt_remove_def)
qed

end
