(* ===== verification/Text.thy ===== *)
theory Text
  imports Vurn_Prelude "HOL-Library.Char_ord" "HOL-Library.Sublist"
begin

text \<open>
  The text operations of the standard library that the sources use: zero-padded decimal output
  (\<open>format!("{:05}")\<close>, \<open>format!("{:020}")\<close>), \<open>str::parse\<close> of unsigned integers, UTF-8 of ASCII text,
  \<open>split\<close> on a separator, \<open>trim_end_matches\<close> and \<open>rposition\<close>.
\<close>

section \<open>Decimal numbers\<close>

definition digit_char :: "nat \<Rightarrow> char" where
  "digit_char d = char_of (48 + d)"

fun dec_digits :: "nat \<Rightarrow> string" where
  "dec_digits n = (if n < 10 then [digit_char n] else dec_digits (n div 10) @ [digit_char (n mod 10)])"

declare dec_digits.simps [simp del]

definition zero_pad :: "nat \<Rightarrow> string \<Rightarrow> string" where
  "zero_pad w s = replicate (w - length s) (CHR ''0'') @ s"

definition fmt_dec :: "nat \<Rightarrow> nat \<Rightarrow> string" where
  "fmt_dec w n = zero_pad w (dec_digits n)"

definition is_digit :: "char \<Rightarrow> bool" where
  "is_digit c \<longleftrightarrow> 48 \<le> (of_char c :: nat) \<and> (of_char c :: nat) \<le> 57"

definition dec_val :: "string \<Rightarrow> nat" where
  "dec_val s = foldl (\<lambda>acc c. 10 * acc + (of_char c - 48)) 0 s"

text \<open>\<open>str::parse\<close> of an unsigned type of \<open>w\<close> bits: an optional plus sign, then digits.\<close>

definition parse_unsigned :: "nat \<Rightarrow> string \<Rightarrow> nat option" where
  "parse_unsigned w s =
     (let ds = (case s of [] \<Rightarrow> [] | c # cs \<Rightarrow> if c = CHR ''+'' then cs else s) in
      if ds = [] \<or> \<not> list_all is_digit ds then None
      else if dec_val ds < 2 ^ w then Some (dec_val ds) else None)"

lemma of_digit_char: "d < 10 \<Longrightarrow> (of_char (digit_char d) :: nat) = 48 + d"
  by (simp add: digit_char_def)

lemma is_digit_char: "d < 10 \<Longrightarrow> is_digit (digit_char d)"
  by (simp add: is_digit_def of_digit_char)

lemma dec_val_snoc: "dec_val (s @ [c]) = 10 * dec_val s + (of_char c - 48)"
  by (simp add: dec_val_def)

lemma dec_digits_spec: "dec_val (dec_digits n) = n \<and> list_all is_digit (dec_digits n) \<and> dec_digits n \<noteq> []"
proof (induction n rule: dec_digits.induct)
  case (1 n)
  show ?case
  proof (cases "n < 10")
    case True
    then show ?thesis
      by (subst (1 2 3) dec_digits.simps) (simp add: dec_val_def of_digit_char is_digit_char)
  next
    case False
    with 1 show ?thesis
      by (subst (1 2 3) dec_digits.simps)
        (simp add: dec_val_snoc of_digit_char is_digit_char)
  qed
qed

lemma length_dec_digits: "0 < k \<Longrightarrow> n < 10 ^ k \<Longrightarrow> length (dec_digits n) \<le> k"
proof (induction k arbitrary: n)
  case 0
  then show ?case by simp
next
  case (Suc k)
  show ?case
  proof (cases "n < 10")
    case True
    then show ?thesis by (subst dec_digits.simps) simp
  next
    case False
    then have "0 < k" using Suc.prems by (cases k) auto
    with Suc False show ?thesis by (subst dec_digits.simps) (auto simp: less_mult_imp_div_less)
  qed
qed

lemma length_fmt_dec: "0 < w \<Longrightarrow> n < 10 ^ w \<Longrightarrow> length (fmt_dec w n) = w"
  using length_dec_digits[of w n] by (simp add: fmt_dec_def zero_pad_def)

lemma dec_val_zeros: "dec_val (replicate k (CHR ''0'') @ s) = dec_val s"
  by (induction k) (simp_all add: dec_val_def)

lemma fmt_dec_val: "dec_val (fmt_dec w n) = n"
  using dec_digits_spec by (simp add: fmt_dec_def zero_pad_def dec_val_zeros)

lemma fmt_dec_digits: "list_all is_digit (fmt_dec w n)" "fmt_dec w n \<noteq> []"
  using dec_digits_spec[of n] by (auto simp: fmt_dec_def zero_pad_def list_all_iff is_digit_def)

lemma digit_not: "is_digit c \<Longrightarrow> c \<noteq> CHR ''+'' \<and> c \<noteq> CHR ''_'' \<and> c \<noteq> CHR '' ''"
  by (auto simp: is_digit_def)

lemma parse_fmt_dec:
  assumes "n < 2 ^ b"
  shows "parse_unsigned b (fmt_dec w n) = Some n"
proof -
  obtain c cs where s: "fmt_dec w n = c # cs" using fmt_dec_digits(2) by (cases "fmt_dec w n") auto
  then have "is_digit c" using fmt_dec_digits(1)[of w n] by simp
  then show ?thesis
    using s assms fmt_dec_digits[of w n] fmt_dec_val[of w n]
    by (simp add: parse_unsigned_def digit_not)
qed


section \<open>Text and bytes\<close>

definition ascii_bytes :: "string \<Rightarrow> bytes" where
  "ascii_bytes s = map (\<lambda>c. word_of_nat (of_char c)) s"

text \<open>Reading bytes as text: only the ASCII part of UTF-8 is needed, all else is an error.\<close>

definition ascii_text :: "bytes \<Rightarrow> string option" where
  "ascii_text bs = (if list_all (\<lambda>b. b < 128) bs then Some (map (\<lambda>b. char_of (unat b)) bs) else None)"

lemma of_char_byte: "(of_char c :: nat) < 256"
  by (simp add: of_char_def) 

lemma unat_ascii_byte [simp]: "unat (word_of_nat (of_char c) :: u8) = of_char c"
  by (simp add: unat_of_nat of_char_byte)

lemma length_ascii_bytes [simp]: "length (ascii_bytes s) = length s"
  by (simp add: ascii_bytes_def)

lemma ascii_text_bytes:
  "list_all (\<lambda>c. (of_char c :: nat) < 128) s \<Longrightarrow> ascii_text (ascii_bytes s) = Some s"
  by (auto simp: ascii_text_def ascii_bytes_def list_all_iff word_less_nat_alt comp_def
      intro!: map_idI)

lemma ascii_bytes_app: "ascii_bytes (a @ b) = ascii_bytes a @ ascii_bytes b"
  by (simp add: ascii_bytes_def)

lemma ascii_bytes_inj: "ascii_bytes a = ascii_bytes b \<longleftrightarrow> a = b"
proof
  assume "ascii_bytes a = ascii_bytes b"
  then have "map unat (ascii_bytes a) = map unat (ascii_bytes b)" by simp
  then have "map (of_char :: char \<Rightarrow> nat) a = map of_char b"
    by (simp add: ascii_bytes_def comp_def)
  then show "a = b" by (rule map_injective) (auto simp: inj_def)
qed simp


section \<open>Searching and splitting\<close>

text \<open>\<open>s.split(sep)\<close> for a non-empty separator.\<close>

function split_at :: "string \<Rightarrow> string \<Rightarrow> string \<Rightarrow> string list" where
  "split_at sep acc [] = [rev acc]"
| "split_at sep acc (c # cs) =
     (if sep \<noteq> [] \<and> prefix sep (c # cs) then rev acc # split_at sep [] (drop (length sep) (c # cs))
      else split_at sep (c # acc) cs)"
  by pat_completeness auto
termination
  by (relation "measure (\<lambda>(sep, acc, s). length s)") auto

definition split_on :: "string \<Rightarrow> string \<Rightarrow> string list" where
  "split_on sep s = split_at sep [] s"

definition trim_end :: "char \<Rightarrow> string \<Rightarrow> string" where
  "trim_end c s = rev (dropWhile (\<lambda>x. x = c) (rev s))"

lemma split_at_skip:
  assumes "sep \<noteq> []" and "\<forall>k < length s. \<not> prefix sep (drop k (s @ t))"
  shows "split_at sep acc (s @ t) = split_at sep (rev s @ acc) t"
  using assms(2)
proof (induction s arbitrary: acc)
  case Nil
  then show ?case by simp
next
  case (Cons c s)
  have "\<not> prefix sep ((c # s) @ t)" using Cons.prems by force
  moreover have "\<forall>k < length s. \<not> prefix sep (drop k (s @ t))"
    using Cons.prems by (metis Suc_less_eq append_Cons drop_Suc_Cons length_Cons)
  ultimately show ?case using Cons.IH by simp
qed

text \<open>If the separator's first character occurs in neither part, splitting finds exactly the two.\<close>

lemma split_on_two:
  assumes sep: "sep = c # sep'" and "c \<notin> set a" "c \<notin> set b"
  shows "split_on sep (a @ sep @ b) = [a, b]"
proof -
  have no: "\<not> prefix sep (drop k (s @ t))" if "c \<notin> set s" "k < length s" for k s t
    using that by (auto simp: sep drop_append Cons_nth_drop_Suc[symmetric])
  have "split_at sep [] (a @ sep @ b) = split_at sep (rev a) (sep @ b)"
    using split_at_skip[of sep a "sep @ b" "[]"] no[OF assms(2), of _ "sep @ b"] by (simp add: sep)
  also have "\<dots> = a # split_at sep [] b"
    by (simp add: sep)
  also have "split_at sep [] b = [b]"
    using split_at_skip[of sep b "[]" "[]"] no[OF assms(3), of _ "[]"] by (simp add: sep)
  finally show ?thesis by (simp add: split_on_def)
qed

lemma set_trim_end: "set (trim_end c s) \<subseteq> set s"
  using set_dropWhileD by (fastforce simp: trim_end_def)

text \<open>\<open>rposition\<close>: the index of the last byte that satisfies the test.\<close>

definition rposition :: "('a \<Rightarrow> bool) \<Rightarrow> 'a list \<Rightarrow> nat option" where
  "rposition P xs =
     (if list_ex P xs then Some (length xs - Suc (length (takeWhile (\<lambda>x. \<not> P x) (rev xs)))) else None)"

lemma rposition_last:
  assumes "P x" and "list_all (\<lambda>y. \<not> P y) zs"
  shows "rposition P (ys @ x # zs) = Some (length ys)"
proof -
  have "takeWhile (\<lambda>y. \<not> P y) (rev zs @ x # rev ys) = rev zs"
    using assms by (subst takeWhile_append2) (auto simp: list_all_iff)
  then show ?thesis using assms by (simp add: rposition_def)
qed

end
