(* ===== verification/Cipher.thy ===== *)
theory Cipher
  imports Crypto_Env Text
begin

text \<open>
  \<open>core/src/lib.rs\<close>: one-shot hybrid encryption with its wire format, symmetric encryption for
  local storage and profile blobs, the user id and the safety fingerprint. Errors are one
  constructor per message of the sources; they are shared by the core modules, which all
  return \<open>Result<_, String>\<close>.
\<close>

datatype core_error =
    BadPublicKey nat | EncapsFailed | EncryptFailed
  | PackageNoKemLen | PackageNoNonce | PackageNoTag
  | BadSecretKey nat | BadKemCiphertext | DecapsFailed | DecryptFailed | CiphertextTooShort
  | IdentityTooShort | IdentityNoSigHeader | IdentitySigCut | BundleTruncated nat
  | NoSignedPrekey | PrekeyNotVerified | BadSigningKey nat | SigningFailed | BadHmacLength
  | InviteNoParameter | InviteBadBase64 | InviteTooShort | InviteTruncated | QrFailed
  | BootstrapBadKey | BootstrapKemFailed nat
  | EnvelopeTruncated | EnvelopeBundleCut | EnvelopeKemCut | EnvelopeNoPackage

definition generate_keypair :: "crypto \<Rightarrow> bytes \<Rightarrow> bytes \<times> bytes" where
  "generate_keypair C rnd = c_kem_keygen C rnd"


section \<open>Wire format\<close>

record encrypted_package =
  kem_ct :: bytes
  ep_nonce :: bytes
  ep_payload :: bytes

definition serialize_package :: "bytes \<Rightarrow> bytes \<Rightarrow> bytes \<Rightarrow> bytes" where
  "serialize_package ct nonce payload = u16_le (word_of_nat (length ct)) @ ct @ nonce @ payload"

definition deserialize_package :: "bytes \<Rightarrow> core_error + encrypted_package" where
  "deserialize_package d =
     (if length d < 2 then Inl PackageNoKemLen
      else let hdr_end = 2 + unat (le_u16 [d ! 0, d ! 1]) in
        if length d < hdr_end + 12 then Inl PackageNoNonce
        else let payload = drop (hdr_end + 12) d in
          if length payload < 16 then Inl PackageNoTag
          else Inr \<lparr>kem_ct = slice 2 hdr_end d, ep_nonce = slice hdr_end (hdr_end + 12) d,
                    ep_payload = payload\<rparr>)"

lemma deserialize_serialize:
  assumes "length ct < 65536" "length nonce = 12" "16 \<le> length payload"
  shows "deserialize_package (serialize_package ct nonce payload) =
    Inr \<lparr>kem_ct = ct, ep_nonce = nonce, ep_payload = payload\<rparr>"
proof -
  let ?d = "serialize_package ct nonce payload"
  have h: "[?d ! 0, ?d ! 1] = u16_le (word_of_nat (length ct))"
    unfolding serialize_package_def by (rule u16_le_nth)
  have "slice 2 (2 + length ct) ?d = ct"
    unfolding serialize_package_def by (rule slice_append_mid) auto
  moreover have "slice (2 + length ct) (2 + length ct + 12) ?d = nonce"
    using slice_append_mid[of "u16_le (word_of_nat (length ct)) @ ct" "2 + length ct" nonce
        "2 + length ct + 12" payload] assms(2) by (simp add: serialize_package_def)
  moreover have "drop (2 + length ct + 12) ?d = payload"
    using assms(2) by (simp add: serialize_package_def)
  moreover have "length ?d = 2 + length ct + 12 + length payload"
    using assms(2) by (simp add: serialize_package_def)
  ultimately show ?thesis
    using h assms by (simp add: deserialize_package_def Let_def del: One_nat_def)
qed

text \<open>What parses has a nonce of twelve bytes and room for the authentication tag.\<close>

lemma deserialize_package_shape:
  assumes "deserialize_package d = Inr p"
  shows "length (ep_nonce p) = 12 \<and> 16 \<le> length (ep_payload p) \<and>
    length d = 2 + length (kem_ct p) + 12 + length (ep_payload p)"
  using assms by (auto simp: deserialize_package_def Let_def split: if_splits)


section \<open>Hybrid encryption\<close>

text \<open>\<open>rnd\<close> is the encapsulation randomness, \<open>nonce\<close> the random nonce of the call.\<close>

definition cipher_encrypt :: "crypto \<Rightarrow> bytes \<Rightarrow> bytes \<Rightarrow> bytes \<Rightarrow> bytes \<Rightarrow> core_error + bytes" where
  "cipher_encrypt C rnd nonce public_key plaintext =
     (if length public_key \<noteq> 1568 then Inl (BadPublicKey (length public_key))
      else case c_kem_encaps C public_key rnd of
             None \<Rightarrow> Inl EncapsFailed
           | Some (ct, shared) \<Rightarrow>
               (case c_seal C shared nonce [] plaintext of
                  None \<Rightarrow> Inl EncryptFailed
                | Some enc \<Rightarrow> Inr (serialize_package ct nonce enc)))"

definition cipher_decrypt :: "crypto \<Rightarrow> bytes \<Rightarrow> bytes \<Rightarrow> core_error + bytes" where
  "cipher_decrypt C secret_key package =
     res_bind (deserialize_package package) (\<lambda>p.
       if length secret_key \<noteq> 3168 then Inl (BadSecretKey (length secret_key))
       else if length (kem_ct p) \<noteq> 1568 then Inl BadKemCiphertext
       else case c_kem_decaps C secret_key (kem_ct p) of
              None \<Rightarrow> Inl DecapsFailed
            | Some shared \<Rightarrow>
                (case c_open C shared (ep_nonce p) [] (ep_payload p) of
                   None \<Rightarrow> Inl DecryptFailed
                 | Some pt \<Rightarrow> Inr pt))"

lemma cipher_roundtripE:
  assumes "kem_ok C" "aead_ok C" "generate_keypair C seed = (pk, sk)"
    "length nonce = 12" "length pt \<le> aead_max"
  obtains pkg where "cipher_encrypt C rnd nonce pk pt = Inr pkg" "cipher_decrypt C sk pkg = Inr pt"
proof -
  obtain ct ss where k: "length pk = 1568" "length sk = 3168" "c_kem_encaps C pk rnd = Some (ct, ss)"
    "length ct = 1568" "length ss = 32" "c_kem_decaps C sk ct = Some ss"
    using kem_keyE[OF assms(1)] assms(3) by (metis generate_keypair_def)
  obtain c where c: "c_seal C ss nonce [] pt = Some c" "length c = length pt + 16"
    "c_open C ss nonce [] c = Some pt"
    using aeadE[OF assms(2) k(5) assms(4) _ assms(5), of "[]"] by auto
  have "deserialize_package (serialize_package ct nonce c) =
      Inr \<lparr>kem_ct = ct, ep_nonce = nonce, ep_payload = c\<rparr>"
    using k c assms(4) by (intro deserialize_serialize) simp_all
  with k c show ?thesis
    by (intro that[of "serialize_package ct nonce c"]) (simp_all add: cipher_encrypt_def cipher_decrypt_def)
qed


section \<open>User ids and key derivation\<close>

definition hash_public_key :: "crypto \<Rightarrow> bytes \<Rightarrow> bytes" where
  "hash_public_key C pk = c_sha256 C pk"

text \<open>The native build; the browser build uses 100,000 iterations.\<close>

definition derive_key :: "crypto \<Rightarrow> string \<Rightarrow> bytes \<Rightarrow> bytes" where
  "derive_key C password salt = c_pbkdf2 C password salt 600000"


section \<open>Symmetric encryption\<close>

text \<open>\<open>None\<close> is the panic of the \<open>expect\<close>.\<close>

definition encrypt_symmetric :: "crypto \<Rightarrow> bytes \<Rightarrow> bytes \<Rightarrow> bytes \<Rightarrow> bytes option" where
  "encrypt_symmetric C nonce key plaintext =
     map_option (\<lambda>enc. nonce @ enc) (c_seal C key nonce [] plaintext)"

definition decrypt_symmetric :: "crypto \<Rightarrow> bytes \<Rightarrow> bytes \<Rightarrow> core_error + bytes" where
  "decrypt_symmetric C key d =
     (if length d < 12 + 16 then Inl CiphertextTooShort
      else case c_open C key (take 12 d) [] (drop 12 d) of
             None \<Rightarrow> Inl DecryptFailed
           | Some pt \<Rightarrow> Inr pt)"

lemma symmetric_roundtripE:
  assumes "aead_ok C" "length key = 32" "length nonce = 12" "length pt \<le> aead_max"
  obtains d where "encrypt_symmetric C nonce key pt = Some d" "decrypt_symmetric C key d = Inr pt"
    "length d = 28 + length pt"
proof -
  obtain c where "c_seal C key nonce [] pt = Some c" "length c = length pt + 16"
    "c_open C key nonce [] c = Some pt"
    using aeadE[OF assms(1-3) _ assms(4), of "[]"] by auto
  then show ?thesis
    using assms(3) by (intro that[of "nonce @ c"]) (simp_all add: encrypt_symmetric_def decrypt_symmetric_def)
qed


section \<open>The safety fingerprint\<close>

definition fp_input :: "bytes \<Rightarrow> bytes \<Rightarrow> bytes" where
  "fp_input my_pk their_pk = (if my_pk < their_pk then my_pk @ their_pk else their_pk @ my_pk)"

definition be_u16 :: "u8 \<Rightarrow> u8 \<Rightarrow> u16" where
  "be_u16 a b = le_u16 [b, a]"

definition fp_group :: "bytes \<Rightarrow> nat \<Rightarrow> string" where
  "fp_group h i =
     (let idx = (i * 2) mod 30; val = unat (be_u16 (h ! idx) (h ! (idx + 1))) mod 100000 in
      (if 0 < i then '' '' else []) @ fmt_dec 5 val)"

definition compute_fingerprint :: "crypto \<Rightarrow> bytes \<Rightarrow> bytes \<Rightarrow> string" where
  "compute_fingerprint C my_pk their_pk =
     (let h = c_sha256 C (fp_input my_pk their_pk) in concat (map (fp_group h) [0..<12]))"

lemma fp_input_commute: "fp_input a b = fp_input b a"
  using less_linear[of a b] by (auto simp: fp_input_def)

lemma length_fp_group: "length (fp_group h i) = (if 0 < i then 6 else 5)"
proof -
  have "n mod 100000 < 10 ^ 5" for n :: nat by simp
  then show ?thesis using length_fmt_dec[of 5] by (simp add: fp_group_def Let_def)
qed

lemma fp_group_chars: "set (fp_group h i) \<subseteq> insert (CHR '' '') {c. is_digit c}"
  using fmt_dec_digits(1) by (fastforce simp: fp_group_def Let_def list_all_iff)

lemma length_fingerprint: "length (compute_fingerprint C a b) = 71"
  by (simp add: compute_fingerprint_def Let_def length_concat length_fp_group comp_def upt_rec)

end
