(* ===== verification/Signing.thy ===== *)
theory Signing
  imports Cipher
begin

text \<open>
  \<open>core/src/signing.rs\<close>: ML-DSA-87 sender signatures, framed (message payloads) and raw
  (prekeys).
\<close>

definition PUBLIC_KEY_LEN :: nat where [simp]: "PUBLIC_KEY_LEN = 2592"
definition SIGNATURE_LEN :: nat where [simp]: "SIGNATURE_LEN = 4627"
definition SECRET_KEY_LEN :: nat where [simp]: "SECRET_KEY_LEN = 32"

datatype verify_status = NoSignature | NoKey | BadVerifyKey | BadSignature

definition generate_signing_keypair :: "crypto \<Rightarrow> bytes \<Rightarrow> bytes \<times> bytes" where
  "generate_signing_keypair C seed = (c_dsa_pk C seed, seed)"

definition sign_raw :: "crypto \<Rightarrow> bytes \<Rightarrow> bytes \<Rightarrow> core_error + bytes" where
  "sign_raw C secret_key d =
     (if length secret_key \<noteq> SECRET_KEY_LEN then Inl (BadSigningKey (length secret_key))
      else case c_dsa_sign C secret_key d of None \<Rightarrow> Inl SigningFailed | Some sig \<Rightarrow> Inr sig)"

definition sign_message :: "crypto \<Rightarrow> bytes \<Rightarrow> bytes \<Rightarrow> core_error + bytes" where
  "sign_message C secret_key txt =
     (if length secret_key \<noteq> SECRET_KEY_LEN then Inl (BadSigningKey (length secret_key))
      else case c_dsa_sign C secret_key txt of
             None \<Rightarrow> Inl SigningFailed
           | Some sig \<Rightarrow> Inr (u16_le (word_of_nat (length sig)) @ sig @ txt))"

definition verify_raw :: "crypto \<Rightarrow> bytes \<Rightarrow> bytes \<Rightarrow> bytes \<Rightarrow> verify_status + unit" where
  "verify_raw C public_key d sig =
     (if public_key = [] then Inl NoKey
      else if length public_key \<noteq> PUBLIC_KEY_LEN then Inl BadVerifyKey
      else if length sig \<noteq> SIGNATURE_LEN then Inl BadSignature
      else if \<not> c_dsa_decodes C sig then Inl BadSignature
      else if c_dsa_verify C public_key d sig then Inr () else Inl BadSignature)"

definition split_payload :: "bytes \<Rightarrow> (bytes \<times> bytes) option" where
  "split_payload payload =
     (if length payload < 2 then None
      else let sig_len = unat (le_u16 [payload ! 0, payload ! 1]) in
        if sig_len = 0 \<or> 2 + sig_len > length payload then None
        else Some (slice 2 (2 + sig_len) payload, drop (2 + sig_len) payload))"

definition verify_message :: "crypto \<Rightarrow> bytes \<Rightarrow> bytes \<Rightarrow> verify_status + bytes" where
  "verify_message C public_key payload =
     (case split_payload payload of
        None \<Rightarrow> Inl NoSignature
      | Some (sig, txt) \<Rightarrow>
          (if public_key = [] then Inl NoKey
           else if length public_key \<noteq> PUBLIC_KEY_LEN then Inl BadVerifyKey
           else if length sig \<noteq> SIGNATURE_LEN then Inl BadSignature
           else if \<not> c_dsa_decodes C sig then Inl BadSignature
           else if c_dsa_verify C public_key txt sig then Inr txt else Inl BadSignature))"


section \<open>Framing\<close>

lemma split_payload_framed:
  assumes "0 < length sig" "length sig < 65536"
  shows "split_payload (u16_le (word_of_nat (length sig)) @ sig @ txt) = Some (sig, txt)"
proof -
  let ?p = "u16_le (word_of_nat (length sig)) @ sig @ txt"
  have "slice 2 (2 + length sig) ?p = sig" by (rule slice_append_mid) auto
  then show ?thesis
    using assms unfolding split_payload_def u16_le_nth by simp
qed

text \<open>A split payload is exactly its frame.\<close>

lemma split_payload_shape:
  assumes "split_payload p = Some (sig, txt)"
  shows "p = u16_le (word_of_nat (length sig)) @ sig @ txt \<and> sig \<noteq> []"
proof -
  define n where "n = unat (le_u16 [p ! 0, p ! 1])"
  have n: "n \<noteq> 0" "2 + n \<le> length p" "sig = slice 2 (2 + n) p" "txt = drop (2 + n) p"
    using assms by (auto simp: split_payload_def Let_def n_def split: if_splits)
  have len: "length sig = n" using n by simp
  have two: "take 2 p = [p ! 0, p ! 1]"
    using n(2) by (cases p; cases "tl p") (auto simp: numeral_2_eq_2)
  have "word_of_nat n = le_u16 [p ! 0, p ! 1]" by (simp add: n_def)
  then have "u16_le (word_of_nat (length sig)) = u16_le (le_u16 [p ! 0, p ! 1])" using len by simp
  also have "\<dots> = [p ! 0, p ! 1]" by (rule u16_le_le_u16)
  finally have "u16_le (word_of_nat (length sig)) = take 2 p" using two by simp
  moreover have "p = take 2 p @ slice 2 (2 + n) p @ drop (2 + n) p"
    by (metis add_diff_cancel_left' append_take_drop_id drop_drop slice_def add.commute)
  moreover have "sig \<noteq> []" using n(1) len by auto
  ultimately show ?thesis using n by simp
qed


section \<open>Signing and verifying\<close>

lemma sign_rawE:
  assumes "dsa_ok C" "length seed = 32"
  obtains sig where "sign_raw C seed d = Inr sig" "length sig = SIGNATURE_LEN"
    "verify_raw C (c_dsa_pk C seed) d sig = Inr ()"
proof -
  obtain sig where s: "c_dsa_sign C seed d = Some sig" "length sig = 4627" "c_dsa_decodes C sig"
    "c_dsa_verify C (c_dsa_pk C seed) d sig" "length (c_dsa_pk C seed) = 2592"
    by (rule dsa_signE[OF assms])
  have "c_dsa_pk C seed \<noteq> []" using s(5) by auto
  with s assms(2) show ?thesis
    by (intro that[of sig]) (simp_all add: sign_raw_def verify_raw_def)
qed

lemma sign_verify_message:
  assumes "dsa_ok C" "length seed = 32"
  shows "\<exists>payload. sign_message C seed txt = Inr payload \<and>
    length payload = 2 + SIGNATURE_LEN + length txt \<and>
    verify_message C (c_dsa_pk C seed) payload = Inr txt"
proof -
  obtain sig where s: "c_dsa_sign C seed txt = Some sig" "length sig = 4627" "c_dsa_decodes C sig"
    "c_dsa_verify C (c_dsa_pk C seed) txt sig" "length (c_dsa_pk C seed) = 2592"
    by (rule dsa_signE[OF assms])
  have "c_dsa_pk C seed \<noteq> []" using s(5) by auto
  moreover have "split_payload (u16_le (word_of_nat (length sig)) @ sig @ txt) = Some (sig, txt)"
    using s(2) by (intro split_payload_framed) simp_all
  ultimately show ?thesis using s assms(2) by (simp add: sign_message_def verify_message_def)
qed

text \<open>What verifies was signed: only the text under a valid signature is ever returned.\<close>

lemma verify_message_sound:
  "verify_message C pk payload = Inr txt \<longleftrightarrow>
     (\<exists>sig. payload = u16_le (word_of_nat (length sig)) @ sig @ txt \<and> length sig = SIGNATURE_LEN \<and>
        verify_raw C pk txt sig = Inr ())"
  (is "?l = ?r")
proof
  assume v: ?l
  then obtain sig where sp: "split_payload payload = Some (sig, txt)"
    by (auto simp: verify_message_def split: option.splits if_splits)
  from v sp split_payload_shape[OF sp] show ?r
    by (auto simp: verify_message_def verify_raw_def split: if_splits)
next
  assume ?r
  then obtain sig where p: "payload = u16_le (word_of_nat (length sig)) @ sig @ txt"
    "length sig = SIGNATURE_LEN" "verify_raw C pk txt sig = Inr ()" by blast
  then have "split_payload payload = Some (sig, txt)"
    using split_payload_framed[of sig "txt"] by simp
  with p show ?l
    by (auto simp: verify_message_def verify_raw_def split: if_splits)
qed

lemma verify_message_no_key: "verify_message C [] payload \<in> {Inl NoSignature, Inl NoKey}"
  by (auto simp: verify_message_def split: option.splits)

end
