(* ===== verification/Identity.thy ===== *)
theory Identity
  imports Signing Codec
begin

text \<open>
  \<open>core/src/identity.rs\<close>: the identity bundle with its signed prekey, blind registration and
  lookup, and invite links. The wire formats are codecs in the sense of \<open>Codec\<close>.
\<close>

definition IDENTITY_V9_VERSION :: u8 where "IDENTITY_V9_VERSION = 0x09"
definition VURN_SEARCH_SALT :: bytes where "VURN_SEARCH_SALT = ascii_bytes ''VURN_SEARCH''"
definition VURN_PROFILE_ENC_SALT :: bytes where
  "VURN_PROFILE_ENC_SALT = ascii_bytes ''VURN_PROFILE_ENC''"

record identity_bundle =
  ik_kem :: bytes
  ik_x :: bytes
  sig_pk :: bytes
  spk_kem :: bytes
  spk_x :: bytes
  spk_sig :: bytes

definition same_identity :: "identity_bundle \<Rightarrow> identity_bundle \<Rightarrow> bool" where
  "same_identity a b \<longleftrightarrow> ik_kem a = ik_kem b \<and> ik_x a = ik_x b \<and> sig_pk a = sig_pk b"


section \<open>The two-key identity of version 0.7\<close>

definition encode_identity :: "bytes \<Rightarrow> bytes \<Rightarrow> bytes" where
  "encode_identity public_key signing_public_key =
     u16_le (word_of_nat (length public_key)) @ public_key @
     u16_le (word_of_nat (length signing_public_key)) @ signing_public_key"

definition decode_identity :: "bytes \<Rightarrow> core_error + (bytes \<times> bytes)" where
  "decode_identity d =
     (if length d < 2 then Inl IdentityTooShort
      else let kem_end = 2 + unat (le_u16 [d ! 0, d ! 1]) in
        if length d < kem_end + 2 then Inl IdentityNoSigHeader
        else let sig_len = unat (le_u16 [d ! kem_end, d ! (kem_end + 1)]) in
          if length d < kem_end + 2 + sig_len then Inl IdentitySigCut
          else Inr (slice 2 kem_end d, slice (kem_end + 2) (kem_end + 2 + sig_len) d))"

lemma decode_encode_identity:
  assumes "length pk < 65536" "length spk < 65536"
  shows "decode_identity (encode_identity pk spk @ r) = Inr (pk, spk)"
proof -
  let ?a = "u16_le (word_of_nat (length pk))" and ?b = "u16_le (word_of_nat (length spk))"
  let ?d = "encode_identity pk spk @ r"
  have d: "?d = ?a @ pk @ ?b @ spk @ r" by (simp add: encode_identity_def)
  have h1: "[?d ! 0, ?d ! 1] = ?a" unfolding d by (rule u16_le_nth)
  have "?d = (?a @ pk) @ ?b @ spk @ r" by (simp add: d)
  moreover have "length (?a @ pk) = 2 + length pk" by simp
  ultimately have "drop (2 + length pk) ?d = ?b @ spk @ r" by (metis append_eq_conv_conj)
  then have "?d ! (2 + length pk) = (?b @ spk @ r) ! 0" "?d ! (2 + length pk + 1) = (?b @ spk @ r) ! 1"
    by (metis (no_types, lifting) add_0_right length_append length_u16_le d nth_drop le_add1 add.assoc)+
  then have h2: "[?d ! (2 + length pk), ?d ! (2 + length pk + 1)] = ?b"
    by (simp only: u16_le_nth)
  have s1: "slice 2 (2 + length pk) ?d = pk"
    unfolding d by (rule slice_append_mid) simp_all
  have s2: "slice (2 + length pk + 2) (2 + length pk + 2 + length spk) ?d = spk"
    using slice_append_mid[of "?a @ pk @ ?b" "2 + length pk + 2" spk] by (simp add: d)
  show ?thesis
    using h1 h2 s1 s2 assms by (simp add: decode_identity_def d del: One_nat_def)
qed


section \<open>The bundle of version 0.9\<close>

definition bundle_len :: nat where
  "bundle_len = 1 + 2 * 1568 + 2 * 32 + PUBLIC_KEY_LEN + SIGNATURE_LEN"

definition encode_bundle :: "identity_bundle \<Rightarrow> bytes" where
  "encode_bundle b =
     [IDENTITY_V9_VERSION] @ ik_kem b @ ik_x b @ sig_pk b @ spk_kem b @ spk_x b @ spk_sig b"

definition decode_bundle :: "bytes \<Rightarrow> core_error + identity_bundle" where
  "decode_bundle d =
     (if d = [] \<or> d ! 0 \<noteq> IDENTITY_V9_VERSION then
        res_bind (decode_identity d) (\<lambda>(k, s).
          Inr \<lparr>ik_kem = k, ik_x = [], sig_pk = s, spk_kem = [], spk_x = [], spk_sig = []\<rparr>)
      else if length d < bundle_len then Inl (BundleTruncated (length d))
      else let p0 = 1; p1 = p0 + 1568; p2 = p1 + 32; p3 = p2 + PUBLIC_KEY_LEN;
               p4 = p3 + 1568; p5 = p4 + 32; p6 = p5 + SIGNATURE_LEN in
        Inr \<lparr>ik_kem = slice p0 p1 d, ik_x = slice p1 p2 d, sig_pk = slice p2 p3 d,
             spk_kem = slice p3 p4 d, spk_x = slice p4 p5 d, spk_sig = slice p5 p6 d\<rparr>)"

definition is_v9 :: "identity_bundle \<Rightarrow> bool" where
  "is_v9 b \<longleftrightarrow> ik_x b \<noteq> [] \<and> spk_kem b \<noteq> [] \<and> spk_x b \<noteq> [] \<and> spk_sig b \<noteq> []"

definition prekey_message :: "bytes \<Rightarrow> bytes \<Rightarrow> bytes" where
  "prekey_message k x = k @ x"

definition verify_prekey :: "crypto \<Rightarrow> identity_bundle \<Rightarrow> core_error + unit" where
  "verify_prekey C b =
     (if \<not> is_v9 b then Inl NoSignedPrekey
      else case verify_raw C (sig_pk b) (prekey_message (spk_kem b) (spk_x b)) (spk_sig b) of
             Inl _ \<Rightarrow> Inl PrekeyNotVerified
           | Inr _ \<Rightarrow> Inr ())"

text \<open>The sizes the algorithms fix.\<close>

definition bundle_ok :: "identity_bundle \<Rightarrow> bool" where
  "bundle_ok b \<longleftrightarrow>
     length (ik_kem b) = 1568 \<and> length (ik_x b) = 32 \<and> length (sig_pk b) = PUBLIC_KEY_LEN \<and>
     length (spk_kem b) = 1568 \<and> length (spk_x b) = 32 \<and> length (spk_sig b) = SIGNATURE_LEN"

lemma length_encode_bundle: "bundle_ok b \<Longrightarrow> length (encode_bundle b) = bundle_len"
  by (simp add: bundle_ok_def encode_bundle_def bundle_len_def)

lemma bundle_ok_v9: "bundle_ok b \<Longrightarrow> is_v9 b"
  by (auto simp: bundle_ok_def is_v9_def)

lemma slice_Suc_Cons: "0 < a \<Longrightarrow> slice a b (x # xs) = slice (a - 1) (b - 1) xs"
  by (cases a; cases b) (simp_all add: slice_def)

lemma slice_skip: "length xs \<le> a \<Longrightarrow> slice a b (xs @ ys) = slice (a - length xs) (b - length xs) ys"
  by (simp add: slice_def)

lemma slice_whole: "slice 0 (length xs) (xs @ ys) = xs"
  by (simp add: slice_def)

lemma decode_encode_bundle:
  assumes "bundle_ok b"
  shows "decode_bundle (encode_bundle b @ r) = Inr b"
proof -
  have l: "length (ik_kem b) = 1568" "length (ik_x b) = 32" "length (sig_pk b) = 2592"
    "length (spk_kem b) = 1568" "length (spk_x b) = 32" "length (spk_sig b) = 4627"
    using assms by (simp_all add: bundle_ok_def)
  have whole: "slice 0 n (xs @ ys) = xs" if "length xs = n" for n :: nat and xs ys :: bytes
    using that slice_whole by blast
  show ?thesis
    using l length_encode_bundle[OF assms]
    by (simp add: decode_bundle_def encode_bundle_def Let_def bundle_len_def slice_Suc_Cons
        slice_skip whole)
qed


section \<open>Signed prekeys\<close>

text \<open>\<open>r_kem\<close> and \<open>r_x\<close> are the randomness of the two fresh key pairs.\<close>

definition build_identity_bundle ::
    "crypto \<Rightarrow> bytes \<Rightarrow> bytes \<Rightarrow> bytes \<Rightarrow> bytes \<Rightarrow> bytes \<Rightarrow> bytes \<Rightarrow> core_error + identity_bundle" where
  "build_identity_bundle C r_kem r_x k x s sig_sk =
     (let new_kem = fst (generate_keypair C r_kem);
          new_x = c_x25519_base C r_x in
      res_bind (sign_raw C sig_sk (prekey_message new_kem new_x)) (\<lambda>sig.
        Inr \<lparr>ik_kem = k, ik_x = x, sig_pk = s, spk_kem = new_kem, spk_x = new_x, spk_sig = sig\<rparr>))"

record rotated_prekey =
  rp_bundle :: identity_bundle
  rp_kem_sk :: bytes
  rp_x_sk :: bytes

definition rotate_signed_prekey ::
    "crypto \<Rightarrow> bytes \<Rightarrow> bytes \<Rightarrow> bytes \<Rightarrow> bytes \<Rightarrow> bytes \<Rightarrow> bytes \<Rightarrow> core_error + rotated_prekey" where
  "rotate_signed_prekey C r_kem r_x k x s sig_sk =
     (let (new_kem, new_kem_sk) = generate_keypair C r_kem;
          (new_x, new_x_sk) = (c_x25519_base C r_x, r_x) in
      res_bind (sign_raw C sig_sk (prekey_message new_kem new_x)) (\<lambda>sig.
        Inr \<lparr>rp_bundle = \<lparr>ik_kem = k, ik_x = x, sig_pk = s, spk_kem = new_kem, spk_x = new_x,
                          spk_sig = sig\<rparr>,
             rp_kem_sk = new_kem_sk, rp_x_sk = new_x_sk\<rparr>))"

lemma built_bundle_verifies:
  assumes "dsa_ok C" "kem_ok C" "dh_ok C" "length seed = 32" "length k = 1568" "length x = 32"
  shows "\<exists>b. build_identity_bundle C r_kem r_x k x (c_dsa_pk C seed) seed = Inr b \<and>
    bundle_ok b \<and> verify_prekey C b = Inr () \<and> ik_kem b = k \<and> ik_x b = x \<and> sig_pk b = c_dsa_pk C seed"
proof -
  let ?kem = "fst (generate_keypair C r_kem)" and ?x = "c_x25519_base C r_x"
  obtain sig where s: "sign_raw C seed (prekey_message ?kem ?x) = Inr sig"
    "length sig = SIGNATURE_LEN" "verify_raw C (c_dsa_pk C seed) (prekey_message ?kem ?x) sig = Inr ()"
    by (rule sign_rawE[OF assms(1,4)])
  have kem: "length ?kem = 1568"
    using kem_len[OF assms(2)] by (metis generate_keypair_def prod.collapse)
  have pk: "length (c_dsa_pk C seed) = PUBLIC_KEY_LEN"
    using dsa_signE[OF assms(1,4)] by (metis PUBLIC_KEY_LEN_def)
  define b where "b = \<lparr>ik_kem = k, ik_x = x, sig_pk = c_dsa_pk C seed, spk_kem = ?kem, spk_x = ?x,
      spk_sig = sig\<rparr>"
  have "bundle_ok b"
    using s(2) kem pk assms(3,5,6) by (simp add: b_def bundle_ok_def dh_len)
  moreover from this have "verify_prekey C b = Inr ()"
    using s(3) bundle_ok_v9 by (simp add: verify_prekey_def b_def)
  ultimately show ?thesis
    using s(1) by (intro exI[of _ b]) (simp add: build_identity_bundle_def b_def)
qed

lemma rotate_is_build:
  "rotate_signed_prekey C r_kem r_x k x s sk =
     res_bind (build_identity_bundle C r_kem r_x k x s sk) (\<lambda>b.
       Inr \<lparr>rp_bundle = b, rp_kem_sk = snd (generate_keypair C r_kem), rp_x_sk = r_x\<rparr>)"
  by (cases "sign_raw C sk (prekey_message (fst (generate_keypair C r_kem)) (c_x25519_base C r_x))")
    (simp_all add: rotate_signed_prekey_def build_identity_bundle_def case_prod_beta Let_def)

end
