(* ===== verification/Profile.thy ===== *)
theory Profile
  imports Identity
begin

text \<open>
  \<open>BlindProfileManager\<close> of \<open>core/src/identity.rs\<close>: blind username registration and lookup, and
  invite links. Text is a list of UTF-8 code units; lower-casing is the standard library's,
  a field of the parameter record.
\<close>

definition hmac_sha256 :: "crypto \<Rightarrow> bytes \<Rightarrow> bytes \<Rightarrow> bytes" where
  "hmac_sha256 C d salt = c_hmac C salt d"

definition derive_encryption_key :: "crypto \<Rightarrow> string \<Rightarrow> core_error + bytes" where
  "derive_encryption_key C normalized =
     (let raw = hmac_sha256 C (ascii_bytes normalized) VURN_PROFILE_ENC_SALT in
      if length raw = 32 then Inr raw else Inl BadHmacLength)"

definition search_index :: "crypto \<Rightarrow> string \<Rightarrow> bytes" where
  "search_index C username = hmac_sha256 C (ascii_bytes (c_lower C username)) VURN_SEARCH_SALT"


section \<open>Registration and lookup\<close>

text \<open>\<open>None\<close> is the panic of \<open>encrypt_symmetric\<close>.\<close>

definition seal_profile ::
    "crypto \<Rightarrow> bytes \<Rightarrow> string \<Rightarrow> bytes \<Rightarrow> (core_error + (bytes \<times> bytes)) option" where
  "seal_profile C nonce username identity =
     (case derive_encryption_key C (c_lower C username) of
        Inl e \<Rightarrow> Some (Inl e)
      | Inr key \<Rightarrow>
          map_option (\<lambda>blob. Inr (search_index C username, blob)) (encrypt_symmetric C nonce key identity))"

definition open_profile :: "crypto \<Rightarrow> string \<Rightarrow> bytes \<Rightarrow> core_error + bytes" where
  "open_profile C username blob =
     res_bind (derive_encryption_key C (c_lower C username)) (\<lambda>key. decrypt_symmetric C key blob)"

definition prepare_registration ::
    "crypto \<Rightarrow> bytes \<Rightarrow> string \<Rightarrow> bytes \<Rightarrow> bytes \<Rightarrow> (core_error + (bytes \<times> bytes)) option" where
  "prepare_registration C nonce username pk spk = seal_profile C nonce username (encode_identity pk spk)"

definition resolve_profile :: "crypto \<Rightarrow> string \<Rightarrow> bytes \<Rightarrow> core_error + (bytes \<times> bytes)" where
  "resolve_profile C username blob = res_bind (open_profile C username blob) decode_identity"

definition prepare_registration_v9 ::
    "crypto \<Rightarrow> bytes \<Rightarrow> string \<Rightarrow> identity_bundle \<Rightarrow> (core_error + (bytes \<times> bytes)) option" where
  "prepare_registration_v9 C nonce username b = seal_profile C nonce username (encode_bundle b)"

definition resolve_profile_v9 :: "crypto \<Rightarrow> string \<Rightarrow> bytes \<Rightarrow> core_error + identity_bundle" where
  "resolve_profile_v9 C username blob = res_bind (open_profile C username blob) decode_bundle"

lemma seal_open_profile:
  assumes "hmac_ok C" "aead_ok C" "length nonce = 12" "length ident \<le> aead_max"
    and "c_lower C u = c_lower C v"
  shows "\<exists>blob. seal_profile C nonce u ident = Some (Inr (search_index C v, blob)) \<and>
    length (search_index C v) = 32 \<and> open_profile C v blob = Inr ident"
proof -
  let ?key = "hmac_sha256 C (ascii_bytes (c_lower C v)) VURN_PROFILE_ENC_SALT"
  have len: "length (hmac_sha256 C d s) = 32" for d s
    using assms(1) by (simp add: hmac_sha256_def hmac_len)
  obtain blob where "encrypt_symmetric C nonce ?key ident = Some blob"
    "decrypt_symmetric C ?key blob = Inr ident"
    using symmetric_roundtripE[OF assms(2) len assms(3,4)] by metis
  then show ?thesis
    using len assms(5)
    by (simp add: seal_profile_def open_profile_def derive_encryption_key_def search_index_def)
qed

lemma length_encode_identity: "length (encode_identity pk spk) = 4 + length pk + length spk"
  by (simp add: encode_identity_def)

lemma register_resolve:
  assumes "hmac_ok C" "aead_ok C" "length nonce = 12" "length pk < 65536" "length spk < 65536"
    and "c_lower C u = c_lower C v"
  shows "\<exists>blob. prepare_registration C nonce u pk spk = Some (Inr (search_index C v, blob)) \<and>
    length (search_index C v) = 32 \<and> resolve_profile C v blob = Inr (pk, spk)"
proof -
  have "length (encode_identity pk spk) \<le> aead_max"
    using assms(4,5) by (simp add: length_encode_identity aead_max_def)
  from seal_open_profile[OF assms(1-3) this assms(6)] show ?thesis
    using decode_encode_identity[OF assms(4,5), of "[]"]
    by (auto simp: prepare_registration_def resolve_profile_def)
qed

lemma register_resolve_v9:
  assumes "hmac_ok C" "aead_ok C" "length nonce = 12" "bundle_ok b" "c_lower C u = c_lower C v"
  shows "\<exists>blob. prepare_registration_v9 C nonce u b = Some (Inr (search_index C v, blob)) \<and>
    length (search_index C v) = 32 \<and> resolve_profile_v9 C v blob = Inr b"
proof -
  have "length (encode_bundle b) \<le> aead_max"
    using length_encode_bundle[OF assms(4)] by (simp add: bundle_len_def aead_max_def)
  from seal_open_profile[OF assms(1-3) this assms(5)] show ?thesis
    using decode_encode_bundle[OF assms(4), of "[]"]
    by (auto simp: prepare_registration_v9_def resolve_profile_v9_def)
qed


section \<open>Invite links\<close>

definition invite_sep :: string where
  "invite_sep = ''?invite=''"

definition pack_invite :: "crypto \<Rightarrow> bytes \<Rightarrow> bytes \<Rightarrow> string \<Rightarrow> string" where
  "pack_invite C session_hash identity base_url =
     (let d = u16_le (word_of_nat (length session_hash)) @ session_hash @ identity in
      trim_end (CHR ''/'') base_url @ ''/?invite='' @ c_b64_encode C d)"

definition generate_invite :: "crypto \<Rightarrow> bytes \<Rightarrow> bytes \<Rightarrow> bytes \<Rightarrow> string \<Rightarrow> string" where
  "generate_invite C session_hash pk spk base_url =
     pack_invite C session_hash (encode_identity pk spk) base_url"

definition generate_invite_v9 :: "crypto \<Rightarrow> bytes \<Rightarrow> identity_bundle \<Rightarrow> string \<Rightarrow> string" where
  "generate_invite_v9 C session_hash b base_url = pack_invite C session_hash (encode_bundle b) base_url"

text \<open>The QR code of an invite; encoding (which fails on long data) and rendering are the \<open>qrcode\<close> crate's.\<close>

definition generate_invite_qr ::
    "crypto \<Rightarrow> (bytes \<Rightarrow> 'q option) \<Rightarrow> ('q \<Rightarrow> string) \<Rightarrow> bytes \<Rightarrow> bytes \<Rightarrow> bytes \<Rightarrow> string \<Rightarrow> core_error + string" where
  "generate_invite_qr C qr_new qr_svg session_hash pk spk base_url =
     (case qr_new (ascii_bytes (generate_invite C session_hash pk spk base_url)) of
        None \<Rightarrow> Inl QrFailed
      | Some code \<Rightarrow> Inr (qr_svg code))"

definition parse_invite_raw :: "crypto \<Rightarrow> string \<Rightarrow> core_error + (bytes \<times> bytes)" where
  "parse_invite_raw C url =
     (case drop 1 (split_on invite_sep url) of
        [] \<Rightarrow> Inl InviteNoParameter
      | b64 # _ \<Rightarrow>
          (case c_b64_decode C b64 of
             None \<Rightarrow> Inl InviteBadBase64
           | Some d \<Rightarrow>
               (if length d < 4 then Inl InviteTooShort
                else let offset = 2 + unat (le_u16 [d ! 0, d ! 1]) in
                  if length d < offset + 2 then Inl InviteTruncated
                  else Inr (slice 2 offset d, drop offset d))))"

definition parse_invite_v9 :: "crypto \<Rightarrow> string \<Rightarrow> core_error + (bytes \<times> identity_bundle)" where
  "parse_invite_v9 C url =
     res_bind (parse_invite_raw C url) (\<lambda>(session_hash, identity).
       res_bind (decode_bundle identity) (\<lambda>b. Inr (session_hash, b)))"

definition parse_invite :: "crypto \<Rightarrow> string \<Rightarrow> core_error + (bytes \<times> bytes \<times> bytes)" where
  "parse_invite C url =
     res_bind (parse_invite_raw C url) (\<lambda>(session_hash, identity).
       case decode_identity identity of
         Inr (pk, spk) \<Rightarrow> Inr (session_hash, pk, spk)
       | Inl e \<Rightarrow>
           (if 2 \<le> length identity then
              (let kem_len = unat (le_u16 [identity ! 0, identity ! 1]) in
               if length identity = 2 + kem_len then Inr (session_hash, drop 2 identity, [])
               else Inl IdentityNoSigHeader)
            else Inl e))"

lemma parse_pack_invite:
  assumes "b64_ok C" "CHR ''?'' \<notin> set base_url" "length h < 65536" "2 \<le> length ident"
  shows "parse_invite_raw C (pack_invite C h ident base_url) = Inr (h, ident)"
proof -
  let ?d = "u16_le (word_of_nat (length h)) @ h @ ident"
  let ?b = "trim_end (CHR ''/'') base_url @ ''/''"
  have "CHR ''?'' \<notin> set ?b" using assms(2) set_trim_end by fastforce
  moreover have "CHR ''?'' \<notin> set (c_b64_encode C ?d)" using assms(1) by (simp add: b64_ok_def)
  ultimately have "split_on invite_sep (?b @ invite_sep @ c_b64_encode C ?d) = [?b, c_b64_encode C ?d]"
    by (intro split_on_two) (auto simp: invite_sep_def)
  moreover have "pack_invite C h ident base_url = ?b @ invite_sep @ c_b64_encode C ?d"
    by (simp add: pack_invite_def invite_sep_def)
  moreover have "c_b64_decode C (c_b64_encode C ?d) = Some ?d" using assms(1) by (simp add: b64_ok_def)
  moreover have "[?d ! 0, ?d ! 1] = u16_le (word_of_nat (length h))" by (rule u16_le_nth)
  moreover have "slice 2 (2 + length h) ?d = h" by (rule slice_append_mid) simp_all
  ultimately show ?thesis
    using assms(3,4) by (simp add: parse_invite_raw_def del: One_nat_def) simp
qed

lemma invite_roundtrip:
  assumes "b64_ok C" "CHR ''?'' \<notin> set base_url" "length h < 65536" "length pk < 65536" "length spk < 65536"
  shows "parse_invite C (generate_invite C h pk spk base_url) = Inr (h, pk, spk)"
  using parse_pack_invite[OF assms(1-3), of "encode_identity pk spk"]
    decode_encode_identity[OF assms(4,5), of "[]"]
  by (simp add: parse_invite_def generate_invite_def length_encode_identity)

lemma invite_roundtrip_v9:
  assumes "b64_ok C" "CHR ''?'' \<notin> set base_url" "length h < 65536" "bundle_ok b"
  shows "parse_invite_v9 C (generate_invite_v9 C h b base_url) = Inr (h, b)"
  using parse_pack_invite[OF assms(1-3), of "encode_bundle b"] length_encode_bundle[OF assms(4)]
    decode_encode_bundle[OF assms(4), of "[]"]
  by (simp add: parse_invite_v9_def generate_invite_v9_def bundle_len_def)

text \<open>The low byte of the key length is not the version byte of a bundle.\<close>

lemma to_le_two: "to_le 2 v = [word_of_nat (v mod 256), word_of_nat (v div 256 mod 256)]"
  by (simp add: numeral_2_eq_2)

lemma kem_len_head: "u16_le (word_of_nat 1568) = [32, 6]"
proof -
  have "unat (word_of_nat 1568 :: u16) = 1568" by (rule u16_len) simp
  then show ?thesis by (simp only: u16_le_def to_le_two) simp
qed

text \<open>An invite of version 0.7 read as version 0.9 degrades to a bundle without a prekey.\<close>

lemma decode_bundle_legacy:
  assumes "length pk = 1568" "length spk < 65536"
  shows "decode_bundle (encode_identity pk spk) =
    Inr \<lparr>ik_kem = pk, ik_x = [], sig_pk = spk, spk_kem = [], spk_x = [], spk_sig = []\<rparr>"
proof -
  have "encode_identity pk spk ! 0 = 32"
    using assms(1) unfolding encode_identity_def by (simp only: kem_len_head) simp
  moreover have "decode_identity (encode_identity pk spk) = Inr (pk, spk)"
    using decode_encode_identity[of pk spk "[]"] assms by simp
  ultimately show ?thesis by (simp add: decode_bundle_def IDENTITY_V9_VERSION_def)
qed

lemma legacy_invite_degrades:
  assumes "b64_ok C" "CHR ''?'' \<notin> set base_url" "length h < 65536" "length pk = 1568" "length spk < 65536"
  shows "\<exists>b. parse_invite_v9 C (generate_invite C h pk spk base_url) = Inr (h, b) \<and>
    ik_kem b = pk \<and> sig_pk b = spk \<and> \<not> is_v9 b \<and> verify_prekey C b = Inl NoSignedPrekey"
  using parse_pack_invite[OF assms(1-3), of "encode_identity pk spk"] decode_bundle_legacy[OF assms(4,5)]
  by (simp add: parse_invite_v9_def generate_invite_def length_encode_identity is_v9_def verify_prekey_def)

text \<open>An invite from before sender signatures: the KEM key alone.\<close>

definition kem_only :: "bytes \<Rightarrow> bytes" where
  "kem_only pk = u16_le (word_of_nat (length pk)) @ pk"

lemma decode_kem_only:
  assumes "length pk < 65536"
  shows "decode_identity (kem_only pk) = Inl IdentityNoSigHeader"
    "[kem_only pk ! 0, kem_only pk ! 1] = u16_le (word_of_nat (length pk))"
proof -
  show h: "[kem_only pk ! 0, kem_only pk ! 1] = u16_le (word_of_nat (length pk))"
    unfolding kem_only_def by (rule u16_le_nth)
  show "decode_identity (kem_only pk) = Inl IdentityNoSigHeader"
    using assms h by (simp add: decode_identity_def kem_only_def del: One_nat_def)
qed

lemma kem_only_invite:
  assumes "b64_ok C" "CHR ''?'' \<notin> set base_url" "length h < 65536" "length pk = 1568"
  shows "parse_invite C (pack_invite C h (kem_only pk) base_url) = Inr (h, pk, [])"
    "parse_invite_v9 C (pack_invite C h (kem_only pk) base_url) = Inl IdentityNoSigHeader"
proof -
  have k: "decode_identity (kem_only pk) = Inl IdentityNoSigHeader"
    "[kem_only pk ! 0, kem_only pk ! 1] = u16_le (word_of_nat (length pk))"
    using decode_kem_only[of pk] assms(4) by simp_all
  have raw: "parse_invite_raw C (pack_invite C h (kem_only pk) base_url) = Inr (h, kem_only pk)"
    using parse_pack_invite[OF assms(1-3)] assms(4) by (simp add: kem_only_def)
  have len: "length (kem_only pk) = 2 + length pk" "drop 2 (kem_only pk) = pk"
    by (simp_all add: kem_only_def)
  show "parse_invite C (pack_invite C h (kem_only pk) base_url) = Inr (h, pk, [])"
    using raw k len assms(4) by (simp add: parse_invite_def del: One_nat_def)
  have "kem_only pk ! 0 = 32"
    using assms(4) unfolding kem_only_def by (simp only: kem_len_head) simp
  then have "decode_bundle (kem_only pk) = Inl IdentityNoSigHeader"
    using k(1) by (simp add: decode_bundle_def IDENTITY_V9_VERSION_def)
  then show "parse_invite_v9 C (pack_invite C h (kem_only pk) base_url) = Inl IdentityNoSigHeader"
    using raw by (simp add: parse_invite_v9_def)
qed

end
