(* ===== verification/Bootstrap.thy ===== *)
theory Bootstrap
  imports Profile Ratchet_Burst
begin

text \<open>
  \<open>core/src/bootstrap.rs\<close>: deriving the session root and id from identity bundles on both
  sides, and the init envelope that carries the first message.
\<close>

definition INIT_INFO :: bytes where
  "INIT_INFO = ascii_bytes ''vurn-init''"

definition hkdf_sha256 :: "crypto \<Rightarrow> bytes \<Rightarrow> bytes \<Rightarrow> bytes" where
  "hkdf_sha256 C ikm info = hmac256 C (hmac256 C [] ikm) (info @ [0x01])"

definition session_id_from :: "crypto \<Rightarrow> bytes \<Rightarrow> bytes \<Rightarrow> bytes" where
  "session_id_from C a b = c_sha256 C (if a \<le> b then a @ b else b @ a)"

definition arr32 :: "bytes \<Rightarrow> core_error + bytes" where
  "arr32 v = (if length v = 32 then Inr v else Inl BootstrapBadKey)"

text \<open>\<open>map_err\<close> of the KEM and X25519 calls: the error keeps which of the inputs failed.\<close>

definition boot_err :: "nat \<Rightarrow> decrypt_error + 'a \<Rightarrow> core_error + 'a" where
  "boot_err i r = (case r of Inl _ \<Rightarrow> Inl (BootstrapKemFailed i) | Inr x \<Rightarrow> Inr x)"

record initiator_output =
  io_root :: bytes
  io_session_id :: bytes
  io_ct_spk :: bytes
  io_ct_ik :: bytes

text \<open>Key pairs are pairs (public, secret); \<open>r1\<close>, \<open>r2\<close> is the encapsulation randomness.\<close>

definition initiator_bootstrap ::
    "crypto \<Rightarrow> bytes \<Rightarrow> bytes \<Rightarrow> bytes \<times> bytes \<Rightarrow> bytes \<times> bytes \<Rightarrow> identity_bundle \<Rightarrow>
     core_error + initiator_output" where
  "initiator_bootstrap C r1 r2 ikx ekx peer =
     (if \<not> is_v9 peer then Inl NoSignedPrekey else
      res_bind (verify_prekey C peer) (\<lambda>_.
      res_bind (arr32 (spk_x peer)) (\<lambda>spkx.
      res_bind (arr32 (ik_x peer)) (\<lambda>peer_ikx.
      res_bind (boot_err 1 (x25519_shared C (snd ikx) spkx)) (\<lambda>dh1.
      res_bind (boot_err 2 (x25519_shared C (snd ekx) peer_ikx)) (\<lambda>dh2.
      res_bind (boot_err 3 (x25519_shared C (snd ekx) spkx)) (\<lambda>dh3.
      res_bind (boot_err 4 (kem_encapsulate C (spk_kem peer) r1)) (\<lambda>(ct_spk, ss_spk).
      res_bind (boot_err 5 (kem_encapsulate C (ik_kem peer) r2)) (\<lambda>(ct_ik, ss_ik).
      Inr \<lparr>io_root = hkdf_sha256 C (dh1 @ dh2 @ dh3 @ ss_spk @ ss_ik) INIT_INFO,
           io_session_id = session_id_from C (fst ikx) (ik_x peer),
           io_ct_spk = ct_spk, io_ct_ik = ct_ik\<rparr>)))))))))"

definition responder_bootstrap ::
    "crypto \<Rightarrow> bytes \<times> bytes \<Rightarrow> bytes \<times> bytes \<Rightarrow> bytes \<Rightarrow> bytes \<Rightarrow> identity_bundle \<Rightarrow> bytes \<Rightarrow>
     bytes \<Rightarrow> bytes \<Rightarrow> core_error + (bytes \<times> bytes)" where
  "responder_bootstrap C ikx spkx ik_kem_sk spk_kem_sk peer ek_pub ct_spk ct_ik =
     (if \<not> is_v9 peer then Inl NoSignedPrekey else
      res_bind (verify_prekey C peer) (\<lambda>_.
      res_bind (arr32 (ik_x peer)) (\<lambda>peer_ikx.
      res_bind (boot_err 1 (x25519_shared C (snd spkx) peer_ikx)) (\<lambda>dh1.
      res_bind (boot_err 2 (x25519_shared C (snd ikx) ek_pub)) (\<lambda>dh2.
      res_bind (boot_err 3 (x25519_shared C (snd spkx) ek_pub)) (\<lambda>dh3.
      res_bind (boot_err 4 (kem_decapsulate C spk_kem_sk ct_spk)) (\<lambda>ss_spk.
      res_bind (boot_err 5 (kem_decapsulate C ik_kem_sk ct_ik)) (\<lambda>ss_ik.
      Inr (hkdf_sha256 C (dh1 @ dh2 @ dh3 @ ss_spk @ ss_ik) INIT_INFO,
           session_id_from C (ik_x peer) (fst ikx))))))))))"

lemma session_id_from_commute: "session_id_from C a b = session_id_from C b a"
  by (auto simp: session_id_from_def)

lemma boot_err_Inr [simp]: "boot_err i (Inr x) = Inr x"
  by (simp add: boot_err_def)


section \<open>Both sides derive the same root\<close>

text \<open>A party with its secret keys, and when its bundle is the honest one for them.\<close>

record party =
  p_bundle :: identity_bundle
  p_ik_x :: "bytes \<times> bytes"
  p_spk_x :: "bytes \<times> bytes"
  p_ik_kem_sk :: bytes
  p_spk_kem_sk :: bytes

definition party_ok :: "crypto \<Rightarrow> party \<Rightarrow> bool" where
  "party_ok C p \<longleftrightarrow>
     bundle_ok (p_bundle p) \<and> verify_prekey C (p_bundle p) = Inr () \<and>
     dh_pair C (p_ik_x p) \<and> fst (p_ik_x p) = ik_x (p_bundle p) \<and>
     dh_pair C (p_spk_x p) \<and> fst (p_spk_x p) = spk_x (p_bundle p) \<and>
     valid_kem_pair C (ik_kem (p_bundle p)) (p_ik_kem_sk p) \<and>
     valid_kem_pair C (spk_kem (p_bundle p)) (p_spk_kem_sk p)"

lemma bootstrap_agreement:
  assumes "dh_ok C" "kem_ok C" "party_ok C a" "party_ok C b" "dh_pair C ek"
  shows "\<exists>out. initiator_bootstrap C r1 r2 (p_ik_x a) ek (p_bundle b) = Inr out \<and>
    responder_bootstrap C (p_ik_x b) (p_spk_x b) (p_ik_kem_sk b) (p_spk_kem_sk b) (p_bundle a) (fst ek)
      (io_ct_spk out) (io_ct_ik out) = Inr (io_root out, io_session_id out) \<and>
    length (io_ct_spk out) = KEM_CT_LEN \<and> length (io_ct_ik out) = KEM_CT_LEN \<and>
    io_session_id out = session_id_from C (ik_x (p_bundle a)) (ik_x (p_bundle b))"
proof -
  let ?A = "p_bundle a" and ?B = "p_bundle b"
  have dh: "c_x25519 C (snd x) (fst y) = c_x25519 C (snd y) (fst x)"
    if "dh_pair C x" "dh_pair C y" for x y
    using that dh_commute[OF assms(1)] by (simp add: dh_pair_def)
  have k: "valid_kem_pair C (spk_kem ?B) (p_spk_kem_sk b)" "valid_kem_pair C (ik_kem ?B) (p_ik_kem_sk b)"
    using assms(4) by (simp_all add: party_ok_def)
  obtain ct1 ss1 where k1: "kem_encapsulate C (spk_kem ?B) r1 = Inr (ct1, ss1)"
    "length ct1 = KEM_CT_LEN" "kem_decapsulate C (p_spk_kem_sk b) ct1 = Inr ss1"
    using kem_roundtripE[OF assms(2) k(1)] by blast
  obtain ct2 ss2 where k2: "kem_encapsulate C (ik_kem ?B) r2 = Inr (ct2, ss2)"
    "length ct2 = KEM_CT_LEN" "kem_decapsulate C (p_ik_kem_sk b) ct2 = Inr ss2"
    using kem_roundtripE[OF assms(2) k(2)] by blast
  have A: "is_v9 ?A" "verify_prekey C ?A = Inr ()" "arr32 (ik_x ?A) = Inr (ik_x ?A)"
    "ik_x ?A = fst (p_ik_x a)"
    and B: "is_v9 ?B" "verify_prekey C ?B = Inr ()" "arr32 (ik_x ?B) = Inr (ik_x ?B)"
    "arr32 (spk_x ?B) = Inr (spk_x ?B)" "ik_x ?B = fst (p_ik_x b)" "spk_x ?B = fst (p_spk_x b)"
    using assms(3,4) by (auto simp: party_ok_def bundle_ok_v9 arr32_def bundle_ok_def)
  have e: "c_x25519 C (snd (p_ik_x a)) (spk_x ?B) = c_x25519 C (snd (p_spk_x b)) (ik_x ?A)"
    "c_x25519 C (snd ek) (ik_x ?B) = c_x25519 C (snd (p_ik_x b)) (fst ek)"
    "c_x25519 C (snd ek) (spk_x ?B) = c_x25519 C (snd (p_spk_x b)) (fst ek)"
    unfolding A(4) B(5,6) by (rule dh; use assms(3-5) in \<open>simp add: party_ok_def\<close>)+
  show ?thesis
    using A B k1 k2 e
    by (simp add: initiator_bootstrap_def responder_bootstrap_def x25519_shared_def)
qed


section \<open>The init envelope\<close>

record parsed_init =
  pi_bundle :: identity_bundle
  pi_ct_spk :: bytes
  pi_ct_ik :: bytes
  pi_package :: bytes

definition build_init_envelope :: "identity_bundle \<Rightarrow> bytes \<Rightarrow> bytes \<Rightarrow> bytes \<Rightarrow> bytes" where
  "build_init_envelope b ct_spk ct_ik package =
     (let enc = encode_bundle b in
      u16_le (word_of_nat (length enc)) @ enc @ ct_spk @ ct_ik @ package)"

definition parse_init_envelope :: "bytes \<Rightarrow> core_error + parsed_init" where
  "parse_init_envelope d =
     (if length d < 2 then Inl EnvelopeTruncated
      else let n = unat (le_u16 [d ! 0, d ! 1]); p0 = 2 in
        if length d < p0 + n then Inl EnvelopeBundleCut
        else res_bind (decode_bundle (slice p0 (p0 + n) d)) (\<lambda>b.
          let p1 = p0 + n in
          if length d < p1 + KEM_CT_LEN * 2 then Inl EnvelopeKemCut
          else let p2 = p1 + KEM_CT_LEN; p3 = p2 + KEM_CT_LEN; package = drop p3 d in
            if package = [] then Inl EnvelopeNoPackage
            else Inr \<lparr>pi_bundle = b, pi_ct_spk = slice p1 p2 d, pi_ct_ik = slice p2 p3 d,
                      pi_package = package\<rparr>))"

lemma envelope_roundtrip:
  assumes "bundle_ok b" "length ct_spk = KEM_CT_LEN" "length ct_ik = KEM_CT_LEN" "package \<noteq> []"
  shows "parse_init_envelope (build_init_envelope b ct_spk ct_ik package) =
    Inr \<lparr>pi_bundle = b, pi_ct_spk = ct_spk, pi_ct_ik = ct_ik, pi_package = package\<rparr>"
proof -
  let ?e = "encode_bundle b"
  let ?l = "u16_le (word_of_nat (length ?e))"
  define d where "d = build_init_envelope b ct_spk ct_ik package"
  have d: "d = ?l @ ?e @ ct_spk @ ct_ik @ package" by (simp add: d_def build_init_envelope_def Let_def)
  have n: "length ?e = 10420" using length_encode_bundle[OF assms(1)] by (simp add: bundle_len_def)
  have h: "unat (le_u16 [d ! 0, d ! 1]) = length ?e"
    unfolding d u16_le_nth using n by simp
  have s0: "slice 2 (2 + length ?e) d = ?e" unfolding d by (rule slice_append_mid) simp_all
  have s1: "slice (2 + length ?e) (2 + length ?e + KEM_CT_LEN) d = ct_spk"
    using slice_append_mid[of "?l @ ?e" "2 + length ?e" ct_spk] assms(2) by (simp add: d)
  have s2: "slice (2 + length ?e + KEM_CT_LEN) (2 + length ?e + KEM_CT_LEN + KEM_CT_LEN) d = ct_ik"
    using slice_append_mid[of "?l @ ?e @ ct_spk" "2 + length ?e + KEM_CT_LEN" ct_ik] assms(2,3)
    by (simp add: d)
  have s3: "drop (2 + length ?e + KEM_CT_LEN + KEM_CT_LEN) d = package"
    using assms(2,3) by (simp add: d)
  have len: "length d = 2 + length ?e + 2 * KEM_CT_LEN + length package"
    using assms(2,3) by (simp add: d)
  have dec: "decode_bundle ?e = Inr b" using decode_encode_bundle[OF assms(1), of "[]"] by simp
  have "\<not> length d < 2" "\<not> length d < 2 + length ?e" "\<not> length d < 2 + length ?e + KEM_CT_LEN * 2"
    using len by simp_all
  then show ?thesis
    using h s0 s1 s2 s3 dec assms(4)
    unfolding d_def[symmetric] parse_init_envelope_def Let_def by simp
qed

text \<open>An envelope that parses carries two full ciphertexts and a package.\<close>

lemma parse_init_shape:
  assumes "parse_init_envelope d = Inr p"
  shows "length (pi_ct_spk p) = KEM_CT_LEN \<and> length (pi_ct_ik p) = KEM_CT_LEN \<and> pi_package p \<noteq> []"
proof -
  have e: "p2 = p1 + KEM_CT_LEN \<Longrightarrow> p1 + KEM_CT_LEN * 2 \<le> length d \<Longrightarrow>
      length (slice p1 p2 d) = KEM_CT_LEN" for p1 p2 by simp
  show ?thesis
    using assms by (auto simp: parse_init_envelope_def Let_def result_iff split: if_splits)
qed


section \<open>First contact\<close>

text \<open>The session starts the application builds from the two bootstraps.\<close>

definition initiator_start :: "initiator_output \<Rightarrow> bytes \<times> bytes \<Rightarrow> identity_bundle \<Rightarrow> bytes \<times> bytes \<Rightarrow> session_start" where
  "initiator_start out ek peer kem =
     \<lparr>st_root = io_root out, st_session_id = io_session_id out, st_our_dh = ek,
      st_peer_dh = Some (spk_x peer), st_our_kem = Some kem\<rparr>"

definition responder_start :: "bytes \<times> bytes \<Rightarrow> bytes \<times> bytes \<Rightarrow> session_start" where
  "responder_start rs spkx =
     \<lparr>st_root = fst rs, st_session_id = snd rs, st_our_dh = spkx, st_peer_dh = None, st_our_kem = None\<rparr>"

lemma bootstrap_starts_match:
  assumes "sha_ok C" "party_ok C b" "dh_pair C ek" "valid_kem_pair C (fst kem) (snd kem)"
    and "io_session_id out = session_id_from C x y"
  shows "matching_starts C (initiator_start out ek (p_bundle b) kem)
    (responder_start (io_root out, io_session_id out) (p_spk_x b))"
proof -
  have "length (io_session_id out) = 32"
    using assms(1,5) by (simp add: session_id_from_def sha_len)
  then show ?thesis
    using assms(2-4) by (cases kem)
      (simp add: matching_starts_def initiator_start_def responder_start_def party_ok_def)
qed

end
