(* ===== verification/Identity_Props.thy ===== *)
theory Identity_Props
  imports Signing Cipher Bootstrap
begin

text \<open>
  The properties of the stateless part of the core crate: hybrid encryption, signed messages,
  identity bundles and their prekeys, blind profiles, invites, and the first-contact handshake.
\<close>

text \<open>A bundle and a party of the toy instance, for the examples.\<close>

definition demo_bundle :: identity_bundle where
  "demo_bundle = \<lparr>ik_kem = replicate 1568 0, ik_x = replicate 32 1, sig_pk = replicate 2592 1,
     spk_kem = replicate 1568 0, spk_x = replicate 32 2, spk_sig = replicate 4627 2\<rparr>"

definition demo_party :: party where
  "demo_party = \<lparr>p_bundle = demo_bundle, p_ik_x = (replicate 32 1, replicate 32 1),
     p_spk_x = (replicate 32 2, replicate 32 2), p_ik_kem_sk = replicate 3168 0, p_spk_kem_sk = replicate 3168 0\<rparr>"

lemma demo_bundle_ok: "bundle_ok demo_bundle"
  by (simp add: bundle_ok_def demo_bundle_def)

lemma demo_bundle_verifies: "verify_prekey toy_crypto demo_bundle = Inr ()"
  by (simp add: verify_prekey_def is_v9_def demo_bundle_def verify_raw_def toy_crypto_def)

lemma toy_dsa_pk: "c_dsa_pk toy_crypto seed = replicate 2592 1"
  by (simp add: toy_crypto_def)

lemma toy_kem_pair: "valid_kem_pair toy_crypto (replicate 1568 0) (replicate 3168 0)"
  unfolding valid_kem_pair_def kem_keypair_def by (simp add: toy_crypto_def)

lemma demo_party_ok: "party_ok toy_crypto demo_party"
  using demo_bundle_ok demo_bundle_verifies toy_kem_pair
  by (simp add: party_ok_def demo_party_def dh_pair_def)
    (simp add: demo_bundle_def toy_crypto_def pad32_def)

text \<open>Hybrid encryption round-trips: a message encrypted to a generated public key decrypts under its
  secret key, the package has the documented layout, and decryption refuses every package that
  is too short for its length field, its nonce or its tag.\<close>

theorem cipher_roundtrip:
  assumes "kem_ok C" "aead_ok C" "generate_keypair C seed = (pk, sk)" "length nonce = 12" "length pt \<le> aead_max"
  shows "(\<exists>pkg. cipher_encrypt C rnd nonce pk pt = Inr pkg \<and> cipher_decrypt C sk pkg = Inr pt) \<and>
    (\<forall>d p. cipher_decrypt C sk d = Inr p \<longrightarrow> 2 + 1568 + 12 + 16 \<le> length d)"
proof -
  have "2 + 1568 + 12 + 16 \<le> length d" if d: "cipher_decrypt C sk d = Inr p" for d p
  proof -
    obtain q where q: "deserialize_package d = Inr q" "length (kem_ct q) = 1568"
      using d by (cases "deserialize_package d") (auto simp: cipher_decrypt_def split: if_splits)
    show ?thesis using deserialize_package_shape[OF q(1)] q(2) by linarith
  qed
  then show ?thesis using cipher_roundtripE[OF assms] by metis
qed

theorem cipher_roundtrip_witness:
  "\<exists>pkg. cipher_encrypt toy_crypto [] (replicate 12 0) (replicate 1568 0) [1, 2] = Inr pkg \<and>
    cipher_decrypt toy_crypto (replicate 3168 0) pkg = Inr [1, 2]"
proof -
  have "generate_keypair toy_crypto [] = (replicate 1568 0, replicate 3168 0)"
    by (simp add: generate_keypair_def toy_crypto_def)
  from cipher_roundtrip[OF toy_ok(4,5) this, of "replicate 12 0" "[1, 2]" "[]"]
  show ?thesis by (simp add: aead_max_def)
qed

text \<open>The safety number of two keys is the same on both sides and always twelve groups of five digits.\<close>

theorem fingerprint_symmetric:
  "compute_fingerprint C a b = compute_fingerprint C b a \<and> length (compute_fingerprint C a b) = 71 \<and>
    set (compute_fingerprint C a b) \<subseteq> insert (CHR '' '') {c. is_digit c}"
proof -
  have "set (compute_fingerprint C a b) \<subseteq> insert (CHR '' '') {c. is_digit c}"
    using fp_group_chars unfolding compute_fingerprint_def Let_def set_concat set_map by blast
  then show ?thesis
    using length_fingerprint[of C a b] by (simp add: compute_fingerprint_def fp_input_commute[of a b])
qed

text \<open>C37: A payload verifies exactly when it is a length-framed signature of full length followed by the
  text, and the signature verifies for this text; in particular every signed message verifies to
  its own text under the signer's key.\<close>

theorem verify_exact:
  assumes "dsa_ok C" "length seed = 32"
  shows "(\<exists>payload. sign_message C seed txt = Inr payload \<and> verify_message C (c_dsa_pk C seed) payload = Inr txt) \<and>
    (\<forall>pk payload t. verify_message C pk payload = Inr t \<longleftrightarrow>
       (\<exists>sig. payload = u16_le (word_of_nat (length sig)) @ sig @ t \<and> length sig = SIGNATURE_LEN \<and>
          length pk = PUBLIC_KEY_LEN \<and> c_dsa_decodes C sig \<and> c_dsa_verify C pk t sig))"
proof -
  have "verify_raw C pk t sig = Inr () \<longleftrightarrow> length pk = PUBLIC_KEY_LEN \<and> length sig = SIGNATURE_LEN \<and>
      c_dsa_decodes C sig \<and> c_dsa_verify C pk t sig" for pk t sig
    by (auto simp: verify_raw_def)
  then show ?thesis
    using sign_verify_message[OF assms, of "txt"] verify_message_sound[of C] by fastforce
qed

theorem verify_exact_witness:
  "\<exists>payload. sign_message toy_crypto (replicate 32 5) [7] = Inr payload \<and>
    verify_message toy_crypto (replicate 2592 1) payload = Inr [7]"
  using conjunct1[OF verify_exact[OF toy_ok(6), of "replicate 32 5" "[7]"]] by (simp add: toy_dsa_pk)

text \<open>C36: Building an identity bundle and rotating its prekey always give a bundle whose prekey verifies
  under the owner's key, that keeps the identity keys, and that survives encoding with anything
  appended to it.\<close>

theorem rotated_bundle_valid:
  assumes "dsa_ok C" "kem_ok C" "dh_ok C" "length seed = 32" "length k = 1568" "length x = 32"
  shows "\<exists>r. rotate_signed_prekey C r_kem r_x k x (c_dsa_pk C seed) seed = Inr r \<and>
    build_identity_bundle C r_kem r_x k x (c_dsa_pk C seed) seed = Inr (rp_bundle r) \<and>
    verify_prekey C (rp_bundle r) = Inr () \<and> ik_kem (rp_bundle r) = k \<and> ik_x (rp_bundle r) = x \<and>
    decode_bundle (encode_bundle (rp_bundle r) @ rest) = Inr (rp_bundle r)"
proof -
  obtain b where b: "build_identity_bundle C r_kem r_x k x (c_dsa_pk C seed) seed = Inr b"
    "bundle_ok b" "verify_prekey C b = Inr ()" "ik_kem b = k" "ik_x b = x"
    using built_bundle_verifies[OF assms] by blast
  then show ?thesis using rotate_is_build[of C r_kem r_x k x "c_dsa_pk C seed" seed] decode_encode_bundle by simp
qed

theorem rotated_bundle_valid_witness:
  "\<exists>r. rotate_signed_prekey toy_crypto [1] [2] (replicate 1568 0) (replicate 32 1) (replicate 2592 1) (replicate 32 5) = Inr r \<and>
    verify_prekey toy_crypto (rp_bundle r) = Inr ()"
  using rotated_bundle_valid[OF toy_ok(6,4,3), of "replicate 32 5" "replicate 1568 0" "replicate 32 1" "[1]" "[2]"]
  by (auto simp: toy_dsa_pk)

text \<open>C38: No session is started on an unsigned prekey: when the initiator's or the responder's bootstrap
  succeeds, the peer's bundle is complete and its prekey signature verifies over the prekeys used,
  under the peer's identity key.\<close>

theorem bootstrap_requires_signature:
  assumes "is_ok (initiator_bootstrap C r1 r2 ikx ekx peer) \<or>
    is_ok (responder_bootstrap C ikx spkx ksk ssk peer ek ct1 ct2)"
  shows "is_v9 peer \<and> length (ik_x peer) = 32 \<and>
    c_dsa_verify C (sig_pk peer) (spk_kem peer @ spk_x peer) (spk_sig peer)"
proof -
  have "is_v9 peer \<and> verify_prekey C peer = Inr () \<and> length (ik_x peer) = 32"
    using assms
  proof
    assume "is_ok (initiator_bootstrap C r1 r2 ikx ekx peer)"
    then show ?thesis
      by (auto simp: initiator_bootstrap_def is_ok_def result_iff arr32_def split: if_splits sum.splits)
  next
    assume "is_ok (responder_bootstrap C ikx spkx ksk ssk peer ek ct1 ct2)"
    then show ?thesis
      by (auto simp: responder_bootstrap_def is_ok_def result_iff arr32_def split: if_splits sum.splits)
  qed
  then show ?thesis
    by (auto simp: verify_prekey_def verify_raw_def prekey_message_def split: if_splits sum.splits)
qed

theorem bootstrap_requires_signature_witness:
  "c_dsa_verify toy_crypto (sig_pk demo_bundle) (spk_kem demo_bundle @ spk_x demo_bundle) (spk_sig demo_bundle)"
proof -
  have "dh_pair toy_crypto (replicate 32 3, replicate 32 3)"
    by (simp add: dh_pair_def) (simp add: toy_crypto_def pad32_def)
  from bootstrap_agreement[OF toy_ok(3,4) demo_party_ok demo_party_ok this, of "[]" "[]"]
  have "is_ok (initiator_bootstrap toy_crypto [] [] (p_ik_x demo_party) (replicate 32 3, replicate 32 3) demo_bundle)"
    by (auto simp: is_ok_def demo_party_def)
  then show ?thesis using bootstrap_requires_signature by blast
qed

text \<open>C34: A blind profile registered under a name is found and opened under every spelling of it that
  lower-cases to the same text: the index is the one the searcher computes, and the blob opens to
  the registered bundle, or to the registered key pair for the older format.\<close>

theorem profile_resolves:
  assumes "hmac_ok C" "aead_ok C" "length nonce = 12" "bundle_ok b" "c_lower C u = c_lower C v"
    and "length pk < 65536" "length spk < 65536"
  shows "(\<exists>blob. prepare_registration_v9 C nonce u b = Some (Inr (search_index C v, blob)) \<and>
      resolve_profile_v9 C v blob = Inr b) \<and>
    (\<exists>blob. prepare_registration C nonce u pk spk = Some (Inr (search_index C v, blob)) \<and>
      resolve_profile C v blob = Inr (pk, spk)) \<and> length (search_index C v) = 32"
  using register_resolve_v9[OF assms(1-5)] register_resolve[OF assms(1-3) assms(6,7,5)] by blast

theorem profile_resolves_witness:
  "\<exists>blob. prepare_registration_v9 toy_crypto (replicate 12 0) ''alice'' demo_bundle =
      Some (Inr (search_index toy_crypto ''alice'', blob)) \<and>
    resolve_profile_v9 toy_crypto ''alice'' blob = Inr demo_bundle"
  using profile_resolves[OF toy_ok(1,5) _ demo_bundle_ok, of "replicate 12 0" "''alice''" "''alice''" "[]" "[]"]
  by simp

text \<open>C35: Invite links round-trip in both formats, and a link of the older format read as a new one yields
  the same keys in a bundle without a prekey, on which no session can be started.\<close>

theorem invite_roundtrips:
  assumes "b64_ok C" "CHR ''?'' \<notin> set base_url" "length h < 65536" "bundle_ok b"
    and "length pk = 1568" "length spk < 65536"
  shows "parse_invite_v9 C (generate_invite_v9 C h b base_url) = Inr (h, b) \<and>
    parse_invite C (generate_invite C h pk spk base_url) = Inr (h, pk, spk) \<and>
    (\<exists>old. parse_invite_v9 C (generate_invite C h pk spk base_url) = Inr (h, old) \<and>
       ik_kem old = pk \<and> sig_pk old = spk \<and> initiator_bootstrap C r1 r2 ikx ekx old = Inl NoSignedPrekey)"
proof -
  obtain old where "parse_invite_v9 C (generate_invite C h pk spk base_url) = Inr (h, old)"
    "ik_kem old = pk" "sig_pk old = spk" "\<not> is_v9 old"
    using legacy_invite_degrades[OF assms(1-3,5,6)] by blast
  then show ?thesis
    using invite_roundtrip_v9[OF assms(1-4)] invite_roundtrip[OF assms(1-3) _ assms(6), of pk] assms(5)
    by (simp add: initiator_bootstrap_def)
qed

theorem invite_roundtrips_witness:
  "parse_invite_v9 toy_crypto (generate_invite_v9 toy_crypto [1, 2] demo_bundle ''https://vurn.chat/'') = Inr ([1, 2], demo_bundle)"
  using invite_roundtrips[OF toy_ok(7) _ _ demo_bundle_ok, of "''https://vurn.chat/''" "[1, 2]" "replicate 1568 0" "[]"]
  by simp

text \<open>An invite from before sender signatures, the KEM key alone, parses with the old parser and is
  rejected by the new one.\<close>

theorem kem_only_invite_rejected:
  assumes "b64_ok C" "CHR ''?'' \<notin> set base_url" "length h < 65536" "length pk = 1568"
  shows "parse_invite C (pack_invite C h (kem_only pk) base_url) = Inr (h, pk, []) \<and>
    parse_invite_v9 C (pack_invite C h (kem_only pk) base_url) = Inl IdentityNoSigHeader"
  using kem_only_invite[OF assms] by simp

theorem kem_only_invite_rejected_witness:
  "parse_invite_v9 toy_crypto (pack_invite toy_crypto [1] (kem_only (replicate 1568 0)) ''u'') = Inl IdentityNoSigHeader"
  using kem_only_invite_rejected[OF toy_ok(7), of "''u''" "[1]" "replicate 1568 0"] by simp

end
