(* ===== verification/Server_Env.thy ===== *)
theory Server_Env
  imports Text Ordered_Map
begin

text \<open>
  What the server crate calls outside this repository: Ed25519 (\<open>ed25519-dalek\<close>), the
  serialisation of records (\<open>bincode\<close>), the unspecified hash of the standard library's
  \<open>DefaultHasher\<close>, the \<open>hex\<close> crate, and the embedded database \<open>sled\<close>. Like the cryptography of the core crate
  these are parameters of the model, with the documented behaviour the code relies on as named
  predicates and a concrete instance that satisfies them.
\<close>

record envelope =
  en_payload :: bytes
  en_seq :: u64
  en_sender_pubkey :: bytes
  en_signature :: bytes

record wire =
  w_ed_pk :: "bytes \<Rightarrow> bytes"  \<comment> \<open>verifying key of a seed\<close>
  w_ed_sign :: "bytes \<Rightarrow> bytes \<Rightarrow> bytes"  \<comment> \<open>seed, message\<close>
  w_ed_key_ok :: "bytes \<Rightarrow> bool"  \<comment> \<open>the bytes are a valid point\<close>
  w_ed_verify :: "bytes \<Rightarrow> bytes \<Rightarrow> bytes \<Rightarrow> bool"  \<comment> \<open>key, message, signature\<close>
  w_enc_env :: "envelope \<Rightarrow> bytes option"
  w_dec_env :: "bytes \<Rightarrow> envelope option"
  w_enc_hashes :: "u64 list \<Rightarrow> bytes option"
  w_dec_hashes :: "bytes \<Rightarrow> u64 list option"
  w_enc_addrs :: "bytes list \<Rightarrow> bytes option"
  w_dec_addrs :: "bytes \<Rightarrow> bytes list option"
  w_hash :: "bytes \<Rightarrow> u64"
  w_hex :: "bytes \<Rightarrow> string"
  w_unhex :: "bytes \<Rightarrow> bytes option"

definition ed_ok :: "wire \<Rightarrow> bool" where
  "ed_ok W \<longleftrightarrow>
     (\<forall>s m. length (w_ed_pk W s) = 32 \<and> w_ed_key_ok W (w_ed_pk W s) \<and>
        length (w_ed_sign W s m) = 64 \<and> w_ed_verify W (w_ed_pk W s) m (w_ed_sign W s m))"

definition bincode_ok :: "wire \<Rightarrow> bool" where
  "bincode_ok W \<longleftrightarrow>
     (\<forall>e. \<exists>b. w_enc_env W e = Some b \<and> w_dec_env W b = Some e) \<and>
     (\<forall>h. \<exists>b. w_enc_hashes W h = Some b \<and> w_dec_hashes W b = Some h) \<and>
     (\<forall>a. \<exists>b. w_enc_addrs W a = Some b \<and> w_dec_addrs W b = Some a)"

definition hex_ok :: "wire \<Rightarrow> bool" where
  "hex_ok W \<longleftrightarrow> (\<forall>d. w_unhex W (ascii_bytes (w_hex W d)) = Some d)"

lemma edD:
  "ed_ok W \<Longrightarrow> length (w_ed_pk W s) = 32" "ed_ok W \<Longrightarrow> w_ed_key_ok W (w_ed_pk W s)"
  "ed_ok W \<Longrightarrow> length (w_ed_sign W s m) = 64"
  "ed_ok W \<Longrightarrow> w_ed_verify W (w_ed_pk W s) m (w_ed_sign W s m)"
  by (simp_all add: ed_ok_def)

lemma bincode_envE:
  assumes "bincode_ok W"
  obtains b where "w_enc_env W e = Some b" "w_dec_env W b = Some e"
  using assms unfolding bincode_ok_def by metis

lemma bincode_hashesE:
  assumes "bincode_ok W"
  obtains b where "w_enc_hashes W h = Some b" "w_dec_hashes W b = Some h"
  using assms unfolding bincode_ok_def by metis

lemma bincode_addrsE:
  assumes "bincode_ok W"
  obtains b where "w_enc_addrs W a = Some b" "w_dec_addrs W b = Some a"
  using assms unfolding bincode_ok_def by metis


section \<open>The embedded database\<close>

text \<open>Named trees of byte keys; \<open>sl_scan\<close> lists the entries under a key prefix in key order.\<close>

record 'db sled =
  sl_open :: "'db \<Rightarrow> string \<Rightarrow> bool"
  sl_get :: "'db \<Rightarrow> string \<Rightarrow> bytes \<Rightarrow> bytes option"
  sl_insert :: "'db \<Rightarrow> string \<Rightarrow> bytes \<Rightarrow> bytes \<Rightarrow> 'db"
  sl_remove :: "'db \<Rightarrow> string \<Rightarrow> bytes \<Rightarrow> 'db"
  sl_scan :: "'db \<Rightarrow> string \<Rightarrow> bytes \<Rightarrow> (bytes \<times> bytes) list"

definition sled_ok :: "'db sled \<Rightarrow> bool" where
  "sled_ok S \<longleftrightarrow>
     (\<forall>db t. sl_open S db t) \<and>
     (\<forall>db t k v t' k'. sl_get S (sl_insert S db t k v) t' k' =
        (if t' = t \<and> k' = k then Some v else sl_get S db t' k')) \<and>
     (\<forall>db t k t' k'. sl_get S (sl_remove S db t k) t' k' =
        (if t' = t \<and> k' = k then None else sl_get S db t' k')) \<and>
     (\<forall>db t p. sorted_wrt (<) (map fst (sl_scan S db t p)) \<and>
        set (sl_scan S db t p) = {(k, v). sl_get S db t k = Some v \<and> prefix p k})"

lemma sledD:
  assumes "sled_ok S"
  shows "sl_open S db t"
    and "sl_get S (sl_insert S db t k v) t' k' = (if t' = t \<and> k' = k then Some v else sl_get S db t' k')"
    and "sl_get S (sl_remove S db t k) t' k' = (if t' = t \<and> k' = k then None else sl_get S db t' k')"
    and "sorted_wrt (<) (map fst (sl_scan S db t p))"
    and "(k, v) \<in> set (sl_scan S db t p) \<longleftrightarrow> sl_get S db t k = Some v \<and> prefix p k"
proof -
  note S = assms[unfolded sled_ok_def]
  show "sl_open S db t" using S by blast
  show "sl_get S (sl_insert S db t k v) t' k' = (if t' = t \<and> k' = k then Some v else sl_get S db t' k')"
    using S by blast
  show "sl_get S (sl_remove S db t k) t' k' = (if t' = t \<and> k' = k then None else sl_get S db t' k')"
    using S by blast
  show "sorted_wrt (<) (map fst (sl_scan S db t p))" using S by blast
  have "set (sl_scan S db t p) = {(k, v). sl_get S db t k = Some v \<and> prefix p k}" using S by blast
  then show "(k, v) \<in> set (sl_scan S db t p) \<longleftrightarrow> sl_get S db t k = Some v \<and> prefix p k" by blast
qed

lemma scan_distinct: "sled_ok S \<Longrightarrow> distinct (map fst (sl_scan S db t p))"
  using sledD(4)[of S db t p] by (simp only: strict_sorted_iff)


section \<open>An instance\<close>

text \<open>A database that is a function from tree names to ordered maps.\<close>

type_synonym toy_db = "string \<Rightarrow> (bytes, bytes) btree"

definition toy_norm :: "(bytes, bytes) btree \<Rightarrow> (bytes, bytes) btree" where
  "toy_norm m = (if bt_wf m then m else [])"

definition toy_sled :: "toy_db sled" where
  "toy_sled =
     \<lparr>sl_open = (\<lambda>db t. True),
      sl_get = (\<lambda>db t k. bt_get (toy_norm (db t)) k),
      sl_insert = (\<lambda>db t k v. db(t := bt_insert k v (toy_norm (db t)))),
      sl_remove = (\<lambda>db t k. db(t := bt_remove k (toy_norm (db t)))),
      sl_scan = (\<lambda>db t p. filter (\<lambda>e. prefix p (fst e)) (toy_norm (db t)))\<rparr>"

lemma toy_norm_wf [simp]: "bt_wf (toy_norm m)"
  by (simp add: toy_norm_def)

lemma toy_norm_id [simp]: "bt_wf m \<Longrightarrow> toy_norm m = m"
  by (simp add: toy_norm_def)

lemma toy_sled_ok: "sled_ok toy_sled"
proof -
  have "sorted_wrt (<) (map fst (filter P m))" if "bt_wf m" for P and m :: "(bytes, bytes) btree"
    using that by (induction m) (auto simp: bt_wf_Cons bt_wf_def)
  moreover have "set (filter (\<lambda>e. prefix p (fst e)) m) = {(k, v). bt_get m k = Some v \<and> prefix p k}"
    if "bt_wf m" for p and m :: "(bytes, bytes) btree"
    using bt_get_Some_iff[OF that] by auto
  ultimately show ?thesis
    by (simp add: sled_ok_def toy_sled_def bt_get_insert bt_get_remove bt_wf_insert bt_wf_remove)
qed

definition toy_unit :: "nat \<Rightarrow> bytes" where
  "toy_unit n = replicate n 1 @ [0]"

fun toy_split :: "bytes \<Rightarrow> nat \<times> bytes" where
  "toy_split [] = (0, [])"
| "toy_split (b # bs) = (if b = 0 then (0, bs) else (let (n, r) = toy_split bs in (Suc n, r)))"

lemma toy_split_unit [simp]: "toy_split (toy_unit n @ r) = (n, r)"
  by (induction n) (simp_all add: toy_unit_def)

definition toy_block :: "bytes \<Rightarrow> bytes" where
  "toy_block b = toy_unit (length b) @ b"

definition toy_unblock :: "bytes \<Rightarrow> bytes \<times> bytes" where
  "toy_unblock d = (let (n, r) = toy_split d in (take n r, drop n r))"

lemma toy_unblock_block [simp]: "toy_unblock (toy_block b @ r) = (b, r)"
  by (simp add: toy_unblock_def toy_block_def)

definition toy_list :: "bytes list \<Rightarrow> bytes" where
  "toy_list bs = toy_unit (length bs) @ concat (map toy_block bs)"

primrec toy_blocks :: "nat \<Rightarrow> bytes \<Rightarrow> bytes list" where
  "toy_blocks 0 d = []"
| "toy_blocks (Suc n) d = (let (b, r) = toy_unblock d in b # toy_blocks n r)"

definition toy_unlist :: "bytes \<Rightarrow> bytes list" where
  "toy_unlist d = (let (n, r) = toy_split d in toy_blocks n r)"

lemma toy_unlist_list [simp]: "toy_unlist (toy_list bs) = bs"
proof -
  have "toy_blocks (length bs) (concat (map toy_block bs)) = bs"
    by (induction bs) simp_all
  then show ?thesis by (simp add: toy_unlist_def toy_list_def)
qed

definition toy_wire :: wire where
  "toy_wire =
     \<lparr>w_ed_pk = (\<lambda>s. replicate 32 1), w_ed_sign = (\<lambda>s m. replicate 64 2),
      w_ed_key_ok = (\<lambda>k. True), w_ed_verify = (\<lambda>k m sig. hd sig = 2),
      w_enc_env = (\<lambda>e. Some (toy_list [en_payload e, u64_le (en_seq e), en_sender_pubkey e, en_signature e])),
      w_dec_env = (\<lambda>d. case toy_unlist d of
          [p, s, k, g] \<Rightarrow> Some \<lparr>en_payload = p, en_seq = le_u64 s, en_sender_pubkey = k, en_signature = g\<rparr>
        | _ \<Rightarrow> None),
      w_enc_hashes = (\<lambda>h. Some (toy_list (map u64_le h))),
      w_dec_hashes = (\<lambda>d. Some (map le_u64 (toy_unlist d))),
      w_enc_addrs = (\<lambda>a. Some (toy_list a)), w_dec_addrs = (\<lambda>d. Some (toy_unlist d)),
      w_hash = (\<lambda>d. word_of_nat (length d)),
      w_hex = map (\<lambda>b. char_of (unat b)), w_unhex = Some\<rparr>"

lemma toy_wire_ok: "ed_ok toy_wire" "bincode_ok toy_wire" "hex_ok toy_wire"
proof -
  have "(of_char (char_of (unat b) :: char) :: nat) = unat b" for b :: u8
    using unat_lt2p[of b] by simp
  then show "hex_ok toy_wire" by (simp add: hex_ok_def toy_wire_def ascii_bytes_def comp_def)
qed (simp_all add: ed_ok_def bincode_ok_def toy_wire_def comp_def)

end
