(* ===== verification/Dht.thy ===== *)
theory Dht
  imports Server_Env
begin

text \<open>
  \<open>server/src/p2p/dht.rs\<close>: record keys, the signed mailbox envelope and the mailbox message
  frame. The three kinds of record key share the contract \<open>key_scheme\<close>.
\<close>

section \<open>Record keys\<close>

definition MAILBOX_KEY_PREFIX :: bytes where "MAILBOX_KEY_PREFIX = ascii_bytes ''vmb_''"
definition PROFILE_KEY_PREFIX :: bytes where "PROFILE_KEY_PREFIX = ascii_bytes ''vup_''"
definition UPDATE_KEY_PREFIX :: bytes where "UPDATE_KEY_PREFIX = ascii_bytes ''vut_''"
definition UNDERSCORE :: u8 where "UNDERSCORE = 0x5F"

lemmas key_prefix_defs = MAILBOX_KEY_PREFIX_def PROFILE_KEY_PREFIX_def UPDATE_KEY_PREFIX_def
  ascii_bytes_def

definition mailbox_seq_key :: "bytes \<Rightarrow> u64 \<Rightarrow> bytes" where
  "mailbox_seq_key user_hash seq =
     MAILBOX_KEY_PREFIX @ user_hash @ ascii_bytes (''_'' @ fmt_dec 20 (unat seq))"

definition parse_user_hash_from_key :: "bytes \<Rightarrow> bytes option" where
  "parse_user_hash_from_key key =
     (if \<not> prefix MAILBOX_KEY_PREFIX key then None
      else let after_prefix = drop 4 key in
        map_option (\<lambda>hash_end. take hash_end after_prefix)
          (rposition (\<lambda>b. b = UNDERSCORE) after_prefix))"

definition parse_mailbox_key :: "bytes \<Rightarrow> (bytes \<times> u64) option" where
  "parse_mailbox_key key =
     (case parse_user_hash_from_key key of
        None \<Rightarrow> None
      | Some user_hash \<Rightarrow>
          (let after_prefix = drop 4 key in
           case rposition (\<lambda>b. b = UNDERSCORE) after_prefix of
             None \<Rightarrow> None
           | Some hash_end \<Rightarrow>
               (case ascii_text (drop (hash_end + 1) after_prefix) of
                  None \<Rightarrow> None
                | Some seq_str \<Rightarrow>
                    map_option (\<lambda>seq. (user_hash, word_of_nat seq)) (parse_unsigned 64 seq_str))))"

definition profile_key :: "bytes \<Rightarrow> bytes" where
  "profile_key search_index = PROFILE_KEY_PREFIX @ search_index"

definition parse_profile_key :: "bytes \<Rightarrow> bytes option" where
  "parse_profile_key key = (if prefix PROFILE_KEY_PREFIX key then Some (drop 4 key) else None)"

definition update_key :: "bytes \<Rightarrow> bytes" where
  "update_key search_index = UPDATE_KEY_PREFIX @ search_index"

definition parse_update_key :: "bytes \<Rightarrow> bytes option" where
  "parse_update_key key = (if prefix UPDATE_KEY_PREFIX key then Some (drop 4 key) else None)"

lemma seq_tail_digits:
  "list_all (\<lambda>b. b \<noteq> UNDERSCORE) (ascii_bytes (fmt_dec w n))"
proof -
  have "(word_of_nat (of_char c) :: u8) \<noteq> UNDERSCORE" if "is_digit c" for c
  proof
    assume "(word_of_nat (of_char c) :: u8) = UNDERSCORE"
    then have "unat (word_of_nat (of_char c) :: u8) = unat UNDERSCORE" by simp
    then show False using that by (simp add: UNDERSCORE_def is_digit_def)
  qed
  then show ?thesis using fmt_dec_digits(1)[of w n] by (auto simp: list_all_iff ascii_bytes_def)
qed

lemma mailbox_key_split:
  "drop 4 (mailbox_seq_key h s) = h @ UNDERSCORE # ascii_bytes (fmt_dec 20 (unat s))"
  "prefix MAILBOX_KEY_PREFIX (mailbox_seq_key h s)"
  by (simp_all add: mailbox_seq_key_def key_prefix_defs UNDERSCORE_def)

lemma parse_mailbox_seq_key: "parse_mailbox_key (mailbox_seq_key h s) = Some (h, s)"
proof -
  have r: "rposition (\<lambda>b. b = UNDERSCORE) (drop 4 (mailbox_seq_key h s)) = Some (length h)"
    unfolding mailbox_key_split by (rule rposition_last) (use seq_tail_digits in auto)
  have "ascii_text (ascii_bytes (fmt_dec 20 (unat s))) = Some (fmt_dec 20 (unat s))"
    using fmt_dec_digits(1)[of 20 "unat s"]
    by (intro ascii_text_bytes) (auto simp: list_all_iff is_digit_def)
  moreover have "parse_unsigned 64 (fmt_dec 20 (unat s)) = Some (unat s)"
    using unat_lt2p[of s] by (intro parse_fmt_dec) simp
  moreover have "drop (length h + 1) (drop 4 (mailbox_seq_key h s)) = ascii_bytes (fmt_dec 20 (unat s))"
    unfolding mailbox_key_split by simp
  ultimately show ?thesis
    using r mailbox_key_split[of h s]
    by (simp add: parse_mailbox_key_def parse_user_hash_from_key_def del: drop_drop)
qed

lemma parse_user_hash_seq_key: "parse_user_hash_from_key (mailbox_seq_key h s) = Some h"
  using parse_mailbox_seq_key[of h s] by (auto simp: parse_mailbox_key_def Let_def split: option.splits)

text \<open>A scheme of record keys: a fixed prefix, a builder and a parser.\<close>

locale key_scheme =
  fixes pre :: bytes
    and mk :: "'a \<Rightarrow> bytes"
    and parse :: "bytes \<Rightarrow> 'a option"
  assumes parse_mk: "parse (mk x) = Some x"
    and mk_prefix: "prefix pre (mk x)"
    and parse_prefix: "parse k = Some x \<Longrightarrow> prefix pre k"
begin

lemma mk_inj: "mk x = mk y \<longleftrightarrow> x = y"
  using parse_mk by (metis option.inject)

lemma foreign_rejected: "\<not> prefix pre k \<Longrightarrow> parse k = None"
  using parse_prefix by (cases "parse k") auto

end

text \<open>Two schemes whose prefixes have the same length but differ never meet.\<close>

locale disjoint_schemes =
  a: key_scheme pre mk parse + b: key_scheme pre' mk' parse'
  for pre :: bytes and mk :: "'a \<Rightarrow> bytes" and parse :: "bytes \<Rightarrow> 'a option"
    and pre' :: bytes and mk' :: "'b \<Rightarrow> bytes" and parse' :: "bytes \<Rightarrow> 'b option" +
  assumes apart: "length pre = length pre'" "pre \<noteq> pre'"
begin

lemma not_both: "\<not> (prefix pre k \<and> prefix pre' k)"
  using apart by (metis append_eq_append_conv prefix_def)

lemma never_equal: "mk x \<noteq> mk' y"
  using not_both a.mk_prefix b.mk_prefix by metis

lemma cross_parse: "parse (mk' y) = None" "parse' (mk x) = None"
  using not_both a.mk_prefix b.mk_prefix a.foreign_rejected b.foreign_rejected by metis+

end

lemma parse_mailbox_prefix: "parse_mailbox_key k = Some x \<Longrightarrow> prefix MAILBOX_KEY_PREFIX k"
  by (auto simp: parse_mailbox_key_def parse_user_hash_from_key_def split: option.splits if_splits)

interpretation mailbox_keys:
  key_scheme MAILBOX_KEY_PREFIX "\<lambda>(h, s). mailbox_seq_key h s" parse_mailbox_key
  by unfold_locales
    (auto simp: parse_mailbox_seq_key mailbox_key_split(2) dest: parse_mailbox_prefix)

interpretation profile_keys: key_scheme PROFILE_KEY_PREFIX profile_key parse_profile_key
  by unfold_locales
    (auto simp: parse_profile_key_def profile_key_def key_prefix_defs split: if_splits)

interpretation update_keys: key_scheme UPDATE_KEY_PREFIX update_key parse_update_key
  by unfold_locales
    (auto simp: parse_update_key_def update_key_def key_prefix_defs split: if_splits)

interpretation mailbox_profile: disjoint_schemes
  MAILBOX_KEY_PREFIX "\<lambda>(h, s). mailbox_seq_key h s" parse_mailbox_key
  PROFILE_KEY_PREFIX profile_key parse_profile_key
  by unfold_locales (simp_all add: key_prefix_defs)

interpretation mailbox_update: disjoint_schemes
  MAILBOX_KEY_PREFIX "\<lambda>(h, s). mailbox_seq_key h s" parse_mailbox_key
  UPDATE_KEY_PREFIX update_key parse_update_key
  by unfold_locales (simp_all add: key_prefix_defs)

interpretation profile_update: disjoint_schemes
  PROFILE_KEY_PREFIX profile_key parse_profile_key
  UPDATE_KEY_PREFIX update_key parse_update_key
  by unfold_locales (simp_all add: key_prefix_defs)


section \<open>Signed envelopes\<close>

datatype envelope_error = BadSenderKeyLen nat | BadEdKey | BadSigLen nat | RecipientTooShort | SigMismatch

definition serialize_envelope :: "wire \<Rightarrow> envelope \<Rightarrow> bytes option" where
  "serialize_envelope W e = w_enc_env W e"

definition deserialize_envelope :: "wire \<Rightarrow> bytes \<Rightarrow> envelope option" where
  "deserialize_envelope W d = w_dec_env W d"

definition build_verify_buffer :: "bytes \<Rightarrow> u64 \<Rightarrow> bytes \<Rightarrow> bytes option" where
  "build_verify_buffer payload seq recipient =
     (if length recipient < 32 then None else Some (payload @ u64_le seq @ take 32 recipient))"

definition verify_envelope :: "wire \<Rightarrow> envelope \<Rightarrow> bytes \<Rightarrow> envelope_error + unit" where
  "verify_envelope W e recipient =
     (if length (en_sender_pubkey e) \<noteq> 32 then Inl (BadSenderKeyLen (length (en_sender_pubkey e)))
      else if \<not> w_ed_key_ok W (en_sender_pubkey e) then Inl BadEdKey
      else if length (en_signature e) \<noteq> 64 then Inl (BadSigLen (length (en_signature e)))
      else case build_verify_buffer (en_payload e) (en_seq e) recipient of
             None \<Rightarrow> Inl RecipientTooShort
           | Some buf \<Rightarrow>
               (if w_ed_verify W (en_sender_pubkey e) buf (en_signature e) then Inr ()
                else Inl SigMismatch))"

text \<open>\<open>None\<close> is the panic of the \<open>expect\<close> on a short recipient id.\<close>

definition sign_envelope :: "wire \<Rightarrow> envelope \<Rightarrow> bytes \<Rightarrow> bytes \<Rightarrow> envelope option" where
  "sign_envelope W e signing_seed recipient =
     map_option (\<lambda>buf. e\<lparr>en_signature := w_ed_sign W signing_seed buf\<rparr>)
       (build_verify_buffer (en_payload e) (en_seq e) recipient)"

lemma sign_envelope_verifies:
  assumes "ed_ok W" "32 \<le> length r" "en_sender_pubkey e = w_ed_pk W seed"
  shows "\<exists>e'. sign_envelope W e seed r = Some e' \<and> verify_envelope W e' r = Inr () \<and>
    en_payload e' = en_payload e \<and> en_seq e' = en_seq e \<and> en_sender_pubkey e' = w_ed_pk W seed"
  using assms by (simp add: sign_envelope_def verify_envelope_def build_verify_buffer_def edD)

lemma sign_envelope_short: "length r < 32 \<Longrightarrow> sign_envelope W e seed r = None"
  by (simp add: sign_envelope_def build_verify_buffer_def)

lemma verify_envelope_short: "length r < 32 \<Longrightarrow> \<not> is_ok (verify_envelope W e r)"
  by (simp add: verify_envelope_def build_verify_buffer_def)

text \<open>The signed bytes determine payload, number and the first 32 bytes of the recipient.\<close>

lemma verify_buffer_inj:
  assumes "build_verify_buffer p s r = Some b" "build_verify_buffer p' s' r' = Some b"
  shows "p = p' \<and> s = s' \<and> take 32 r = take 32 r'"
proof -
  have r: "32 \<le> length r" "32 \<le> length r'"
    and eq: "p @ u64_le s @ take 32 r = p' @ u64_le s' @ take 32 r'"
    using assms by (auto simp: build_verify_buffer_def split: if_splits)
  have "take 32 r = take 32 r'" "p @ u64_le s = p' @ u64_le s'"
    using eq r append_eq_append_conv[of "take 32 r" "take 32 r'" "p @ u64_le s" "p' @ u64_le s'"]
    by simp_all
  moreover from this(2) have "p = p'" "u64_le s = u64_le s'"
    using append_eq_append_conv[of "u64_le s" "u64_le s'" p p'] by simp_all
  ultimately show ?thesis by (metis le_u64_u64_le)
qed

text \<open>Verification looks at no more of the recipient id than its first 32 bytes.\<close>

lemma verify_envelope_prefix:
  assumes "take 32 r = take 32 r'" "32 \<le> length r" "32 \<le> length r'"
  shows "verify_envelope W e r = verify_envelope W e r'"
  using assms by (simp add: verify_envelope_def build_verify_buffer_def)


section \<open>The mailbox message frame\<close>

datatype frame_error = NoSenderLen | SenderCut | EmptyPayload

definition encode_mailbox_message :: "bytes \<Rightarrow> bytes \<Rightarrow> bytes" where
  "encode_mailbox_message sender payload = u16_le (word_of_nat (length sender)) @ sender @ payload"

definition decode_mailbox_message :: "bytes \<Rightarrow> frame_error + (bytes \<times> bytes)" where
  "decode_mailbox_message d =
     (if length d < 2 then Inl NoSenderLen
      else let id_len = unat (le_u16 [d ! 0, d ! 1]) in
        if length d < 2 + id_len then Inl SenderCut
        else let payload = drop (2 + id_len) d in
          if payload = [] then Inl EmptyPayload else Inr (slice 2 (2 + id_len) d, payload))"

lemma decode_encode_mailbox:
  assumes "length sender < 65536" "payload \<noteq> []"
  shows "decode_mailbox_message (encode_mailbox_message sender payload) = Inr (sender, payload)"
proof -
  let ?d = "encode_mailbox_message sender payload"
  have h: "[?d ! 0, ?d ! 1] = u16_le (word_of_nat (length sender))"
    unfolding encode_mailbox_message_def by (rule u16_le_nth)
  have "slice 2 (2 + length sender) ?d = sender"
    unfolding encode_mailbox_message_def by (rule slice_append_mid) simp_all
  moreover have "drop (2 + length sender) ?d = payload" "length ?d = 2 + length sender + length payload"
    by (simp_all add: encode_mailbox_message_def)
  ultimately show ?thesis
    using h assms unfolding decode_mailbox_message_def Let_def by simp
qed

end
