(* ===== verification/Mailbox.thy ===== *)
theory Mailbox
  imports Dht
begin

text \<open>
  \<open>server/src/mailbox.rs\<close>: the local backup of mailbox records and the persisted set of
  delivered payload hashes. A \<open>HashSet<u64>\<close> is the list of its elements in its iteration order,
  which is unspecified: theorems are about membership.
\<close>

definition SLED_MAILBOX_TREE :: string where "SLED_MAILBOX_TREE = ''mailbox''"
definition SLED_DELIVERED_TREE :: string where "SLED_DELIVERED_TREE = ''delivered_hashes''"
definition MAX_PERSISTED_HASHES :: nat where "MAX_PERSISTED_HASHES = 8192"

lemma trees_differ [simp]:
  "SLED_MAILBOX_TREE \<noteq> SLED_DELIVERED_TREE" "SLED_DELIVERED_TREE \<noteq> SLED_MAILBOX_TREE"
  by (simp_all add: SLED_MAILBOX_TREE_def SLED_DELIVERED_TREE_def)

type_synonym hash_set = "u64 list"

definition hs_insert :: "u64 \<Rightarrow> hash_set \<Rightarrow> hash_set" where
  "hs_insert h s = (if h \<in> set s then s else h # s)"

definition hs_collect :: "u64 list \<Rightarrow> hash_set" where
  "hs_collect xs = fold hs_insert xs []"

lemma set_hs_insert [simp]: "set (hs_insert h s) = insert h (set s)"
  by (auto simp: hs_insert_def)

lemma distinct_hs_insert [simp]: "distinct (hs_insert h s) = distinct s"
  by (simp add: hs_insert_def)

lemma hs_collect_spec: "set (hs_collect xs) = set xs \<and> distinct (hs_collect xs)"
proof -
  have "set (fold hs_insert xs s) = set xs \<union> set s \<and> (distinct s \<longrightarrow> distinct (fold hs_insert xs s))" for s
    by (induction xs arbitrary: s) auto
  from this[of "[]"] show ?thesis by (simp add: hs_collect_def)
qed


section \<open>The persisted delivered set\<close>

definition load_delivered_hashes :: "wire \<Rightarrow> 'db sled \<Rightarrow> 'db \<Rightarrow> bytes \<Rightarrow> u64 list" where
  "load_delivered_hashes W S db user =
     (if \<not> sl_open S db SLED_DELIVERED_TREE then []
      else case sl_get S db SLED_DELIVERED_TREE user of
             None \<Rightarrow> []
           | Some raw \<Rightarrow> (case w_dec_hashes W raw of None \<Rightarrow> [] | Some h \<Rightarrow> h))"

definition trim_hashes :: "u64 list \<Rightarrow> u64 list" where
  "trim_hashes all =
     (if length all > MAX_PERSISTED_HASHES then
        (let all' = sort all in drop (length all' - MAX_PERSISTED_HASHES) all')
      else all)"

definition save_delivered_hashes :: "wire \<Rightarrow> 'db sled \<Rightarrow> 'db \<Rightarrow> bytes \<Rightarrow> hash_set \<Rightarrow> 'db" where
  "save_delivered_hashes W S db user hashes =
     (if \<not> sl_open S db SLED_DELIVERED_TREE then db
      else case w_enc_hashes W (trim_hashes hashes) of
             None \<Rightarrow> db
           | Some raw \<Rightarrow> sl_insert S db SLED_DELIVERED_TREE user raw)"

definition clear_delivered_hashes :: "'db sled \<Rightarrow> 'db \<Rightarrow> bytes \<Rightarrow> 'db" where
  "clear_delivered_hashes S db user =
     (if sl_open S db SLED_DELIVERED_TREE then sl_remove S db SLED_DELIVERED_TREE user else db)"

lemma load_save:
  assumes "sled_ok S" "bincode_ok W"
  shows "load_delivered_hashes W S (save_delivered_hashes W S db u hs) v =
    (if v = u then trim_hashes hs else load_delivered_hashes W S db v)"
proof -
  obtain b where "w_enc_hashes W (trim_hashes hs) = Some b" "w_dec_hashes W b = Some (trim_hashes hs)"
    by (rule bincode_hashesE[OF assms(2)])
  then show ?thesis
    by (simp add: load_delivered_hashes_def save_delivered_hashes_def sledD[OF assms(1)])
qed

lemma save_keeps_mailbox:
  assumes "sled_ok S"
  shows "sl_get S (save_delivered_hashes W S db u hs) SLED_MAILBOX_TREE k = sl_get S db SLED_MAILBOX_TREE k"
  by (simp add: save_delivered_hashes_def sledD[OF assms] split: option.split)

lemma load_clear:
  assumes "sled_ok S"
  shows "load_delivered_hashes W S (clear_delivered_hashes S db u) u = []"
  by (simp add: load_delivered_hashes_def clear_delivered_hashes_def sledD[OF assms])

lemma trim_hashes_spec:
  "length (trim_hashes hs) = min (length hs) MAX_PERSISTED_HASHES"
  "set (trim_hashes hs) \<subseteq> set hs"
  "length hs \<le> MAX_PERSISTED_HASHES \<Longrightarrow> trim_hashes hs = hs"
  "distinct hs \<Longrightarrow> distinct (trim_hashes hs)"
proof -
  show "length (trim_hashes hs) = min (length hs) MAX_PERSISTED_HASHES"
    "length hs \<le> MAX_PERSISTED_HASHES \<Longrightarrow> trim_hashes hs = hs"
    "distinct hs \<Longrightarrow> distinct (trim_hashes hs)"
    by (simp_all add: trim_hashes_def Let_def)
  have "set (drop n (sort hs)) \<subseteq> set hs" for n
    using set_drop_subset[of n "sort hs"] by simp
  then show "set (trim_hashes hs) \<subseteq> set hs" by (auto simp: trim_hashes_def Let_def)
qed

text \<open>What is trimmed are the smallest hash values, whatever their age.\<close>

lemma trim_hashes_keeps_largest:
  assumes "x \<in> set hs - set (trim_hashes hs)" "y \<in> set (trim_hashes hs)"
  shows "x \<le> y"
proof -
  let ?n = "length (sort hs) - MAX_PERSISTED_HASHES"
  have trim: "trim_hashes hs = drop ?n (sort hs)"
    using assms(1) by (auto simp: trim_hashes_def Let_def split: if_splits)
  have "sorted (take ?n (sort hs) @ drop ?n (sort hs))" by (simp del: length_sort)
  moreover have "set (sort hs) = set (take ?n (sort hs)) \<union> set (drop ?n (sort hs))"
    by (metis append_take_drop_id set_append)
  then have "x \<in> set (take ?n (sort hs))" using assms(1) trim by auto
  ultimately show ?thesis using assms(2) unfolding trim sorted_append by blast
qed


section \<open>Retrieved records\<close>

text \<open>The payload a record yields for a recipient: none if its envelope does not verify.\<close>

definition record_payload :: "wire \<Rightarrow> bytes \<Rightarrow> bytes \<Rightarrow> bytes option" where
  "record_payload W user d =
     (case deserialize_envelope W d of
        Some e \<Rightarrow> if is_ok (verify_envelope W e user) then Some (en_payload e) else None
      | None \<Rightarrow> Some d)"

text \<open>The pending list first, then the payloads in the order of the messages.\<close>

definition handle_retrieval_result ::
    "wire \<Rightarrow> bytes list \<Rightarrow> bytes \<Rightarrow> bytes list \<Rightarrow> bytes list \<times> bytes list" where
  "handle_retrieval_result W pending user messages =
     (filter (\<lambda>k. k \<noteq> user) pending, List.map_filter (record_payload W user) messages)"

lemma map_filter_set: "set (List.map_filter f xs) = {y. \<exists>x\<in>set xs. f x = Some y}"
  by (induction xs) (auto simp: List.map_filter_simps split: option.split)

lemma retrieval_sound:
  "p \<in> set (snd (handle_retrieval_result W pending user ms)) \<longleftrightarrow>
     (\<exists>d\<in>set ms. (\<exists>e. deserialize_envelope W d = Some e \<and> verify_envelope W e user = Inr () \<and> p = en_payload e) \<or>
        (deserialize_envelope W d = None \<and> p = d))"
proof -
  have unit: "is_ok r \<longleftrightarrow> r = Inr ()" for r :: "envelope_error + unit" by (cases r) auto
  have "record_payload W user d = Some p \<longleftrightarrow>
      (\<exists>e. deserialize_envelope W d = Some e \<and> verify_envelope W e user = Inr () \<and> p = en_payload e) \<or>
      (deserialize_envelope W d = None \<and> p = d)" for d
    by (cases "deserialize_envelope W d") (auto simp: record_payload_def unit)
  then show ?thesis by (simp add: handle_retrieval_result_def map_filter_set)
qed


section \<open>The local backup\<close>

text \<open>One entry of the scan: keep it with its payload, or drop it from the database.\<close>

definition backup_step ::
    "wire \<Rightarrow> 'db sled \<Rightarrow> bytes \<Rightarrow> bytes \<times> bytes \<Rightarrow> 'db \<times> (bytes \<times> bytes) list \<Rightarrow> 'db \<times> (bytes \<times> bytes) list" where
  "backup_step W S user e st =
     (case deserialize_envelope W (snd e) of
        Some env \<Rightarrow>
          (if is_ok (verify_envelope W env user) then (fst st, snd st @ [(fst e, en_payload env)])
           else (sl_remove S (fst st) SLED_MAILBOX_TREE (fst e), snd st))
      | None \<Rightarrow> (fst st, snd st @ [e]))"

definition read_sled_backup ::
    "wire \<Rightarrow> 'db sled \<Rightarrow> 'db \<Rightarrow> bytes \<Rightarrow> 'db \<times> (bytes \<times> bytes) list" where
  "read_sled_backup W S db user =
     (if \<not> sl_open S db SLED_MAILBOX_TREE then (db, [])
      else fold (backup_step W S user) (sl_scan S db SLED_MAILBOX_TREE user) (db, []))"

definition remove_sled_records :: "'db sled \<Rightarrow> 'db \<Rightarrow> bytes list \<Rightarrow> 'db" where
  "remove_sled_records S db keys =
     (if keys = [] \<or> \<not> sl_open S db SLED_MAILBOX_TREE then db
      else fold (\<lambda>k d. sl_remove S d SLED_MAILBOX_TREE k) keys db)"

lemma get_remove_sled_records:
  assumes "sled_ok S"
  shows "sl_get S (remove_sled_records S db ks) t k =
    (if t = SLED_MAILBOX_TREE \<and> k \<in> set ks then None else sl_get S db t k)"
proof -
  have "sl_get S (fold (\<lambda>k d. sl_remove S d SLED_MAILBOX_TREE k) ks d) t k =
      (if t = SLED_MAILBOX_TREE \<and> k \<in> set ks then None else sl_get S d t k)" for d
    by (induction ks arbitrary: d) (auto simp: sledD(3)[OF assms])
  from this[of db] show ?thesis
    by (cases "ks = []") (simp_all add: remove_sled_records_def sledD(1)[OF assms])
qed

lemma load_remove_sled_records:
  assumes "sled_ok S"
  shows "load_delivered_hashes W S (remove_sled_records S db ks) u = load_delivered_hashes W S db u"
  by (simp add: load_delivered_hashes_def sledD(1)[OF assms] get_remove_sled_records[OF assms])

lemma backup_fold:
  assumes "sled_ok S"
  shows "snd (fold (backup_step W S user) es (db, acc)) =
      acc @ List.map_filter (\<lambda>e. map_option (Pair (fst e)) (record_payload W user (snd e))) es"
    and "sl_get S (fst (fold (backup_step W S user) es (db, acc))) t k =
      (if t = SLED_MAILBOX_TREE \<and> (\<exists>v. (k, v) \<in> set es \<and> record_payload W user v = None) then None
       else sl_get S db t k)"
proof -
  have step: "backup_step W S user e (d, a) =
      (case record_payload W user (snd e) of
         Some p \<Rightarrow> (d, a @ [(fst e, p)])
       | None \<Rightarrow> (sl_remove S d SLED_MAILBOX_TREE (fst e), a))" for e d a
    by (auto simp: backup_step_def record_payload_def split: option.splits)
  show "snd (fold (backup_step W S user) es (db, acc)) =
      acc @ List.map_filter (\<lambda>e. map_option (Pair (fst e)) (record_payload W user (snd e))) es"
    by (induction es arbitrary: db acc)
      (simp_all add: step List.map_filter_simps split: option.split)
  show "sl_get S (fst (fold (backup_step W S user) es (db, acc))) t k =
      (if t = SLED_MAILBOX_TREE \<and> (\<exists>v. (k, v) \<in> set es \<and> record_payload W user v = None) then None
       else sl_get S db t k)"
  proof (induction es arbitrary: db acc)
    case Nil
    then show ?case by simp
  next
    case (Cons e es)
    show ?case
      by (cases e; cases "record_payload W user (snd e)")
        (auto simp: step Cons.IH sledD(3)[OF assms])
  qed
qed

text \<open>Exactly what reading the backup returns and what it removes.\<close>

lemma read_backup_spec:
  assumes S: "sled_ok S" and r: "read_sled_backup W S db user = (db', recs)"
  shows "(k, p) \<in> set recs \<longleftrightarrow> prefix user k \<and>
      (\<exists>v. sl_get S db SLED_MAILBOX_TREE k = Some v \<and> record_payload W user v = Some p)"
    and "sl_get S db' t k = (if t = SLED_MAILBOX_TREE \<and> prefix user k \<and>
      (\<exists>v. sl_get S db t k = Some v \<and> record_payload W user v = None) then None else sl_get S db t k)"
    and "distinct (map fst recs)"
proof -
  let ?es = "sl_scan S db SLED_MAILBOX_TREE user"
  have f: "fold (backup_step W S user) ?es (db, []) = (db', recs)"
    using r by (simp add: read_sled_backup_def sledD(1)[OF S])
  have recs: "recs = List.map_filter (\<lambda>e. map_option (Pair (fst e)) (record_payload W user (snd e))) ?es"
    using backup_fold(1)[OF S, of W user ?es db "[]"] unfolding f by simp
  show "(k, p) \<in> set recs \<longleftrightarrow> prefix user k \<and>
      (\<exists>v. sl_get S db SLED_MAILBOX_TREE k = Some v \<and> record_payload W user v = Some p)"
    unfolding recs map_filter_set using sledD(5)[OF S] by force
  show "sl_get S db' t k = (if t = SLED_MAILBOX_TREE \<and> prefix user k \<and>
      (\<exists>v. sl_get S db t k = Some v \<and> record_payload W user v = None) then None else sl_get S db t k)"
    using backup_fold(2)[OF S, of W user ?es db "[]" t k] sledD(5)[OF S] unfolding f by auto
  have "map fst (List.map_filter (\<lambda>e. map_option (Pair (fst e)) (record_payload W user (snd e))) es) =
      map fst (filter (\<lambda>e. record_payload W user (snd e) \<noteq> None) es)" for es :: "(bytes \<times> bytes) list"
    by (induction es) (auto simp: List.map_filter_simps split: option.split)
  then show "distinct (map fst recs)"
    unfolding recs using distinct_map_filter[OF scan_distinct[OF S]] by simp
qed

text \<open>An id shorter than 32 bytes makes the read remove every signed record it is a prefix of.\<close>

lemma short_id_wipes:
  assumes "sled_ok S" "length user < 32" "prefix user k"
    and "sl_get S db SLED_MAILBOX_TREE k = Some v" "deserialize_envelope W v = Some e"
  shows "sl_get S (fst (read_sled_backup W S db user)) SLED_MAILBOX_TREE k = None"
proof -
  obtain db' recs where r: "read_sled_backup W S db user = (db', recs)" by (cases "read_sled_backup W S db user")
  have "record_payload W user v = None"
    using assms(5) verify_envelope_short[OF assms(2)] by (simp add: record_payload_def)
  then show ?thesis using read_backup_spec(2)[OF assms(1) r, of SLED_MAILBOX_TREE k] assms(3,4) r by simp
qed

lemma backup_keeps_delivered:
  assumes "sled_ok S"
  shows "load_delivered_hashes W S (fst (read_sled_backup W S db u)) v = load_delivered_hashes W S db v"
proof -
  obtain db' recs where r: "read_sled_backup W S db u = (db', recs)" by (cases "read_sled_backup W S db u")
  show ?thesis
    using read_backup_spec(2)[OF assms r, of SLED_DELIVERED_TREE v]
    by (simp add: r load_delivered_hashes_def sledD(1)[OF assms])
qed

end
