(* ===== verification/Storage_Props.thy ===== *)
theory Storage_Props
  imports Mailbox
begin

text \<open>
  The properties of what the server stores: record keys, signed envelopes, the local backup of the
  mailbox and the persisted set of delivered hashes.
\<close>

text \<open>C33: Record keys are unambiguous: each kind of key parses back to exactly what it was built from, no
  key of one kind parses as another kind, and different users, numbers or indices never share a
  key.\<close>

theorem record_keys_exact:
  "parse_mailbox_key (mailbox_seq_key u s) = Some (u, s) \<and> parse_user_hash_from_key (mailbox_seq_key u s) = Some u \<and>
   parse_profile_key (profile_key i) = Some i \<and> parse_update_key (update_key i) = Some i \<and>
   parse_profile_key (mailbox_seq_key u s) = None \<and> parse_update_key (mailbox_seq_key u s) = None \<and>
   parse_mailbox_key (profile_key i) = None \<and> parse_mailbox_key (update_key i) = None \<and>
   parse_profile_key (update_key i) = None \<and> parse_update_key (profile_key i) = None \<and>
   (mailbox_seq_key u s = mailbox_seq_key v t \<longleftrightarrow> u = v \<and> s = t) \<and>
   (profile_key i = profile_key j \<longleftrightarrow> i = j) \<and> (update_key i = update_key j \<longleftrightarrow> i = j)"
  using mailbox_profile.cross_parse(1)[of i] mailbox_profile.cross_parse(2)[of "(u, s)"]
    mailbox_update.cross_parse(1)[of i] mailbox_update.cross_parse(2)[of "(u, s)"]
    profile_update.cross_parse(1)[of i] profile_update.cross_parse(2)[of i] mailbox_keys.mk_inj[of "(u, s)" "(v, t)"]
  by (simp add: parse_mailbox_seq_key parse_user_hash_seq_key profile_keys.parse_mk update_keys.parse_mk
      profile_keys.mk_inj update_keys.mk_inj)

text \<open>A signed envelope verifies for its recipient, and a signature moved to an envelope with another
  payload, another number or another recipient prefix verifies only if it is a signature of two
  different messages under the signer's key.\<close>

theorem envelope_tampering_forges:
  assumes "ed_ok W" "32 \<le> length r" "en_sender_pubkey e = w_ed_pk W seed"
    and signed: "sign_envelope W e seed r = Some e'"
    and moved: "verify_envelope W e2 r2 = Inr ()" "en_sender_pubkey e2 = w_ed_pk W seed"
      "en_signature e2 = en_signature e'"
  shows "verify_envelope W e' r = Inr () \<and>
    ((en_payload e2, en_seq e2, take 32 r2) = (en_payload e, en_seq e, take 32 r) \<or>
     (\<exists>m m'. m \<noteq> m' \<and> en_signature e' = w_ed_sign W seed m \<and> w_ed_verify W (w_ed_pk W seed) m' (en_signature e')))"
proof -
  obtain b where b: "build_verify_buffer (en_payload e) (en_seq e) r = Some b" "en_signature e' = w_ed_sign W seed b"
    using signed by (auto simp: sign_envelope_def)
  obtain b2 where b2: "build_verify_buffer (en_payload e2) (en_seq e2) r2 = Some b2"
    "w_ed_verify W (w_ed_pk W seed) b2 (en_signature e')"
    using moved by (auto simp: verify_envelope_def split: if_splits option.splits)
  have "(en_payload e2, en_seq e2, take 32 r2) = (en_payload e, en_seq e, take 32 r)" if "b2 = b"
    using verify_buffer_inj[OF b2(1)[unfolded that] b(1)] by (simp only: prod.inject)
  then have "(en_payload e2, en_seq e2, take 32 r2) = (en_payload e, en_seq e, take 32 r) \<or>
     (\<exists>m m'. m \<noteq> m' \<and> en_signature e' = w_ed_sign W seed m \<and> w_ed_verify W (w_ed_pk W seed) m' (en_signature e'))"
    using b(2) b2(2) by (cases "b2 = b") (simp, metis)
  moreover have "verify_envelope W e' r = Inr ()"
    using sign_envelope_verifies[OF assms(1-3)] signed by auto
  ultimately show ?thesis by blast
qed

theorem envelope_tampering_forges_witness:
  "\<exists>m m'. m \<noteq> m' \<and> w_ed_verify toy_wire (w_ed_pk toy_wire []) m' (w_ed_sign toy_wire [] m)"
proof -
  let ?e = "\<lparr>en_payload = [1], en_seq = 1, en_sender_pubkey = w_ed_pk toy_wire [], en_signature = []\<rparr>"
  let ?s = "?e\<lparr>en_signature := w_ed_sign toy_wire [] ([1] @ u64_le 1 @ replicate 32 0)\<rparr>"
  have s: "sign_envelope toy_wire ?e [] (replicate 32 0) = Some ?s"
    by (simp add: sign_envelope_def build_verify_buffer_def)
  have v: "verify_envelope toy_wire (?s\<lparr>en_payload := [2]\<rparr>) (replicate 32 0) = Inr ()"
    by (simp add: verify_envelope_def build_verify_buffer_def) (simp add: toy_wire_def)
  from envelope_tampering_forges[OF toy_wire_ok(1) _ _ s v] obtain m m' where
    "m \<noteq> m'" "en_signature ?s = w_ed_sign toy_wire [] m" "w_ed_verify toy_wire (w_ed_pk toy_wire []) m' (en_signature ?s)"
    by auto
  then show ?thesis by metis
qed

text \<open>Saving a delivered set and loading it gives the set back as long as it has at most 8192 hashes,
  and never more than 8192 of its own hashes; neither another user's set nor any mailbox record is
  touched, and a cleared set is empty.\<close>

theorem watermark_roundtrip:
  assumes "sled_ok S" "bincode_ok W"
  shows "let db' = save_delivered_hashes W S db u hs in
    load_delivered_hashes W S db' u = trim_hashes hs \<and>
    (length hs \<le> MAX_PERSISTED_HASHES \<longrightarrow> trim_hashes hs = hs) \<and>
    set (trim_hashes hs) \<subseteq> set hs \<and> length (trim_hashes hs) \<le> MAX_PERSISTED_HASHES \<and>
    (v \<noteq> u \<longrightarrow> load_delivered_hashes W S db' v = load_delivered_hashes W S db v) \<and>
    sl_get S db' SLED_MAILBOX_TREE k = sl_get S db SLED_MAILBOX_TREE k \<and>
    load_delivered_hashes W S (clear_delivered_hashes S db' u) u = []"
  using trim_hashes_spec[of hs] load_save[OF assms(1,2)] save_keeps_mailbox[OF assms(1)] load_clear[OF assms(1)]
  by (simp add: Let_def)

theorem watermark_roundtrip_witness:
  "load_delivered_hashes toy_wire toy_sled (save_delivered_hashes toy_wire toy_sled (\<lambda>t. []) [7] [3, 4]) [7] = [3, 4]"
  using watermark_roundtrip[OF toy_sled_ok toy_wire_ok(2), of "\<lambda>t. []" "[7]" "[3, 4]" "[8]" "[]"]
  by (simp add: MAX_PERSISTED_HASHES_def Let_def)

text \<open>When a set has more than 8192 hashes, those that are dropped have the smallest values, so which
  deliveries are forgotten depends on the hash values and not on their age.\<close>

theorem trimming_drops_smallest:
  assumes "MAX_PERSISTED_HASHES < length hs" "distinct hs"
  shows "\<exists>x \<in> set hs. x \<notin> set (trim_hashes hs) \<and> (\<forall>y \<in> set (trim_hashes hs). x \<le> y)"
proof -
  have "card (set (trim_hashes hs)) < card (set hs)"
    using assms trim_hashes_spec(1)[of hs] trim_hashes_spec(4)[OF assms(2)] by (simp add: distinct_card)
  then obtain x where "x \<in> set hs" "x \<notin> set (trim_hashes hs)"
    using trim_hashes_spec(2)[of hs] by (metis less_irrefl subset_antisym subsetI)
  then show ?thesis using trim_hashes_keeps_largest[of x hs] by blast
qed

theorem trimming_drops_smallest_witness:
  "let hs = map word_of_nat [0..<8193] in \<exists>x \<in> set hs. x \<notin> set (trim_hashes hs)"
proof -
  have "inj_on (word_of_nat :: nat \<Rightarrow> u64) (set [0..<8193])"
    by (rule inj_onI) (simp add: word_of_nat_eq_iff take_bit_nat_eq_self)
  then have "distinct (map (word_of_nat :: nat \<Rightarrow> u64) [0..<8193])" by (simp only: distinct_map distinct_upt simp_thms)
  moreover have "MAX_PERSISTED_HASHES < length (map (word_of_nat :: nat \<Rightarrow> u64) [0..<8193])"
    by (simp add: MAX_PERSISTED_HASHES_def del: upt_conv_Cons)
  ultimately show ?thesis using trimming_drops_smallest unfolding Let_def by blast
qed

text \<open>C32: Reading the backup returns, under distinct keys, exactly the records under the user's prefix
  that carry no envelope or one that verifies for the user, with the payload inside; it removes
  exactly the records whose envelope does not verify and changes nothing else.\<close>

theorem backup_read_exact:
  assumes "sled_ok S" "read_sled_backup W S db user = (db', recs)"
  shows "distinct (map fst recs) \<and>
    ((k, p) \<in> set recs \<longleftrightarrow> prefix user k \<and> (\<exists>v. sl_get S db SLED_MAILBOX_TREE k = Some v \<and>
       (deserialize_envelope W v = None \<and> p = v \<or>
        (\<exists>e. deserialize_envelope W v = Some e \<and> verify_envelope W e user = Inr () \<and> p = en_payload e)))) \<and>
    (sl_get S db' t j \<noteq> sl_get S db t j \<longleftrightarrow> t = SLED_MAILBOX_TREE \<and> prefix user j \<and>
       (\<exists>v e. sl_get S db t j = Some v \<and> deserialize_envelope W v = Some e \<and> \<not> is_ok (verify_envelope W e user)))"
proof -
  have unit: "is_ok r \<longleftrightarrow> r = Inr ()" for r :: "envelope_error + unit" by (cases r) auto
  have pay: "record_payload W user v = Some p \<longleftrightarrow> deserialize_envelope W v = None \<and> p = v \<or>
      (\<exists>e. deserialize_envelope W v = Some e \<and> verify_envelope W e user = Inr () \<and> p = en_payload e)" for v p
    by (cases "deserialize_envelope W v") (auto simp: record_payload_def unit)
  have none: "record_payload W user v = None \<longleftrightarrow>
      (\<exists>e. deserialize_envelope W v = Some e \<and> \<not> is_ok (verify_envelope W e user))" for v
    by (cases "deserialize_envelope W v") (auto simp: record_payload_def)
  show ?thesis
    using read_backup_spec(1)[OF assms, of k p] read_backup_spec(2)[OF assms, of t j] read_backup_spec(3)[OF assms]
    unfolding pay none by auto
qed

theorem backup_read_exact_witness:
  "snd (read_sled_backup toy_wire toy_sled (\<lambda>t. []) [7]) = []"
proof -
  obtain db' recs where r: "read_sled_backup toy_wire toy_sled (\<lambda>t. []) [7] = (db', recs)" by (metis prod.collapse)
  have "sl_get toy_sled (\<lambda>t. []) t k = None" for t k by (simp add: toy_sled_def toy_norm_def bt_wf_def bt_get_def)
  then have "(k, p) \<notin> set recs" for k p
    using backup_read_exact[OF toy_sled_ok r, of k p SLED_MAILBOX_TREE "[]"] by simp
  then have "recs = []" by (metis list.set_intros(1) neq_Nil_conv surj_pair)
  then show ?thesis by (simp add: r)
qed

text \<open>An id shorter than 32 bytes is a wildcard that destroys: reading the backup for it removes every
  signed record whose key starts with it, whoever the record is for.\<close>

theorem short_id_destroys:
  assumes "sled_ok S" "length user < 32" "prefix user k"
    and "sl_get S db SLED_MAILBOX_TREE k = Some v" "deserialize_envelope W v = Some e"
  shows "sl_get S (fst (read_sled_backup W S db user)) SLED_MAILBOX_TREE k = None"
  by (rule short_id_wipes[OF assms])

theorem short_id_destroys_witness:
  "\<exists>db k. sl_get toy_sled db SLED_MAILBOX_TREE k \<noteq> None \<and>
    sl_get toy_sled (fst (read_sled_backup toy_wire toy_sled db [7])) SLED_MAILBOX_TREE k = None"
proof -
  let ?e = "\<lparr>en_payload = [1], en_seq = 1, en_sender_pubkey = [], en_signature = []\<rparr>"
  obtain v where v: "w_enc_env toy_wire ?e = Some v" "w_dec_env toy_wire v = Some ?e"
    by (rule bincode_envE[OF toy_wire_ok(2)])
  let ?db = "sl_insert toy_sled (\<lambda>t. []) SLED_MAILBOX_TREE [7, 8] v"
  have g: "sl_get toy_sled ?db SLED_MAILBOX_TREE [7, 8] = Some v" using sledD(2)[OF toy_sled_ok] by simp
  have "sl_get toy_sled (fst (read_sled_backup toy_wire toy_sled ?db [7])) SLED_MAILBOX_TREE [7, 8] = None"
    by (rule short_id_destroys[OF toy_sled_ok _ _ g]) (simp_all add: deserialize_envelope_def v)
  then show ?thesis using g by blast
qed

end
