(* ===== verification/Node.thy ===== *)
theory Node
  imports Mailbox
begin

text \<open>
  \<open>server/src/p2p/node.rs\<close>: the state machine of the P2P node. One input of the event loop is
  one step: a command from the gateway, an event of the swarm, or a timer tick. The calls into
  libp2p are recorded in order as outputs; the ids libp2p gives to queries come from the
  parameter \<open>ids\<close>, indexed by the number of queries made so far. Instants are milliseconds.
  A step that panics (and so ends the node's task) is \<open>None\<close>.
\<close>

section \<open>Association lists for \<open>HashMap\<close>\<close>

definition am_insert :: "'k \<Rightarrow> 'v \<Rightarrow> ('k \<times> 'v) list \<Rightarrow> ('k \<times> 'v) list" where
  "am_insert k v m = (k, v) # filter (\<lambda>e. fst e \<noteq> k) m"

definition am_remove :: "'k \<Rightarrow> ('k \<times> 'v) list \<Rightarrow> ('k \<times> 'v) list" where
  "am_remove k m = filter (\<lambda>e. fst e \<noteq> k) m"

lemma map_of_am_remove: "map_of (am_remove k m) k' = (if k' = k then None else map_of m k')"
  by (induction m) (auto simp: am_remove_def)

lemma map_of_am_insert: "map_of (am_insert k v m) k' = (if k' = k then Some v else map_of m k')"
  using map_of_am_remove[of k m k'] by (auto simp: am_insert_def am_remove_def)

lemma am_remove_absent: "map_of m k = None \<Longrightarrow> am_remove k m = m"
  by (induction m) (auto simp: am_remove_def split: if_splits)

lemma am_remove_size:
  "distinct (map fst m) \<Longrightarrow> map_of m k = Some v \<Longrightarrow> Suc (length (am_remove k m)) = length m"
proof (induction m)
  case Nil
  then show ?case by simp
next
  case (Cons e m)
  show ?case
  proof (cases "fst e = k")
    case True
    then have "map_of m k = None" using Cons.prems(1) by (auto simp: map_of_eq_None_iff)
    then show ?thesis using True am_remove_absent[of m k] by (simp add: am_remove_def)
  next
    case False
    with Cons show ?thesis by (cases e) (simp add: am_remove_def)
  qed
qed

lemma distinct_am_remove: "distinct (map fst m) \<Longrightarrow> distinct (map fst (am_remove k m))"
  by (simp add: am_remove_def distinct_map_filter)

interpretation am: finite_map map_of am_insert am_remove length "\<lambda>m. distinct (map fst m)"
proof unfold_locales
  show "distinct (map fst (am_insert k v m))" if "distinct (map fst m)" for k :: 'a and v :: 'b and m
    using that by (auto simp: am_insert_def distinct_map_filter)
  show "length (am_insert k v m) = Suc (length m)" if "map_of m k = None" for k :: 'a and v :: 'b and m
    using am_remove_absent[OF that] by (simp add: am_insert_def am_remove_def)
qed (auto simp: map_of_am_insert map_of_am_remove distinct_am_remove am_remove_size)


section \<open>Commands, events and state\<close>

definition WINDOW_SIZE :: nat where "WINDOW_SIZE = 10"
definition MAX_RECONNECT_DELAY_SECS :: nat where "MAX_RECONNECT_DELAY_SECS = 60"
definition SLED_PEER_TREE :: string where "SLED_PEER_TREE = ''peers''"
definition OPERATION_TIMEOUT :: nat where "OPERATION_TIMEOUT = 10000"

text \<open>Peers are their printed ids, addresses are bytes, replies go to numbered oneshot channels.\<close>

datatype node_command =
    MailboxStore (c_recipient: bytes) (c_sender: bytes) (c_payload: bytes)
  | MailboxRetrieve (c_user: bytes)
  | Dial bytes
  | Subscribe string
  | Publish string bytes
  | Bootstrap
  | ProfileStore bytes bytes
  | ProfileLookup bytes nat
  | ProfileTokenStore bytes bytes
  | ProfileTokenLookup bytes nat

datatype node_event =
    MessageReceived bytes bytes bytes
  | MailboxRetrieved bytes "bytes list"
  | PeerDiscovered bytes
  | ListeningOn bytes

datatype pending_command =
    PendingStore bytes bytes bytes
  | PendingRetrieve bytes

primrec pending_user :: "pending_command \<Rightarrow> bytes" where
  "pending_user (PendingStore recipient sender payload) = recipient"
| "pending_user (PendingRetrieve user) = user"

datatype 'q mailbox_state =
    Idle
  | FetchingIndex (f_cmd: pending_command) (f_start: u64) (f_max: u64)
      (f_pending: "('q \<times> u64) list") (f_found: "u64 list") (f_deadline: nat)
  | CollectingMessages bytes "bytes list" "u64 list" nat

definition is_idle :: "'q mailbox_state \<Rightarrow> bool" where
  "is_idle s = (case s of Idle \<Rightarrow> True | _ \<Rightarrow> False)"

datatype net_call =
    PutRecord bytes bytes
  | GetRecord bytes
  | DialPeer bytes
  | SubscribeTopic string
  | PublishTopic string bytes
  | KadBootstrap

record ('db, 'q) node =
  nd_indices :: "bytes \<rightharpoonup> u64"
  nd_profile_queries :: "('q \<times> nat) list"
  nd_known_peers :: "(bytes \<times> (nat \<times> nat)) list"  \<comment> \<open>attempts, last dial\<close>
  nd_peer_addrs :: "(bytes \<times> bytes list) list"
  nd_db :: 'db
  nd_calls :: "net_call list"  \<comment> \<open>libp2p calls, oldest first\<close>
  nd_gets :: nat  \<comment> \<open>queries issued so far\<close>
  nd_events :: "node_event list"  \<comment> \<open>events sent to the gateway, oldest first\<close>
  nd_replies :: "(nat \<times> bytes option) list"  \<comment> \<open>oneshot answers\<close>

record ('db, 'q) node_env =
  ne_wire :: wire
  ne_sled :: "'db sled"
  ne_seed :: bytes
  ne_ids :: "nat \<Rightarrow> 'q"

definition emit :: "node_event \<Rightarrow> ('db, 'q) node \<Rightarrow> ('db, 'q) node" where
  "emit e nd = nd\<lparr>nd_events := nd_events nd @ [e]\<rparr>"

definition call :: "net_call \<Rightarrow> ('db, 'q) node \<Rightarrow> ('db, 'q) node" where
  "call c nd = nd\<lparr>nd_calls := nd_calls nd @ [c]\<rparr>"

definition get_record :: "('db, 'q) node_env \<Rightarrow> bytes \<Rightarrow> ('db, 'q) node \<Rightarrow> ('db, 'q) node \<times> 'q" where
  "get_record E key nd =
     ((call (GetRecord key) nd)\<lparr>nd_gets := Suc (nd_gets nd)\<rparr>, ne_ids E (nd_gets nd))"

definition reply :: "nat \<Rightarrow> bytes option \<Rightarrow> ('db, 'q) node \<Rightarrow> ('db, 'q) node" where
  "reply ch v nd = nd\<lparr>nd_replies := nd_replies nd @ [(ch, v)]\<rparr>"


section \<open>Mailbox helpers\<close>

definition seq_be_key :: "bytes \<Rightarrow> u64 \<Rightarrow> bytes" where
  "seq_be_key user seq = user @ u64_be seq"

text \<open>Keys of the old timestamp format have another length and are skipped.\<close>

definition seq_max_step :: "nat \<Rightarrow> bytes \<times> bytes \<Rightarrow> u64 \<Rightarrow> u64" where
  "seq_max_step n e acc =
     (if length (fst e) \<noteq> n + 8 then acc
      else let seq = be_u64 (drop n (fst e)) in if acc < seq then seq else acc)"

definition get_sled_max_seq :: "'db sled \<Rightarrow> 'db \<Rightarrow> bytes \<Rightarrow> u64 option" where
  "get_sled_max_seq S db user =
     (if \<not> sl_open S db SLED_MAILBOX_TREE then None
      else let m = fold (seq_max_step (length user)) (sl_scan S db SLED_MAILBOX_TREE user) 0
        in if 0 < m then Some m else None)"

definition store_signed_envelope ::
    "('db, 'q) node_env \<Rightarrow> bytes \<Rightarrow> bytes \<Rightarrow> bytes \<Rightarrow> u64 \<Rightarrow> ('db, 'q) node \<Rightarrow> ('db, 'q) node option" where
  "store_signed_envelope E recipient sender payload seq nd =
     (let W = ne_wire E; S = ne_sled E;
          env = \<lparr>en_payload = encode_mailbox_message sender payload, en_seq = seq,
                 en_sender_pubkey = w_ed_pk W (ne_seed E), en_signature = []\<rparr>
      in case sign_envelope W env (ne_seed E) recipient of
           None \<Rightarrow> None
         | Some env' \<Rightarrow>
             (case serialize_envelope W env' of
                None \<Rightarrow> Some nd
              | Some raw \<Rightarrow>
                  (let nd1 = call (PutRecord (mailbox_seq_key recipient seq) raw) nd;
                       nd2 = (if sl_open S (nd_db nd1) SLED_MAILBOX_TREE
                              then nd1\<lparr>nd_db := sl_insert S (nd_db nd1) SLED_MAILBOX_TREE
                                         (seq_be_key recipient seq) raw\<rparr>
                              else nd1)
                   in Some (nd2\<lparr>nd_indices := (nd_indices nd2)(recipient \<mapsto> seq)\<rparr>))))"

definition start_collecting_messages ::
    "('db, 'q) node_env \<Rightarrow> nat \<Rightarrow> bytes \<Rightarrow> u64 \<Rightarrow> ('db, 'q) node \<Rightarrow> 'q mailbox_state \<times> ('db, 'q) node" where
  "start_collecting_messages E now user index nd =
     (let remaining = map word_of_nat [1..<Suc (unat index)];
          (nd1, _) = get_record E (mailbox_seq_key user (remaining ! 0)) nd
      in (CollectingMessages user [] remaining (now + OPERATION_TIMEOUT), nd1))"

definition emit_empty_mailbox :: "bytes \<Rightarrow> ('db, 'q) node \<Rightarrow> 'q mailbox_state \<times> ('db, 'q) node" where
  "emit_empty_mailbox user nd = (Idle, emit (MailboxRetrieved user []) nd)"

text \<open>The record fetched for a number counts when its envelope verifies and carries that number.\<close>

definition valid_record :: "wire \<Rightarrow> bytes \<Rightarrow> u64 \<Rightarrow> bytes \<Rightarrow> bool" where
  "valid_record W user seq raw =
     (case deserialize_envelope W raw of
        None \<Rightarrow> False
      | Some e \<Rightarrow> en_seq e = seq \<and> is_ok (verify_envelope W e user))"

definition collect_message ::
    "('db, 'q) node_env \<Rightarrow> bytes \<Rightarrow> u64 list \<Rightarrow> bytes option \<Rightarrow> bytes list \<Rightarrow> nat \<Rightarrow> ('db, 'q) node \<Rightarrow>
     'q mailbox_state \<times> ('db, 'q) node" where
  "collect_message E user remaining val messages deadline nd =
     (case remaining of
        [] \<Rightarrow> (Idle, emit (MailboxRetrieved user messages) nd)
      | seq # rest \<Rightarrow>
          (let messages' = (case val of
                 Some raw \<Rightarrow> if valid_record (ne_wire E) user seq raw then messages @ [raw] else messages
               | None \<Rightarrow> messages)
           in case rest of
                [] \<Rightarrow> (Idle, emit (MailboxRetrieved user messages') nd)
              | next_seq # _ \<Rightarrow>
                  (let (nd1, _) = get_record E (mailbox_seq_key user next_seq) nd
                   in (CollectingMessages user messages' rest deadline, nd1))))"

definition resume_pending_command ::
    "('db, 'q) node_env \<Rightarrow> nat \<Rightarrow> pending_command \<Rightarrow> u64 \<Rightarrow> ('db, 'q) node \<Rightarrow>
     ('q mailbox_state \<times> ('db, 'q) node) option" where
  "resume_pending_command E now cmd index nd =
     (case cmd of
        PendingStore recipient sender payload \<Rightarrow>
          map_option (Pair Idle) (store_signed_envelope E recipient sender payload (index + 1) nd)
      | PendingRetrieve user \<Rightarrow>
          Some (if index = 0 then emit_empty_mailbox user nd
                else start_collecting_messages E now user index nd))"


section \<open>Probing windows\<close>

definition window_seqs :: "u64 \<Rightarrow> u64 list" where
  "window_seqs start = map (\<lambda>i. start + word_of_nat i) [0..<WINDOW_SIZE]"

fun fire_seqs ::
    "('db, 'q) node_env \<Rightarrow> bytes \<Rightarrow> u64 list \<Rightarrow> ('q \<times> u64) list \<Rightarrow> ('db, 'q) node \<Rightarrow>
     ('db, 'q) node \<times> ('q \<times> u64) list" where
  "fire_seqs E user [] queries nd = (nd, queries)"
| "fire_seqs E user (s # ss) queries nd =
     (let (nd1, qid) = get_record E (mailbox_seq_key user s) nd
      in fire_seqs E user ss (am_insert qid s queries) nd1)"

definition fire_window ::
    "('db, 'q) node_env \<Rightarrow> bytes \<Rightarrow> u64 \<Rightarrow> ('db, 'q) node \<Rightarrow> ('db, 'q) node \<times> ('q \<times> u64) list" where
  "fire_window E user start nd = fire_seqs E user (window_seqs start) [] nd"

datatype scan = Waiting | Gap u64 | AllFound

fun scan_window :: "('q \<times> u64) list \<Rightarrow> u64 list \<Rightarrow> u64 list \<Rightarrow> scan" where
  "scan_window pending found [] = AllFound"
| "scan_window pending found (s # ss) =
     (if s \<in> set (map snd pending) then Waiting
      else if s \<notin> set found then Gap s
      else scan_window pending found ss)"

definition try_resolve_window ::
    "('db, 'q) node_env \<Rightarrow> nat \<Rightarrow> pending_command \<Rightarrow> u64 \<Rightarrow> u64 \<Rightarrow> ('q \<times> u64) list \<Rightarrow> u64 list \<Rightarrow> nat \<Rightarrow>
     ('db, 'q) node \<Rightarrow> ('q mailbox_state \<times> ('db, 'q) node) option" where
  "try_resolve_window E now cmd start max_found pending found deadline nd =
     (let user = pending_user cmd in
      case scan_window pending found (window_seqs start) of
        Waiting \<Rightarrow> Some (FetchingIndex cmd start max_found pending found deadline, nd)
      | Gap s \<Rightarrow>
          (let index = s - 1 in
           resume_pending_command E now cmd index (nd\<lparr>nd_indices := (nd_indices nd)(user \<mapsto> index)\<rparr>))
      | AllFound \<Rightarrow>
          (let next_start = start + word_of_nat WINDOW_SIZE;
               (nd1, queries) = fire_window E user next_start nd
           in Some (FetchingIndex cmd next_start max_found queries [] deadline, nd1)))"

definition handle_found_record ::
    "('db, 'q) node_env \<Rightarrow> nat \<Rightarrow> bytes \<Rightarrow> bytes option \<Rightarrow> 'q \<Rightarrow> 'q mailbox_state \<Rightarrow> ('db, 'q) node \<Rightarrow>
     ('q mailbox_state \<times> ('db, 'q) node) option" where
  "handle_found_record E now key val qid st nd =
     (case st of
        FetchingIndex cmd start max_found pending found deadline \<Rightarrow>
          (case map_option snd (parse_mailbox_key key) of
             None \<Rightarrow> Some (st, nd)
           | Some seq \<Rightarrow>
               (let pending' = am_remove qid pending;
                    ok = (case val of None \<Rightarrow> False | Some raw \<Rightarrow>
                            valid_record (ne_wire E) (pending_user cmd) seq raw)
                in if ok then try_resolve_window E now cmd start (max max_found seq) pending'
                           (found @ [seq]) deadline nd
                   else try_resolve_window E now cmd start max_found pending' found deadline nd))
      | CollectingMessages user messages remaining deadline \<Rightarrow>
          Some (collect_message E user remaining val messages deadline nd)
      | Idle \<Rightarrow>
          (let user = (case parse_user_hash_from_key key of None \<Rightarrow> [] | Some h \<Rightarrow> h);
               msgs = (case val of None \<Rightarrow> [] | Some v \<Rightarrow> [v])
           in Some (Idle, emit (MailboxRetrieved user msgs) nd)))"

definition handle_not_found ::
    "('db, 'q) node_env \<Rightarrow> nat \<Rightarrow> 'q \<Rightarrow> 'q mailbox_state \<Rightarrow> ('db, 'q) node \<Rightarrow>
     ('q mailbox_state \<times> ('db, 'q) node) option" where
  "handle_not_found E now qid st nd =
     (case st of
        FetchingIndex cmd start max_found pending found deadline \<Rightarrow>
          (case map_of pending qid of
             None \<Rightarrow> Some (st, nd)
           | Some _ \<Rightarrow>
               try_resolve_window E now cmd start max_found (am_remove qid pending) found deadline nd)
      | CollectingMessages user messages remaining deadline \<Rightarrow>
          Some (collect_message E user remaining None messages deadline nd)
      | Idle \<Rightarrow> Some (Idle, nd))"


section \<open>Swarm events\<close>

text \<open>\<open>KadFailed\<close> is a failed query, with the key when the error is \<open>NotFound\<close>.\<close>

datatype 'q swarm_event =
    KadFound 'q bytes bytes
  | KadFinished 'q
  | KadFailed 'q "bytes option"
  | KadRoutingUpdated bytes
  | GossipMessage bytes bytes bytes
  | IdentifyReceived bytes
  | NewListenAddr bytes
  | ConnectionEstablished bytes bytes
  | ConnectionClosed bytes
  | OtherEvent

definition handle_kad_found ::
    "('db, 'q) node_env \<Rightarrow> nat \<Rightarrow> 'q \<Rightarrow> bytes \<Rightarrow> bytes \<Rightarrow> 'q mailbox_state \<Rightarrow> ('db, 'q) node \<Rightarrow>
     ('q mailbox_state \<times> ('db, 'q) node) option" where
  "handle_kad_found E now qid key val st nd =
     (if parse_profile_key key \<noteq> None \<or> parse_update_key key \<noteq> None then
        Some (st, case map_of (nd_profile_queries nd) qid of
            Some ch \<Rightarrow> reply ch (Some val)
              (nd\<lparr>nd_profile_queries := am_remove qid (nd_profile_queries nd)\<rparr>)
          | None \<Rightarrow> nd)
      else handle_found_record E now key (Some val) qid st nd)"

definition handle_kad_finished ::
    "('db, 'q) node_env \<Rightarrow> nat \<Rightarrow> 'q \<Rightarrow> 'q mailbox_state \<Rightarrow> ('db, 'q) node \<Rightarrow>
     ('q mailbox_state \<times> ('db, 'q) node) option" where
  "handle_kad_finished E now qid st nd =
     (case map_of (nd_profile_queries nd) qid of
        Some ch \<Rightarrow>
          Some (st, reply ch None (nd\<lparr>nd_profile_queries := am_remove qid (nd_profile_queries nd)\<rparr>))
      | None \<Rightarrow> handle_not_found E now qid st nd)"

definition handle_kad_failed ::
    "('db, 'q) node_env \<Rightarrow> nat \<Rightarrow> 'q \<Rightarrow> bytes option \<Rightarrow> 'q mailbox_state \<Rightarrow> ('db, 'q) node \<Rightarrow>
     ('q mailbox_state \<times> ('db, 'q) node) option" where
  "handle_kad_failed E now qid failed_key st nd =
     (let nd1 = (case map_of (nd_profile_queries nd) qid of
            Some ch \<Rightarrow> reply ch None (nd\<lparr>nd_profile_queries := am_remove qid (nd_profile_queries nd)\<rparr>)
          | None \<Rightarrow> nd)
      in case st of
           CollectingMessages user messages remaining deadline \<Rightarrow>
             Some (Idle, emit (MailboxRetrieved user messages) nd1)
         | FetchingIndex cmd start max_found pending found deadline \<Rightarrow>
             map_option (\<lambda>(_, nd2). (Idle, nd2))
               (resume_pending_command E now cmd 0
                 (nd1\<lparr>nd_indices := (nd_indices nd1)(pending_user cmd \<mapsto> 0)\<rparr>))
         | Idle \<Rightarrow>
             (let user = (case Option.bind failed_key parse_user_hash_from_key of None \<Rightarrow> [] | Some h \<Rightarrow> h)
              in Some (Idle, emit (MailboxRetrieved user []) nd1)))"

definition persist_peer_addr :: "wire \<Rightarrow> 'db sled \<Rightarrow> bytes \<Rightarrow> bytes \<Rightarrow> 'db \<Rightarrow> 'db" where
  "persist_peer_addr W S peer addr db =
     (if \<not> sl_open S db SLED_PEER_TREE then db
      else let addrs = (case Option.bind (sl_get S db SLED_PEER_TREE peer) (w_dec_addrs W) of
                          None \<Rightarrow> [] | Some a \<Rightarrow> a);
               addrs1 = (if addr \<in> set addrs then addrs else addrs @ [addr]);
               addrs2 = (if length addrs1 > 3 then drop (length addrs1 - 3) addrs1 else addrs1)
           in case w_enc_addrs W addrs2 of
                None \<Rightarrow> db
              | Some raw \<Rightarrow> sl_insert S db SLED_PEER_TREE peer raw)"

text \<open>At startup the first saved address of every peer is dialled, in batches of five.\<close>

definition persisted_addrs :: "wire \<Rightarrow> 'db sled \<Rightarrow> 'db \<Rightarrow> bytes list" where
  "persisted_addrs W S db =
     (if \<not> sl_open S db SLED_PEER_TREE then []
      else List.map_filter (\<lambda>e. case w_dec_addrs W (snd e) of
              Some (a # _) \<Rightarrow> Some a | _ \<Rightarrow> None) (sl_scan S db SLED_PEER_TREE []))"

definition dial_persisted :: "('db, 'q) node_env \<Rightarrow> ('db, 'q) node \<Rightarrow> ('db, 'q) node" where
  "dial_persisted E nd =
     fold (\<lambda>addr. call (DialPeer addr)) (persisted_addrs (ne_wire E) (ne_sled E) (nd_db nd)) nd"

definition attempts_of :: "(bytes \<times> (nat \<times> nat)) list \<Rightarrow> nat \<Rightarrow> bytes \<Rightarrow> nat \<times> nat" where
  "attempts_of known now peer = (case map_of known peer of None \<Rightarrow> (0, now) | Some a \<Rightarrow> a)"

definition handle_connection_established ::
    "('db, 'q) node_env \<Rightarrow> nat \<Rightarrow> bytes \<Rightarrow> bytes \<Rightarrow> ('db, 'q) node \<Rightarrow> ('db, 'q) node" where
  "handle_connection_established E now peer addr nd =
     (let known = (case map_of (nd_known_peers nd) peer of
            None \<Rightarrow> am_insert peer (0, now) (nd_known_peers nd)
          | Some _ \<Rightarrow> nd_known_peers nd);
          addrs = (case map_of (nd_peer_addrs nd) peer of None \<Rightarrow> [] | Some a \<Rightarrow> a)
      in emit (PeerDiscovered peer)
           (nd\<lparr>nd_known_peers := known,
               nd_peer_addrs := am_insert peer (addrs @ [addr]) (nd_peer_addrs nd),
               nd_db := persist_peer_addr (ne_wire E) (ne_sled E) peer addr (nd_db nd)\<rparr>))"

definition handle_connection_closed :: "nat \<Rightarrow> bytes \<Rightarrow> ('db, 'q) node \<Rightarrow> ('db, 'q) node" where
  "handle_connection_closed now peer nd =
     nd\<lparr>nd_known_peers :=
          am_insert peer (fst (attempts_of (nd_known_peers nd) now peer) + 1, now) (nd_known_peers nd)\<rparr>"

definition handle_swarm_event ::
    "('db, 'q) node_env \<Rightarrow> nat \<Rightarrow> 'q swarm_event \<Rightarrow> 'q mailbox_state \<Rightarrow> ('db, 'q) node \<Rightarrow>
     ('q mailbox_state \<times> ('db, 'q) node) option" where
  "handle_swarm_event E now ev st nd =
     (case ev of
        KadFound qid key val \<Rightarrow> handle_kad_found E now qid key val st nd
      | KadFinished qid \<Rightarrow> handle_kad_finished E now qid st nd
      | KadFailed qid key \<Rightarrow> handle_kad_failed E now qid key st nd
      | KadRoutingUpdated peer \<Rightarrow> Some (st, emit (PeerDiscovered peer) nd)
      | GossipMessage from topic d \<Rightarrow> Some (st, emit (MessageReceived from topic d) nd)
      | IdentifyReceived peer \<Rightarrow> Some (st, emit (PeerDiscovered peer) nd)
      | NewListenAddr addr \<Rightarrow> Some (st, emit (ListeningOn addr) nd)
      | ConnectionEstablished peer addr \<Rightarrow> Some (st, handle_connection_established E now peer addr nd)
      | ConnectionClosed peer \<Rightarrow> Some (st, handle_connection_closed now peer nd)
      | OtherEvent \<Rightarrow> Some (st, nd))"


section \<open>Commands\<close>

definition start_fetch ::
    "('db, 'q) node_env \<Rightarrow> nat \<Rightarrow> pending_command \<Rightarrow> ('db, 'q) node \<Rightarrow> 'q mailbox_state \<times> ('db, 'q) node" where
  "start_fetch E now cmd nd =
     (let (nd1, queries) = fire_window E (pending_user cmd) 1 nd
      in (FetchingIndex cmd 1 0 queries [] (now + OPERATION_TIMEOUT), nd1))"

definition cmd_mailbox_store ::
    "('db, 'q) node_env \<Rightarrow> nat \<Rightarrow> bool \<Rightarrow> bytes \<Rightarrow> bytes \<Rightarrow> bytes \<Rightarrow> 'q mailbox_state \<Rightarrow> ('db, 'q) node \<Rightarrow>
     ('q mailbox_state \<times> ('db, 'q) node) option" where
  "cmd_mailbox_store E now has_peers recipient sender payload st nd =
     (if \<not> is_idle st then Some (st, nd)
      else case nd_indices nd recipient of
             Some current \<Rightarrow>
               map_option (Pair st) (store_signed_envelope E recipient sender payload (current + 1) nd)
           | None \<Rightarrow>
               (if \<not> has_peers then
                  (let next_seq = (case get_sled_max_seq (ne_sled E) (nd_db nd) recipient of
                                     None \<Rightarrow> 1 | Some s \<Rightarrow> s + 1)
                   in map_option (Pair st) (store_signed_envelope E recipient sender payload next_seq nd))
                else Some (start_fetch E now (PendingStore recipient sender payload) nd)))"

definition cmd_mailbox_retrieve ::
    "('db, 'q) node_env \<Rightarrow> nat \<Rightarrow> bool \<Rightarrow> bytes \<Rightarrow> 'q mailbox_state \<Rightarrow> ('db, 'q) node \<Rightarrow>
     'q mailbox_state \<times> ('db, 'q) node" where
  "cmd_mailbox_retrieve E now has_peers user st nd =
     (if \<not> is_idle st then (st, nd)
      else if \<not> has_peers then emit_empty_mailbox user nd
      else case nd_indices nd user of
             Some index \<Rightarrow>
               (if index = 0 then emit_empty_mailbox user nd
                else start_collecting_messages E now user index nd)
           | None \<Rightarrow> start_fetch E now (PendingRetrieve user) nd)"

definition profile_query ::
    "('db, 'q) node_env \<Rightarrow> bytes \<Rightarrow> nat \<Rightarrow> ('db, 'q) node \<Rightarrow> ('db, 'q) node" where
  "profile_query E key ch nd =
     (let (nd1, qid) = get_record E key nd
      in nd1\<lparr>nd_profile_queries := am_insert qid ch (nd_profile_queries nd1)\<rparr>)"

definition handle_command ::
    "('db, 'q) node_env \<Rightarrow> nat \<Rightarrow> bool \<Rightarrow> node_command \<Rightarrow> 'q mailbox_state \<Rightarrow> ('db, 'q) node \<Rightarrow>
     ('q mailbox_state \<times> ('db, 'q) node) option" where
  "handle_command E now has_peers cmd st nd =
     (case cmd of
        Dial addr \<Rightarrow> Some (st, call (DialPeer addr) nd)
      | MailboxStore recipient sender payload \<Rightarrow>
          cmd_mailbox_store E now has_peers recipient sender payload st nd
      | ProfileStore index blob \<Rightarrow> Some (st, call (PutRecord (profile_key index) blob) nd)
      | ProfileLookup index ch \<Rightarrow> Some (st, profile_query E (profile_key index) ch nd)
      | ProfileTokenStore index token \<Rightarrow> Some (st, call (PutRecord (update_key index) token) nd)
      | ProfileTokenLookup index ch \<Rightarrow> Some (st, profile_query E (update_key index) ch nd)
      | MailboxRetrieve user \<Rightarrow> Some (cmd_mailbox_retrieve E now has_peers user st nd)
      | Subscribe topic \<Rightarrow> Some (st, call (SubscribeTopic topic) nd)
      | Publish topic d \<Rightarrow> Some (st, call (PublishTopic topic d) nd)
      | Bootstrap \<Rightarrow> Some (st, call KadBootstrap nd))"

definition check_state_timeout ::
    "nat \<Rightarrow> 'q mailbox_state \<Rightarrow> ('db, 'q) node \<Rightarrow> 'q mailbox_state \<times> ('db, 'q) node" where
  "check_state_timeout now st nd =
     (case st of
        FetchingIndex cmd start max_found pending found deadline \<Rightarrow>
          if deadline \<le> now then (Idle, nd) else (st, nd)
      | CollectingMessages user messages remaining deadline \<Rightarrow>
          if deadline \<le> now then (Idle, emit (MailboxRetrieved user messages) nd) else (st, nd)
      | Idle \<Rightarrow> (st, nd))"


section \<open>The event loop\<close>

definition command_user :: "node_command \<Rightarrow> bytes option" where
  "command_user cmd = (case cmd of
      MailboxStore recipient sender payload \<Rightarrow> Some recipient
    | MailboxRetrieve user \<Rightarrow> Some user
    | _ \<Rightarrow> None)"

text \<open>Seeding the in-memory index from the backup before a mailbox command.\<close>

definition seed_index :: "('db, 'q) node_env \<Rightarrow> node_command \<Rightarrow> 'q mailbox_state \<Rightarrow> ('db, 'q) node \<Rightarrow> ('db, 'q) node" where
  "seed_index E cmd st nd =
     (case command_user cmd of
        None \<Rightarrow> nd
      | Some user \<Rightarrow>
          (if is_idle st \<and> nd_indices nd user = None then
             (case get_sled_max_seq (ne_sled E) (nd_db nd) user of
                Some max_seq \<Rightarrow> nd\<lparr>nd_indices := (nd_indices nd)(user \<mapsto> max_seq)\<rparr>
              | None \<Rightarrow> nd)
           else nd))"

definition backoff_secs :: "nat \<Rightarrow> nat" where
  "backoff_secs attempt = min (2 ^ min attempt 6) MAX_RECONNECT_DELAY_SECS"

text \<open>The reconnect tick: first every known peer is looked at, then the chosen ones are dialled.\<close>

definition reconnect_due ::
    "nat \<Rightarrow> bytes list \<Rightarrow> bytes \<times> bytes list \<Rightarrow>
     (bytes \<times> (nat \<times> nat)) list \<times> (bytes \<times> bytes) list \<Rightarrow>
     (bytes \<times> (nat \<times> nat)) list \<times> (bytes \<times> bytes) list" where
  "reconnect_due now connected entry acc =
     (let (peer, addrs) = entry; (known, redial) = acc in
      if peer \<in> set connected then (am_insert peer (0, now) known, redial)
      else let (attempt, last) = attempts_of known now peer in
        if attempt = 0 \<or> backoff_secs attempt * 1000 \<le> now - last then
          (case addrs of [] \<Rightarrow> (known, redial) | a # _ \<Rightarrow> (known, redial @ [(peer, a)]))
        else (known, redial))"

definition redial_peer :: "nat \<Rightarrow> bytes \<times> bytes \<Rightarrow> ('db, 'q) node \<Rightarrow> ('db, 'q) node" where
  "redial_peer now target nd =
     (let nd1 = call (DialPeer (snd target)) nd;
          (attempt, _) = attempts_of (nd_known_peers nd1) now (fst target)
      in nd1\<lparr>nd_known_peers := am_insert (fst target) (attempt + 1, now) (nd_known_peers nd1)\<rparr>)"

definition reconnect_tick :: "nat \<Rightarrow> bytes list \<Rightarrow> ('db, 'q) node \<Rightarrow> ('db, 'q) node" where
  "reconnect_tick now connected nd =
     (let (known, redial) = fold (reconnect_due now connected) (nd_peer_addrs nd) (nd_known_peers nd, [])
      in fold (redial_peer now) redial (nd\<lparr>nd_known_peers := known\<rparr>))"

datatype 'q node_input =
    TimeoutTick
  | ReconnectTick
  | Swarm "'q swarm_event"
  | Command node_command

text \<open>One turn of the loop, at an instant and with the peers connected then.\<close>

definition node_step ::
    "('db, 'q) node_env \<Rightarrow> nat \<Rightarrow> bytes list \<Rightarrow> 'q node_input \<Rightarrow> 'q mailbox_state \<Rightarrow> ('db, 'q) node \<Rightarrow>
     ('q mailbox_state \<times> ('db, 'q) node) option" where
  "node_step E now connected inp st nd =
     (case inp of
        TimeoutTick \<Rightarrow> Some (check_state_timeout now st nd)
      | ReconnectTick \<Rightarrow> Some (st, reconnect_tick now connected nd)
      | Swarm ev \<Rightarrow>
          map_option (\<lambda>(st', nd'). check_state_timeout now st' nd') (handle_swarm_event E now ev st nd)
      | Command cmd \<Rightarrow>
          map_option (\<lambda>(st', nd'). check_state_timeout now st' nd')
            (handle_command E now (connected \<noteq> []) cmd st (seed_index E cmd st nd)))"

end
