(* ===== verification/Node_Inv.thy ===== *)
theory Node_Inv
  imports Node Machine
begin

text \<open>
  The node's mailbox invariant: the in-memory index of a user is at least every number under
  which the local backup holds a record of that user, and while an index is being probed the
  backup holds none. Every step keeps it, and no step overwrites or removes a backup record.
  Numbers are 64-bit and wrap in a release build, so runs carry a bound \<open>n\<close> that grows by a
  window per step.
\<close>

section \<open>Frames\<close>

lemma node_frame [simp]:
  "nd_indices (emit e nd) = nd_indices nd" "nd_db (emit e nd) = nd_db nd"
  "nd_indices (call c nd) = nd_indices nd" "nd_db (call c nd) = nd_db nd"
  "nd_indices (reply ch v nd) = nd_indices nd" "nd_db (reply ch v nd) = nd_db nd"
  "nd_indices (fst (get_record E key nd)) = nd_indices nd" "nd_db (fst (get_record E key nd)) = nd_db nd"
  by (simp_all add: emit_def call_def reply_def get_record_def)

lemma fire_seqs_frame [simp]:
  "nd_indices (fst (fire_seqs E user ss queries nd)) = nd_indices nd"
  "nd_db (fst (fire_seqs E user ss queries nd)) = nd_db nd"
  by (induction E user ss queries nd rule: fire_seqs.induct) (simp_all add: case_prod_beta Let_def)

lemma fire_window_frame [simp]:
  "nd_indices (fst (fire_window E user start nd)) = nd_indices nd"
  "nd_db (fst (fire_window E user start nd)) = nd_db nd"
  by (simp_all add: fire_window_def)

lemma mailbox_helpers_frame [simp]:
  "nd_indices (snd (emit_empty_mailbox user nd)) = nd_indices nd"
  "nd_db (snd (emit_empty_mailbox user nd)) = nd_db nd"
  "nd_indices (snd (start_collecting_messages E now user index nd)) = nd_indices nd"
  "nd_db (snd (start_collecting_messages E now user index nd)) = nd_db nd"
  "nd_indices (snd (collect_message E user rem val msgs d nd)) = nd_indices nd"
  "nd_db (snd (collect_message E user rem val msgs d nd)) = nd_db nd"
  "nd_indices (snd (check_state_timeout now st nd)) = nd_indices nd"
  "nd_db (snd (check_state_timeout now st nd)) = nd_db nd"
  by (auto simp: emit_empty_mailbox_def start_collecting_messages_def collect_message_def
      check_state_timeout_def case_prod_beta Let_def split: list.split mailbox_state.split)


section \<open>Backup keys\<close>

lemma seq_be_key_inj: "seq_be_key u s = seq_be_key u' s' \<longleftrightarrow> u = u' \<and> s = s'"
  by (simp add: seq_be_key_def append_eq_append_conv u64_be_inj)

definition backup_has :: "('db, 'q) node_env \<Rightarrow> 'db \<Rightarrow> bytes \<Rightarrow> u64 \<Rightarrow> bool" where
  "backup_has E db u s \<longleftrightarrow> sl_get (ne_sled E) db SLED_MAILBOX_TREE (seq_be_key u s) \<noteq> None"

definition backup_below :: "('db, 'q) node_env \<Rightarrow> 'db \<Rightarrow> bytes \<Rightarrow> u64 \<Rightarrow> bool" where
  "backup_below E db u i \<longleftrightarrow> (\<forall>s. backup_has E db u s \<longrightarrow> s \<le> i)"

lemma seq_max_step_bounds:
  "acc \<le> seq_max_step n e acc"
  "length (fst e) = n + 8 \<Longrightarrow> be_u64 (drop n (fst e)) \<le> seq_max_step n e acc"
  "seq_max_step n e acc = acc \<or>
     (length (fst e) = n + 8 \<and> seq_max_step n e acc = be_u64 (drop n (fst e)))"
  by (auto simp: seq_max_step_def Let_def)

lemma sled_max_fold:
  shows "acc \<le> fold (seq_max_step n) es acc"
    and "e \<in> set es \<Longrightarrow> length (fst e) = n + 8 \<Longrightarrow>
      be_u64 (drop n (fst e)) \<le> fold (seq_max_step n) es acc"
    and "fold (seq_max_step n) es acc = acc \<or>
      (\<exists>e \<in> set es. length (fst e) = n + 8 \<and> fold (seq_max_step n) es acc = be_u64 (drop n (fst e)))"
proof -
  show up: "acc \<le> fold (seq_max_step n) es acc" for es acc
  proof (induction es arbitrary: acc)
    case Nil
    then show ?case by simp
  next
    case (Cons e es)
    from order_trans[OF seq_max_step_bounds(1) Cons] show ?case by simp
  qed
  show "e \<in> set es \<Longrightarrow> length (fst e) = n + 8 \<Longrightarrow>
      be_u64 (drop n (fst e)) \<le> fold (seq_max_step n) es acc"
  proof (induction es arbitrary: acc)
    case Nil
    then show ?case by simp
  next
    case (Cons e' es)
    then show ?case
      using order_trans[OF seq_max_step_bounds(2)[OF Cons.prems(2)] up] by auto
  qed
  show "fold (seq_max_step n) es acc = acc \<or>
      (\<exists>e \<in> set es. length (fst e) = n + 8 \<and> fold (seq_max_step n) es acc = be_u64 (drop n (fst e)))"
  proof (induction es arbitrary: acc)
    case Nil
    then show ?case by simp
  next
    case (Cons e es)
    from Cons[of "seq_max_step n e acc"] seq_max_step_bounds(3)[of n e acc] show ?case by auto
  qed
qed

text \<open>The maximum the node seeds its index with, and when there is none.\<close>

lemma get_sled_max_seq_spec:
  assumes "sled_ok (ne_sled E)"
  shows "get_sled_max_seq (ne_sled E) db u = Some m \<Longrightarrow> backup_has E db u m \<and> backup_below E db u m"
    and "get_sled_max_seq (ne_sled E) db u = None \<Longrightarrow> backup_below E db u 0"
proof -
  let ?S = "ne_sled E"
  let ?es = "sl_scan ?S db SLED_MAILBOX_TREE u"
  define r where "r = fold (seq_max_step (length u)) ?es 0"
  have get: "get_sled_max_seq ?S db u = (if 0 < r then Some r else None)"
    by (simp add: get_sled_max_seq_def sledD(1)[OF assms] r_def)
  have below: "backup_below E db u r"
    unfolding backup_below_def backup_has_def
  proof (intro allI impI)
    fix s
    assume "sl_get ?S db SLED_MAILBOX_TREE (seq_be_key u s) \<noteq> None"
    then obtain v where "(seq_be_key u s, v) \<in> set ?es"
      using sledD(5)[OF assms] by (auto simp: seq_be_key_def)
    from sled_max_fold(2)[OF this, of "length u" 0] show "s \<le> r"
      by (simp add: r_def seq_be_key_def)
  qed
  show "get_sled_max_seq ?S db u = None \<Longrightarrow> backup_below E db u 0"
    using below by (simp add: get not_less split: if_splits)
  assume "get_sled_max_seq ?S db u = Some m"
  then have m: "m = r" "0 < r" by (auto simp: get split: if_splits)
  have "r = 0 \<or> (\<exists>e \<in> set ?es. length (fst e) = length u + 8 \<and> r = be_u64 (drop (length u) (fst e)))"
    using sled_max_fold(3)[of "length u" ?es 0] by (simp add: r_def)
  with m(2) obtain k v where k: "(k, v) \<in> set ?es" "length k = length u + 8" "r = be_u64 (drop (length u) k)"
    by auto
  then have "prefix u k" "sl_get ?S db SLED_MAILBOX_TREE k = Some v" using sledD(5)[OF assms] by auto
  then obtain t where t: "k = u @ t" by (auto simp: prefix_def)
  have "u64_be (be_u64 t) = t" if "length t = 8" for t
  proof -
    have "le_val (rev t) < 2 ^ 64" using le_val_bound[of "rev t"] that by simp
    then have "u64_le (le_u64 (rev t)) = to_le (length (rev t)) (le_val (rev t))"
      using that by (simp add: u64_le_def le_u64_def unat_of_nat)
    then show ?thesis using to_le_le_val[of "rev t"] by (simp add: u64_be_def be_u64_def)
  qed
  then have "k = seq_be_key u r" using k t by (simp add: seq_be_key_def)
  with below m \<open>sl_get ?S db SLED_MAILBOX_TREE k = Some v\<close>
  show "backup_has E db u m \<and> backup_below E db u m" by (simp add: backup_has_def)
qed


section \<open>The invariant\<close>

definition node_inv :: "('db, 'q) node_env \<Rightarrow> nat \<Rightarrow> 'q mailbox_state \<Rightarrow> ('db, 'q) node \<Rightarrow> bool" where
  "node_inv E n st nd \<longleftrightarrow>
     (\<forall>u i. nd_indices nd u = Some i \<longrightarrow> unat i \<le> n \<and> backup_below E (nd_db nd) u i) \<and>
     (\<forall>u s. backup_has E (nd_db nd) u s \<longrightarrow> unat s \<le> n) \<and>
     (case st of
        FetchingIndex cmd start max_found pending found deadline \<Rightarrow>
          1 \<le> unat start \<and> unat start \<le> n + 1 \<and> backup_below E (nd_db nd) (pending_user cmd) 0
      | _ \<Rightarrow> True)"

text \<open>What a step may do to the backup: add records, never change or drop one.\<close>

definition backup_kept :: "('db, 'q) node_env \<Rightarrow> 'db \<Rightarrow> 'db \<Rightarrow> bool" where
  "backup_kept E db db' \<longleftrightarrow>
     (\<forall>k v. sl_get (ne_sled E) db SLED_MAILBOX_TREE k = Some v \<longrightarrow>
        sl_get (ne_sled E) db' SLED_MAILBOX_TREE k = Some v)"

lemma backup_kept_refl [simp]: "backup_kept E db db"
  by (simp add: backup_kept_def)

lemma backup_kept_trans: "backup_kept E a b \<Longrightarrow> backup_kept E b c \<Longrightarrow> backup_kept E a c"
  by (simp add: backup_kept_def)

lemma node_inv_mono: "node_inv E n st nd \<Longrightarrow> n \<le> n' \<Longrightarrow> node_inv E n' st nd"
  unfolding node_inv_def by (fastforce split: mailbox_state.splits)

text \<open>Changes that leave index and backup alone.\<close>

lemma node_inv_frame:
  assumes "node_inv E n st nd" "nd_indices nd' = nd_indices nd" "nd_db nd' = nd_db nd"
    and "is_idle st' \<or> (\<exists>u ms r d. st' = CollectingMessages u ms r d) \<or> st' = st"
  shows "node_inv E n st' nd'"
  using assms by (auto simp: node_inv_def is_idle_def split: mailbox_state.splits)

definition quiet :: "('db, 'q) node \<Rightarrow> ('db, 'q) node \<Rightarrow> bool" where
  "quiet nd nd' \<longleftrightarrow> nd_indices nd' = nd_indices nd \<and> nd_db nd' = nd_db nd"

text \<open>Storing under a number above everything the backup holds for the recipient.\<close>

lemma store_keeps:
  assumes S: "sled_ok (ne_sled E)"
    and st: "store_signed_envelope E u snd_id p seq nd = Some nd'"
    and fresh: "\<forall>s. backup_has E (nd_db nd) u s \<longrightarrow> s < seq"
    and idx: "\<forall>w i. w \<noteq> u \<longrightarrow> nd_indices nd w = Some i \<longrightarrow> unat i \<le> n \<and> backup_below E (nd_db nd) w i"
    and own: "\<forall>i. nd_indices nd u = Some i \<longrightarrow> unat i \<le> n \<and> backup_below E (nd_db nd) u i"
    and all: "\<forall>w s. backup_has E (nd_db nd) w s \<longrightarrow> unat s \<le> n" and seq: "unat seq \<le> n"
  shows "node_inv E n Idle nd' \<and> backup_kept E (nd_db nd) (nd_db nd')"
proof -
  let ?W = "ne_wire E"
  obtain env where env: "sign_envelope ?W \<lparr>en_payload = encode_mailbox_message snd_id p, en_seq = seq,
      en_sender_pubkey = w_ed_pk ?W (ne_seed E), en_signature = []\<rparr> (ne_seed E) u = Some env"
    using st by (auto simp: store_signed_envelope_def Let_def split: option.splits)
  show ?thesis
  proof (cases "serialize_envelope ?W env")
    case None
    then have "nd' = nd" using st env by (simp add: store_signed_envelope_def Let_def)
    then show ?thesis using idx own all by (auto simp: node_inv_def)
  next
    case (Some raw)
    let ?db = "sl_insert (ne_sled E) (nd_db nd) SLED_MAILBOX_TREE (seq_be_key u seq) raw"
    have nd': "nd_db nd' = ?db" "nd_indices nd' = (nd_indices nd)(u \<mapsto> seq)"
      using st env Some by (auto simp: store_signed_envelope_def Let_def sledD(1)[OF S])
    have has: "backup_has E ?db w s \<longleftrightarrow> (w = u \<and> s = seq) \<or> backup_has E (nd_db nd) w s" for w s
      by (auto simp: backup_has_def sledD(2)[OF S] seq_be_key_inj)
    have "backup_below E ?db u seq"
      using fresh by (auto simp: backup_below_def has less_imp_le)
    moreover have "backup_below E ?db w i" if "w \<noteq> u" "nd_indices nd w = Some i" for w i
      using idx that by (auto simp: backup_below_def has)
    ultimately have inv: "node_inv E n Idle nd'"
      using idx all seq by (auto simp: node_inv_def nd' has)
    have "\<not> backup_has E (nd_db nd) u seq" using fresh by auto
    then have "backup_kept E (nd_db nd) ?db"
      by (auto simp: backup_kept_def sledD(2)[OF S] backup_has_def)
    with inv show ?thesis by (simp add: nd')
  qed
qed



section \<open>Every step keeps it\<close>

lemma node_invD:
  assumes "node_inv E n st nd"
  shows "nd_indices nd u = Some i \<Longrightarrow> unat i \<le> n" "nd_indices nd u = Some i \<Longrightarrow> backup_below E (nd_db nd) u i"
    "backup_has E (nd_db nd) u s \<Longrightarrow> unat s \<le> n"
  using assms by (auto simp: node_inv_def)

lemma backup_below_0: "backup_below E db u 0 \<Longrightarrow> backup_below E db u i"
  by (auto simp: backup_below_def) 

lemma unat_Suc_word: "unat (i :: u64) < k \<Longrightarrow> k < 2 ^ 64 \<Longrightarrow> unat (i + 1) = Suc (unat i)"
  using unat_add_of_nat[of i 1] by simp

text \<open>Setting the index of a user without backup records, then finishing the pending command.\<close>

lemma resume_keeps:
  assumes S: "sled_ok (ne_sled E)" and inv: "node_inv E n st nd"
    and none: "backup_below E (nd_db nd) (pending_user cmd) 0" and i: "unat index \<le> n" "n + 1 < 2 ^ 64"
    and r: "resume_pending_command E now cmd index
      (nd\<lparr>nd_indices := (nd_indices nd)(pending_user cmd \<mapsto> index)\<rparr>) = Some (st', nd')"
  shows "node_inv E (n + 1) Idle nd' \<and> \<not> (\<exists>c a b p f d. st' = FetchingIndex c a b p f d) \<and>
    backup_kept E (nd_db nd) (nd_db nd')"
proof -
  let ?u = "pending_user cmd"
  let ?nd = "nd\<lparr>nd_indices := (nd_indices nd)(?u \<mapsto> index)\<rparr>"
  have inv1: "node_inv E (n + 1) Idle ?nd"
    using inv i none backup_below_0[OF none] by (fastforce simp: node_inv_def)
  show ?thesis
  proof (cases cmd)
    case (PendingStore u sender payload)
    then obtain nd1 where st: "store_signed_envelope E u sender payload (index + 1) ?nd = Some nd1"
      "st' = Idle" "nd' = nd1" using r by (auto simp: resume_pending_command_def)
    have s: "unat (index + 1) = Suc (unat index)" using i by (intro unat_Suc_word[of _ "n + 1"]) auto
    then have "0 < index + 1" by (simp add: word_less_nat_alt)
    then have "\<forall>s. backup_has E (nd_db ?nd) u s \<longrightarrow> s < index + 1"
      using none PendingStore by (auto simp: backup_below_def)
    then have "node_inv E (n + 1) Idle nd1 \<and> backup_kept E (nd_db ?nd) (nd_db nd1)"
      using inv1 i s by (intro store_keeps[OF S st(1)]) (auto simp: node_inv_def)
    then show ?thesis using st by simp
  next
    case (PendingRetrieve u)
    then have e: "(if index = 0 then emit_empty_mailbox u ?nd
        else start_collecting_messages E now u index ?nd) = (st', nd')"
      using r by (cases "index = 0") (simp_all add: resume_pending_command_def)
    then have q: "nd_indices nd' = nd_indices ?nd \<and> nd_db nd' = nd_db ?nd"
      by (cases "index = 0") (metis mailbox_helpers_frame(1,2) snd_conv, metis mailbox_helpers_frame(3,4) snd_conv)
    have "\<not> (\<exists>c a b p f d. st' = FetchingIndex c a b p f d)"
      using e by (cases "index = 0")
        (auto simp add: emit_empty_mailbox_def start_collecting_messages_def case_prod_beta Let_def)
    with q inv1 show ?thesis by (auto simp: node_inv_def)
  qed
qed

lemma window_seqs_nat:
  assumes "s \<in> set (window_seqs start)" "unat start + 10 \<le> 2 ^ 64"
  shows "\<exists>i < 10. s = start + word_of_nat i \<and> unat s = unat start + i"
proof -
  obtain i where i: "i < 10" "s = start + word_of_nat i"
    using assms(1) by (auto simp: window_seqs_def WINDOW_SIZE_def)
  then have "unat s = unat start + i"
    using assms(2) unat_add_of_nat[of start i] by simp
  with i show ?thesis by blast
qed

lemma scan_window_Gap:
  "scan_window pending found ss = Gap s \<Longrightarrow>
     \<exists>xs ys. ss = xs @ s # ys \<and> set xs \<subseteq> set found \<and> s \<notin> set found \<and>
       s \<notin> set (map snd pending) \<and> set xs \<inter> set (map snd pending) = {}"
proof (induction ss)
  case Nil
  then show ?case by simp
next
  case (Cons x ss)
  show ?case
  proof (cases "x \<in> set (map snd pending) \<or> x \<notin> set found")
    case True
    with Cons.prems have "x = s" "s \<notin> set found" "s \<notin> set (map snd pending)" by (auto split: if_splits)
    then show ?thesis by (intro exI[of _ "[]"] exI[of _ ss]) simp
  next
    case False
    with Cons obtain xs ys where "ss = xs @ s # ys" "set xs \<subseteq> set found" "s \<notin> set found"
      "s \<notin> set (map snd pending)" "set xs \<inter> set (map snd pending) = {}" by auto
    with False show ?thesis by (intro exI[of _ "x # xs"] exI[of _ ys]) auto
  qed
qed

lemma node_inv_Idle:
  "node_inv E n Idle nd \<Longrightarrow> \<not> (\<exists>c a b p f d. st = FetchingIndex c a b p f d) \<Longrightarrow> node_inv E n st nd"
  by (cases st) (auto simp: node_inv_def)

lemma try_resolve_keeps:
  assumes S: "sled_ok (ne_sled E)" and inv: "node_inv E n (FetchingIndex cmd start m0 p0 f0 d0) nd"
    and n: "n + 11 < 2 ^ 64"
    and r: "try_resolve_window E now cmd start mx pending found d nd = Some (st', nd')"
  shows "node_inv E (n + 10) st' nd' \<and> backup_kept E (nd_db nd) (nd_db nd')"
proof -
  have start: "1 \<le> unat start" "unat start \<le> n + 1" and none: "backup_below E (nd_db nd) (pending_user cmd) 0"
    using inv by (simp_all add: node_inv_def)
  have inv10: "node_inv E (n + 9) Idle nd" using inv by (fastforce simp: node_inv_def)
  show ?thesis
  proof (cases "scan_window pending found (window_seqs start)")
    case Waiting
    then have "st' = FetchingIndex cmd start mx pending found d" "nd' = nd"
      using r by (auto simp: try_resolve_window_def Let_def)
    then show ?thesis using inv by (fastforce simp: node_inv_def)
  next
    case (Gap s)
    have "s \<in> set (window_seqs start)" using scan_window_Gap[OF Gap] by auto
    then obtain i where i: "i < 10" "unat s = unat start + i"
      using window_seqs_nat[of s start] start n by auto
    then have s1: "unat (s - 1) = unat s - 1" using start by (simp add: unat_sub word_le_nat_alt)
    have "node_inv E (n + 9 + 1) Idle nd' \<and> \<not> (\<exists>c a b p f d. st' = FetchingIndex c a b p f d) \<and>
        backup_kept E (nd_db nd) (nd_db nd')"
      by (rule resume_keeps[OF S inv10 none, of "s - 1" now st' nd'])
        (use r Gap i s1 start n in \<open>auto simp: try_resolve_window_def Let_def\<close>)
    then show ?thesis using node_inv_Idle[of E "n + 10" nd' st'] by (simp add: add.commute)
  next
    case AllFound
    then have st': "nd_indices nd' = nd_indices nd" "nd_db nd' = nd_db nd"
      "\<exists>q. st' = FetchingIndex cmd (start + word_of_nat WINDOW_SIZE) mx q [] d"
      using r by (auto simp: try_resolve_window_def Let_def case_prod_beta)
    have "unat (start + word_of_nat WINDOW_SIZE) = unat start + 10"
      using start n unat_add_of_nat[of start 10] by (simp add: WINDOW_SIZE_def)
    then show ?thesis using inv10 none st' start by (fastforce simp: node_inv_def)
  qed
qed

lemma collect_state: "\<not> (\<exists>c a b p f d. fst (collect_message E u r v ms dl nd) = FetchingIndex c a b p f d)"
  by (simp add: collect_message_def case_prod_beta Let_def split: list.split)

lemma collect_keeps:
  assumes "node_inv E n st nd"
  shows "node_inv E (n + 10) (fst (collect_message E u r v ms dl nd)) (snd (collect_message E u r v ms dl nd)) \<and>
    backup_kept E (nd_db nd) (nd_db (snd (collect_message E u r v ms dl nd)))"
proof -
  let ?nd = "snd (collect_message E u r v ms dl nd)"
  have "node_inv E n Idle ?nd" by (rule node_inv_frame[OF assms]) (simp_all add: is_idle_def)
  then show ?thesis
    using node_inv_mono node_inv_Idle collect_state by (metis backup_kept_refl le_add1 mailbox_helpers_frame(6))
qed

lemma mailbox_event_keeps:
  assumes S: "sled_ok (ne_sled E)" and inv: "node_inv E n st nd" and n: "n + 11 < 2 ^ 64"
    and r: "handle_found_record E now key val qid st nd = Some (st', nd') \<or>
      handle_not_found E now qid st nd = Some (st', nd')"
  shows "node_inv E (n + 10) st' nd' \<and> backup_kept E (nd_db nd) (nd_db nd')"
proof (cases st)
  case Idle
  then have "is_idle st'" "nd_indices nd' = nd_indices nd" "nd_db nd' = nd_db nd"
    using r by (auto simp: handle_found_record_def handle_not_found_def is_idle_def Let_def)
  then show ?thesis using node_inv_mono[OF node_inv_frame[OF inv]] by simp
next
  case (CollectingMessages u ms rem d)
  then have "\<exists>v. collect_message E u rem v ms d nd = (st', nd')"
    using r by (auto simp: handle_found_record_def handle_not_found_def)
  then obtain v where v: "collect_message E u rem v ms d nd = (st', nd')" ..
  show ?thesis using collect_keeps[OF inv, of u rem v ms d] by (simp add: v)
next
  case (FetchingIndex cmd start mx pending found d)
  have tr: "node_inv E (n + 10) st' nd' \<and> backup_kept E (nd_db nd) (nd_db nd')"
    if "try_resolve_window E now cmd start mx' p' f' d nd = Some (st', nd')" for mx' p' f'
    using try_resolve_keeps[OF S _ n that] inv FetchingIndex by blast
  have same: "node_inv E (n + 10) st' nd' \<and> backup_kept E (nd_db nd) (nd_db nd')"
    if "st' = st" "nd' = nd"
    using node_inv_mono[OF inv] that by simp
  show ?thesis
    using r tr same unfolding FetchingIndex
    by (auto simp: handle_found_record_def handle_not_found_def Let_def split: option.splits if_splits)
qed


lemma persist_keeps:
  assumes "sled_ok S"
  shows "sl_get S (persist_peer_addr W S peer addr db) SLED_MAILBOX_TREE k = sl_get S db SLED_MAILBOX_TREE k"
  by (simp add: persist_peer_addr_def Let_def sledD[OF assms] SLED_PEER_TREE_def SLED_MAILBOX_TREE_def
      split: option.split)

lemma node_inv_same_backup:
  assumes "node_inv E n st nd" "nd_indices nd' = nd_indices nd"
    and "\<And>k. sl_get (ne_sled E) (nd_db nd') SLED_MAILBOX_TREE k = sl_get (ne_sled E) (nd_db nd) SLED_MAILBOX_TREE k"
  shows "node_inv E n st nd' \<and> backup_kept E (nd_db nd) (nd_db nd')"
proof -
  have "backup_has E (nd_db nd') = backup_has E (nd_db nd)"
    using assms(3) by (intro ext) (simp add: backup_has_def)
  then have "backup_below E (nd_db nd') = backup_below E (nd_db nd)"
    by (intro ext) (simp add: backup_below_def)
  then show ?thesis
    using assms \<open>backup_has E (nd_db nd') = backup_has E (nd_db nd)\<close>
    by (cases st) (simp_all add: node_inv_def backup_kept_def)
qed

lemma failed_event_keeps:
  assumes S: "sled_ok (ne_sled E)" and inv: "node_inv E n st nd" and n: "n + 11 < 2 ^ 64"
    and r: "handle_kad_failed E now qid key st nd = Some (st', nd')"
  shows "node_inv E (n + 10) st' nd' \<and> backup_kept E (nd_db nd) (nd_db nd')"
proof -
  define nd1 where "nd1 = (case map_of (nd_profile_queries nd) qid of
      Some ch \<Rightarrow> reply ch None (nd\<lparr>nd_profile_queries := am_remove qid (nd_profile_queries nd)\<rparr>)
    | None \<Rightarrow> nd)"
  have nd1: "nd_indices nd1 = nd_indices nd" "nd_db nd1 = nd_db nd"
    by (simp_all add: nd1_def split: option.split)
  have inv1: "node_inv E n st nd1" using node_inv_frame[OF inv nd1] by simp
  have quiet: "node_inv E (n + 10) Idle nd' \<and> backup_kept E (nd_db nd) (nd_db nd')"
    if "nd_indices nd' = nd_indices nd1" "nd_db nd' = nd_db nd1"
    using node_inv_mono[OF node_inv_frame[OF inv1, of nd' Idle], of "n + 10"] that nd1
    by (simp add: is_idle_def)
  show ?thesis
  proof (cases st)
    case Idle
    then have "st' = Idle" "nd_indices nd' = nd_indices nd1" "nd_db nd' = nd_db nd1"
      using r by (auto simp: handle_kad_failed_def Let_def nd1_def[symmetric])
    with quiet show ?thesis by simp
  next
    case (CollectingMessages u ms rem d)
    then have "st' = Idle" "nd_indices nd' = nd_indices nd1" "nd_db nd' = nd_db nd1"
      using r by (auto simp: handle_kad_failed_def Let_def nd1_def[symmetric])
    with quiet show ?thesis by simp
  next
    case (FetchingIndex cmd start mx pending found d)
    then obtain st2 where rs: "resume_pending_command E now cmd 0
        (nd1\<lparr>nd_indices := (nd_indices nd1)(pending_user cmd \<mapsto> 0)\<rparr>) = Some (st2, nd')" and "st' = Idle"
      using r by (auto simp: handle_kad_failed_def Let_def nd1_def[symmetric])
    have none: "backup_below E (nd_db nd1) (pending_user cmd) 0"
      using inv1 FetchingIndex by (simp add: node_inv_def)
    have "node_inv E (n + 1) Idle nd' \<and> backup_kept E (nd_db nd1) (nd_db nd')"
      using resume_keeps[OF S inv1 none _ _ rs] n by simp
    then show ?thesis using node_inv_mono \<open>st' = Idle\<close> nd1 by fastforce
  qed
qed

lemma swarm_event_keeps:
  assumes S: "sled_ok (ne_sled E)" and inv: "node_inv E n st nd" and n: "n + 11 < 2 ^ 64"
    and r: "handle_swarm_event E now ev st nd = Some (st', nd')"
  shows "node_inv E (n + 10) st' nd' \<and> backup_kept E (nd_db nd) (nd_db nd')"
proof -
  have same: "node_inv E (n + 10) st' nd' \<and> backup_kept E (nd_db nd) (nd_db nd')"
    if "st' = st" "nd_indices nd' = nd_indices nd"
      "\<And>k. sl_get (ne_sled E) (nd_db nd') SLED_MAILBOX_TREE k = sl_get (ne_sled E) (nd_db nd) SLED_MAILBOX_TREE k"
    using node_inv_same_backup[OF inv that(2,3)] node_inv_mono[of E n st nd' "n + 10"] that(1) by simp
  show ?thesis
  proof (cases ev)
    case (KadFound qid key val)
    then have r: "handle_kad_found E now qid key val st nd = Some (st', nd')"
      using r by (simp add: handle_swarm_event_def)
    show ?thesis
    proof (cases "parse_profile_key key \<noteq> None \<or> parse_update_key key \<noteq> None")
      case True
      then have "st' = st" "nd_indices nd' = nd_indices nd" "nd_db nd' = nd_db nd"
        using r by (auto simp: handle_kad_found_def split: option.splits)
      then show ?thesis using same by simp
    next
      case False
      then show ?thesis
        using r mailbox_event_keeps[OF S inv n, of now key "Some val" qid st' nd']
        by (simp add: handle_kad_found_def)
    qed
  next
    case (KadFinished qid)
    then have r: "handle_kad_finished E now qid st nd = Some (st', nd')"
      using r by (simp add: handle_swarm_event_def)
    show ?thesis
    proof (cases "map_of (nd_profile_queries nd) qid")
      case (Some ch)
      then have "st' = st" "nd_indices nd' = nd_indices nd" "nd_db nd' = nd_db nd"
        using r by (auto simp: handle_kad_finished_def)
      then show ?thesis using same by simp
    next
      case None
      then show ?thesis
        using r mailbox_event_keeps[OF S inv n, of now _ _ qid st' nd']
        by (simp add: handle_kad_finished_def)
    qed
  next
    case (KadFailed qid key)
    then show ?thesis using r failed_event_keeps[OF S inv n] by (simp add: handle_swarm_event_def)
  next
    case (ConnectionEstablished peer addr)
    then have "st' = st" "nd_indices nd' = nd_indices nd"
      "nd_db nd' = persist_peer_addr (ne_wire E) (ne_sled E) peer addr (nd_db nd)"
      using r by (auto simp: handle_swarm_event_def handle_connection_established_def Let_def)
    then show ?thesis using same persist_keeps[OF S] by simp
  next
    case (ConnectionClosed peer)
    then have "st' = st" "nd_indices nd' = nd_indices nd" "nd_db nd' = nd_db nd"
      using r by (auto simp: handle_swarm_event_def handle_connection_closed_def)
    then show ?thesis using same by simp
  qed (rule same; use r in \<open>auto simp: handle_swarm_event_def\<close>)+
qed

lemma start_fetch_keeps:
  assumes inv: "node_inv E n st nd" and none: "backup_below E (nd_db nd) (pending_user cmd) 0"
    and r: "start_fetch E now cmd nd = (st', nd')"
  shows "node_inv E n st' nd' \<and> backup_kept E (nd_db nd) (nd_db nd')"
proof -
  have "nd_indices nd' = nd_indices nd" "nd_db nd' = nd_db nd" "\<exists>q. st' = FetchingIndex cmd 1 0 q [] (now + OPERATION_TIMEOUT)"
    using r by (auto simp: start_fetch_def case_prod_beta Let_def)
  then show ?thesis using inv none by (auto simp: node_inv_def)
qed

lemma store_next_keeps:
  assumes S: "sled_ok (ne_sled E)" and inv: "node_inv E n Idle nd" and n: "n + 11 < 2 ^ 64"
    and st: "store_signed_envelope E u sender p (m + 1) nd = Some nd'"
    and m: "backup_below E (nd_db nd) u m" "unat m \<le> n"
  shows "node_inv E (n + 10) Idle nd' \<and> backup_kept E (nd_db nd) (nd_db nd')"
proof -
  have inv10: "node_inv E (n + 10) Idle nd" using node_inv_mono[OF inv] by simp
  have s: "unat (m + 1) = Suc (unat m)" using m(2) n by (intro unat_Suc_word[of _ "n + 1"]) auto
  have "\<forall>s. backup_has E (nd_db nd) u s \<longrightarrow> s < m + 1"
    using m(1) s by (auto simp: backup_below_def word_less_nat_alt word_le_nat_alt)
  then show ?thesis by (intro store_keeps[OF S st]) (use inv10 m(2) s in \<open>auto dest: node_invD\<close>)
qed

lemma fetch_keeps:
  assumes "node_inv E n Idle nd" "nd_indices nd (pending_user cmd) = None" "backup_below E (nd_db nd) (pending_user cmd) 0"
    "start_fetch E now cmd nd = (st', nd')"
  shows "node_inv E (n + 10) st' nd' \<and> backup_kept E (nd_db nd) (nd_db nd')"
  using start_fetch_keeps[OF assms(1) _ assms(4)] assms(2,3) node_inv_mono[of E n st' nd' "n + 10"] by simp

lemma mailbox_store_keeps:
  assumes S: "sled_ok (ne_sled E)" and inv: "node_inv E n Idle nd" and n: "n + 11 < 2 ^ 64"
    and seeded: "nd_indices nd u = None \<Longrightarrow> backup_below E (nd_db nd) u 0"
    and r: "cmd_mailbox_store E now hp u sender p Idle nd = Some (st', nd')"
  shows "node_inv E (n + 10) st' nd' \<and> backup_kept E (nd_db nd) (nd_db nd')"
proof (cases "nd_indices nd u")
  case (Some i)
  then show ?thesis
    using r store_next_keeps[OF S inv n] node_invD(1,2)[OF inv Some] by (auto simp: cmd_mailbox_store_def is_idle_def)
next
  case None
  show ?thesis
  proof (cases hp)
    case True
    then show ?thesis using r None seeded by (intro fetch_keeps[OF inv]) (auto simp: cmd_mailbox_store_def is_idle_def)
  next
    case False
    show ?thesis
    proof (cases "get_sled_max_seq (ne_sled E) (nd_db nd) u")
      case m: None
      then show ?thesis
        using r False None store_next_keeps[OF S inv n, of u sender p 0] get_sled_max_seq_spec(2)[OF S m]
        by (auto simp: cmd_mailbox_store_def is_idle_def)
    next
      case (Some m)
      then show ?thesis
        using r False None store_next_keeps[OF S inv n, of u sender p m] get_sled_max_seq_spec(1)[OF S Some]
          node_invD(3)[OF inv, of u m] by (auto simp: cmd_mailbox_store_def is_idle_def)
    qed
  qed
qed

lemma mailbox_retrieve_keeps:
  assumes inv: "node_inv E n Idle nd"
    and seeded: "nd_indices nd u = None \<Longrightarrow> backup_below E (nd_db nd) u 0"
    and r: "cmd_mailbox_retrieve E now hp u Idle nd = (st', nd')"
  shows "node_inv E (n + 10) st' nd' \<and> backup_kept E (nd_db nd) (nd_db nd')"
proof (cases "hp \<and> nd_indices nd u = None")
  case True
  then show ?thesis using r seeded by (intro fetch_keeps[OF inv]) (auto simp: cmd_mailbox_retrieve_def is_idle_def)
next
  case False
  then have "emit_empty_mailbox u nd = (st', nd') \<or> (\<exists>i. start_collecting_messages E now u i nd = (st', nd'))"
    using r by (auto simp: cmd_mailbox_retrieve_def is_idle_def split: if_splits)
  then have q: "nd_indices nd' = nd_indices nd" "nd_db nd' = nd_db nd" "\<not> (\<exists>c a b p f d. st' = FetchingIndex c a b p f d)"
    by (auto simp: emit_empty_mailbox_def start_collecting_messages_def case_prod_beta Let_def)
  have "node_inv E (n + 10) Idle nd'"
    using node_inv_mono[OF node_inv_frame[OF inv q(1,2), of Idle], of "n + 10"] by (simp add: is_idle_def)
  then show ?thesis using node_inv_Idle q(2,3) by (metis backup_kept_refl)
qed

lemma mailbox_command_keeps:
  assumes S: "sled_ok (ne_sled E)" and inv: "node_inv E n st nd" and n: "n + 11 < 2 ^ 64"
    and seeded: "is_idle st \<Longrightarrow> nd_indices nd u = None \<Longrightarrow> backup_below E (nd_db nd) u 0"
    and r: "cmd_mailbox_store E now hp u sender p st nd = Some (st', nd') \<or>
      cmd_mailbox_retrieve E now hp u st nd = (st', nd')"
  shows "node_inv E (n + 10) st' nd' \<and> backup_kept E (nd_db nd) (nd_db nd')"
proof (cases "is_idle st")
  case False
  then have "st' = st" "nd' = nd" using r by (auto simp: cmd_mailbox_store_def cmd_mailbox_retrieve_def)
  then show ?thesis using node_inv_mono[OF inv] by simp
next
  case True
  then have idle: "st = Idle" by (cases st) (simp_all add: is_idle_def)
  show ?thesis
    using r unfolding idle
    by (elim disjE mailbox_store_keeps[OF S inv[unfolded idle] n seeded[OF True], rotated]
        mailbox_retrieve_keeps[OF inv[unfolded idle] seeded[OF True], rotated]) simp_all
qed

lemma seed_index_keeps:
  assumes S: "sled_ok (ne_sled E)" and inv: "node_inv E n st nd"
  shows "node_inv E n st (seed_index E cmd st nd)" "nd_db (seed_index E cmd st nd) = nd_db nd"
    "is_idle st \<Longrightarrow> command_user cmd = Some u \<Longrightarrow> nd_indices (seed_index E cmd st nd) u = None \<Longrightarrow>
      backup_below E (nd_db nd) u 0"
proof -
  show "nd_db (seed_index E cmd st nd) = nd_db nd"
    by (auto simp: seed_index_def split: option.split)
  show "node_inv E n st (seed_index E cmd st nd)"
  proof (cases "\<exists>w m. command_user cmd = Some w \<and> is_idle st \<and> get_sled_max_seq (ne_sled E) (nd_db nd) w = Some m")
    case False
    then have "seed_index E cmd st nd = nd" by (auto simp: seed_index_def split: option.split)
    then show ?thesis using inv by simp
  next
    case True
    then obtain w m where w: "command_user cmd = Some w" "is_idle st"
      "get_sled_max_seq (ne_sled E) (nd_db nd) w = Some m" by blast
    note m = get_sled_max_seq_spec(1)[OF S w(3)]
    show ?thesis
      using inv w m node_invD(3)[OF inv, of w m]
      by (auto simp: seed_index_def node_inv_def is_idle_def split: mailbox_state.splits)
  qed
  show "is_idle st \<Longrightarrow> command_user cmd = Some u \<Longrightarrow> nd_indices (seed_index E cmd st nd) u = None \<Longrightarrow>
      backup_below E (nd_db nd) u 0"
    using get_sled_max_seq_spec(2)[OF S, of "nd_db nd" u]
    by (auto simp: seed_index_def split: option.splits if_splits)
qed

lemma profile_query_frame [simp]:
  "nd_indices (profile_query E key ch nd) = nd_indices nd" "nd_db (profile_query E key ch nd) = nd_db nd"
  by (simp_all add: profile_query_def case_prod_beta Let_def)

lemma command_keeps:
  assumes S: "sled_ok (ne_sled E)" and inv: "node_inv E n st nd" and n: "n + 11 < 2 ^ 64"
    and r: "handle_command E now hp cmd st (seed_index E cmd st nd) = Some (st', nd')"
  shows "node_inv E (n + 10) st' nd' \<and> backup_kept E (nd_db nd) (nd_db nd')"
proof -
  note seed = seed_index_keeps[OF S inv, of cmd]
  have quiet: "node_inv E (n + 10) st' nd' \<and> backup_kept E (nd_db nd) (nd_db nd')"
    if "st' = st" "nd_indices nd' = nd_indices (seed_index E cmd st nd)" "nd_db nd' = nd_db (seed_index E cmd st nd)"
    using node_inv_mono[OF node_inv_frame[OF seed(1) that(2,3), of st], of "n + 10"] that seed(2) by simp
  show ?thesis
  proof (cases cmd)
    case (MailboxStore u sender p)
    have "node_inv E (n + 10) st' nd' \<and> backup_kept E (nd_db (seed_index E cmd st nd)) (nd_db nd')"
      using mailbox_command_keeps[OF S seed(1) n, of u now hp sender p st' nd'] seed(2,3) r MailboxStore
      by (simp add: handle_command_def command_user_def)
    then show ?thesis using seed(2) by simp
  next
    case (MailboxRetrieve u)
    have "node_inv E (n + 10) st' nd' \<and> backup_kept E (nd_db (seed_index E cmd st nd)) (nd_db nd')"
      using mailbox_command_keeps[OF S seed(1) n, of u now hp _ _ st' nd'] seed(2,3) r MailboxRetrieve
      by (simp add: handle_command_def command_user_def)
    then show ?thesis using seed(2) by simp
  qed (rule quiet; use r in \<open>auto simp: handle_command_def\<close>)+
qed

lemma timeout_keeps:
  assumes "node_inv E n st nd" "check_state_timeout now st nd = (st', nd')"
  shows "node_inv E n st' nd' \<and> nd_db nd' = nd_db nd"
proof -
  have "nd_indices nd' = nd_indices nd" "nd_db nd' = nd_db nd" "st' = st \<or> is_idle st'"
    using assms(2) by (auto simp: check_state_timeout_def is_idle_def split: mailbox_state.splits if_splits)
  then show ?thesis using node_inv_frame[OF assms(1)] by blast
qed

lemma redial_frame [simp]:
  "nd_indices (fold (redial_peer now) ps nd) = nd_indices nd" "nd_db (fold (redial_peer now) ps nd) = nd_db nd"
  by (induction ps arbitrary: nd) (simp_all add: redial_peer_def case_prod_beta Let_def)

lemma node_step_keeps:
  assumes S: "sled_ok (ne_sled E)" and inv: "node_inv E n st nd" and n: "n + 11 < 2 ^ 64"
    and r: "node_step E now conn inp st nd = Some (st', nd')"
  shows "node_inv E (n + 10) st' nd' \<and> backup_kept E (nd_db nd) (nd_db nd')"
proof -
  have after: "node_inv E (n + 10) st' nd' \<and> backup_kept E (nd_db nd) (nd_db nd')"
    if "node_inv E (n + 10) st1 nd1 \<and> backup_kept E (nd_db nd) (nd_db nd1)"
      "check_state_timeout now st1 nd1 = (st', nd')" for st1 nd1
    using timeout_keeps[of E "n + 10" st1 nd1 now st' nd'] that by simp
  show ?thesis
  proof (cases inp)
    case TimeoutTick
    then show ?thesis
      using r after[of st nd] node_inv_mono[OF inv] by (simp add: node_step_def)
  next
    case ReconnectTick
    then have "st' = st" "nd_indices nd' = nd_indices nd" "nd_db nd' = nd_db nd"
      using r by (auto simp: node_step_def reconnect_tick_def case_prod_beta Let_def)
    then show ?thesis using node_inv_mono[OF node_inv_frame[OF inv]] by simp
  next
    case (Swarm ev)
    then obtain st1 nd1 where "handle_swarm_event E now ev st nd = Some (st1, nd1)"
      "check_state_timeout now st1 nd1 = (st', nd')" using r by (auto simp: node_step_def)
    then show ?thesis using after swarm_event_keeps[OF S inv n] by blast
  next
    case (Command cmd)
    then obtain st1 nd1 where "handle_command E now (conn \<noteq> []) cmd st (seed_index E cmd st nd) = Some (st1, nd1)"
      "check_state_timeout now st1 nd1 = (st', nd')" using r by (auto simp: node_step_def)
    then show ?thesis using after command_keeps[OF S inv n] by blast
  qed
qed

end
