(* ===== verification/Node_Probe.thy ===== *)
theory Node_Probe
  imports Node_Inv
begin

text \<open>
  Finding a mailbox's length by probing: while the answers libp2p documents come in, in any order, the
  node's record of what is stored stays exact and some query is always outstanding, until the probe
  ends at a number whose record does not verify or is broken off by a query that found nothing.
\<close>

lemma fire_seqs_calls:
  "(\<exists>gets. nd_calls (fst (fire_seqs E user ss queries nd)) = nd_calls nd @ map GetRecord gets) \<and>
   nd_events (fst (fire_seqs E user ss queries nd)) = nd_events nd \<and>
   nd_profile_queries (fst (fire_seqs E user ss queries nd)) = nd_profile_queries nd"
proof (induction ss arbitrary: queries nd)
  case Nil
  then show ?case by simp
next
  case (Cons s ss)
  let ?nd = "fst (get_record E (mailbox_seq_key user s) nd)"
  have nd: "nd_calls ?nd = nd_calls nd @ [GetRecord (mailbox_seq_key user s)]" "nd_events ?nd = nd_events nd"
    "nd_profile_queries ?nd = nd_profile_queries nd"
    by (simp_all add: get_record_def call_def)
  let ?q = "am_insert (snd (get_record E (mailbox_seq_key user s) nd)) s queries"
  obtain gets where "nd_calls (fst (fire_seqs E user ss ?q ?nd)) = nd_calls ?nd @ map GetRecord gets"
    "nd_events (fst (fire_seqs E user ss ?q ?nd)) = nd_events ?nd"
    "nd_profile_queries (fst (fire_seqs E user ss ?q ?nd)) = nd_profile_queries ?nd" using Cons by blast
  then show ?case
    by (intro conjI exI[of _ "mailbox_seq_key user s # gets"]) (simp_all add: nd case_prod_beta)
qed


section \<open>Probing\<close>

definition probe_ok :: "(u64 \<Rightarrow> bool) \<Rightarrow> u64 \<Rightarrow> ('q \<times> u64) list \<Rightarrow> u64 list \<Rightarrow> bool" where
  "probe_ok present start pending found \<longleftrightarrow>
     distinct (map fst pending) \<and> distinct (map snd pending) \<and>
     set (map snd pending) \<subseteq> set (window_seqs start) \<and>
     1 \<le> unat start \<and> unat start + 10 < 2 ^ 64 \<and>
     (\<forall>s. 1 \<le> unat s \<and> unat s < unat start \<longrightarrow> present s) \<and>
     (\<forall>s \<in> set (window_seqs start). s \<notin> set (map snd pending) \<longrightarrow> (s \<in> set found \<longleftrightarrow> present s)) \<and>
     (\<forall>s \<in> set found. present s)"

text \<open>\<open>i\<close> is the last number of the gap-free run of stored messages.\<close>

definition last_stored :: "(u64 \<Rightarrow> bool) \<Rightarrow> u64 \<Rightarrow> bool" where
  "last_stored present i \<longleftrightarrow> (\<forall>s. 1 \<le> unat s \<and> s \<le> i \<longrightarrow> present s) \<and> \<not> present (i + 1)"

lemma window_order:
  assumes "window_seqs start = xs @ s # ys" "unat start + 10 < 2 ^ 64" "unat start \<le> unat t" "t < s"
  shows "t \<in> set xs"
proof -
  have nth: "window_seqs start ! i = start + word_of_nat i \<and> unat (start + word_of_nat i) = unat start + i"
    if "i < 10" for i
    using that assms(2) unat_add_of_nat[of start i] by (simp add: window_seqs_def WINDOW_SIZE_def)
  have len: "length (window_seqs start) = 10" by (simp add: window_seqs_def WINDOW_SIZE_def)
  define k where "k = length xs"
  have k: "k < 10" "window_seqs start ! k = s" using assms(1) len by (auto simp: k_def nth_append)
  define j where "j = unat t - unat start"
  have "unat s = unat start + k" using nth[OF k(1)] k(2) by simp
  then have "j < k" using assms(3,4) by (simp add: j_def word_less_nat_alt)
  then have "j < 10" using k by simp
  then have "window_seqs start ! j = t"
    using nth[of j] assms(3) by (metis j_def le_add_diff_inverse word_unat_eq_iff)
  moreover have "window_seqs start ! j = xs ! j" using assms(1) \<open>j < k\<close> by (simp add: k_def nth_append)
  ultimately show ?thesis using \<open>j < k\<close> nth_mem[of j xs] by (simp add: k_def)
qed

lemma probe_gap:
  assumes ok: "probe_ok present start pending found"
    and gap: "scan_window pending found (window_seqs start) = Gap s"
  shows "last_stored present (s - 1)"
proof -
  obtain xs ys where w: "window_seqs start = xs @ s # ys" "set xs \<subseteq> set found" "s \<notin> set found"
    "s \<notin> set (map snd pending)" using scan_window_Gap[OF gap] by blast
  have b: "1 \<le> unat start" "unat start + 10 < 2 ^ 64"
    and low: "\<forall>s. 1 \<le> unat s \<and> unat s < unat start \<longrightarrow> present s"
    and f: "\<forall>s \<in> set found. present s" using ok by (simp_all add: probe_ok_def)
  have "\<not> present s" using ok w by (auto simp: probe_ok_def)
  have s: "unat start \<le> unat s" using window_seqs_nat[of s start] w b by auto
  have "present t" if "1 \<le> unat t" "t \<le> s - 1" for t
  proof (cases "unat t < unat start")
    case True
    then show ?thesis using low that by simp
  next
    case False
    have "unat (s - 1) = unat s - 1" using s b by (simp add: unat_sub word_le_nat_alt)
    then have "t < s" using that s b by (simp add: word_less_nat_alt word_le_nat_alt)
    then have "t \<in> set xs" using window_order[OF w(1) b(2)] False by simp
    then show ?thesis using w f by auto
  qed
  with \<open>\<not> present s\<close> show ?thesis by (simp add: last_stored_def)
qed

lemma fire_seqs_pending:
  assumes "inj (ne_ids E)" "\<forall>q \<in> set (map fst qs). \<exists>k < nd_gets nd. q = ne_ids E k" "distinct (map fst qs)"
    "distinct (map snd qs @ ss)"
  shows "distinct (map fst (snd (fire_seqs E u ss qs nd))) \<and> distinct (map snd (snd (fire_seqs E u ss qs nd))) \<and>
    set (map snd (snd (fire_seqs E u ss qs nd))) = set (map snd qs) \<union> set ss"
  using assms(2-)
proof (induction ss arbitrary: qs nd)
  case Nil
  then show ?case by simp
next
  case (Cons s ss)
  let ?q = "ne_ids E (nd_gets nd)"
  have fresh: "?q \<notin> set (map fst qs)"
    using Cons.prems(1) assms(1) by (metis injD less_irrefl)
  then have "filter (\<lambda>e. fst e \<noteq> ?q) qs = qs" by (intro filter_True) force
  then have ins: "am_insert ?q s qs = (?q, s) # qs" by (simp add: am_insert_def)
  let ?nd = "fst (get_record E (mailbox_seq_key u s) nd)"
  have gets: "nd_gets ?nd = Suc (nd_gets nd)" by (simp add: get_record_def)
  have fst: "\<forall>q \<in> set (map fst ((?q, s) # qs)). \<exists>k < nd_gets ?nd. q = ne_ids E k"
  proof
    fix q
    assume "q \<in> set (map fst ((?q, s) # qs))"
    then consider "q = ?q" | "q \<in> set (map fst qs)" by auto
    then show "\<exists>k < nd_gets ?nd. q = ne_ids E k"
    proof cases
      case 1
      then show ?thesis using gets by (intro exI[of _ "nd_gets nd"]) simp
    next
      case 2
      then obtain k where "k < nd_gets nd" "q = ne_ids E k" using Cons.prems(1) by blast
      then show ?thesis using gets by (intro exI[of _ k]) simp
    qed
  qed
  have dist: "distinct (map fst ((?q, s) # qs))" "distinct (map snd ((?q, s) # qs) @ ss)"
    using fresh Cons.prems(2,3) by simp_all
  have unfold: "fire_seqs E u (s # ss) qs nd = fire_seqs E u ss ((?q, s) # qs) ?nd"
    by (simp add: ins get_record_def)
  have all: "set (map snd ((?q, s) # qs)) \<union> set ss = set (map snd qs) \<union> set (s # ss)" by simp
  show ?case
    using Cons.IH[OF fst dist] unfolding unfold all .
qed

lemma len64: "LENGTH(64) = 64"
  by simp

lemma distinct_window: "unat start + 10 < 2 ^ 64 \<Longrightarrow> distinct (window_seqs start)"
proof -
  assume b: "unat start + 10 < 2 ^ 64"
  have "inj_on (\<lambda>i. start + word_of_nat i :: u64) (set [0..<WINDOW_SIZE])"
  proof (rule inj_onI)
    fix i j
    assume ij: "i \<in> set [0..<WINDOW_SIZE]" "j \<in> set [0..<WINDOW_SIZE]"
      and eq: "start + word_of_nat i = start + word_of_nat j"
    have "i < 10" "j < 10" using ij by (simp_all only: WINDOW_SIZE_def set_upt atLeastLessThan_iff)
    then have lt: "unat start + i < 2 ^ 64" "unat start + j < 2 ^ 64" using b by linarith+
    have "unat (start + word_of_nat i) = unat start + i" by (rule unat_add_of_nat) (simp only: len64 lt)
    moreover have "unat (start + word_of_nat j) = unat start + j"
      by (rule unat_add_of_nat) (simp only: len64 lt)
    ultimately have "unat start + i = unat start + j" unfolding eq by (rule trans[OF sym])
    then show "i = j" by simp
  qed
  then show ?thesis by (simp add: window_seqs_def distinct_map)
qed

lemma scan_window_AllFound:
  "scan_window pending found ss = AllFound \<Longrightarrow> set ss \<subseteq> set found"
  by (induction ss) (auto split: if_splits)

lemma scan_window_Waiting:
  "scan_window pending found ss = Waiting \<Longrightarrow> pending \<noteq> []"
  by (induction ss) (auto split: if_splits)

text \<open>
  What the DHT holds under a user's keys, by number, and which of these records count. While a
  number without a record is not asked for in vain, its query is open.
\<close>

definition verifies_in :: "wire \<Rightarrow> bytes \<Rightarrow> (u64 \<Rightarrow> bytes option) \<Rightarrow> u64 \<Rightarrow> bool" where
  "verifies_in W u net t \<longleftrightarrow> (\<exists>raw. net t = Some raw \<and> valid_record W u t raw)"

definition open_gaps :: "(u64 \<Rightarrow> bytes option) \<Rightarrow> u64 \<Rightarrow> ('q \<times> u64) list \<Rightarrow> bool" where
  "open_gaps net start pending \<longleftrightarrow> (\<forall>t \<in> set (window_seqs start). net t = None \<longrightarrow> t \<in> set (map snd pending))"

text \<open>Resolving keeps the probe exact: it goes on, moves to the next window, or ends at a gap, a number
  whose record does not verify.\<close>

lemma probe_resolve:
  assumes ok: "probe_ok present start pending found" and ids: "inj (ne_ids E)"
    and big: "unat start + 20 < 2 ^ 64" and k: "k + length pending \<le> unat start + 9"
    and gaps: "open_gaps net start pending"
  shows "(\<exists>start' mx' pending' found' nd'. try_resolve_window E now cmd start mx pending found d nd =
        Some (FetchingIndex cmd start' mx' pending' found' d, nd') \<and>
        probe_ok present start' pending' found' \<and> pending' \<noteq> [] \<and> k + length pending' \<le> unat start' + 9 \<and>
        open_gaps net start' pending' \<and> nd_events nd' = nd_events nd) \<or>
     (\<exists>i. last_stored present i \<and> net (i + 1) \<noteq> None \<and> try_resolve_window E now cmd start mx pending found d nd =
        resume_pending_command E now cmd i (nd\<lparr>nd_indices := (nd_indices nd)(pending_user cmd \<mapsto> i)\<rparr>))"
proof (cases "scan_window pending found (window_seqs start)")
  case Waiting
  then show ?thesis using ok k gaps scan_window_Waiting[OF Waiting] by (auto simp: try_resolve_window_def)
next
  case (Gap s)
  have "net (s - 1 + 1) \<noteq> None"
    using gaps scan_window_Gap[OF Gap] by (auto simp: open_gaps_def)
  then show ?thesis using probe_gap[OF ok Gap] Gap by (auto simp: try_resolve_window_def Let_def)
next
  case AllFound
  define nx where "nx = start + word_of_nat WINDOW_SIZE"
  have nx: "unat nx = unat start + 10"
    using big unat_add_of_nat[of start 10] by (simp add: nx_def WINDOW_SIZE_def)
  let ?f = "fire_window E (pending_user cmd) nx nd"
  have p: "distinct (map fst (snd ?f)) \<and> distinct (map snd (snd ?f)) \<and> set (map snd (snd ?f)) = set (window_seqs nx)"
    using fire_seqs_pending[OF ids, of "[]" nd "window_seqs nx" "pending_user cmd"] distinct_window[of nx] nx big
    by (simp add: fire_window_def)
  have present: "present s" if "1 \<le> unat s" "unat s < unat nx" for s
  proof (cases "unat s < unat start")
    case True
    then show ?thesis using ok that by (simp add: probe_ok_def)
  next
    case False
    define j where "j = unat s - unat start"
    have "j < 10" "unat start + j = unat s" using False that nx by (auto simp: j_def)
    then have "s = start + word_of_nat j" by (intro word_eq_add_of_nat) simp
    then have "s \<in> set (window_seqs start)" using \<open>j < 10\<close> by (auto simp: window_seqs_def WINDOW_SIZE_def)
    then have "s \<in> set found" using scan_window_AllFound[OF AllFound] by auto
    then show ?thesis using ok by (simp add: probe_ok_def)
  qed
  have "probe_ok present nx (snd ?f) []"
    using p present nx big by (auto simp: probe_ok_def)
  moreover have "length (snd ?f) = 10"
    using p distinct_card[of "map snd (snd ?f)"] distinct_card[of "window_seqs nx"] distinct_window[of nx] nx big
    by (simp add: window_seqs_def WINDOW_SIZE_def)
  moreover have "open_gaps net nx (snd ?f)" using p by (simp add: open_gaps_def)
  moreover have "nd_events (fst ?f) = nd_events nd" by (simp add: fire_window_def fire_seqs_calls)
  ultimately show ?thesis
    using AllFound k nx by (auto simp: try_resolve_window_def Let_def nx_def case_prod_beta)
qed

lemma am_remove_snd:
  assumes "distinct (map fst m)" "distinct (map snd m)" "map_of m q = Some s"
  shows "set (map snd (am_remove q m)) = set (map snd m) - {s}"
proof -
  have qs: "(q, s) \<in> set m" using assms(3) by (rule map_of_SomeD)
  have "e = (q, s)" if "e \<in> set m" "snd e = s" for e
    using that qs assms(2) by (metis distinct_map inj_on_def snd_conv)
  moreover have "e = (q, s)" if "e \<in> set m" "fst e = q" for e
    using that qs assms(1) by (metis distinct_map inj_on_def fst_conv)
  ultimately have only: "\<And>e. e \<in> set m \<Longrightarrow> fst e = q \<longleftrightarrow> snd e = s" by (metis fst_conv snd_conv)
  have "set (map snd (am_remove q m)) = snd ` {e \<in> set m. fst e \<noteq> q}" by (simp add: am_remove_def)
  also have "\<dots> = snd ` {e \<in> set m. snd e \<noteq> s}" using only by (metis (no_types, lifting))
  also have "\<dots> = set (map snd m) - {s}" by auto
  finally show ?thesis .
qed

lemma probe_answer:
  assumes ok: "probe_ok present start pending found" and q: "map_of pending qid = Some s"
  shows "present s \<Longrightarrow> probe_ok present start (am_remove qid pending) (found @ [s])"
    and "\<not> present s \<Longrightarrow> probe_ok present start (am_remove qid pending) found"
proof -
  have d: "distinct (map fst pending)" "distinct (map snd pending)"
    and sub: "set (map snd pending) \<subseteq> set (window_seqs start)" using ok by (simp_all add: probe_ok_def)
  have rem: "set (map snd (am_remove qid pending)) = set (map snd pending) - {s}"
    by (rule am_remove_snd[OF d q])
  have d': "distinct (map fst (am_remove qid pending))" "distinct (map snd (am_remove qid pending))"
    using d by (auto simp: am_remove_def distinct_map_filter)
  have sf: "s \<in> set (map snd pending)" using map_of_SomeD[OF q] by force
  have old: "\<And>t. t \<in> set (window_seqs start) \<Longrightarrow> t \<notin> set (map snd pending) \<Longrightarrow> t \<in> set found \<longleftrightarrow> present t"
    "\<And>t. t \<in> set found \<Longrightarrow> present t" using ok by (simp_all add: probe_ok_def)
  have base: "probe_ok present start (am_remove qid pending) f"
    if "\<And>t. t \<in> set (window_seqs start) \<Longrightarrow> t \<notin> set (map snd pending) - {s} \<Longrightarrow> t \<in> set f \<longleftrightarrow> present t"
      "\<And>t. t \<in> set f \<Longrightarrow> present t" for f
    using ok d' sub that by (simp only: probe_ok_def rem) blast
  show "probe_ok present start (am_remove qid pending) (found @ [s])" if p: "present s"
  proof (rule base)
    show "t \<in> set (found @ [s]) \<longleftrightarrow> present t"
      if "t \<in> set (window_seqs start)" "t \<notin> set (map snd pending) - {s}" for t
      using old(1)[OF that(1)] that(2) p by (cases "t = s") simp_all
    show "present t" if "t \<in> set (found @ [s])" for t using that old(2) p by auto
  qed
  show "probe_ok present start (am_remove qid pending) found" if p: "\<not> present s"
  proof (rule base)
    show "t \<in> set found \<longleftrightarrow> present t"
      if "t \<in> set (window_seqs start)" "t \<notin> set (map snd pending) - {s}" for t
    proof (cases "t = s")
      case True
      then show ?thesis using old(2) p by blast
    next
      case False
      then show ?thesis using old(1)[OF that(1)] that(2) by simp
    qed
  qed (rule old(2))
qed

text \<open>
  The answers of a \<open>get_record\<close> query, as libp2p documents them: every record found is reported, with the
  key asked for, by \<open>FoundRecord\<close>; a query that found one ends with \<open>FinishedWithNoAdditionalRecord\<close>,
  a query that found none with the error \<open>NotFound\<close>, which names the key. \<open>answered\<close> holds the queries
  of the probe that reported a record and have not ended.
\<close>

definition kad_answer ::
    "bytes \<Rightarrow> (u64 \<Rightarrow> bytes option) \<Rightarrow> ('q \<times> u64) list \<Rightarrow> ('q \<times> u64) set \<Rightarrow> 'q swarm_event \<Rightarrow> bool" where
  "kad_answer u net pending answered ev \<longleftrightarrow>
     (case ev of
        KadFound qid key raw \<Rightarrow>
          (\<exists>s. (map_of pending qid = Some s \<or> map_of pending qid = None \<and> (qid, s) \<in> answered) \<and>
             key = mailbox_seq_key u s \<and> net s = Some raw)
      | KadFinished qid \<Rightarrow> map_of pending qid = None \<and> qid \<in> fst ` answered
      | KadFailed qid key \<Rightarrow> (\<exists>s. map_of pending qid = Some s \<and> net s = None \<and> key = Some (mailbox_seq_key u s))
      | _ \<Rightarrow> False)"

definition query_of :: "'q swarm_event \<Rightarrow> 'q option" where
  "query_of ev = (case ev of KadFound qid key raw \<Rightarrow> Some qid | KadFinished qid \<Rightarrow> Some qid | KadFailed qid key \<Rightarrow> Some qid
     | _ \<Rightarrow> None)"

definition answered_after :: "('q \<times> u64) list \<Rightarrow> ('q \<times> u64) set \<Rightarrow> 'q swarm_event \<Rightarrow> ('q \<times> u64) set" where
  "answered_after pending answered ev =
     (case ev of
        KadFound qid key raw \<Rightarrow> (case map_of pending qid of Some s \<Rightarrow> insert (qid, s) answered | None \<Rightarrow> answered)
      | KadFinished qid \<Rightarrow> {e \<in> answered. fst e \<noteq> qid}
      | _ \<Rightarrow> answered)"

text \<open>Does the event answer a query that was not answered before?\<close>

definition first_answer :: "('q \<times> u64) list \<Rightarrow> 'q swarm_event \<Rightarrow> bool" where
  "first_answer pending ev \<longleftrightarrow> (case query_of ev of None \<Rightarrow> False | Some qid \<Rightarrow> map_of pending qid \<noteq> None)"

text \<open>
  How a step of the probe ends: still probing, done with the exact length because the number behind
  it holds a record that does not verify, or broken off by a query that found nothing.
\<close>

definition probe_live ::
    "('db, 'q) node_env \<Rightarrow> pending_command \<Rightarrow> (u64 \<Rightarrow> bytes option) \<Rightarrow> node_event list \<Rightarrow> nat \<Rightarrow>
     'q mailbox_state \<times> ('db, 'q) node \<Rightarrow> bool" where
  "probe_live E cmd net evs k s \<longleftrightarrow>
     (\<exists>start mx pending found d nd. s = (FetchingIndex cmd start mx pending found d, nd) \<and>
        probe_ok (verifies_in (ne_wire E) (pending_user cmd) net) start pending found \<and> pending \<noteq> [] \<and>
        k + length pending \<le> unat start + 9 \<and> open_gaps net start pending \<and> nd_events nd = evs)"

definition probe_done ::
    "('db, 'q) node_env \<Rightarrow> nat \<Rightarrow> pending_command \<Rightarrow> (u64 \<Rightarrow> bytes option) \<Rightarrow>
     'q mailbox_state \<times> ('db, 'q) node \<Rightarrow> bool" where
  "probe_done E now cmd net s \<longleftrightarrow>
     (\<exists>i nd. last_stored (verifies_in (ne_wire E) (pending_user cmd) net) i \<and> net (i + 1) \<noteq> None \<and>
        resume_pending_command E now cmd i (nd\<lparr>nd_indices := (nd_indices nd)(pending_user cmd \<mapsto> i)\<rparr>) = Some s)"

definition probe_broken ::
    "('db, 'q) node_env \<Rightarrow> nat \<Rightarrow> pending_command \<Rightarrow> (u64 \<Rightarrow> bytes option) \<Rightarrow> node_event list \<Rightarrow>
     'q mailbox_state \<times> ('db, 'q) node \<Rightarrow> bool" where
  "probe_broken E now cmd net evs s \<longleftrightarrow>
     (\<exists>t nd st. net t = None \<and> nd_events nd = evs \<and> fst s = Idle \<and>
        resume_pending_command E now cmd 0 (nd\<lparr>nd_indices := (nd_indices nd)(pending_user cmd \<mapsto> 0)\<rparr>) =
          Some (st, snd s))"

lemma probe_resolved:
  assumes "probe_ok (verifies_in (ne_wire E) (pending_user cmd) net) start pending found" "inj (ne_ids E)"
    and "unat start + 20 < 2 ^ 64" "k + length pending \<le> unat start + 9" "open_gaps net start pending"
    and "try_resolve_window E now cmd start mx pending found d nd = Some s'"
  shows "probe_live E cmd net (nd_events nd) k s' \<or> probe_done E now cmd net s'"
  using probe_resolve[OF assms(1-5), of now cmd mx d nd]
proof (elim disjE exE conjE, goal_cases)
  case 1
  then show ?case using assms(6) by (simp add: probe_live_def)
next
  case (2 i)
  then show ?case using assms(6) unfolding probe_done_def by metis
qed

lemma probe_step:
  assumes ok: "probe_ok (verifies_in (ne_wire E) (pending_user cmd) net) start pending found" and ids: "inj (ne_ids E)"
    and ne: "pending \<noteq> []" and big: "unat start + 20 < 2 ^ 64" and k: "k + length pending \<le> unat start + 9"
    and gaps: "open_gaps net start pending"
    and ans: "kad_answer (pending_user cmd) net pending answered ev"
    and own: "query_of ev = Some qid" "map_of (nd_profile_queries nd) qid = None"
    and r: "handle_swarm_event E now ev (FetchingIndex cmd start mx pending found d) nd = Some s'"
  shows "probe_live E cmd net (nd_events nd) (if first_answer pending ev then Suc k else k) s' \<or>
    probe_done E now cmd net s' \<or> probe_broken E now cmd net (nd_events nd) s'"
proof (cases ev)
  case (KadFound q key raw)
  let ?u = "pending_user cmd" and ?present = "verifies_in (ne_wire E) (pending_user cmd) net"
  have q: "q = qid" using own(1) by (simp add: query_of_def KadFound)
  obtain s where s: "map_of pending q = Some s \<or> map_of pending q = None \<and> (q, s) \<in> answered"
    "key = mailbox_seq_key ?u s" "net s = Some raw" using ans by (auto simp: kad_answer_def KadFound)
  have "parse_profile_key key = None" "parse_update_key key = None"
    using mailbox_profile.cross_parse(2)[of "(?u, s)"] mailbox_update.cross_parse(2)[of "(?u, s)"] s(2) by simp_all
  then have found: "try_resolve_window E now cmd start (if ?present s then max mx s else mx) (am_remove q pending)
      (if ?present s then found @ [s] else found) d nd = Some s'"
    using r s(2,3) KadFound
    by (auto simp: handle_swarm_event_def handle_kad_found_def handle_found_record_def parse_mailbox_seq_key
        verifies_in_def split: if_splits)
  show ?thesis
  proof (cases "map_of pending q")
    case None
    then have same: "am_remove q pending = pending" by (auto simp: am_remove_def map_of_eq_None_iff intro!: filter_True)
    have "probe_ok ?present start pending (if ?present s then found @ [s] else found)"
      using ok by (auto simp: probe_ok_def)
    from probe_resolved[OF this ids big k gaps found[unfolded same]] show ?thesis
      using None KadFound by (auto simp: first_answer_def query_of_def)
  next
    case (Some t)
    then have t: "map_of pending q = Some s" using s(1) by auto
    have ok': "probe_ok ?present start (am_remove q pending) (if ?present s then found @ [s] else found)"
      using probe_answer[OF ok t] by simp
    have k': "Suc k + length (am_remove q pending) \<le> unat start + 9"
      using k am_remove_size[OF _ t] ok by (simp add: probe_ok_def)
    have og: "open_gaps net start (am_remove q pending)"
      using gaps s(3) am_remove_snd[OF _ _ t] ok by (auto simp: open_gaps_def probe_ok_def)
    have "first_answer pending ev" using t by (simp add: first_answer_def query_of_def KadFound)
    then show ?thesis using probe_resolved[OF ok' ids big k' og found] by auto
  qed
next
  case (KadFinished q)
  then have "map_of pending q = None" "q = qid" using ans own(1) by (auto simp: kad_answer_def query_of_def)
  then have "s' = (FetchingIndex cmd start mx pending found d, nd)" "\<not> first_answer pending ev"
    using r own(2) KadFinished
    by (simp_all add: handle_swarm_event_def handle_kad_finished_def handle_not_found_def first_answer_def query_of_def)
  then show ?thesis using ok ne k gaps by (auto simp: probe_live_def)
next
  case (KadFailed q key)
  then obtain s where s: "map_of pending q = Some s" "net s = None" "q = qid"
    using ans own(1) by (auto simp: kad_answer_def query_of_def)
  have "probe_broken E now cmd net (nd_events nd) s'"
    using r own(2) KadFailed s
    by (auto simp: handle_swarm_event_def handle_kad_failed_def probe_broken_def)
  then show ?thesis by blast
qed (use ans in \<open>simp_all add: kad_answer_def\<close>)


section \<open>Probing to the end\<close>

text \<open>
  The answers of the network to the queries of a probe, one after the other, in any order; \<open>k\<close> counts
  the queries that have been answered.
\<close>

inductive probing ::
    "('db, 'q) node_env \<Rightarrow> nat \<Rightarrow> pending_command \<Rightarrow> (u64 \<Rightarrow> bytes option) \<Rightarrow> 'q mailbox_state \<times> ('db, 'q) node \<Rightarrow>
     nat \<Rightarrow> ('q \<times> u64) set \<Rightarrow> 'q mailbox_state \<times> ('db, 'q) node \<Rightarrow> bool" for E now cmd net s0 where
  probing_start: "probing E now cmd net s0 0 {} s0"
| probing_answer: "probing E now cmd net s0 k answered (FetchingIndex cmd start mx pending found d, nd) \<Longrightarrow>
    kad_answer (pending_user cmd) net pending answered ev \<Longrightarrow>
    query_of ev = Some qid \<Longrightarrow> map_of (nd_profile_queries nd) qid = None \<Longrightarrow>
    handle_swarm_event E now ev (FetchingIndex cmd start mx pending found d) nd = Some s' \<Longrightarrow>
    probing E now cmd net s0 (if first_answer pending ev then Suc k else k) (answered_after pending answered ev) s'"

lemma ended_not_fetching:
  "probe_done E now cmd net (FetchingIndex c a b p f d, nd) \<Longrightarrow> False"
  "probe_broken E now cmd net evs (FetchingIndex c a b p f d, nd) \<Longrightarrow> False"
  by (cases cmd; auto simp: probe_done_def probe_broken_def resume_pending_command_def start_collecting_messages_def
      emit_empty_mailbox_def case_prod_beta Let_def split: if_splits)+

lemma start_fetch_live:
  assumes "inj (ne_ids E)"
  shows "probe_live E cmd net (nd_events nd) 0 (start_fetch E now cmd nd)"
proof -
  let ?f = "fire_window E (pending_user cmd) 1 nd"
  have one: "unat (1 :: u64) + 10 < 2 ^ 64" by simp
  have p: "distinct (map fst (snd ?f)) \<and> distinct (map snd (snd ?f)) \<and> set (map snd (snd ?f)) = set (window_seqs 1)"
    using fire_seqs_pending[OF assms, of "[]" nd "window_seqs 1" "pending_user cmd"] distinct_window[OF one]
    by (simp add: fire_window_def)
  have "probe_ok present 1 (snd ?f) []" for present unfolding probe_ok_def using p one by (intro conjI allI impI) auto
  moreover have "length (snd ?f) = 10"
    using p distinct_card[of "map snd (snd ?f)"] distinct_card[OF distinct_window[OF one]]
    by (simp add: window_seqs_def WINDOW_SIZE_def)
  moreover have "open_gaps net 1 (snd ?f)" using p by (simp add: open_gaps_def)
  moreover have "nd_events (fst ?f) = nd_events nd" by (simp add: fire_window_def fire_seqs_calls)
  ultimately show ?thesis by (auto simp: start_fetch_def probe_live_def case_prod_beta Let_def)
qed

text \<open>A probe never runs past a number without a record that verifies.\<close>

lemma probe_below_gap:
  assumes "probe_ok present start pending found" "\<not> present g" "1 \<le> unat g"
  shows "unat start \<le> unat g"
  using assms by (auto simp: probe_ok_def not_le[symmetric])

lemma probing_result:
  assumes "inj (ne_ids E)" "probing E now cmd net (start_fetch E now0 cmd nd) k answered s"
    and gap: "\<not> verifies_in (ne_wire E) (pending_user cmd) net g" "1 \<le> unat g" "unat g + 20 < 2 ^ 64"
  shows "k \<le> unat g + 9 \<and> (probe_live E cmd net (nd_events nd) k s \<or> probe_done E now cmd net s \<or>
    probe_broken E now cmd net (nd_events nd) s)"
  using assms(2)
proof (induction rule: probing.induct)
  case probing_start
  then show ?case using start_fetch_live[OF assms(1)] by blast
next
  case (probing_answer k answered start mx pending found d nd' ev qid s')
  have "probe_live E cmd net (nd_events nd) k (FetchingIndex cmd start mx pending found d, nd')"
    using probing_answer.IH by (auto dest: ended_not_fetching)
  then have live: "probe_ok (verifies_in (ne_wire E) (pending_user cmd) net) start pending found" "pending \<noteq> []"
    "k + length pending \<le> unat start + 9" "open_gaps net start pending" "nd_events nd' = nd_events nd"
    by (simp_all add: probe_live_def)
  have "0 < length pending" using live(2) by simp
  then have k: "Suc k \<le> unat g + 9" using live(3) probe_below_gap[OF live(1) gap(1,2)] by linarith
  have "unat start + 20 < 2 ^ 64" using probe_below_gap[OF live(1) gap(1,2)] gap(3) by linarith
  from probe_step[OF live(1) assms(1) live(2) this live(3,4) probing_answer.hyps(2-5)] live(5) k
  show ?case by (simp split: if_split)
qed

end
