(* ===== verification/Node_Props.thy ===== *)
theory Node_Props
  imports Node_Probe
begin

text \<open>
  What the node's operations achieve: runs of the event loop keep the backup, an accepted
  message is stored signed and readable, probing finds the first gap, collecting returns the
  verified records in order, and the places where the state machine loses messages.
\<close>

section \<open>Runs of the event loop\<close>

definition node_start :: "'db \<Rightarrow> ('db, 'q) node" where
  "node_start db =
     \<lparr>nd_indices = Map.empty, nd_profile_queries = [], nd_known_peers = [], nd_peer_addrs = [],
      nd_db = db, nd_calls = [], nd_gets = 0, nd_events = [], nd_replies = []\<rparr>"

text \<open>The loop with its count of how far numbers may have grown; it is cut off at the top of \<open>u64\<close>.\<close>

definition node_bounded ::
    "('db, 'q) node_env \<Rightarrow> nat \<times> bytes list \<times> 'q node_input \<Rightarrow>
     nat \<times> 'q mailbox_state \<times> ('db, 'q) node \<Rightarrow> (nat \<times> 'q mailbox_state \<times> ('db, 'q) node) option" where
  "node_bounded E inp s =
     (let (now, conn, i) = inp; (n, st, nd) = s in
      if n + 11 < 2 ^ 64 then map_option (Pair (n + 10)) (node_step E now conn i st nd) else None)"

definition bounded_inv ::
    "('db, 'q) node_env \<Rightarrow> 'db \<Rightarrow> nat \<times> 'q mailbox_state \<times> ('db, 'q) node \<Rightarrow> bool" where
  "bounded_inv E db0 s \<longleftrightarrow>
     (sled_ok (ne_sled E) \<longrightarrow>
        node_inv E (fst s) (fst (snd s)) (snd (snd s)) \<and> backup_kept E db0 (nd_db (snd (snd s))))"

interpretation node_loop: machine "node_bounded E" "bounded_inv E db0"
proof unfold_locales
  fix s i s'
  assume inv: "bounded_inv E db0 s" and step: "node_bounded E i s = Some s'"
  obtain n st nd now conn inp where s: "s = (n, st, nd)" "i = (now, conn, inp)"
    by (metis prod_cases3)
  then obtain st' nd' where r: "node_step E now conn inp st nd = Some (st', nd')"
    "s' = (n + 10, st', nd')" "n + 11 < 2 ^ 64"
    using step by (auto simp: node_bounded_def split: if_splits)
  show "bounded_inv E db0 s'"
    using node_step_keeps[OF _ _ r(3,1)] inv by (auto simp: bounded_inv_def s r(2) intro: backup_kept_trans)
qed

lemma node_start_inv:
  "(\<forall>u s. backup_has E db u s \<longrightarrow> unat s \<le> n) \<Longrightarrow> node_inv E n Idle (node_start db)"
  by (simp add: node_inv_def node_start_def)

lemma node_run_keeps:
  assumes "sled_ok (ne_sled E)" "\<forall>u s. backup_has E db u s \<longrightarrow> unat s \<le> n"
    and "run_steps (node_bounded E) inps (n, Idle, node_start db) = Some (n', st', nd')"
  shows "node_inv E n' st' nd' \<and> backup_kept E db (nd_db nd')"
proof -
  have "bounded_inv E db (n, Idle, node_start db)"
    using node_start_inv[OF assms(2)] by (simp add: bounded_inv_def node_start_def)
  from node_loop.run_inv[OF assms(3) this] show ?thesis
    using assms(1) by (simp add: bounded_inv_def)
qed


section \<open>Storing\<close>

definition env_ok :: "('db, 'q) node_env \<Rightarrow> bool" where
  "env_ok E \<longleftrightarrow> sled_ok (ne_sled E) \<and> ed_ok (ne_wire E) \<and> bincode_ok (ne_wire E)"

text \<open>The effect of storing a message for a recipient with a full-length id.\<close>

lemma store_effect:
  assumes "env_ok E" "32 \<le> length u"
  obtains raw where
    "store_signed_envelope E u sender p seq nd =
       Some (call (PutRecord (mailbox_seq_key u seq) raw) nd
         \<lparr>nd_db := sl_insert (ne_sled E) (nd_db nd) SLED_MAILBOX_TREE (seq_be_key u seq) raw,
          nd_indices := (nd_indices nd)(u \<mapsto> seq)\<rparr>)"
    "record_payload (ne_wire E) u raw = Some (encode_mailbox_message sender p)"
    "valid_record (ne_wire E) u seq raw"
proof -
  let ?W = "ne_wire E"
  let ?e = "\<lparr>en_payload = encode_mailbox_message sender p, en_seq = seq,
      en_sender_pubkey = w_ed_pk ?W (ne_seed E), en_signature = []\<rparr>"
  have ok: "sled_ok (ne_sled E)" "ed_ok ?W" "bincode_ok ?W" using assms(1) by (simp_all add: env_ok_def)
  obtain e' where e': "sign_envelope ?W ?e (ne_seed E) u = Some e'" "verify_envelope ?W e' u = Inr ()"
    "en_payload e' = encode_mailbox_message sender p" "en_seq e' = seq"
    using sign_envelope_verifies[OF ok(2) assms(2), of ?e "ne_seed E"] by auto
  obtain raw where raw: "w_enc_env ?W e' = Some raw" "w_dec_env ?W raw = Some e'"
    by (rule bincode_envE[OF ok(3)])
  show ?thesis
    using e' raw sledD(1)[OF ok(1)]
    by (intro that[of raw])
      (simp_all add: store_signed_envelope_def serialize_envelope_def record_payload_def
        deserialize_envelope_def valid_record_def call_def)
qed

lemma store_short_panics:
  "length u < 32 \<Longrightarrow> store_signed_envelope E u sender p seq nd = None"
  by (simp add: store_signed_envelope_def sign_envelope_short)

text \<open>Which number an idle node without peers stores under.\<close>

definition solo_seq :: "('db, 'q) node_env \<Rightarrow> ('db, 'q) node \<Rightarrow> bytes \<Rightarrow> u64" where
  "solo_seq E nd u =
     (case nd_indices (seed_index E (MailboxStore u [] []) Idle nd) u of None \<Rightarrow> 1 | Some i \<Rightarrow> i + 1)"

lemma seed_index_store: "seed_index E (MailboxStore u a b) st nd = seed_index E (MailboxStore u [] []) st nd"
  by (simp add: seed_index_def command_user_def)

lemma seeded_max:
  assumes "nd_indices (seed_index E (MailboxStore u [] []) Idle nd) u = None"
  shows "get_sled_max_seq (ne_sled E) (nd_db nd) u = None" "seed_index E (MailboxStore u [] []) Idle nd = nd"
  using assms by (auto simp: seed_index_def command_user_def is_idle_def split: option.splits if_splits)

lemma solo_store:
  assumes E: "env_ok E" and u: "32 \<le> length u" and inv: "node_inv E n Idle nd" and n: "n + 11 < 2 ^ 64"
  shows "\<exists>nd' raw. node_step E now [] (Command (MailboxStore u sender p)) Idle nd = Some (Idle, nd') \<and>
    (\<forall>s. backup_has E (nd_db nd) u s \<longrightarrow> s < solo_seq E nd u) \<and>
    (\<forall>t k. sl_get (ne_sled E) (nd_db nd') t k =
       (if t = SLED_MAILBOX_TREE \<and> k = seq_be_key u (solo_seq E nd u) then Some raw
        else sl_get (ne_sled E) (nd_db nd) t k)) \<and>
    record_payload (ne_wire E) u raw = Some (encode_mailbox_message sender p) \<and>
    nd_indices nd' u = Some (solo_seq E nd u)"
proof -
  have S: "sled_ok (ne_sled E)" using E by (simp add: env_ok_def)
  let ?nd = "seed_index E (MailboxStore u [] []) Idle nd"
  note seed = seed_index_keeps[OF S inv, of "MailboxStore u [] []"]
  obtain raw where st: "store_signed_envelope E u sender p (solo_seq E nd u) ?nd =
      Some (call (PutRecord (mailbox_seq_key u (solo_seq E nd u)) raw) ?nd
         \<lparr>nd_db := sl_insert (ne_sled E) (nd_db ?nd) SLED_MAILBOX_TREE (seq_be_key u (solo_seq E nd u)) raw,
          nd_indices := (nd_indices ?nd)(u \<mapsto> solo_seq E nd u)\<rparr>)"
    and raw: "record_payload (ne_wire E) u raw = Some (encode_mailbox_message sender p)"
    using store_effect[OF E u] by metis
  have "cmd_mailbox_store E now False u sender p Idle ?nd =
      map_option (Pair Idle) (store_signed_envelope E u sender p (solo_seq E nd u) ?nd)"
  proof (cases "nd_indices ?nd u")
    case None
    then show ?thesis using seeded_max[OF None] by (simp add: cmd_mailbox_store_def is_idle_def solo_seq_def)
  next
    case (Some i)
    then show ?thesis by (simp add: cmd_mailbox_store_def is_idle_def solo_seq_def)
  qed
  then have step: "\<exists>nd'. node_step E now [] (Command (MailboxStore u sender p)) Idle nd = Some (Idle, nd') \<and>
      nd_db nd' = sl_insert (ne_sled E) (nd_db nd) SLED_MAILBOX_TREE (seq_be_key u (solo_seq E nd u)) raw \<and>
      nd_indices nd' u = Some (solo_seq E nd u)"
    using st seed(2) unfolding node_step_def
    by (simp add: handle_command_def check_state_timeout_def seed_index_store[of E u sender p])
  have fresh: "s < solo_seq E nd u" if h: "backup_has E (nd_db nd) u s" for s
  proof (cases "nd_indices ?nd u")
    case None
    then have "s \<le> 0" using seed(3)[of u] h by (simp add: is_idle_def command_user_def backup_below_def)
    then show ?thesis using None by (simp add: solo_seq_def)
  next
    case (Some i)
    then have "s \<le> i" "unat i \<le> n"
      using node_invD(1,2)[OF seed(1) Some] h seed(2) by (auto simp: backup_below_def)
    moreover have "unat (i + 1) = Suc (unat i)"
      using \<open>unat i \<le> n\<close> n by (intro unat_Suc_word[of _ "n + 1"]) auto
    ultimately show ?thesis using Some by (simp add: solo_seq_def word_less_nat_alt word_le_nat_alt)
  qed
  from step obtain nd' where "node_step E now [] (Command (MailboxStore u sender p)) Idle nd = Some (Idle, nd')"
    "nd_db nd' = sl_insert (ne_sled E) (nd_db nd) SLED_MAILBOX_TREE (seq_be_key u (solo_seq E nd u)) raw"
    "nd_indices nd' u = Some (solo_seq E nd u)" by blast
  then show ?thesis using fresh raw by (intro exI[of _ nd'] exI[of _ raw]) (simp add: sledD(2)[OF S])
qed


section \<open>Where the state machine loses messages\<close>

lemma busy_store_dropped:
  assumes "\<not> is_idle st"
  shows "handle_command E now hp (MailboxStore u sender p) st nd = Some (st, nd)"
  using assms by (simp add: handle_command_def cmd_mailbox_store_def)

lemma fetch_timeout_drops:
  assumes "d \<le> now"
  shows "node_step E now conn TimeoutTick (FetchingIndex cmd a mx q f d) nd = Some (Idle, nd)"
  using assms by (simp add: node_step_def check_state_timeout_def)

section \<open>Collecting\<close>

text \<open>One answer per query, in the order of the queries.\<close>

primrec collect_run ::
    "('db, 'q) node_env \<Rightarrow> bytes option list \<Rightarrow> 'q mailbox_state \<times> ('db, 'q) node \<Rightarrow> 'q mailbox_state \<times> ('db, 'q) node" where
  "collect_run E [] s = s"
| "collect_run E (v # vs) s =
     collect_run E vs (case fst s of
       CollectingMessages u ms rem d \<Rightarrow> collect_message E u rem v ms d (snd s)
     | _ \<Rightarrow> s)"

definition verified_answers :: "wire \<Rightarrow> bytes \<Rightarrow> (u64 \<times> bytes option) list \<Rightarrow> bytes list" where
  "verified_answers W u svs =
     List.map_filter (\<lambda>(s, v). case v of None \<Rightarrow> None
        | Some raw \<Rightarrow> if valid_record W u s raw then Some raw else None) svs"

text \<open>An answer that is not the last one: the next number is asked for, and nothing is emitted.\<close>

lemma collect_answer:
  "collect_message E u (s # t # ts) v ms d nd =
    (CollectingMessages u (ms @ verified_answers (ne_wire E) u [(s, v)]) (t # ts) d,
     fst (get_record E (mailbox_seq_key u t) nd))"
  by (simp add: collect_message_def verified_answers_def List.map_filter_simps case_prod_beta Let_def split: option.split)

lemma get_record_fields [simp]:
  "nd_calls (fst (get_record E key nd)) = nd_calls nd @ [GetRecord key]"
  "nd_events (fst (get_record E key nd)) = nd_events nd"
  by (simp_all add: get_record_def call_def)

lemma verified_answers_Cons:
  "verified_answers W u ((s, v) # xs) = verified_answers W u [(s, v)] @ verified_answers W u xs"
  by (simp add: verified_answers_def List.map_filter_simps split: option.split)

lemma collect_run_asks:
  assumes "length vs < length rem"
  shows "\<exists>nd'. collect_run E vs (CollectingMessages u ms rem d, nd) =
      (CollectingMessages u (ms @ verified_answers (ne_wire E) u (zip rem vs)) (drop (length vs) rem) d, nd') \<and>
    nd_calls nd' = nd_calls nd @ map (\<lambda>s. GetRecord (mailbox_seq_key u s)) (take (length vs) (tl rem)) \<and>
    nd_events nd' = nd_events nd"
  using assms
proof (induction vs arbitrary: ms rem nd)
  case Nil
  then show ?case by (simp add: verified_answers_def List.map_filter_simps)
next
  case (Cons v vs)
  then obtain s t ts where rem: "rem = s # t # ts" by (cases rem; cases "tl rem") auto
  have "length vs < length (t # ts)" using Cons.prems by (simp add: rem)
  from Cons.IH[OF this, of "ms @ verified_answers (ne_wire E) u [(s, v)]" "fst (get_record E (mailbox_seq_key u t) nd)"]
  show ?case using verified_answers_Cons[of "ne_wire E" u s v "zip (t # ts) vs"] by (auto simp: rem collect_answer)
qed

lemma collect_run_done:
  assumes "length vs = length rem" "rem \<noteq> []"
  shows "\<exists>nd'. collect_run E vs (CollectingMessages u ms rem d, nd) = (Idle, nd') \<and>
    nd_calls nd' = nd_calls nd @ map (\<lambda>s. GetRecord (mailbox_seq_key u s)) (tl rem) \<and>
    nd_events nd' = nd_events nd @ [MailboxRetrieved u (ms @ verified_answers (ne_wire E) u (zip rem vs))]"
  using assms
proof (induction vs arbitrary: ms rem nd)
  case Nil
  then show ?case by simp
next
  case (Cons v vs)
  then obtain s rest where rem: "rem = s # rest" by (cases rem) auto
  show ?case
  proof (cases rest)
    case Nil
    then show ?thesis
      using Cons.prems by (simp add: rem collect_message_def emit_def verified_answers_def List.map_filter_simps split: option.split)
  next
    case more: (Cons t ts)
    have "length vs = length (t # ts)" using Cons.prems by (simp add: rem more)
    from Cons.IH[OF this, of "ms @ verified_answers (ne_wire E) u [(s, v)]" "fst (get_record E (mailbox_seq_key u t) nd)"]
    show ?thesis
      using verified_answers_Cons[of "ne_wire E" u s v "zip (t # ts) vs"] by (auto simp: rem more collect_answer)
  qed
qed


section \<open>Peers\<close>

lemma backoff_bounds: "1 \<le> backoff_secs a \<and> backoff_secs a \<le> MAX_RECONNECT_DELAY_SECS"
  by (simp add: backoff_secs_def MAX_RECONNECT_DELAY_SECS_def)

lemma backoff_mono: "a \<le> b \<Longrightarrow> backoff_secs a \<le> backoff_secs b"
proof -
  assume "a \<le> b"
  then have "(2::nat) ^ min a 6 \<le> 2 ^ min b 6" by (intro power_increasing) auto
  then show ?thesis unfolding backoff_secs_def by (rule min.mono) simp
qed

text \<open>At most three addresses are kept per peer, all different, the newest among them.\<close>

definition saved_addrs :: "wire \<Rightarrow> 'db sled \<Rightarrow> 'db \<Rightarrow> bytes \<Rightarrow> bytes list" where
  "saved_addrs W S db peer =
     (case Option.bind (sl_get S db SLED_PEER_TREE peer) (w_dec_addrs W) of None \<Rightarrow> [] | Some a \<Rightarrow> a)"

lemma persist_peer_saved:
  assumes "sled_ok S" "bincode_ok W"
  shows "saved_addrs W S (persist_peer_addr W S peer addr db) q =
     (if q \<noteq> peer then saved_addrs W S db q
      else let l = (if addr \<in> set (saved_addrs W S db peer) then saved_addrs W S db peer
                    else saved_addrs W S db peer @ [addr])
        in drop (length l - 3) l)"
proof -
  define old where "old = saved_addrs W S db peer"
  define a1 where "a1 = (if addr \<in> set old then old else old @ [addr])"
  define a2 where "a2 = (if length a1 > 3 then drop (length a1 - 3) a1 else a1)"
  have a2: "a2 = drop (length a1 - 3) a1" by (simp add: a2_def)
  obtain raw where raw: "w_enc_addrs W a2 = Some raw" "w_dec_addrs W raw = Some a2"
    by (rule bincode_addrsE[OF assms(2)])
  have db: "persist_peer_addr W S peer addr db = sl_insert S db SLED_PEER_TREE peer raw"
    using raw unfolding persist_peer_addr_def Let_def saved_addrs_def[symmetric] old_def[symmetric]
      a1_def[symmetric] a2_def[symmetric]
    by (simp add: sledD(1)[OF assms(1)])
  show ?thesis
    unfolding old_def[symmetric] a1_def[symmetric] Let_def a2[symmetric]
    using raw(2) by (simp add: db saved_addrs_def sledD(2)[OF assms(1)])
qed

lemma persist_peer_ok:
  assumes "sled_ok S" "bincode_ok W" "distinct (saved_addrs W S db peer)" "length (saved_addrs W S db peer) \<le> 3"
  shows "let l = saved_addrs W S (persist_peer_addr W S peer addr db) peer in
    distinct l \<and> length l \<le> 3 \<and> addr \<in> set l \<and> set l \<subseteq> insert addr (set (saved_addrs W S db peer))"
proof -
  let ?o = "saved_addrs W S db peer"
  have "addr \<in> set (drop (Suc (length ?o) - 3) (?o @ [addr]))"
    using assms(4) by (simp add: drop_append)
  moreover have "set (drop n (?o @ [addr])) \<subseteq> insert addr (set ?o)" for n
    using set_drop_subset[of n "?o @ [addr]"] by simp
  ultimately show ?thesis
    using assms(3,4) by (auto simp: persist_peer_saved[OF assms(1,2)] Let_def)
qed

lemma saved_addr_dialled:
  assumes "sled_ok (ne_sled E)" "saved_addrs (ne_wire E) (ne_sled E) (nd_db nd) peer = a # l"
  shows "DialPeer a \<in> set (nd_calls (dial_persisted E nd))"
proof -
  obtain v where v: "sl_get (ne_sled E) (nd_db nd) SLED_PEER_TREE peer = Some v" "w_dec_addrs (ne_wire E) v = Some (a # l)"
    using assms(2) by (auto simp: saved_addrs_def bind_eq_Some_conv split: option.splits)
  then have "(peer, v) \<in> set (sl_scan (ne_sled E) (nd_db nd) SLED_PEER_TREE [])"
    using sledD(5)[OF assms(1)] by simp
  then have a: "a \<in> set (persisted_addrs (ne_wire E) (ne_sled E) (nd_db nd))"
    using v(2) by (auto simp: persisted_addrs_def sledD(1)[OF assms(1)] map_filter_set intro!: bexI[of _ "(peer, v)"])
  have "nd_calls (fold (\<lambda>addr. call (DialPeer addr)) as n) = nd_calls n @ map DialPeer as"
    for as and n :: "('a, 'b) node" by (induction as arbitrary: n) (simp_all add: call_def)
  then show ?thesis using a by (simp add: dial_persisted_def)
qed

text \<open>Which known addresses the reconnect tick dials.\<close>

definition redial_due :: "nat \<Rightarrow> (bytes \<times> (nat \<times> nat)) list \<Rightarrow> bytes \<Rightarrow> bool" where
  "redial_due now known peer \<longleftrightarrow>
     (let (attempt, last) = attempts_of known now peer in
      attempt = 0 \<or> backoff_secs attempt * 1000 \<le> now - last)"

definition redial_targets ::
    "nat \<Rightarrow> bytes list \<Rightarrow> (bytes \<times> (nat \<times> nat)) list \<Rightarrow> (bytes \<times> bytes list) list \<Rightarrow> (bytes \<times> bytes) list" where
  "redial_targets now conn known peers =
     map (\<lambda>(p, as). (p, hd as))
       (filter (\<lambda>(p, as). p \<notin> set conn \<and> redial_due now known p \<and> as \<noteq> []) peers)"

lemma reconnect_due_fold:
  assumes "distinct (map fst peers)" "\<forall>p \<in> fst ` set peers. map_of known p = map_of known0 p"
  shows "snd (fold (reconnect_due now conn) peers (known, r)) = r @ redial_targets now conn known0 peers \<and>
    map_of (fst (fold (reconnect_due now conn) peers (known, r))) p =
      (if p \<in> fst ` set peers \<and> p \<in> set conn then Some (0, now) else map_of known p)"
  using assms
proof (induction peers arbitrary: known r)
  case Nil
  then show ?case by (simp add: redial_targets_def)
next
  case (Cons e peers)
  obtain q as where e: "e = (q, as)" by force
  have q: "q \<notin> fst ` set peers" "map_of known q = map_of known0 q" using Cons.prems by (simp_all add: e)
  let ?due = "redial_due now known0 q"
  have due: "redial_due now known q = ?due" by (simp add: redial_due_def attempts_of_def q(2))
  have step: "reconnect_due now conn e (known, r) =
      (if q \<in> set conn then am_insert q (0, now) known else known,
       r @ redial_targets now conn known0 [e])"
    unfolding due[symmetric]
    by (cases as) (auto simp: e reconnect_due_def redial_targets_def due redial_due_def q(2) attempts_of_def
        split: option.splits prod.splits)
  have agree: "\<forall>p \<in> fst ` set peers.
      map_of (if q \<in> set conn then am_insert q (0, now) known else known) p = map_of known0 p"
    using Cons.prems(2) q(1) by (auto simp: map_of_am_insert e)
  have targets: "redial_targets now conn known0 (e # peers) =
      redial_targets now conn known0 [e] @ redial_targets now conn known0 peers"
    by (simp add: redial_targets_def)
  define k1 where "k1 = (if q \<in> set conn then am_insert q (0, now) known else known)"
  have k1: "map_of k1 p = (if p = q \<and> q \<in> set conn then Some (0, now) else map_of known p)"
    by (simp add: k1_def map_of_am_insert)
  have fold_e: "fold (reconnect_due now conn) (e # peers) (known, r) =
      fold (reconnect_due now conn) peers (k1, r @ redial_targets now conn known0 [e])"
    by (simp add: step k1_def)
  have dist: "distinct (map fst peers)" using Cons.prems(1) by simp
  have keys: "fst ` set (e # peers) = insert q (fst ` set peers)" by (simp add: e)
  show ?case
    unfolding fold_e targets keys append_assoc[symmetric]
    using Cons.IH[OF dist agree[folded k1_def], of "r @ redial_targets now conn known0 [e]"] q(1) k1 by auto
qed

lemma redial_fold:
  assumes "distinct (map fst ts)"
  shows "nd_calls (fold (redial_peer now) ts nd) = nd_calls nd @ map (\<lambda>t. DialPeer (snd t)) ts \<and>
    attempts_of (nd_known_peers (fold (redial_peer now) ts nd)) now p =
      (if p \<in> fst ` set ts then (Suc (fst (attempts_of (nd_known_peers nd) now p)), now)
       else attempts_of (nd_known_peers nd) now p)"
  using assms
proof (induction ts arbitrary: nd)
  case Nil
  then show ?case by simp
next
  case (Cons t ts)
  have "nd_calls (redial_peer now t nd) = nd_calls nd @ [DialPeer (snd t)]"
    "attempts_of (nd_known_peers (redial_peer now t nd)) now q =
      (if q = fst t then (Suc (fst (attempts_of (nd_known_peers nd) now q)), now)
       else attempts_of (nd_known_peers nd) now q)" for q
    by (simp_all add: redial_peer_def call_def attempts_of_def map_of_am_insert case_prod_beta Let_def)
  then show ?case using Cons.IH[of "redial_peer now t nd"] Cons.prems by auto
qed

end
