(* ===== verification/Node_Theorems.thy ===== *)
theory Node_Theorems
  imports Node_Props
begin

text \<open>
  The properties of the P2P node: its backup only grows, a stored message gets a fresh number and
  reads back, how probes end, collecting is exact, saved addresses and redialling stay bounded, and
  four ways in which the state machine loses messages.
\<close>

text \<open>A node without peers, with one record in its backup, for the examples.\<close>

definition demo_node_env :: "(toy_db, nat) node_env" where
  "demo_node_env = \<lparr>ne_wire = toy_wire, ne_sled = toy_sled, ne_seed = [], ne_ids = (\<lambda>n. n)\<rparr>"

definition demo_user :: bytes where
  "demo_user = replicate 32 7"

definition demo_db :: toy_db where
  "demo_db = (\<lambda>t. if t = SLED_MAILBOX_TREE then [(seq_be_key demo_user 1, [5])] else [])"

lemma demo_node_ok: "env_ok demo_node_env" "32 \<le> length demo_user" "inj (ne_ids demo_node_env)"
  by (simp_all add: env_ok_def demo_node_env_def demo_user_def toy_sled_ok toy_wire_ok)

lemma demo_node_sled: "sled_ok (ne_sled demo_node_env)" "ed_ok (ne_wire demo_node_env)"
  "bincode_ok (ne_wire demo_node_env)"
  by (simp_all add: demo_node_env_def toy_sled_ok toy_wire_ok)

lemma demo_db_get: "sl_get (ne_sled demo_node_env) demo_db SLED_MAILBOX_TREE k =
    (if k = seq_be_key demo_user 1 then Some [5] else None)"
  by (simp add: demo_node_env_def toy_sled_def demo_db_def toy_norm_def bt_wf_def bt_get_def)

lemma demo_db_has: "backup_has demo_node_env demo_db u s \<longleftrightarrow> u = demo_user \<and> s = 1"
  by (simp add: backup_has_def demo_db_get seq_be_key_inj)


lemma demo_short_records:
  "deserialize_envelope toy_wire [5] = None"
  by (simp add: toy_wire_def deserialize_envelope_def toy_unlist_def toy_unblock_def Let_def)


section \<open>The backup\<close>

text \<open>C14: No run of the node's event loop, whatever commands, swarm events and ticks it processes,
  overwrites or removes a record of the mailbox backup, and the in-memory index of a user stays at
  least as high as every number the backup holds for that user.\<close>

theorem backup_never_overwritten:
  assumes "sled_ok (ne_sled E)" "\<forall>u s. backup_has E db u s \<longrightarrow> unat s \<le> n"
    and "run_steps (node_bounded E) inps (n, Idle, node_start db) = Some (n', st', nd')"
  shows "(sl_get (ne_sled E) db SLED_MAILBOX_TREE k = Some raw \<longrightarrow>
      sl_get (ne_sled E) (nd_db nd') SLED_MAILBOX_TREE k = Some raw) \<and>
    (nd_indices nd' u = Some i \<and> backup_has E (nd_db nd') u s \<longrightarrow> s \<le> i)"
  using node_run_keeps[OF assms] by (auto simp: backup_kept_def node_inv_def backup_below_def)

lemma demo_store_runs:
  "\<exists>nd'. run_steps (node_bounded demo_node_env) [(0, [], Command (MailboxStore demo_user [1] [2]))]
     (1, Idle, node_start demo_db) = Some (11, Idle, nd')"
proof -
  have "node_inv demo_node_env 1 Idle (node_start demo_db)"
    by (rule node_start_inv) (simp add: demo_db_has)
  from solo_store[OF demo_node_ok(1,2) this, of 0 "[1]" "[2]"] obtain nd' where
    "node_step demo_node_env 0 [] (Command (MailboxStore demo_user [1] [2])) Idle (node_start demo_db) = Some (Idle, nd')"
    by auto
  then show ?thesis by (simp add: node_bounded_def)
qed

theorem backup_never_overwritten_witness:
  "\<exists>nd'. run_steps (node_bounded demo_node_env) [(0, [], Command (MailboxStore demo_user [1] [2]))]
      (1, Idle, node_start demo_db) = Some (11, Idle, nd') \<and>
    sl_get (ne_sled demo_node_env) (nd_db nd') SLED_MAILBOX_TREE (seq_be_key demo_user 1) = Some [5]"
proof -
  obtain nd' where run: "run_steps (node_bounded demo_node_env) [(0, [], Command (MailboxStore demo_user [1] [2]))]
      (1, Idle, node_start demo_db) = Some (11, Idle, nd')" using demo_store_runs by blast
  have "\<forall>u s. backup_has demo_node_env demo_db u s \<longrightarrow> unat s \<le> 1" by (simp add: demo_db_has)
  from backup_never_overwritten[OF demo_node_sled(1) this run, of "seq_be_key demo_user 1" "[5]"] run
  show ?thesis by (simp add: demo_db_get)
qed

text \<open>After any run that leaves the node idle, a node without peers stores a message for a
  recipient with a full-length id under a number above all numbers the backup holds for that
  recipient; the record opens to the sender and payload, and every other record of the database is
  as it was.\<close>

theorem offline_store_fresh:
  assumes E: "env_ok E" and u: "32 \<le> length u" and n: "\<forall>u s. backup_has E db u s \<longrightarrow> unat s \<le> n"
    and run: "run_steps (node_bounded E) inps (n, Idle, node_start db) = Some (n', Idle, nd)"
    and room: "n' + 11 < 2 ^ 64"
  shows "\<exists>nd' raw seq. node_step E now [] (Command (MailboxStore u sender p)) Idle nd = Some (Idle, nd') \<and>
    (\<forall>s. backup_has E (nd_db nd) u s \<longrightarrow> s < seq) \<and>
    (\<forall>t k. sl_get (ne_sled E) (nd_db nd') t k =
       (if t = SLED_MAILBOX_TREE \<and> k = seq_be_key u seq then Some raw else sl_get (ne_sled E) (nd_db nd) t k)) \<and>
    record_payload (ne_wire E) u raw = Some (encode_mailbox_message sender p)"
proof -
  have "node_inv E n' Idle nd" using node_run_keeps[OF _ n run] E by (simp add: env_ok_def)
  from solo_store[OF E u this room] show ?thesis by blast
qed

theorem offline_store_fresh_witness:
  "\<exists>nd' raw. node_step demo_node_env 0 [] (Command (MailboxStore demo_user [1] [2])) Idle (node_start demo_db) =
      Some (Idle, nd') \<and> record_payload toy_wire demo_user raw = Some (encode_mailbox_message [1] [2])"
proof -
  have "\<forall>u s. backup_has demo_node_env demo_db u s \<longrightarrow> unat s \<le> 1" by (simp add: demo_db_has)
  moreover have "run_steps (node_bounded demo_node_env) [] (1, Idle, node_start demo_db) =
      Some (1, Idle, node_start demo_db)" by simp
  ultimately show ?thesis
    using offline_store_fresh[OF demo_node_ok(1,2), of demo_db 1 "[]" 1 "node_start demo_db" 0 "[1]" "[2]"]
    by (auto simp: demo_node_env_def)
qed


section \<open>Probing and collecting\<close>


text \<open>A probe of the examples: the queries of the first window.\<close>

lemma demo_fetch:
  obtains pending nd1 where
    "start_fetch demo_node_env 0 (PendingRetrieve demo_user) (node_start demo_db) =
      (FetchingIndex (PendingRetrieve demo_user) 1 0 pending [] 10000, nd1)"
    "nd_profile_queries nd1 = []" "nd_events nd1 = []" "distinct (map fst pending)" "distinct (map snd pending)"
    "\<forall>t \<in> set (window_seqs 1). \<exists>q. map_of pending q = Some t"
proof -
  define f where "f = fire_window demo_node_env demo_user 1 (node_start demo_db)"
  have one: "unat (1 :: u64) + 10 < 2 ^ 64" by simp
  have p: "distinct (map fst (snd f)) \<and> distinct (map snd (snd f)) \<and> set (map snd (snd f)) = set (window_seqs 1)"
    using fire_seqs_pending[OF demo_node_ok(3), of "[]" "node_start demo_db" "window_seqs 1" demo_user] distinct_window[OF one]
    by (simp add: f_def fire_window_def)
  have "\<exists>q. map_of (snd f) q = Some t" if "t \<in> set (window_seqs 1)" for t
  proof -
    have "t \<in> set (map snd (snd f))" using p that by blast
    then obtain q where "(q, t) \<in> set (snd f)" by auto
    then have "map_of (snd f) q = Some t" using p by simp
    then show ?thesis by blast
  qed
  then show ?thesis
    using p by (intro that[of "snd f" "fst f"])
      (simp_all add: start_fetch_def case_prod_beta OPERATION_TIMEOUT_def f_def fire_window_def fire_seqs_calls node_start_def)
qed




text \<open>C27: Collecting a mailbox of \<open>index\<close> messages asks for the numbers from one up to \<open>index\<close>, one at a
  time and in order: after \<open>k\<close> answers exactly the numbers up to \<open>k + 1\<close> have been asked for and nothing
  has been emitted. After \<open>index\<close> answers the node is idle again and has emitted exactly one event: the
  answers whose envelope verifies for the user and carries the number that was due, in order. An answer
  is what the code counts as one: a record, or no record; \<open>finished_query_skips\<close> shows that it also
  counts the end of a query that has answered before.\<close>

theorem collecting_exact:
  assumes "0 < unat index" "length answers = unat index"
  shows "let start = start_collecting_messages E now user index nd; s = collect_run E answers start;
      asks = \<lambda>k. map (\<lambda>j. GetRecord (mailbox_seq_key user (word_of_nat j))) [1..<Suc k] in
    (\<forall>k < unat index. let t = collect_run E (take k answers) start in
       \<not> is_idle (fst t) \<and> nd_calls (snd t) = nd_calls nd @ asks (Suc k) \<and> nd_events (snd t) = nd_events nd) \<and>
    fst s = Idle \<and> nd_calls (snd s) = nd_calls nd @ asks (unat index) \<and>
    nd_events (snd s) = nd_events nd @ [MailboxRetrieved user
      (verified_answers (ne_wire E) user (zip (map word_of_nat [1..<Suc (unat index)]) answers))]"
proof -
  let ?rem = "map word_of_nat [1..<Suc (unat index)] :: u64 list"
  let ?ask = "\<lambda>s. GetRecord (mailbox_seq_key user s)"
  let ?nd = "fst (get_record E (mailbox_seq_key user 1) nd)"
  have rem: "?rem = 1 # tl ?rem" "tl ?rem = map word_of_nat [2..<Suc (unat index)]"
    using assms(1) by (simp_all add: upt_conv_Cons numeral_2_eq_2 del: upt_Suc)
  have first: "?rem ! 0 = 1" by (subst rem(1)) simp
  have start: "start_collecting_messages E now user index nd =
      (CollectingMessages user [] ?rem (now + OPERATION_TIMEOUT), ?nd)"
    unfolding start_collecting_messages_def Let_def first by (simp add: case_prod_beta del: upt_Suc)
  have asks: "?ask 1 # map ?ask (take k (tl ?rem)) = map (\<lambda>j. ?ask (word_of_nat j)) [1..<Suc (Suc k)]"
    if "k < unat index" for k
  proof -
    have "take k (tl ?rem) = map word_of_nat [2..<Suc (Suc k)]"
      unfolding rem(2) using that by (simp add: take_map del: upt_Suc)
    then show ?thesis by (simp add: upt_conv_Cons numeral_2_eq_2 comp_def del: upt_Suc)
  qed
  have len: "length ?rem = unat index" by simp
  have during: "\<not> is_idle (fst t) \<and> nd_calls (snd t) = nd_calls nd @ map (\<lambda>j. ?ask (word_of_nat j)) [1..<Suc (Suc k)] \<and>
      nd_events (snd t) = nd_events nd"
    if "k < unat index" "t = collect_run E (take k answers) (CollectingMessages user [] ?rem (now + OPERATION_TIMEOUT), ?nd)" for k t
    using collect_run_asks[of "take k answers" ?rem E user "[]" "now + OPERATION_TIMEOUT" ?nd] asks[OF that(1)] that assms(2) len
    by (auto simp: is_idle_def simp del: upt_Suc)
  have "?rem \<noteq> []" "length answers = length ?rem" using rem(1) assms(2) len by (metis list.distinct(1), simp)
  from collect_run_done[OF this(2,1), of E user "[]" "now + OPERATION_TIMEOUT" ?nd] asks[of "unat index - 1"] during
  show ?thesis
    unfolding start Let_def using assms(1) len by (auto simp del: upt_Suc)
qed

theorem collecting_exact_witness:
  "\<exists>raw. record_payload toy_wire demo_user raw = Some (encode_mailbox_message [1] [2]) \<and>
    nd_events (snd (collect_run demo_node_env [None, Some raw]
      (start_collecting_messages demo_node_env 0 demo_user 2 (node_start demo_db)))) =
    [MailboxRetrieved demo_user [raw]]"
proof -
  obtain raw where raw: "record_payload (ne_wire demo_node_env) demo_user raw = Some (encode_mailbox_message [1] [2])"
    "valid_record (ne_wire demo_node_env) demo_user 2 raw"
    using store_effect[OF demo_node_ok(1,2), of "[1]" "[2]" 2 "node_start demo_db"] by metis
  have two: "0 < unat (2 :: u64)" "length [None, Some raw] = unat (2 :: u64)" by simp_all
  from collecting_exact[OF two, of demo_node_env 0 demo_user "node_start demo_db"] raw
  show ?thesis
    by (intro exI[of _ raw])
      (simp add: Let_def verified_answers_def List.map_filter_simps upt_rec node_start_def demo_node_env_def)
qed


section \<open>Peers\<close>

lemma saved_addresses_run:
  assumes "sled_ok S" "bincode_ok W" "saved_addrs W S db peer = []" "as \<noteq> []"
  shows "let l = saved_addrs W S (fold (persist_peer_addr W S peer) as db) peer in
    distinct l \<and> length l \<le> 3 \<and> set l \<subseteq> set as \<and> last as \<in> set l"
  using assms(4)
proof (induction as rule: rev_nonempty_induct)
  case (single a)
  then show ?case using persist_peer_ok[OF assms(1,2), of db peer a] assms(3) by (simp add: Let_def)
next
  case (snoc a as)
  then show ?case
    using persist_peer_ok[OF assms(1,2), of "fold (persist_peer_addr W S peer) as db" peer a]
    by (auto simp: Let_def)
qed

text \<open>However many connections to a peer come up, the addresses saved for it are at most
  three, all different, all among those seen, and the one seen last is saved; and the next start of
  the node on this database dials the first of them.\<close>

theorem saved_addresses_redialled:
  assumes E: "sled_ok (ne_sled E)" "bincode_ok (ne_wire E)" and new: "saved_addrs (ne_wire E) (ne_sled E) db peer = []"
    and as: "as \<noteq> []"
  shows "let db' = fold (persist_peer_addr (ne_wire E) (ne_sled E) peer) as db;
      l = saved_addrs (ne_wire E) (ne_sled E) db' peer in
    distinct l \<and> length l \<le> 3 \<and> set l \<subseteq> set as \<and> last as \<in> set l \<and>
    DialPeer (hd l) \<in> set (nd_calls (dial_persisted E (node_start db')))"
proof -
  let ?db = "fold (persist_peer_addr (ne_wire E) (ne_sled E) peer) as db"
  note run = saved_addresses_run[OF E new as, unfolded Let_def]
  then obtain a l where "saved_addrs (ne_wire E) (ne_sled E) ?db peer = a # l"
    by (cases "saved_addrs (ne_wire E) (ne_sled E) ?db peer") auto
  then have "DialPeer (hd (saved_addrs (ne_wire E) (ne_sled E) ?db peer)) \<in>
      set (nd_calls (dial_persisted E (node_start ?db)))"
    using saved_addr_dialled[OF E(1), of "node_start ?db" peer a l] by (simp add: node_start_def)
  with run show ?thesis by (simp add: Let_def)
qed

theorem saved_addresses_redialled_witness:
  "let db' = fold (persist_peer_addr toy_wire toy_sled [9]) [[1], [2], [1], [3], [4]] demo_db in
    [4] \<in> set (saved_addrs toy_wire toy_sled db' [9]) \<and>
    DialPeer (hd (saved_addrs toy_wire toy_sled db' [9])) \<in> set (nd_calls (dial_persisted demo_node_env (node_start db')))"
proof -
  have "saved_addrs toy_wire toy_sled demo_db [9] = []"
    by (simp add: saved_addrs_def toy_sled_def demo_db_def toy_norm_def bt_wf_def bt_get_def SLED_PEER_TREE_def
        SLED_MAILBOX_TREE_def)
  then have new: "saved_addrs (ne_wire demo_node_env) (ne_sled demo_node_env) demo_db [9] = []"
    by (simp add: demo_node_env_def)
  have env: "ne_wire demo_node_env = toy_wire" "ne_sled demo_node_env = toy_sled" by (simp_all add: demo_node_env_def)
  from saved_addresses_redialled[OF demo_node_sled(1,3) new, of "[[1], [2], [1], [3], [4]]"]
  show ?thesis unfolding env Let_def by simp
qed

text \<open>A reconnect tick dials exactly the first address of each known peer that is not
  connected and whose backoff has run out, and counts an attempt for each.\<close>

theorem reconnect_dials_due:
  assumes "distinct (map fst (nd_peer_addrs nd))"
  shows "let nd' = reconnect_tick now conn nd;
      ts = redial_targets now conn (nd_known_peers nd) (nd_peer_addrs nd) in
    nd_calls nd' = nd_calls nd @ map (\<lambda>t. DialPeer (snd t)) ts \<and>
    attempts_of (nd_known_peers nd') now p =
      (if p \<in> fst ` set (nd_peer_addrs nd) \<and> p \<in> set conn then (0, now)
       else if p \<in> fst ` set ts then (Suc (fst (attempts_of (nd_known_peers nd) now p)), now)
       else attempts_of (nd_known_peers nd) now p)"
proof -
  define k1 where "k1 = fst (fold (reconnect_due now conn) (nd_peer_addrs nd) (nd_known_peers nd, []))"
  let ?ts = "redial_targets now conn (nd_known_peers nd) (nd_peer_addrs nd)"
  have r: "snd (fold (reconnect_due now conn) (nd_peer_addrs nd) (nd_known_peers nd, [])) = ?ts"
    and k: "map_of k1 q = (if q \<in> fst ` set (nd_peer_addrs nd) \<and> q \<in> set conn then Some (0, now)
       else map_of (nd_known_peers nd) q)" for q
    using reconnect_due_fold[OF assms, of "nd_known_peers nd" "nd_known_peers nd" now conn "[]"]
    by (simp_all add: k1_def)
  have tick: "reconnect_tick now conn nd = fold (redial_peer now) ?ts (nd\<lparr>nd_known_peers := k1\<rparr>)"
    by (simp add: reconnect_tick_def case_prod_beta r k1_def)
  have "map fst ?ts = map fst (filter (\<lambda>(p, as). p \<notin> set conn \<and> redial_due now (nd_known_peers nd) p \<and> as \<noteq> [])
      (nd_peer_addrs nd))" by (simp add: redial_targets_def case_prod_beta)
  then have "distinct (map fst ?ts)" using assms by (simp add: distinct_map_filter)
  moreover have "q \<notin> set conn" if "q \<in> fst ` set ?ts" for q
    using that by (auto simp: redial_targets_def)
  ultimately show ?thesis
    using redial_fold[of ?ts now "nd\<lparr>nd_known_peers := k1\<rparr>" p]
    by (auto simp: tick k attempts_of_def Let_def)
qed

theorem reconnect_dials_due_witness:
  "nd_calls (reconnect_tick 5000 [[2]] ((node_start demo_db :: (toy_db, nat) node)
      \<lparr>nd_peer_addrs := [([1], [[10], [11]]), ([2], [[12]]), ([3], [[13]])],
       nd_known_peers := [([1], (1, 0)), ([3], (4, 0))]\<rparr>)) = [DialPeer [10]]"
proof -
  let ?nd = "(node_start demo_db :: (toy_db, nat) node)\<lparr>nd_peer_addrs := [([1], [[10], [11]]), ([2], [[12]]), ([3], [[13]])],
       nd_known_peers := [([1], (1, 0)), ([3], (4, 0))]\<rparr>"
  have "distinct (map fst (nd_peer_addrs ?nd))" by simp
  from reconnect_dials_due[OF this, of 5000 "[[2]]", unfolded Let_def, THEN conjunct1]
  have "nd_calls (reconnect_tick 5000 [[2]] ?nd) =
      nd_calls ?nd @ map (\<lambda>t. DialPeer (snd t)) (redial_targets 5000 [[2]] (nd_known_peers ?nd) (nd_peer_addrs ?nd))" .
  also have "redial_targets 5000 [[2]] (nd_known_peers ?nd) (nd_peer_addrs ?nd) = [([1], [10])]"
    by (simp add: redial_targets_def redial_due_def attempts_of_def backoff_secs_def MAX_RECONNECT_DELAY_SECS_def)
  finally show ?thesis by (simp add: node_start_def)
qed


section \<open>Where messages are lost\<close>

text \<open>A single failed query while a mailbox's length is being probed stores the pending
  message as number 1 and resets the index, whatever the probe has found so far.\<close>

theorem failed_query_resets:
  assumes "env_ok E" "32 \<le> length u"
  shows "\<exists>nd' raw. handle_kad_failed E now qid key
      (FetchingIndex (PendingStore u sender p) start mx pending found d) nd = Some (Idle, nd') \<and>
    last (nd_calls nd') = PutRecord (mailbox_seq_key u 1) raw \<and> nd_indices nd' u = Some 1"
proof -
  define nd1 where "nd1 = (case map_of (nd_profile_queries nd) qid of
      Some ch \<Rightarrow> reply ch None (nd\<lparr>nd_profile_queries := am_remove qid (nd_profile_queries nd)\<rparr>)
    | None \<Rightarrow> nd)"
  let ?nd = "nd1\<lparr>nd_indices := (nd_indices nd1)(u \<mapsto> 0)\<rparr>"
  obtain raw where "store_signed_envelope E u sender p 1 ?nd =
       Some (call (PutRecord (mailbox_seq_key u 1) raw) ?nd
         \<lparr>nd_db := sl_insert (ne_sled E) (nd_db ?nd) SLED_MAILBOX_TREE (seq_be_key u 1) raw,
          nd_indices := (nd_indices ?nd)(u \<mapsto> 1)\<rparr>)"
    using store_effect[OF assms] by metis
  then show ?thesis
    by (intro exI[of _ "call (PutRecord (mailbox_seq_key u 1) raw) ?nd
         \<lparr>nd_db := sl_insert (ne_sled E) (nd_db ?nd) SLED_MAILBOX_TREE (seq_be_key u 1) raw,
          nd_indices := (nd_indices ?nd)(u \<mapsto> 1)\<rparr>"] exI[of _ raw])
      (simp add: handle_kad_failed_def Let_def nd1_def[symmetric] resume_pending_command_def call_def)
qed

theorem failed_query_resets_witness:
  "\<exists>nd' raw. handle_kad_failed demo_node_env 0 3 None
      (FetchingIndex (PendingStore demo_user [1] [2]) 11 12 [(3, 13)] [11, 12] 10000) (node_start demo_db) =
        Some (Idle, nd') \<and>
    last (nd_calls nd') = PutRecord (mailbox_seq_key demo_user 1) raw \<and> nd_indices nd' demo_user = Some 1"
  using failed_query_resets[OF demo_node_ok(1,2)] .

text \<open>While messages are being collected, a query that delivers its record and then finishes is
  counted twice: the following number is skipped without its record having been looked at.\<close>

theorem finished_query_skips:
  assumes "valid_record (ne_wire E) u s raw" "parse_profile_key key = None" "parse_update_key key = None"
    and "map_of (nd_profile_queries nd) qid = None"
    and "handle_swarm_event E now (KadFound qid key raw) (CollectingMessages u ms (s # t # v # rest) d) nd =
      Some (st1, nd1)"
  shows "\<exists>nd2. handle_swarm_event E now (KadFinished qid) st1 nd1 =
    Some (CollectingMessages u (ms @ [raw]) (v # rest) d, nd2)"
proof -
  have st1: "st1 = CollectingMessages u (ms @ [raw]) (t # v # rest) d"
    "nd1 = fst (get_record E (mailbox_seq_key u t) nd)"
    using assms by (auto simp: handle_swarm_event_def handle_kad_found_def handle_found_record_def
        collect_message_def case_prod_beta Let_def)
  then have "map_of (nd_profile_queries nd1) qid = None"
    using assms(4) by (simp add: get_record_def call_def)
  then show ?thesis
    by (simp add: st1(1) handle_swarm_event_def handle_kad_finished_def handle_not_found_def
        collect_message_def case_prod_beta Let_def)
qed

theorem finished_query_skips_witness:
  "\<exists>raw st1 nd1 nd2. handle_swarm_event demo_node_env 0 (KadFound 0 (mailbox_seq_key demo_user 1) raw)
      (CollectingMessages demo_user [] [1, 2, 3] 10000) (node_start demo_db) = Some (st1, nd1) \<and>
    handle_swarm_event demo_node_env 0 (KadFinished 0) st1 nd1 =
      Some (CollectingMessages demo_user [raw] [3] 10000, nd2)"
proof -
  obtain raw where raw: "valid_record (ne_wire demo_node_env) demo_user 1 raw"
    using store_effect[OF demo_node_ok(1,2), of "[1]" "[2]" 1 "node_start demo_db"] by metis
  let ?k = "mailbox_seq_key demo_user 1"
  have k: "parse_profile_key ?k = None" "parse_update_key ?k = None"
    using mailbox_profile.cross_parse(2)[of "(demo_user, 1)"] mailbox_update.cross_parse(2)[of "(demo_user, 1)"]
    by simp_all
  obtain st1 nd1 where step: "handle_swarm_event demo_node_env 0 (KadFound 0 ?k raw)
      (CollectingMessages demo_user [] [1, 2, 3] 10000) (node_start demo_db) = Some (st1, nd1)"
    by (cases "collect_message demo_node_env demo_user [1, 2, 3] (Some raw) [] 10000 (node_start demo_db)")
      (simp add: handle_swarm_event_def handle_kad_found_def handle_found_record_def k)
  have "map_of (nd_profile_queries (node_start demo_db)) 0 = None" by (simp add: node_start_def)
  from finished_query_skips[OF raw k this step] step show ?thesis by auto
qed

text \<open>When storing a message starts a probe, further messages for anybody are dropped until it
  ends; and when the probe's answers do not come within ten seconds the pending message is dropped
  as well: the database and the event stream are untouched and no record was put into the DHT.\<close>

theorem probe_timeout_loses_messages:
  assumes fresh: "nd_indices (seed_index E (MailboxStore u sender p) Idle nd) u = None" and conn: "conn \<noteq> []"
  shows "\<exists>st1 nd1. node_step E now conn (Command (MailboxStore u sender p)) Idle nd = Some (st1, nd1) \<and>
    nd_db nd1 = nd_db nd \<and> nd_events nd1 = nd_events nd \<and>
    (\<exists>gets. nd_calls nd1 = nd_calls nd @ map GetRecord gets) \<and>
    (t < now + OPERATION_TIMEOUT \<longrightarrow>
       node_step E t conn (Command (MailboxStore v sender2 p2)) st1 nd1 = Some (st1, nd1)) \<and>
    (now + OPERATION_TIMEOUT \<le> t \<longrightarrow> node_step E t conn TimeoutTick st1 nd1 = Some (Idle, nd1))"
proof -
  have seed: "seed_index E (MailboxStore u sender p) Idle nd = nd"
    using seeded_max(2) fresh by (simp add: seed_index_store[of E u sender p])
  let ?cmd = "PendingStore u sender p"
  let ?nd = "fst (fire_window E u 1 nd)"
  obtain q where fetch: "start_fetch E now ?cmd nd = (FetchingIndex ?cmd 1 0 q [] (now + OPERATION_TIMEOUT), ?nd)"
    by (simp add: start_fetch_def case_prod_beta)
  let ?st = "FetchingIndex ?cmd 1 0 q [] (now + OPERATION_TIMEOUT)"
  have "node_step E now conn (Command (MailboxStore u sender p)) Idle nd = Some (?st, ?nd)"
    using fresh conn unfolding node_step_def node_input.case seed
    by (simp add: seed handle_command_def cmd_mailbox_store_def is_idle_def fetch check_state_timeout_def
        OPERATION_TIMEOUT_def)
  moreover have "node_step E t conn (Command (MailboxStore v sender2 p2)) ?st ?nd = Some (?st, ?nd)"
    if "t < now + OPERATION_TIMEOUT"
  proof -
    have "seed_index E (MailboxStore v sender2 p2) ?st ?nd = ?nd"
      by (simp add: seed_index_def command_user_def is_idle_def)
    moreover have "handle_command E t (conn \<noteq> []) (MailboxStore v sender2 p2) ?st ?nd = Some (?st, ?nd)"
      by (rule busy_store_dropped) (simp add: is_idle_def)
    ultimately show ?thesis using that by (simp add: node_step_def check_state_timeout_def)
  qed
  moreover have "node_step E t conn TimeoutTick ?st ?nd = Some (Idle, ?nd)" if "now + OPERATION_TIMEOUT \<le> t"
    by (rule fetch_timeout_drops[OF that])
  moreover have "\<exists>gets. nd_calls ?nd = nd_calls nd @ map GetRecord gets" "nd_events ?nd = nd_events nd"
    by (simp_all add: fire_window_def fire_seqs_calls)
  ultimately show ?thesis by (intro exI[of _ ?st] exI[of _ ?nd]) simp
qed

theorem probe_timeout_loses_messages_witness:
  "\<exists>st1 nd1. node_step demo_node_env 0 [[3]] (Command (MailboxStore demo_user [1] [2])) Idle (node_start (\<lambda>t. [])) =
      Some (st1, nd1) \<and> node_step demo_node_env 10000 [[3]] TimeoutTick st1 nd1 = Some (Idle, nd1) \<and> nd_db nd1 = (\<lambda>t. [])"
proof -
  have "nd_indices (seed_index demo_node_env (MailboxStore demo_user [1] [2]) Idle (node_start (\<lambda>t. []))) demo_user = None"
    by (simp add: seed_index_def command_user_def get_sled_max_seq_def demo_node_env_def toy_sled_def toy_norm_def
        node_start_def)
  from probe_timeout_loses_messages[OF this, of "[[3]]" 0 10000] show ?thesis
    by (auto simp: OPERATION_TIMEOUT_def node_start_def)
qed

end
