(* ===== verification/Rate_Limit.thy ===== *)
theory Rate_Limit
  imports Complex_Main
begin

text \<open>
  The token bucket of \<open>server/src/ws.rs\<close>. Token counts are \<open>f64\<close> in the source; here they are
  rationals and every arithmetic result goes through the rounding function \<open>fl\<close>, a parameter.
  Bounds that hold for any monotone rounding are stated for it, the exact rate bound for
  exact arithmetic. Times are seconds; a refill reads the clock twice, as the source does.
\<close>

record bucket =
  tb_tokens :: rat
  tb_last :: rat
  tb_rate :: rat
  tb_capacity :: rat

definition bucket_new :: "rat \<Rightarrow> rat \<Rightarrow> rat \<Rightarrow> bucket" where
  "bucket_new now rate capacity =
     \<lparr>tb_tokens = capacity, tb_last = now, tb_rate = rate, tb_capacity = capacity\<rparr>"

definition refill :: "(rat \<Rightarrow> rat) \<Rightarrow> rat \<Rightarrow> rat \<Rightarrow> bucket \<Rightarrow> bucket" where
  "refill fl t1 t2 b =
     (let elapsed = max 0 (t1 - tb_last b)
      in b\<lparr>tb_tokens := min (fl (tb_tokens b + fl (elapsed * tb_rate b))) (tb_capacity b),
           tb_last := t2\<rparr>)"

definition try_consume :: "(rat \<Rightarrow> rat) \<Rightarrow> rat \<Rightarrow> rat \<Rightarrow> rat \<Rightarrow> bucket \<Rightarrow> bool \<times> bucket" where
  "try_consume fl t1 t2 n b =
     (let b1 = refill fl t1 t2 b in
      if n \<le> tb_tokens b1 then (True, b1\<lparr>tb_tokens := fl (tb_tokens b1 - n)\<rparr>) else (False, b1))"

text \<open>Rounding to nearest is monotone and exact at zero.\<close>

definition round_ok :: "(rat \<Rightarrow> rat) \<Rightarrow> bool" where
  "round_ok fl \<longleftrightarrow> mono fl \<and> fl 0 = 0"

definition bucket_ok :: "bucket \<Rightarrow> bool" where
  "bucket_ok b \<longleftrightarrow> 0 \<le> tb_tokens b \<and> 0 \<le> tb_rate b \<and> 0 \<le> tb_capacity b"

lemma round_nonneg: "round_ok fl \<Longrightarrow> 0 \<le> x \<Longrightarrow> 0 \<le> fl x"
  by (metis monoD round_ok_def)

lemma refill_spec:
  "tb_rate (refill fl t1 t2 b) = tb_rate b" "tb_capacity (refill fl t1 t2 b) = tb_capacity b"
  "tb_last (refill fl t1 t2 b) = t2" "tb_tokens (refill fl t1 t2 b) \<le> tb_capacity b"
  by (simp_all add: refill_def Let_def)

lemma bucket_ok_refill: "round_ok fl \<Longrightarrow> bucket_ok b \<Longrightarrow> bucket_ok (refill fl t1 t2 b)"
  by (simp add: bucket_ok_def refill_def Let_def round_nonneg)

lemma bucket_ok_consume:
  assumes "round_ok fl" "bucket_ok b" "try_consume fl t1 t2 n b = (ok, b')"
  shows "bucket_ok b' \<and> tb_capacity b' = tb_capacity b \<and> tb_rate b' = tb_rate b \<and> tb_last b' = t2"
  using assms bucket_ok_refill[OF assms(1,2), of t1 t2] refill_spec[of fl t1 t2 b]
  by (auto simp: try_consume_def Let_def bucket_ok_def round_nonneg split: if_splits)

lemma tokens_le_capacity:
  assumes "round_ok fl" "tb_capacity b = fl (tb_capacity b)" "0 \<le> n" "try_consume fl t1 t2 n b = (ok, b')"
  shows "tb_tokens b' \<le> tb_capacity b"
proof -
  let ?b = "refill fl t1 t2 b"
  have "tb_tokens ?b - n \<le> tb_capacity b" using refill_spec(4)[of fl t1 t2 b] assms(3) by simp
  then have "fl (tb_tokens ?b - n) \<le> fl (tb_capacity b)" using assms(1) by (auto simp: round_ok_def dest: monoD)
  then show ?thesis
    using assms(2,4) refill_spec(4)[of fl t1 t2 b] by (auto simp: try_consume_def Let_def split: if_splits)
qed

text \<open>A run of attempts, each with its two clock readings.\<close>

primrec consume_run :: "(rat \<Rightarrow> rat) \<Rightarrow> (rat \<times> rat) list \<Rightarrow> bucket \<Rightarrow> nat \<times> bucket" where
  "consume_run fl [] b = (0, b)"
| "consume_run fl (t # ts) b =
     (let (ok, b1) = try_consume fl (fst t) (snd t) 1 b; (k, b2) = consume_run fl ts b1
      in ((if ok then 1 else 0) + k, b2))"

text \<open>Clock readings never run backwards.\<close>

fun clock_ok :: "rat \<Rightarrow> (rat \<times> rat) list \<Rightarrow> bool" where
  "clock_ok now [] = True"
| "clock_ok now ((t1, t2) # ts) = (now \<le> t1 \<and> t1 \<le> t2 \<and> clock_ok t2 ts)"

fun clock_end :: "rat \<Rightarrow> (rat \<times> rat) list \<Rightarrow> rat" where
  "clock_end now [] = now"
| "clock_end now ((t1, t2) # ts) = clock_end t2 ts"

lemma clock_ok_earlier: "clock_ok now ts \<Longrightarrow> t \<le> now \<Longrightarrow> clock_ok t ts"
  by (induction now ts rule: clock_ok.induct) auto

lemma consume_step_bound:
  assumes "try_consume (\<lambda>x. x) t1 t2 1 b = (ok, b1)" "tb_last b \<le> t1" "t1 \<le> t2" "0 \<le> tb_rate b"
  shows "(if ok then 1 else 0) + tb_tokens b1 \<le> tb_tokens b + tb_rate b * (t2 - tb_last b)"
proof -
  have "(t1 - tb_last b) * tb_rate b \<le> tb_rate b * (t2 - tb_last b)"
    using assms(3,4) by (simp add: mult.commute mult_left_mono)
  moreover have "tb_tokens (refill (\<lambda>x. x) t1 t2 b) \<le> tb_tokens b + (t1 - tb_last b) * tb_rate b"
    using assms(2) by (simp add: refill_def Let_def)
  ultimately show ?thesis
    using assms(1) by (auto simp: try_consume_def Let_def split: if_splits)
qed

lemma consume_run_bound:
  assumes "clock_ok (tb_last b) ts" "bucket_ok b" "consume_run (\<lambda>x. x) ts b = (k, b')"
  shows "rat_of_nat k + tb_tokens b' \<le> tb_tokens b + tb_rate b * (clock_end (tb_last b) ts - tb_last b) \<and>
    bucket_ok b'"
  using assms
proof (induction ts arbitrary: b k b')
  case Nil
  then show ?case by simp
next
  case (Cons t ts)
  obtain t1 t2 where t: "t = (t1, t2)" by (cases t)
  obtain ok b1 where s: "try_consume (\<lambda>x. x) t1 t2 1 b = (ok, b1)" by (cases "try_consume (\<lambda>x. x) t1 t2 1 b")
  obtain k1 b2 where r: "consume_run (\<lambda>x. x) ts b1 = (k1, b2)" by (cases "consume_run (\<lambda>x. x) ts b1")
  have b1: "bucket_ok b1" "tb_rate b1 = tb_rate b" "tb_last b1 = t2"
    using bucket_ok_consume[OF _ Cons.prems(2) s] by (simp_all add: round_ok_def monoI)
  have clk: "tb_last b \<le> t1" "t1 \<le> t2" "clock_ok (tb_last b1) ts"
    using Cons.prems(1) b1(3) by (simp_all add: t)
  have ih: "rat_of_nat k1 + tb_tokens b2 \<le> tb_tokens b1 + tb_rate b * (clock_end t2 ts - t2) \<and> bucket_ok b2"
    using Cons.IH[OF clk(3) b1(1) r] unfolding b1(2,3) .
  have "consume_run (\<lambda>x. x) (t # ts) b = ((if ok then 1 else 0) + k1, b2)"
    by (simp only: consume_run.simps t fst_conv snd_conv s r Let_def split_conv)
  then have kb: "k = (if ok then 1 else 0) + k1" "b' = b2" using Cons.prems(3) by simp_all
  have "(if ok then 1 else 0) + tb_tokens b1 \<le> tb_tokens b + tb_rate b * (t2 - tb_last b)"
    by (rule consume_step_bound[OF s clk(1,2)]) (use Cons.prems(2) in \<open>simp add: bucket_ok_def\<close>)
  moreover have "tb_rate b * (t2 - tb_last b) + tb_rate b * (clock_end t2 ts - t2) =
      tb_rate b * (clock_end t2 ts - tb_last b)" by (simp add: algebra_simps)
  ultimately show ?case using ih unfolding kb t by auto
qed

end
