(* ===== verification/Gateway.thy ===== *)
theory Gateway
  imports Node Rate_Limit
begin

text \<open>
  \<open>server/src/ws.rs\<close>: the WebSocket gateway. The shared state is a record; each operation is the
  composition of the blocks the source runs under its lock. A client connection is a numbered
  channel: sending on it succeeds while its receiver is alive, and what was sent is logged.
  Commands to the P2P node are logged in order.
\<close>

definition PROFILE_SUCCESS :: bytes where "PROFILE_SUCCESS = [0xFE, 0x00, 0x00]"
definition PROFILE_OCCUPIED :: bytes where "PROFILE_OCCUPIED = [0xFF, 0x00, 0x01]"
definition RATE_LIMIT_STORE_PER_SEC :: rat where "RATE_LIMIT_STORE_PER_SEC = 10"
definition RATE_LIMIT_LOOKUP_PER_SEC :: rat where "RATE_LIMIT_LOOKUP_PER_SEC = 1"
definition MAX_DELIVERED_HASHES :: nat where "MAX_DELIVERED_HASHES = 4096"

record 'db gateway =
  gw_clients :: "bytes \<rightharpoonup> nat list"
  gw_p2p_tx :: bool  \<comment> \<open>a command channel is installed\<close>
  gw_p2p_connected :: bool
  gw_limiters :: "bytes \<rightharpoonup> bucket \<times> bucket"
  gw_delivered :: "bytes \<rightharpoonup> hash_set"
  gw_mailbox :: bool  \<comment> \<open>a mailbox manager is installed\<close>
  gw_db :: 'db
  gw_alive :: "nat \<Rightarrow> bool"  \<comment> \<open>receivers that still accept\<close>
  gw_sent :: "(nat \<times> bytes) list"  \<comment> \<open>accepted sends, oldest first\<close>
  gw_cmds :: "node_command list"  \<comment> \<open>commands sent to the node, oldest first\<close>

record 'db gw_env =
  ge_wire :: wire
  ge_sled :: "'db sled"
  ge_round :: "rat \<Rightarrow> rat"

definition payload_hash :: "wire \<Rightarrow> bytes \<Rightarrow> u64" where
  "payload_hash W d = w_hash W d"

definition hashes_of :: "(bytes \<rightharpoonup> hash_set) \<Rightarrow> bytes \<Rightarrow> hash_set" where
  "hashes_of m user = (case m user of None \<Rightarrow> [] | Some s \<Rightarrow> s)"

definition send_cmd :: "node_command \<Rightarrow> 'db gateway \<Rightarrow> 'db gateway" where
  "send_cmd c g = (if gw_p2p_tx g then g\<lparr>gw_cmds := gw_cmds g @ [c]\<rparr> else g)"

text \<open>Sending to every channel of a list; the flag says whether some receiver accepted.\<close>

definition send_all :: "nat list \<Rightarrow> bytes \<Rightarrow> 'db gateway \<Rightarrow> bool \<times> 'db gateway" where
  "send_all chans d g =
     (let live = filter (gw_alive g) chans in
      (live \<noteq> [], g\<lparr>gw_sent := gw_sent g @ map (\<lambda>ch. (ch, d)) live\<rparr>))"


section \<open>Duplicate suppression\<close>

definition check_and_mark_delivered ::
    "wire \<Rightarrow> (bytes \<rightharpoonup> hash_set) \<Rightarrow> bytes \<Rightarrow> bytes \<Rightarrow> bool \<times> (bytes \<rightharpoonup> hash_set)" where
  "check_and_mark_delivered W delivered user payload =
     (let h = payload_hash W payload; hashes = hashes_of delivered user in
      if h \<in> set hashes then (False, delivered(user \<mapsto> hashes))
      else let kept = (if length hashes \<ge> MAX_DELIVERED_HASHES
                       then hs_collect (drop (MAX_DELIVERED_HASHES div 2) (sort hashes)) else hashes)
        in (True, delivered(user \<mapsto> hs_insert h kept)))"

definition persist_delivered_set :: "'db gw_env \<Rightarrow> bytes \<Rightarrow> 'db gateway \<Rightarrow> 'db gateway" where
  "persist_delivered_set E user g =
     (if \<not> gw_mailbox g then g
      else case gw_delivered g user of
             None \<Rightarrow> g
           | Some hashes \<Rightarrow>
               g\<lparr>gw_db := save_delivered_hashes (ge_wire E) (ge_sled E) (gw_db g) user hashes\<rparr>)"


section \<open>Relaying\<close>

definition check_rate_limit_store ::
    "(rat \<Rightarrow> rat) \<Rightarrow> rat \<times> rat \<Rightarrow> bytes \<Rightarrow> 'db gateway \<Rightarrow> bool \<times> 'db gateway" where
  "check_rate_limit_store fl clk client g =
     (case gw_limiters g client of
        None \<Rightarrow> (True, g)
      | Some (store_bucket, lookup_bucket) \<Rightarrow>
          (let (ok, b) = try_consume fl (fst clk) (snd clk) 1 store_bucket
           in (ok, g\<lparr>gw_limiters := (gw_limiters g)(client \<mapsto> (b, lookup_bucket))\<rparr>)))"

text \<open>The recipient and payload of a relay frame, when it is well-formed.\<close>

definition parse_relay :: "bytes \<Rightarrow> (bytes \<times> bytes) option" where
  "parse_relay d =
     (if length d < 2 then None
      else let id_len = unat (le_u16 [d ! 0, d ! 1]) in
        if id_len = 0 \<or> length d < 2 + id_len then None
        else let payload = drop (2 + id_len) d in
          if payload = [] then None else Some (slice 2 (2 + id_len) d, payload))"

definition forward_frame :: "bytes \<Rightarrow> bytes \<Rightarrow> bytes" where
  "forward_frame sender payload = u16_le (word_of_nat (length sender)) @ sender @ payload"

text \<open>Local delivery: whether it counts as delivered, whether it was a duplicate.\<close>

definition deliver_local :: "'db gw_env \<Rightarrow> bytes \<Rightarrow> bytes \<Rightarrow> 'db gateway \<Rightarrow> (bool \<times> bool) \<times> 'db gateway" where
  "deliver_local E recipient fwd g =
     (case gw_clients g recipient of
        None \<Rightarrow> ((False, False), g)
      | Some senders \<Rightarrow>
          (let h = payload_hash (ge_wire E) fwd in
           if h \<in> set (hashes_of (gw_delivered g) recipient) then ((True, True), g)
           else let (ok, g1) = send_all senders fwd g in
             if ok then ((True, False),
                  g1\<lparr>gw_delivered := (gw_delivered g1)(recipient \<mapsto>
                       hs_insert h (hashes_of (gw_delivered g1) recipient))\<rparr>)
             else ((False, False), g1)))"

definition relay_or_p2p :: "'db gw_env \<Rightarrow> rat \<times> rat \<Rightarrow> bytes \<Rightarrow> bytes \<Rightarrow> 'db gateway \<Rightarrow> 'db gateway" where
  "relay_or_p2p E clk sender d g =
     (case parse_relay d of
        None \<Rightarrow> g
      | Some (recipient, payload) \<Rightarrow>
          (let (allowed, g1) = check_rate_limit_store (ge_round E) clk sender g in
           if \<not> allowed then g1
           else let fwd = forward_frame sender payload;
                    ((delivered, duplicate), g2) = deliver_local E recipient fwd g1 in
             if delivered then (if duplicate then g2 else persist_delivered_set E recipient g2)
             else send_cmd (MailboxStore recipient sender payload)
                    (send_cmd (Publish (w_hex (ge_wire E) recipient) fwd) g2)))"


section \<open>Connecting and disconnecting\<close>

text \<open>One record of the backup during the drain: keys to remove, number of new deliveries.\<close>

definition drain_record ::
    "'db gw_env \<Rightarrow> bytes \<Rightarrow> bytes \<times> bytes \<Rightarrow> (bytes list \<times> nat) \<times> 'db gateway \<Rightarrow>
     (bytes list \<times> nat) \<times> 'db gateway" where
  "drain_record E session rec st =
     (let ((to_remove, new_count), g) = st; (key, payload) = rec;
          h = payload_hash (ge_wire E) payload in
      if h \<in> set (hashes_of (gw_delivered g) session) then ((to_remove @ [key], new_count), g)
      else case gw_clients g session of
             None \<Rightarrow> ((to_remove, new_count), g)
           | Some senders \<Rightarrow>
               (let (accepted, g1) = send_all senders payload g in
                if accepted then ((to_remove @ [key], Suc new_count),
                     g1\<lparr>gw_delivered := (gw_delivered g1)(session \<mapsto>
                          hs_insert h (hashes_of (gw_delivered g1) session))\<rparr>)
                else ((to_remove, new_count), g1)))"

definition drain_local :: "'db gw_env \<Rightarrow> bytes \<Rightarrow> 'db gateway \<Rightarrow> 'db gateway" where
  "drain_local E session g =
     (if \<not> gw_mailbox g then g
      else let (db1, pend) = read_sled_backup (ge_wire E) (ge_sled E) (gw_db g) session;
               ((to_remove, new_count), g1) =
                 fold (drain_record E session) pend (([], 0), g\<lparr>gw_db := db1\<rparr>);
               g2 = (if 0 < new_count then persist_delivered_set E session g1 else g1)
        in if to_remove = [] then g2
           else g2\<lparr>gw_db := remove_sled_records (ge_sled E) (gw_db g2) to_remove\<rparr>)"

definition register_client ::
    "'db gw_env \<Rightarrow> rat \<Rightarrow> bytes \<Rightarrow> nat \<Rightarrow> 'db gateway \<Rightarrow> 'db gateway" where
  "register_client E now session ch g =
     (let g1 = send_cmd (Subscribe (w_hex (ge_wire E) session)) g;
          g2 = g1\<lparr>gw_limiters := (gw_limiters g1)(session \<mapsto>
                 (bucket_new now RATE_LIMIT_STORE_PER_SEC RATE_LIMIT_STORE_PER_SEC,
                  bucket_new now RATE_LIMIT_LOOKUP_PER_SEC RATE_LIMIT_LOOKUP_PER_SEC))\<rparr>;
          persisted = (if gw_mailbox g2
                       then load_delivered_hashes (ge_wire E) (ge_sled E) (gw_db g2) session else []);
          g3 = g2\<lparr>gw_delivered := (gw_delivered g2)(session \<mapsto> hs_collect persisted)\<rparr>;
          senders = (case gw_clients g3 session of None \<Rightarrow> [] | Some s \<Rightarrow> s)
      in g3\<lparr>gw_clients := (gw_clients g3)(session \<mapsto> senders @ [ch])\<rparr>)"

text \<open>The registration frame is refused when it is empty; otherwise steps 1 to 3 run in order.\<close>

definition connect_client ::
    "'db gw_env \<Rightarrow> rat \<Rightarrow> bytes \<Rightarrow> nat \<Rightarrow> 'db gateway \<Rightarrow> 'db gateway" where
  "connect_client E now session ch g =
     (if session = [] then g
      else send_cmd (MailboxRetrieve session) (drain_local E session (register_client E now session ch g)))"

text \<open>Dropping the closed senders of a session, and the entry when none is left.\<close>

definition prune_client :: "bytes \<Rightarrow> 'db gateway \<Rightarrow> 'db gateway" where
  "prune_client session g =
     (case gw_clients g session of
        None \<Rightarrow> g
      | Some senders \<Rightarrow>
          (let live = filter (gw_alive g) senders in
           g\<lparr>gw_clients := (gw_clients g)(session := (if live = [] then None else Some live))\<rparr>))"

definition disconnect_client :: "'db gw_env \<Rightarrow> bytes \<Rightarrow> 'db gateway \<Rightarrow> 'db gateway" where
  "disconnect_client E session g =
     (let g1 = persist_delivered_set E session g in
      prune_client session
        (g1\<lparr>gw_limiters := (gw_limiters g1)(session := None),
            gw_delivered := (gw_delivered g1)(session := None)\<rparr>))"


section \<open>Profile operations\<close>

text \<open>
  What the handlers see of the node: whether its command channel is open, the answer to each
  lookup (no answer within ten seconds is the answer \<open>None\<close>) and the two store commands, with
  \<open>None\<close> for a channel that is closed by then.
\<close>

record 'n profile_ops =
  po_open :: "'n \<Rightarrow> bool"
  po_lookup :: "'n \<Rightarrow> bytes \<Rightarrow> bytes option"
  po_token :: "'n \<Rightarrow> bytes \<Rightarrow> bytes option"
  po_store :: "bytes \<Rightarrow> bytes \<Rightarrow> 'n \<Rightarrow> 'n option"
  po_token_store :: "bytes \<Rightarrow> bytes \<Rightarrow> 'n \<Rightarrow> 'n option"

type_synonym 'n response = "bytes option \<times> 'n"

definition handle_register_profile :: "'n profile_ops \<Rightarrow> bytes \<Rightarrow> bytes \<Rightarrow> 'n \<Rightarrow> 'n response" where
  "handle_register_profile P token payload n =
     (if length payload < 32 \<or> \<not> po_open P n then (None, n)
      else let index = take 32 payload; blob = drop 32 payload in
        if po_lookup P n index \<noteq> None \<and> po_token P n index \<noteq> None then (Some PROFILE_OCCUPIED, n)
        else case po_store P index blob n of
               None \<Rightarrow> (None, n)
             | Some n1 \<Rightarrow>
                 (case po_token_store P index token n1 of
                    None \<Rightarrow> (None, n1)
                  | Some n2 \<Rightarrow> (Some (PROFILE_SUCCESS @ token), n2)))"

definition handle_lookup_profile :: "'n profile_ops \<Rightarrow> bytes \<Rightarrow> 'n \<Rightarrow> 'n response" where
  "handle_lookup_profile P payload n =
     (if length payload < 32 \<or> \<not> po_open P n then (None, n)
      else case po_lookup P n (take 32 payload) of
             Some d \<Rightarrow> (Some ([0xFE, 0x01] @ u16_le (word_of_nat (length d)) @ d), n)
           | None \<Rightarrow> (Some [0xFF, 0x01, 0x00], n))"

definition handle_unregister_profile :: "'n \<Rightarrow> 'n response" where
  "handle_unregister_profile n = (Some [0xFF, 0x02, 0x00], n)"

definition handle_update_profile :: "'n profile_ops \<Rightarrow> bytes \<Rightarrow> 'n \<Rightarrow> 'n response" where
  "handle_update_profile P payload n =
     (if length payload < 32 + 32 then (None, n)
      else let index = take 32 payload; presented = slice 32 64 payload; new_blob = drop 64 payload in
        if new_blob = [] then (None, n)
        else case po_token P n index of
               None \<Rightarrow> (Some [0xFF, 0x03, 0x02], n)
             | Some tok \<Rightarrow>
                 (if tok \<noteq> presented then (Some [0xFF, 0x03, 0x01], n)
                  else case po_store P index new_blob n of
                         None \<Rightarrow> (None, n)
                       | Some n1 \<Rightarrow> (Some [0xFE, 0x03, 0x00], n1)))"

definition profile_response :: "'n profile_ops \<Rightarrow> bytes \<Rightarrow> u8 \<Rightarrow> bytes \<Rightarrow> 'n \<Rightarrow> 'n response" where
  "profile_response P token opcode payload n =
     (if opcode = 0x01 then handle_register_profile P token payload n
      else if opcode = 0x02 then handle_lookup_profile P payload n
      else if opcode = 0x03 then handle_unregister_profile n
      else if opcode = 0x04 then handle_update_profile P payload n
      else (None, n))"

text \<open>\<open>token\<close> is the random value a registration of this call would mint.\<close>

definition handle_profile_operation ::
    "'n profile_ops \<Rightarrow> bytes \<Rightarrow> bytes \<Rightarrow> u8 \<Rightarrow> bytes \<Rightarrow> 'n \<Rightarrow> 'db gateway \<Rightarrow> 'n \<times> 'db gateway" where
  "handle_profile_operation P token client opcode payload n g =
     (if \<not> gw_p2p_tx g \<and> opcode \<noteq> 0x03 then (n, g)
      else case profile_response P token opcode payload n of
             (None, n') \<Rightarrow> (n', g)
           | (Some d, n') \<Rightarrow>
               (case gw_clients g client of
                  None \<Rightarrow> (n', g)
                | Some senders \<Rightarrow> (n', snd (send_all senders d g))))"

text \<open>Step 4: one binary message of a registered client.\<close>

definition handle_client_message ::
    "'db gw_env \<Rightarrow> 'n profile_ops \<Rightarrow> rat \<times> rat \<Rightarrow> bytes \<Rightarrow> bytes \<Rightarrow> bytes \<Rightarrow> 'n \<Rightarrow> 'db gateway \<Rightarrow> 'n \<times> 'db gateway" where
  "handle_client_message E P clk token session d n g =
     (if 2 \<le> length d \<and> d ! 0 = 0x00 then handle_profile_operation P token session (d ! 1) (drop 2 d) n g
      else (n, relay_or_p2p E clk session d g))"

definition health_ok :: "'db gateway \<Rightarrow> bool" where
  "health_ok g = gw_p2p_connected g"

end
