(* ===== verification/Events.thy ===== *)
theory Events
  imports Gateway
begin

text \<open>
  \<open>server/src/main.rs\<close>: the handler of the node's events, which delivers gossip messages and
  retrieved mailbox records to connected clients, the command line, and what \<open>main\<close> makes of both at
  startup.
\<close>

section \<open>Node events\<close>

definition on_message_received ::
    "'db gw_env \<Rightarrow> bytes \<Rightarrow> bytes \<Rightarrow> 'db gateway \<Rightarrow> 'db gateway" where
  "on_message_received E topic d g =
     (if topic = [] then g
      else case w_unhex (ge_wire E) topic of
             None \<Rightarrow> g
           | Some recipient \<Rightarrow>
               (case gw_clients g recipient of
                  None \<Rightarrow> g
                | Some senders \<Rightarrow>
                    (let (new, delivered) = check_and_mark_delivered (ge_wire E) (gw_delivered g) recipient d;
                         g1 = g\<lparr>gw_delivered := delivered\<rparr>
                     in if new then persist_delivered_set E recipient (snd (send_all senders d g1))
                        else g1)))"

text \<open>A message without a topic goes to every connected client, in the map's order.\<close>

definition on_broadcast :: "bytes list \<Rightarrow> bytes \<Rightarrow> 'db gateway \<Rightarrow> 'db gateway" where
  "on_broadcast users d g =
     fold (\<lambda>u h. snd (send_all (case gw_clients h u of None \<Rightarrow> [] | Some s \<Rightarrow> s) d h)) users g"

record 'db retrieval =
  rv_remove :: "bytes list"
  rv_delivered :: nat
  rv_dupes :: nat

text \<open>A record of the local backup: removed when some client accepted it or when it is a duplicate.\<close>

definition deliver_backup ::
    "'db gw_env \<Rightarrow> bytes \<Rightarrow> nat list \<Rightarrow> bytes \<times> bytes \<Rightarrow> 'db retrieval \<times> 'db gateway \<Rightarrow>
     'db retrieval \<times> 'db gateway" where
  "deliver_backup E user senders rec st =
     (let (r, g) = st; (key, payload) = rec;
          (new, delivered) = check_and_mark_delivered (ge_wire E) (gw_delivered g) user payload;
          g1 = g\<lparr>gw_delivered := delivered\<rparr> in
      if new then
        (let (accepted, g2) = send_all senders payload g1 in
         if accepted then (r\<lparr>rv_delivered := Suc (rv_delivered r), rv_remove := rv_remove r @ [key]\<rparr>, g2)
         else (r, g2))
      else (r\<lparr>rv_dupes := Suc (rv_dupes r), rv_remove := rv_remove r @ [key]\<rparr>, g1))"

definition deliver_fetched ::
    "'db gw_env \<Rightarrow> bytes \<Rightarrow> nat list \<Rightarrow> bytes \<Rightarrow> 'db retrieval \<times> 'db gateway \<Rightarrow> 'db retrieval \<times> 'db gateway" where
  "deliver_fetched E user senders payload st =
     (let (r, g) = st;
          (new, delivered) = check_and_mark_delivered (ge_wire E) (gw_delivered g) user payload;
          g1 = g\<lparr>gw_delivered := delivered\<rparr> in
      if new then (r\<lparr>rv_delivered := Suc (rv_delivered r)\<rparr>, snd (send_all senders payload g1))
      else (r\<lparr>rv_dupes := Suc (rv_dupes r)\<rparr>, g1))"

definition on_mailbox_retrieved ::
    "'db gw_env \<Rightarrow> bytes \<Rightarrow> bytes list \<Rightarrow> 'db gateway \<Rightarrow> 'db gateway" where
  "on_mailbox_retrieved E user messages g =
     (let W = ge_wire E; S = ge_sled E;
          payloads = snd (handle_retrieval_result W [] user messages);
          (db1, records) = (if payloads = [] then read_sled_backup W S (gw_db g) user else (gw_db g, []));
          g0 = g\<lparr>gw_db := db1\<rparr> in
      if payloads = [] \<and> records = [] then g0
      else case gw_clients g0 user of
             None \<Rightarrow> g0
           | Some senders \<Rightarrow>
               (let (r1, g1) = fold (deliver_backup E user senders) records
                                 (\<lparr>rv_remove = [], rv_delivered = 0, rv_dupes = 0\<rparr>, g0);
                    (r2, g2) = fold (deliver_fetched E user senders) payloads (r1, g1);
                    g3 = (if 0 < rv_delivered r2 then
                            (case gw_delivered g2 user of
                               None \<Rightarrow> g2
                             | Some hashes \<Rightarrow> g2\<lparr>gw_db := save_delivered_hashes W S (gw_db g2) user hashes\<rparr>)
                          else g2)
                in if rv_remove r2 = [] then g3
                   else g3\<lparr>gw_db := remove_sled_records S (gw_db g3) (rv_remove r2)\<rparr>))"

text \<open>The handler owns its command channel, whatever the shared state holds.\<close>

definition set_connected_bootstrap :: "'db gateway \<Rightarrow> 'db gateway" where
  "set_connected_bootstrap g = g\<lparr>gw_p2p_connected := True, gw_cmds := gw_cmds g @ [Bootstrap]\<rparr>"

definition handle_p2p_event :: "'db gw_env \<Rightarrow> bytes list \<Rightarrow> node_event \<Rightarrow> 'db gateway \<Rightarrow> 'db gateway" where
  "handle_p2p_event E users ev g =
     (case ev of
        MessageReceived from topic d \<Rightarrow>
          (if topic \<noteq> [] then on_message_received E topic d g else on_broadcast users d g)
      | MailboxRetrieved user messages \<Rightarrow> on_mailbox_retrieved E user messages g
      | PeerDiscovered peer \<Rightarrow> set_connected_bootstrap g
      | ListeningOn addr \<Rightarrow> set_connected_bootstrap g)"


section \<open>The command line\<close>

datatype server_mode = Plain | Tls string string

record cli_args =
  ca_ws_port :: nat
  ca_p2p_listen :: string
  ca_bootstrap :: "string list"
  ca_mode :: server_mode

record cli_env =
  ev_port :: "string option"
  ev_p2p_listen :: "string option"
  ev_bootstrap :: "string option"
  ev_cert :: "string option"
  ev_key :: "string option"

text \<open>How the process ends instead of starting: help, a rejected argument, or a panic.\<close>

datatype cli_exit = ExitHelp | ExitUnknown string | ExitMissingValue string | ExitBadPort string | ExitCertKey

record cli_state =
  cs_port :: nat
  cs_listen :: string
  cs_bootstrap :: "string list"
  cs_cert :: "string option"
  cs_key :: "string option"

definition is_space :: "char \<Rightarrow> bool" where
  "is_space c \<longleftrightarrow> c \<in> {CHR '' '', CHR 0x09, CHR 0x0A, CHR 0x0B, CHR 0x0C, CHR 0x0D}"

fun split_spaces :: "string \<Rightarrow> string \<Rightarrow> string list" where
  "split_spaces acc [] = (if acc = [] then [] else [rev acc])"
| "split_spaces acc (c # cs) =
     (if is_space c then (if acc = [] then split_spaces [] cs else rev acc # split_spaces [] cs)
      else split_spaces (c # acc) cs)"

definition cli_defaults :: "cli_env \<Rightarrow> cli_state" where
  "cli_defaults env =
     \<lparr>cs_port = (case Option.bind (ev_port env) (parse_unsigned 16) of None \<Rightarrow> 9000 | Some p \<Rightarrow> p),
      cs_listen = (case ev_p2p_listen env of None \<Rightarrow> ''/ip4/0.0.0.0/tcp/0'' | Some l \<Rightarrow> l),
      cs_bootstrap = (case ev_bootstrap env of None \<Rightarrow> [] | Some s \<Rightarrow> split_spaces [] s),
      cs_cert = ev_cert env, cs_key = ev_key env\<rparr>"

fun cli_flags :: "string list \<Rightarrow> cli_state \<Rightarrow> cli_exit + cli_state" where
  "cli_flags [] s = Inr s"
| "cli_flags (a # as) s =
     (if a = ''--help'' \<or> a = ''-h'' then Inl ExitHelp
      else if a \<in> {''--port'', ''--listen-p2p'', ''--bootstrap'', ''--cert'', ''--key''} then
        (case as of
           [] \<Rightarrow> Inl (ExitMissingValue a)
         | v # rest \<Rightarrow>
             (if a = ''--port'' then
                (case parse_unsigned 16 v of
                   None \<Rightarrow> Inl (ExitBadPort v)
                 | Some p \<Rightarrow> cli_flags rest (s\<lparr>cs_port := p\<rparr>))
              else if a = ''--listen-p2p'' then cli_flags rest (s\<lparr>cs_listen := v\<rparr>)
              else if a = ''--bootstrap'' then cli_flags rest (s\<lparr>cs_bootstrap := cs_bootstrap s @ [v]\<rparr>)
              else if a = ''--cert'' then cli_flags rest (s\<lparr>cs_cert := Some v\<rparr>)
              else cli_flags rest (s\<lparr>cs_key := Some v\<rparr>)))
      else Inl (ExitUnknown a))"

definition cli_parse :: "cli_env \<Rightarrow> string list \<Rightarrow> cli_exit + cli_args" where
  "cli_parse env args =
     res_bind (cli_flags args (cli_defaults env)) (\<lambda>s.
       case (cs_cert s, cs_key s) of
         (Some c, Some k) \<Rightarrow>
           Inr \<lparr>ca_ws_port = cs_port s, ca_p2p_listen = cs_listen s, ca_bootstrap = cs_bootstrap s,
                ca_mode = Tls c k\<rparr>
       | (None, None) \<Rightarrow>
           Inr \<lparr>ca_ws_port = cs_port s, ca_p2p_listen = cs_listen s, ca_bootstrap = cs_bootstrap s,
                ca_mode = Plain\<rparr>
       | _ \<Rightarrow> Inl ExitCertKey)"

text \<open>The lines of the downloaded bootstrap list that are candidates.\<close>

definition trim_spaces :: "string \<Rightarrow> string" where
  "trim_spaces s = rev (dropWhile is_space (rev (dropWhile is_space s)))"

definition bootstrap_candidates :: "string list \<Rightarrow> string list" where
  "bootstrap_candidates ls =
     filter (\<lambda>l. l \<noteq> [] \<and> hd l \<noteq> CHR ''#'') (map trim_spaces ls)"

text \<open>
  Without addresses on the command line one candidate of the downloaded list is taken. The body of
  the list (\<open>None\<close> when the download fails) and the random pick are parameters.
\<close>

definition fetch_bootstrap_nodes :: "string list option \<Rightarrow> (string list \<Rightarrow> string) \<Rightarrow> string list" where
  "fetch_bootstrap_nodes body pick =
     (case body of
        None \<Rightarrow> []
      | Some ls \<Rightarrow> (let addrs = bootstrap_candidates ls in if addrs = [] then [] else [pick addrs]))"


section \<open>Startup\<close>

text \<open>The addresses that parse are dialled in order; \<open>parse\<close> is libp2p's.\<close>

definition bootstrap_dials ::
    "(string \<Rightarrow> bytes option) \<Rightarrow> cli_args \<Rightarrow> string list option \<Rightarrow> (string list \<Rightarrow> string) \<Rightarrow> node_command list" where
  "bootstrap_dials parse args body pick =
     (let addrs = (if ca_bootstrap args = [] then fetch_bootstrap_nodes body pick else ca_bootstrap args)
      in List.map_filter (\<lambda>a. map_option Dial (parse a)) addrs)"

definition gateway_start :: "'db \<Rightarrow> (nat \<Rightarrow> bool) \<Rightarrow> node_command list \<Rightarrow> 'db gateway" where
  "gateway_start db alive dials =
     \<lparr>gw_clients = Map.empty, gw_p2p_tx = True, gw_p2p_connected = False, gw_limiters = Map.empty,
      gw_delivered = Map.empty, gw_mailbox = True, gw_db = db, gw_alive = alive, gw_sent = [],
      gw_cmds = dials\<rparr>"

end
