(* ===== verification/Server.thy ===== *)
theory Server
  imports Events Node_Props
begin

text \<open>
  The running server: the gateway (\<open>ws.rs\<close>), the node's event loop (\<open>p2p/node.rs\<close>) and the event
  handler (\<open>main.rs\<close>) as tasks that share the database and talk through two queues. A step is one
  action of one task, so runs are all interleavings at the grain at which the model has the
  operations. The log of commands of the gateway and the log of events of the node are the queues:
  a counter says how far the other side has read. Every accepted WebSocket gets a fresh channel,
  and \<open>sv_owner\<close> remembers for which session.
\<close>

record ('db, 'q, 'n) server_env =
  se_gw :: "'db gw_env"
  se_node :: "('db, 'q) node_env"
  se_ops :: "'n profile_ops"

record ('db, 'q, 'n) server =
  sv_gw :: "'db gateway"
  sv_node :: "('db, 'q) node"
  sv_state :: "'q mailbox_state"
  sv_store :: 'n
  sv_taken :: nat  \<comment> \<open>commands the node has received\<close>
  sv_handled :: nat  \<comment> \<open>events that were handled\<close>
  sv_owner :: "nat \<rightharpoonup> bytes"

text \<open>
  What a WebSocket yields: a binary frame, one that is ignored (text, ping, pong), the end of the
  stream or a close frame, or an error.
\<close>

datatype ws_message = Binary bytes | IgnoredFrame | StreamEnd | StreamError

text \<open>The first message registers the client when it is binary and not empty.\<close>

definition register_message ::
    "'db gw_env \<Rightarrow> rat \<Rightarrow> nat \<Rightarrow> ws_message \<Rightarrow> 'db gateway \<Rightarrow> bytes option \<times> 'db gateway" where
  "register_message G now ch msg g =
     (case msg of
        Binary session \<Rightarrow>
          if session = [] then (None, g) else (Some session, connect_client G now session ch g)
      | IgnoredFrame \<Rightarrow> (None, g)
      | StreamEnd \<Rightarrow> (None, g)
      | StreamError \<Rightarrow> (None, g))"

text \<open>A later message is handled, ignored, or ends the loop, which cleans up.\<close>

definition client_message ::
    "'db gw_env \<Rightarrow> 'n profile_ops \<Rightarrow> rat \<times> rat \<Rightarrow> bytes \<Rightarrow> bytes \<Rightarrow> ws_message \<Rightarrow> 'n \<Rightarrow> 'db gateway \<Rightarrow>
     'n \<times> 'db gateway" where
  "client_message G P clk token session msg n g =
     (case msg of
        Binary d \<Rightarrow> handle_client_message G P clk token session d n g
      | IgnoredFrame \<Rightarrow> (n, g)
      | StreamEnd \<Rightarrow> (n, disconnect_client G session g)
      | StreamError \<Rightarrow> (n, disconnect_client G session g))"

text \<open>
  The actions: a socket opens with its first message; a message of a client arrives; the receiver
  of a channel is dropped; the forwarding task of a session ends; the node's loop takes a tick, a
  swarm event or a command of another task; it takes the gateway's next command; the event
  handler takes the node's next event.
\<close>

datatype 'q server_input =
    Opens rat nat ws_message
  | Says "rat \<times> rat" bytes bytes ws_message
  | Closes nat
  | ForwardEnds bytes
  | Loops nat "bytes list" "'q node_input"
  | Takes nat "bytes list"
  | Reports "bytes list"

definition open_socket ::
    "'db gw_env \<Rightarrow> rat \<Rightarrow> nat \<Rightarrow> ws_message \<Rightarrow> ('db, 'q, 'n) server \<Rightarrow> ('db, 'q, 'n) server" where
  "open_socket G now ch msg s =
     (if sv_owner s ch \<noteq> None then s
      else case register_message G now ch msg (sv_gw s) of
             (None, g) \<Rightarrow> s\<lparr>sv_gw := g\<rparr>
           | (Some session, g) \<Rightarrow> s\<lparr>sv_gw := g, sv_owner := (sv_owner s)(ch \<mapsto> session)\<rparr>)"

definition node_turn ::
    "('db, 'q) node_env \<Rightarrow> nat \<Rightarrow> bytes list \<Rightarrow> 'q node_input \<Rightarrow> ('db, 'q, 'n) server \<Rightarrow>
     ('db, 'q, 'n) server option" where
  "node_turn E now conn inp s =
     map_option (\<lambda>(st, nd). s\<lparr>sv_state := st, sv_node := nd, sv_gw := (sv_gw s)\<lparr>gw_db := nd_db nd\<rparr>\<rparr>)
       (node_step E now conn inp (sv_state s) ((sv_node s)\<lparr>nd_db := gw_db (sv_gw s)\<rparr>))"

definition server_step ::
    "('db, 'q, 'n) server_env \<Rightarrow> 'q server_input \<Rightarrow> ('db, 'q, 'n) server \<Rightarrow> ('db, 'q, 'n) server option" where
  "server_step Z inp s =
     (case inp of
        Opens now ch msg \<Rightarrow> Some (open_socket (se_gw Z) now ch msg s)
      | Says clk token session msg \<Rightarrow>
          (let (n, g) = client_message (se_gw Z) (se_ops Z) clk token session msg (sv_store s) (sv_gw s)
           in Some (s\<lparr>sv_store := n, sv_gw := g\<rparr>))
      | Closes ch \<Rightarrow> Some (s\<lparr>sv_gw := (sv_gw s)\<lparr>gw_alive := (gw_alive (sv_gw s))(ch := False)\<rparr>\<rparr>)
      | ForwardEnds session \<Rightarrow> Some (s\<lparr>sv_gw := prune_client session (sv_gw s)\<rparr>)
      | Loops now conn i \<Rightarrow> node_turn (se_node Z) now conn i s
      | Takes now conn \<Rightarrow>
          (if sv_taken s < length (gw_cmds (sv_gw s)) then
             node_turn (se_node Z) now conn (Command (gw_cmds (sv_gw s) ! sv_taken s))
               (s\<lparr>sv_taken := Suc (sv_taken s)\<rparr>)
           else Some s)
      | Reports users \<Rightarrow>
          (if sv_handled s < length (nd_events (sv_node s)) then
             Some (s\<lparr>sv_gw := handle_p2p_event (se_gw Z) users (nd_events (sv_node s) ! sv_handled s) (sv_gw s),
                     sv_handled := Suc (sv_handled s)\<rparr>)
           else Some s))"

definition server_start ::
    "'db \<Rightarrow> (nat \<Rightarrow> bool) \<Rightarrow> node_command list \<Rightarrow> 'n \<Rightarrow> ('db, 'q) node_env \<Rightarrow> ('db, 'q, 'n) server" where
  "server_start db alive dials n E =
     \<lparr>sv_gw = gateway_start db alive dials, sv_node = dial_persisted E (node_start db), sv_state = Idle,
      sv_store = n, sv_taken = 0, sv_handled = 0, sv_owner = Map.empty\<rparr>"

end
