(* ===== verification/Gateway_Props.thy ===== *)
theory Gateway_Props
  imports Gateway Machine
begin

text \<open>
  What the gateway promises: a relayed message is delivered once to every live connection of its
  recipient or handed to the P2P node; a sender's traffic is bounded by its bucket; the mailbox
  drain delivers each pending payload once and removes exactly what was delivered; and a payload
  delivered before a disconnect is not delivered again after the reconnect.
\<close>

section \<open>Channels and the delivered set\<close>

definition live_channels :: "'db gateway \<Rightarrow> bytes \<Rightarrow> nat list" where
  "live_channels g user =
     (case gw_clients g user of None \<Rightarrow> [] | Some senders \<Rightarrow> filter (gw_alive g) senders)"

lemma live_channels_cong:
  "gw_clients g u = gw_clients h u \<Longrightarrow> gw_alive g = gw_alive h \<Longrightarrow> live_channels g u = live_channels h u"
  by (simp add: live_channels_def split: option.split)

lemma live_channels_known: "live_channels g u \<noteq> [] \<Longrightarrow> gw_clients g u \<noteq> None"
  by (cases "gw_clients g u") (simp_all add: live_channels_def)

text \<open>The sends of one payload to a list of channels.\<close>

definition sends :: "nat list \<Rightarrow> bytes \<Rightarrow> (nat \<times> bytes) list" where
  "sends chans d = map (\<lambda>ch. (ch, d)) chans"

definition env_wf :: "'db gw_env \<Rightarrow> bool" where
  "env_wf E \<longleftrightarrow> sled_ok (ge_sled E) \<and> bincode_ok (ge_wire E)"

text \<open>The set on disk.\<close>

definition persisted :: "'db gw_env \<Rightarrow> 'db gateway \<Rightarrow> bytes \<Rightarrow> u64 list" where
  "persisted E g user = load_delivered_hashes (ge_wire E) (ge_sled E) (gw_db g) user"

lemma send_all_eq:
  "send_all chans d g = (filter (gw_alive g) chans \<noteq> [], g\<lparr>gw_sent := gw_sent g @ sends (filter (gw_alive g) chans) d\<rparr>)"
  by (simp add: send_all_def sends_def Let_def)

lemma persist_fields [simp]:
  "gw_clients (persist_delivered_set E u g) = gw_clients g"
  "gw_sent (persist_delivered_set E u g) = gw_sent g"
  "gw_cmds (persist_delivered_set E u g) = gw_cmds g"
  "gw_delivered (persist_delivered_set E u g) = gw_delivered g"
  "gw_alive (persist_delivered_set E u g) = gw_alive g"
  "gw_mailbox (persist_delivered_set E u g) = gw_mailbox g"
  "gw_limiters (persist_delivered_set E u g) = gw_limiters g"
  "gw_p2p_tx (persist_delivered_set E u g) = gw_p2p_tx g"
  by (simp_all add: persist_delivered_set_def split: option.split)

lemma persisted_after:
  assumes "env_wf E" "gw_mailbox g"
  shows "persisted E (persist_delivered_set E u g) v =
    (case gw_delivered g u of
       None \<Rightarrow> persisted E g v
     | Some hs \<Rightarrow> if v = u then trim_hashes hs else persisted E g v)"
  using assms
  by (simp add: env_wf_def persisted_def persist_delivered_set_def load_save split: option.split)

lemma persist_keeps_mailbox:
  assumes "env_wf E"
  shows "sl_get (ge_sled E) (gw_db (persist_delivered_set E u g)) SLED_MAILBOX_TREE k =
    sl_get (ge_sled E) (gw_db g) SLED_MAILBOX_TREE k"
  using assms
  by (simp add: env_wf_def persist_delivered_set_def save_keeps_mailbox split: option.split)

lemma hashes_of_upd [simp]: "hashes_of (m(u \<mapsto> hs)) v = (if v = u then hs else hashes_of m v)"
  by (simp add: hashes_of_def)

text \<open>Checking a payload: new exactly if unseen, marked afterwards, nobody else's set changed.\<close>

lemma check_and_mark_spec:
  assumes "check_and_mark_delivered W m u p = (new, m')"
  shows "new \<longleftrightarrow> payload_hash W p \<notin> set (hashes_of m u)"
    and "payload_hash W p \<in> set (hashes_of m' u)"
    and "v \<noteq> u \<Longrightarrow> m' v = m v"
    and "set (hashes_of m' u) \<subseteq> insert (payload_hash W p) (set (hashes_of m u))"
    and "distinct (hashes_of m u) \<Longrightarrow> length (hashes_of m u) \<le> MAX_DELIVERED_HASHES \<Longrightarrow>
      distinct (hashes_of m' u) \<and> length (hashes_of m' u) \<le> MAX_DELIVERED_HASHES"
    and "length (hashes_of m u) < MAX_DELIVERED_HASHES \<Longrightarrow>
      set (hashes_of m' u) = insert (payload_hash W p) (set (hashes_of m u))"
proof -
  let ?h = "payload_hash W p" and ?hs = "hashes_of m u"
  have tail: "set (drop n (sort ?hs)) \<subseteq> set ?hs" for n
    using set_drop_subset[of n "sort ?hs"] by simp
  note col = hs_collect_spec[of "drop (MAX_DELIVERED_HASHES div 2) (sort ?hs)"]
  have len: "length (hs_collect (drop (MAX_DELIVERED_HASHES div 2) (sort ?hs))) \<le> MAX_DELIVERED_HASHES div 2"
    if "length ?hs \<le> MAX_DELIVERED_HASHES"
  proof -
    have "length (hs_collect (drop (MAX_DELIVERED_HASHES div 2) (sort ?hs))) =
        card (set (drop (MAX_DELIVERED_HASHES div 2) (sort ?hs)))"
      using col distinct_card by metis
    also have "\<dots> \<le> length (drop (MAX_DELIVERED_HASHES div 2) (sort ?hs))" by (rule card_length)
    finally show ?thesis using that by (simp add: MAX_DELIVERED_HASHES_def)
  qed
  note m = assms[unfolded check_and_mark_delivered_def Let_def]
  show "new \<longleftrightarrow> ?h \<notin> set ?hs" using m by (auto split: if_splits)
  show "?h \<in> set (hashes_of m' u)" using m by (auto split: if_splits)
  show "v \<noteq> u \<Longrightarrow> m' v = m v" using m by (auto split: if_splits)
  show "set (hashes_of m' u) \<subseteq> insert ?h (set ?hs)"
    using m col tail[of "MAX_DELIVERED_HASHES div 2"] by (auto split: if_splits)
  show "distinct (hashes_of m' u) \<and> length (hashes_of m' u) \<le> MAX_DELIVERED_HASHES"
    if "distinct ?hs" "length ?hs \<le> MAX_DELIVERED_HASHES"
    using m col len[OF that(2)] that
    by (auto simp: hs_insert_def MAX_DELIVERED_HASHES_def split: if_splits)
  show "set (hashes_of m' u) = insert ?h (set ?hs)" if "length ?hs < MAX_DELIVERED_HASHES"
    using m that by (auto split: if_splits)
qed


section \<open>Relaying\<close>

lemma rate_limit_frame:
  assumes "check_rate_limit_store fl clk c g = (ok, g1)"
  obtains lim where "g1 = g\<lparr>gw_limiters := lim\<rparr>"
proof -
  have "\<exists>lim. g1 = g\<lparr>gw_limiters := lim\<rparr>"
    using assms
    by (auto simp: check_rate_limit_store_def case_prod_beta Let_def split: option.splits
        intro: exI[of _ "gw_limiters g"])
  then show ?thesis using that by blast
qed

text \<open>The three outcomes of a frame that passed the parser and the limiter.\<close>

lemma relay_fresh:
  assumes "parse_relay d = Some (r, p)" "check_rate_limit_store (ge_round E) clk s g = (True, g1)"
    and "live_channels g r \<noteq> []" "payload_hash (ge_wire E) (forward_frame s p) \<notin> set (hashes_of (gw_delivered g) r)"
  shows "relay_or_p2p E clk s d g = persist_delivered_set E r
    (g1\<lparr>gw_sent := gw_sent g @ sends (live_channels g r) (forward_frame s p),
        gw_delivered := (gw_delivered g)(r \<mapsto>
          hs_insert (payload_hash (ge_wire E) (forward_frame s p)) (hashes_of (gw_delivered g) r))\<rparr>)"
proof -
  obtain lim where g1: "g1 = g\<lparr>gw_limiters := lim\<rparr>" using rate_limit_frame[OF assms(2)] by blast
  obtain ch where "gw_clients g r = Some ch" "filter (gw_alive g) ch \<noteq> []" "live_channels g r = filter (gw_alive g) ch"
    using assms(3) by (auto simp: live_channels_def split: option.splits)
  then show ?thesis
    using assms(1,2,4) by (simp add: relay_or_p2p_def deliver_local_def send_all_eq g1 Let_def)
qed

lemma relay_repeat:
  assumes "parse_relay d = Some (r, p)" "check_rate_limit_store (ge_round E) clk s g = (True, g1)"
    and "gw_clients g r \<noteq> None" "payload_hash (ge_wire E) (forward_frame s p) \<in> set (hashes_of (gw_delivered g) r)"
  shows "relay_or_p2p E clk s d g = g1"
proof -
  obtain lim where g1: "g1 = g\<lparr>gw_limiters := lim\<rparr>" using rate_limit_frame[OF assms(2)] by blast
  then show ?thesis
    using assms by (auto simp: relay_or_p2p_def deliver_local_def Let_def)
qed

lemma relay_away:
  assumes "parse_relay d = Some (r, p)" "check_rate_limit_store (ge_round E) clk s g = (True, g1)"
    and "live_channels g r = []"
    and "gw_clients g r = None \<or> payload_hash (ge_wire E) (forward_frame s p) \<notin> set (hashes_of (gw_delivered g) r)"
  shows "relay_or_p2p E clk s d g =
    send_cmd (MailboxStore r s p) (send_cmd (Publish (w_hex (ge_wire E) r) (forward_frame s p)) g1)"
proof -
  obtain lim where g1: "g1 = g\<lparr>gw_limiters := lim\<rparr>" using rate_limit_frame[OF assms(2)] by blast
  show ?thesis
  proof (cases "gw_clients g r")
    case None
    then show ?thesis using assms(1,2) by (simp add: relay_or_p2p_def deliver_local_def g1 Let_def)
  next
    case (Some ch)
    then have "filter (gw_alive g) ch = []" using assms(3) by (simp add: live_channels_def)
    then show ?thesis
      using assms(1,2,4) Some by (simp add: relay_or_p2p_def deliver_local_def send_all_eq sends_def g1 Let_def)
  qed
qed

lemma relay_refused:
  "parse_relay d = None \<Longrightarrow> relay_or_p2p E clk s d g = g"
  "parse_relay d = Some rp \<Longrightarrow> check_rate_limit_store (ge_round E) clk s g = (False, g1) \<Longrightarrow>
    relay_or_p2p E clk s d g = g1"
  by (simp_all add: relay_or_p2p_def split: prod.split)

lemma relay_clients [simp]:
  "gw_clients (relay_or_p2p E clk s d g) = gw_clients g \<and> gw_alive (relay_or_p2p E clk s d g) = gw_alive g"
proof -
  have rl: "gw_clients (snd (check_rate_limit_store fl clk c h)) = gw_clients h \<and>
      gw_alive (snd (check_rate_limit_store fl clk c h)) = gw_alive h" for fl clk c and h :: "'a gateway"
    by (simp add: check_rate_limit_store_def case_prod_beta Let_def split: option.split)
  have dl: "gw_clients (snd (deliver_local E r f h)) = gw_clients h \<and>
      gw_alive (snd (deliver_local E r f h)) = gw_alive h" for r f h
    by (simp add: deliver_local_def send_all_def Let_def split: option.split)
  have sc: "gw_clients (send_cmd c h) = gw_clients h \<and> gw_alive (send_cmd c h) = gw_alive h" for c and h :: "'a gateway"
    by (simp add: send_cmd_def)
  show ?thesis
    by (simp add: relay_or_p2p_def case_prod_beta Let_def rl dl sc split: option.split)
qed

text \<open>The frame built for a local recipient is the one stored for an offline recipient.\<close>

lemma forward_frame_mailbox: "forward_frame s p = encode_mailbox_message s p"
  by (simp add: forward_frame_def encode_mailbox_message_def)


section \<open>The rate limit\<close>

text \<open>A sender's frames in order, each with its clock readings; how many passed the limiter.\<close>

primrec relay_run ::
    "'db gw_env \<Rightarrow> bytes \<Rightarrow> ((rat \<times> rat) \<times> bytes) list \<Rightarrow> 'db gateway \<Rightarrow> 'db gateway" where
  "relay_run E s [] g = g"
| "relay_run E s (f # fs) g = relay_run E s fs (relay_or_p2p E (fst f) s (snd f) g)"

lemma relay_cost:
  assumes "gw_limiters g s = Some (b, l)" "ge_round E = (\<lambda>x. x)"
  shows "\<exists>ok b'. (parse_relay d \<noteq> None \<longrightarrow> try_consume (\<lambda>x. x) (fst clk) (snd clk) 1 b = (ok, b')) \<and>
    (parse_relay d = None \<longrightarrow> \<not> ok \<and> b' = b) \<and>
    gw_limiters (relay_or_p2p E clk s d g) s = Some (b', l) \<and>
    length (gw_cmds (relay_or_p2p E clk s d g)) \<le> length (gw_cmds g) + (if ok then 2 else 0)"
proof (cases "parse_relay d")
  case None
  then show ?thesis using assms(1) by (intro exI[of _ False] exI[of _ b]) (simp add: relay_refused)
next
  case (Some rp)
  obtain r p where rp: "rp = (r, p)" by (cases rp)
  obtain ok b' where c: "try_consume (\<lambda>x. x) (fst clk) (snd clk) 1 b = (ok, b')"
    by (cases "try_consume (\<lambda>x. x) (fst clk) (snd clk) 1 b")
  let ?g1 = "g\<lparr>gw_limiters := (gw_limiters g)(s \<mapsto> (b', l))\<rparr>"
  have rl: "check_rate_limit_store (ge_round E) clk s g = (ok, ?g1)"
    using assms c by (simp add: check_rate_limit_store_def)
  have dl: "gw_limiters (snd (deliver_local E r f h)) = gw_limiters h \<and>
      gw_cmds (snd (deliver_local E r f h)) = gw_cmds h" for f h
    by (simp add: deliver_local_def send_all_def Let_def split: option.split)
  have sc: "gw_limiters (send_cmd c h) = gw_limiters h \<and> length (gw_cmds (send_cmd c h)) \<le> Suc (length (gw_cmds h))"
    for c and h :: "'a gateway"
    by (simp add: send_cmd_def)
  have sc2: "length (gw_cmds (send_cmd c (send_cmd c' h))) \<le> Suc (Suc (length (gw_cmds h)))" for c c' and h :: "'a gateway"
    by (simp add: send_cmd_def)
  have "gw_limiters (relay_or_p2p E clk s d g) s = Some (b', l) \<and>
      length (gw_cmds (relay_or_p2p E clk s d g)) \<le> length (gw_cmds g) + (if ok then 2 else 0)"
    using Some sc2[of "MailboxStore r s p" "Publish (w_hex (ge_wire E) r) (forward_frame s p)"
        "snd (deliver_local E r (forward_frame s p) ?g1)"]
    by (simp add: relay_or_p2p_def rp rl case_prod_beta Let_def dl sc)
  then show ?thesis using c Some by (intro exI[of _ ok] exI[of _ b']) simp
qed

text \<open>The commands caused by a sender are bounded by the bucket: a burst plus the rate.\<close>

lemma relay_run_bound:
  assumes "gw_limiters g s = Some (b, l)" "ge_round E = (\<lambda>x. x)" "bucket_ok b"
    and "clock_ok (tb_last b) (map fst fs)"
  shows "\<exists>b'. gw_limiters (relay_run E s fs g) s = Some (b', l) \<and> bucket_ok b' \<and>
    rat_of_nat (length (gw_cmds (relay_run E s fs g))) - rat_of_nat (length (gw_cmds g)) + 2 * tb_tokens b' \<le>
      2 * tb_tokens b + 2 * tb_rate b * (clock_end (tb_last b) (map fst fs) - tb_last b)"
  using assms
proof (induction fs arbitrary: g b)
  case Nil
  then show ?case by simp
next
  case (Cons f fs)
  obtain t1 t2 d where f: "f = ((t1, t2), d)" by (metis prod.collapse)
  let ?g = "relay_or_p2p E (t1, t2) s d g"
  obtain ok b' where step: "parse_relay d \<noteq> None \<longrightarrow> try_consume (\<lambda>x. x) t1 t2 1 b = (ok, b')"
    "parse_relay d = None \<longrightarrow> \<not> ok \<and> b' = b" "gw_limiters ?g s = Some (b', l)"
    "length (gw_cmds ?g) \<le> length (gw_cmds g) + (if ok then 2 else 0)"
    using relay_cost[OF Cons.prems(1,2), of d "(t1, t2)"] by auto
  have clk: "tb_last b \<le> t1" "t1 \<le> t2" "clock_ok t2 (map fst fs)" using Cons.prems(4) by (simp_all add: f)
  have rate: "0 \<le> tb_rate b" using Cons.prems(3) by (simp add: bucket_ok_def)
  have nb: "bucket_ok b' \<and> tb_rate b' = tb_rate b \<and> tb_last b' \<le> t2 \<and> clock_ok (tb_last b') (map fst fs) \<and>
      (if ok then 1 else 0) + tb_tokens b' + tb_rate b * (t2 - tb_last b') \<le>
        tb_tokens b + tb_rate b * (t2 - tb_last b)"
  proof (cases "parse_relay d")
    case None
    have "clock_ok (tb_last b) (map fst fs)"
      using clk by (cases fs) (auto intro: order_trans)
    then show ?thesis using None step(2) Cons.prems(3) clk by simp
  next
    case (Some rp)
    then have c: "try_consume (\<lambda>x. x) t1 t2 1 b = (ok, b')" using step(1) by simp
    have "bucket_ok b' \<and> tb_capacity b' = tb_capacity b \<and> tb_rate b' = tb_rate b \<and> tb_last b' = t2"
      by (rule bucket_ok_consume[OF _ Cons.prems(3) c]) (simp add: round_ok_def monoI)
    then show ?thesis using consume_step_bound[OF c clk(1,2) rate] clk by simp
  qed
  define e where "e = clock_end (tb_last b') (map fst fs)"
  obtain b2 where ih: "gw_limiters (relay_run E s fs ?g) s = Some (b2, l)" "bucket_ok b2"
    "rat_of_nat (length (gw_cmds (relay_run E s fs ?g))) - rat_of_nat (length (gw_cmds ?g)) + 2 * tb_tokens b2 \<le>
      2 * tb_tokens b' + 2 * tb_rate b * (e - tb_last b')"
    using Cons.IH[OF step(3) Cons.prems(2), of ] nb by (auto simp: e_def)
  have "e \<le> clock_end t2 (map fst fs)" using nb by (cases fs) (auto simp: e_def)
  then have "tb_rate b * (e - tb_last b') \<le> tb_rate b * (clock_end t2 (map fst fs) - tb_last b')"
    using rate by (intro mult_left_mono) simp_all
  then have e: "tb_rate b * (e - tb_last b') \<le>
      tb_rate b * (clock_end t2 (map fst fs) - t2) + tb_rate b * (t2 - tb_last b')"
    by (simp add: algebra_simps)
  have sum: "tb_rate b * (t2 - tb_last b) + tb_rate b * (clock_end t2 (map fst fs) - t2) =
      tb_rate b * (clock_end t2 (map fst fs) - tb_last b)" by (simp add: algebra_simps)
  have "rat_of_nat (length (gw_cmds ?g)) \<le> rat_of_nat (length (gw_cmds g) + (if ok then 2 else 0))"
    using step(4) of_nat_le_iff by blast
  then have "rat_of_nat (length (gw_cmds ?g)) \<le> rat_of_nat (length (gw_cmds g)) + 2 * (if ok then 1 else 0)"
    by (cases ok) simp_all
  with ih e sum nb have "rat_of_nat (length (gw_cmds (relay_run E s fs ?g))) - rat_of_nat (length (gw_cmds g)) +
      2 * tb_tokens b2 \<le> 2 * tb_tokens b + 2 * (tb_rate b * (clock_end t2 (map fst fs) - tb_last b))"
    by (simp only: mult.assoc) linarith
  then show ?case using ih(1,2) by (simp add: f mult.assoc)
qed


text \<open>What a run leaves of the bucket, and the bound over a period that starts at \<open>t\<close>: its first admitted
  frame finds at most the capacity, however long the sender was silent before.\<close>

lemma relay_step_bucket:
  assumes "gw_limiters g s = Some (b, l)" "ge_round E = (\<lambda>x. x)" "bucket_ok b" "tb_last b \<le> t1" "t1 \<le> t2"
  obtains b' where "gw_limiters (relay_or_p2p E (t1, t2) s d g) s = Some (b', l)" "bucket_ok b'"
    "tb_rate b' = tb_rate b" "tb_capacity b' = tb_capacity b" "tb_last b' \<le> t2"
    "parse_relay d = None \<and> gw_cmds (relay_or_p2p E (t1, t2) s d g) = gw_cmds g \<or>
     tb_last b' = t2 \<and> rat_of_nat (length (gw_cmds (relay_or_p2p E (t1, t2) s d g))) + 2 * tb_tokens b' \<le>
       rat_of_nat (length (gw_cmds g)) + 2 * tb_capacity b"
proof -
  obtain ok b' where step: "parse_relay d \<noteq> None \<longrightarrow> try_consume (\<lambda>x. x) t1 t2 1 b = (ok, b')"
    "parse_relay d = None \<longrightarrow> \<not> ok \<and> b' = b" "gw_limiters (relay_or_p2p E (t1, t2) s d g) s = Some (b', l)"
    "length (gw_cmds (relay_or_p2p E (t1, t2) s d g)) \<le> length (gw_cmds g) + (if ok then 2 else 0)"
    using relay_cost[OF assms(1,2), of d "(t1, t2)"] by auto
  show ?thesis
  proof (cases "parse_relay d")
    case None
    show ?thesis by (rule that[OF step(3)]) (use None step(2) assms(3-5) in \<open>auto simp: relay_refused\<close>)
  next
    case (Some rp)
    then have c: "try_consume (\<lambda>x. x) t1 t2 1 b = (ok, b')" using step(1) by simp
    have k: "bucket_ok b' \<and> tb_capacity b' = tb_capacity b \<and> tb_rate b' = tb_rate b \<and> tb_last b' = t2"
      by (rule bucket_ok_consume[OF _ assms(3) c]) (simp add: round_ok_def monoI)
    have "(if ok then 1 else 0) + tb_tokens b' \<le> tb_capacity b"
      using c refill_spec(4)[of "\<lambda>x. x" t1 t2 b] by (auto simp: try_consume_def Let_def split: if_splits)
    moreover have "rat_of_nat (length (gw_cmds (relay_or_p2p E (t1, t2) s d g))) \<le>
        rat_of_nat (length (gw_cmds g)) + 2 * (if ok then 1 else 0)"
      using step(4) of_nat_mono[OF step(4), where 'a = rat] by (cases ok) simp_all
    ultimately show ?thesis using k by (intro that[OF step(3)]) auto
  qed
qed

lemma relay_run_bucket:
  assumes "gw_limiters g s = Some (b, l)" "ge_round E = (\<lambda>x. x)" "bucket_ok b"
    and "clock_ok (tb_last b) (map fst (fs @ rest))"
  shows "\<exists>b'. gw_limiters (relay_run E s fs g) s = Some (b', l) \<and> bucket_ok b' \<and>
    tb_rate b' = tb_rate b \<and> tb_capacity b' = tb_capacity b \<and> clock_ok (tb_last b') (map fst rest)"
  using assms
proof (induction fs arbitrary: g b)
  case Nil
  then show ?case by simp
next
  case (Cons f fs)
  obtain t1 t2 d where f: "f = ((t1, t2), d)" by (metis prod.collapse)
  have clk: "tb_last b \<le> t1" "t1 \<le> t2" "clock_ok t2 (map fst (fs @ rest))" using Cons.prems(4) by (simp_all add: f)
  obtain b1 where b1: "gw_limiters (relay_or_p2p E (t1, t2) s d g) s = Some (b1, l)" "bucket_ok b1"
    "tb_rate b1 = tb_rate b" "tb_capacity b1 = tb_capacity b" "tb_last b1 \<le> t2"
    using relay_step_bucket[OF Cons.prems(1-3) clk(1,2), of d] by metis
  have "clock_ok (tb_last b1) (map fst (fs @ rest))" using clock_ok_earlier[OF clk(3) b1(5)] .
  from Cons.IH[OF b1(1) Cons.prems(2) b1(2) this] b1(3,4) show ?case by (simp add: f)
qed

lemma relay_period_bound:
  assumes "gw_limiters g s = Some (b, l)" "ge_round E = (\<lambda>x. x)" "bucket_ok b"
    and "clock_ok (tb_last b) (map fst fs)" "clock_ok t (map fst fs)"
  shows "rat_of_nat (length (gw_cmds (relay_run E s fs g))) \<le>
    rat_of_nat (length (gw_cmds g)) + 2 * tb_capacity b + 2 * tb_rate b * (clock_end t (map fst fs) - t)"
  using assms
proof (induction fs arbitrary: g b t)
  case Nil
  then show ?case by (simp add: bucket_ok_def)
next
  case (Cons f fs)
  obtain t1 t2 d where f: "f = ((t1, t2), d)" by (metis prod.collapse)
  let ?g = "relay_or_p2p E (t1, t2) s d g" and ?e = "clock_end t2 (map fst fs)"
  have clk: "tb_last b \<le> t1" "t1 \<le> t2" "clock_ok t2 (map fst fs)" "t \<le> t1" using Cons.prems(4,5) by (simp_all add: f)
  have rate: "0 \<le> tb_rate b" using Cons.prems(3) by (simp add: bucket_ok_def)
  obtain b1 where b1: "gw_limiters ?g s = Some (b1, l)" "bucket_ok b1" "tb_rate b1 = tb_rate b"
    "tb_capacity b1 = tb_capacity b" "tb_last b1 \<le> t2"
    and cost: "parse_relay d = None \<and> gw_cmds ?g = gw_cmds g \<or> tb_last b1 = t2 \<and>
       rat_of_nat (length (gw_cmds ?g)) + 2 * tb_tokens b1 \<le> rat_of_nat (length (gw_cmds g)) + 2 * tb_capacity b"
    by (rule relay_step_bucket[OF Cons.prems(1-3) clk(1,2), of d]) (rule that; assumption)
  have k1: "clock_ok (tb_last b1) (map fst fs)" by (rule clock_ok_earlier[OF clk(3) b1(5)])
  have later: "tb_rate b * (?e - t2) \<le> tb_rate b * (?e - t)" using clk rate by (intro mult_left_mono) simp_all
  have "rat_of_nat (length (gw_cmds (relay_run E s fs ?g))) \<le>
      rat_of_nat (length (gw_cmds g)) + 2 * tb_capacity b + 2 * tb_rate b * (?e - t2)"
    using cost
  proof
    assume "parse_relay d = None \<and> gw_cmds ?g = gw_cmds g"
    then show ?thesis using Cons.IH[OF b1(1) Cons.prems(2) b1(2) k1 clk(3)] by (simp add: b1(3,4))
  next
    assume c: "tb_last b1 = t2 \<and>
       rat_of_nat (length (gw_cmds ?g)) + 2 * tb_tokens b1 \<le> rat_of_nat (length (gw_cmds g)) + 2 * tb_capacity b"
    obtain b2 where "bucket_ok b2" "rat_of_nat (length (gw_cmds (relay_run E s fs ?g))) - rat_of_nat (length (gw_cmds ?g)) +
        2 * tb_tokens b2 \<le> 2 * tb_tokens b1 + 2 * tb_rate b1 * (clock_end (tb_last b1) (map fst fs) - tb_last b1)"
      using relay_run_bound[OF b1(1) Cons.prems(2) b1(2) k1] by blast
    then show ?thesis using c by (simp add: b1(3) bucket_ok_def)
  qed
  then show ?case using later by (simp add: f)
qed


section \<open>The drain\<close>

text \<open>The payloads of a list that are new with respect to a set of hashes, each once.\<close>

primrec fresh_payloads :: "wire \<Rightarrow> u64 list \<Rightarrow> bytes list \<Rightarrow> bytes list" where
  "fresh_payloads W seen [] = []"
| "fresh_payloads W seen (p # ps) =
     (if payload_hash W p \<in> set seen then fresh_payloads W seen ps
      else p # fresh_payloads W (payload_hash W p # seen) ps)"

lemma fresh_payloads_cong: "set a = set b \<Longrightarrow> fresh_payloads W a ps = fresh_payloads W b ps"
proof (induction ps arbitrary: a b)
  case Nil
  then show ?case by simp
next
  case (Cons p ps)
  have "set (payload_hash W p # a) = set (payload_hash W p # b)" using Cons.prems by simp
  from Cons.IH[OF Cons.prems] Cons.IH[OF this] Cons.prems show ?case by simp
qed

lemma fresh_payloads_spec:
  "set (fresh_payloads W seen ps) \<subseteq> set ps"
  "p \<in> set (fresh_payloads W seen ps) \<Longrightarrow> payload_hash W p \<notin> set seen"
  "distinct (map (payload_hash W) (fresh_payloads W seen ps))"
  "p \<in> set ps \<Longrightarrow> payload_hash W p \<in> set seen \<union> payload_hash W ` set (fresh_payloads W seen ps)"
proof -
  show "set (fresh_payloads W seen ps) \<subseteq> set ps" for seen
    by (induction ps arbitrary: seen) (auto split: if_splits)
  have notin: "p \<in> set (fresh_payloads W seen ps) \<Longrightarrow> payload_hash W p \<notin> set seen" for p seen ps
    by (induction ps arbitrary: seen) (fastforce split: if_splits)+
  then show "p \<in> set (fresh_payloads W seen ps) \<Longrightarrow> payload_hash W p \<notin> set seen" .
  show "distinct (map (payload_hash W) (fresh_payloads W seen ps))" for seen
    by (induction ps arbitrary: seen) (use notin in \<open>fastforce+\<close>)
  show "payload_hash W p \<in> set seen \<union> payload_hash W ` set (fresh_payloads W seen ps)" if "p \<in> set ps"
    using that
  proof (induction ps arbitrary: seen)
    case Nil
    then show ?case by simp
  next
    case (Cons a ps)
    show ?case
    proof (cases "p = a")
      case True
      then show ?thesis by simp
    next
      case False
      then have "p \<in> set ps" using Cons.prems by simp
      from Cons.IH[OF this, of seen] Cons.IH[OF this, of "payload_hash W a # seen"] show ?thesis
        by (auto split: if_splits)
    qed
  qed
qed

lemma fresh_payloads_all_seen:
  "payload_hash W ` set ps \<subseteq> set seen \<Longrightarrow> fresh_payloads W seen ps = []"
  by (induction ps) simp_all

lemma drain_seen:
  "payload_hash (ge_wire E) p \<in> set (hashes_of (gw_delivered g) u) \<Longrightarrow>
    drain_record E u (k, p) ((rm, n), g) = ((rm @ [k], n), g)"
  by (simp add: drain_record_def)

lemma drain_new:
  assumes "payload_hash (ge_wire E) p \<notin> set (hashes_of (gw_delivered g) u)" "live_channels g u \<noteq> []"
  shows "drain_record E u (k, p) ((rm, n), g) = ((rm @ [k], Suc n),
    g\<lparr>gw_sent := gw_sent g @ sends (live_channels g u) p,
      gw_delivered := (gw_delivered g)(u \<mapsto>
        hs_insert (payload_hash (ge_wire E) p) (hashes_of (gw_delivered g) u))\<rparr>)"
  using assms by (auto simp: drain_record_def live_channels_def send_all_eq split: option.splits)

lemma drain_fold_live:
  assumes "live_channels g u \<noteq> []"
    and "fold (drain_record E u) recs ((rm, n), g) = ((rm', n'), g')"
  shows "rm' = rm @ map fst recs \<and>
    n' = n + length (fresh_payloads (ge_wire E) (hashes_of (gw_delivered g) u) (map snd recs)) \<and>
    (\<exists>hs. set hs = set (hashes_of (gw_delivered g) u) \<union> payload_hash (ge_wire E) ` snd ` set recs \<and>
      g' = g\<lparr>gw_sent := gw_sent g @ concat (map (sends (live_channels g u))
               (fresh_payloads (ge_wire E) (hashes_of (gw_delivered g) u) (map snd recs))),
             gw_delivered := (if n' = n then gw_delivered g else (gw_delivered g)(u \<mapsto> hs))\<rparr>)"
  using assms
proof (induction recs arbitrary: rm n g)
  case Nil
  then show ?case by (intro conjI exI[of _ "hashes_of (gw_delivered g) u"]) auto
next
  case (Cons r recs)
  let ?W = "ge_wire E"
  obtain k p where r: "r = (k, p)" by (cases r)
  let ?h = "payload_hash ?W p" and ?seen = "hashes_of (gw_delivered g) u"
  show ?case
  proof (cases "?h \<in> set ?seen")
    case True
    then have f: "fold (drain_record E u) recs ((rm @ [k], n), g) = ((rm', n'), g')"
      using Cons.prems(2) by (simp add: r drain_seen[OF True])
    have e1: "set ?seen \<union> payload_hash ?W ` snd ` set (r # recs) = set ?seen \<union> payload_hash ?W ` snd ` set recs"
      using True by (auto simp: r)
    have e2: "fresh_payloads ?W ?seen (map snd (r # recs)) = fresh_payloads ?W ?seen (map snd recs)"
      using True by (simp add: r)
    have e3: "rm @ map fst (r # recs) = (rm @ [k]) @ map fst recs" by (simp add: r)
    show ?thesis using Cons.IH[OF Cons.prems(1) f] unfolding e1 e2 e3 .
  next
    case False
    let ?g = "g\<lparr>gw_sent := gw_sent g @ sends (live_channels g u) p,
      gw_delivered := (gw_delivered g)(u \<mapsto> hs_insert ?h ?seen)\<rparr>"
    have f: "fold (drain_record E u) recs ((rm @ [k], Suc n), ?g) = ((rm', n'), g')"
      using Cons.prems(2) by (simp add: r drain_new[OF False Cons.prems(1)])
    have live: "live_channels ?g u = live_channels g u" by (rule live_channels_cong) simp_all
    have lg: "live_channels ?g u \<noteq> []" using live Cons.prems(1) by (simp only: not_False_eq_True)
    have fr: "fresh_payloads ?W (hashes_of (gw_delivered ?g) u) (map snd recs) =
        fresh_payloads ?W (?h # ?seen) (map snd recs)" by (rule fresh_payloads_cong) simp
    obtain hs where ih: "rm' = (rm @ [k]) @ map fst recs"
      "n' = Suc n + length (fresh_payloads ?W (?h # ?seen) (map snd recs))"
      "set hs = set (hashes_of (gw_delivered ?g) u) \<union> payload_hash ?W ` snd ` set recs"
      "g' = ?g\<lparr>gw_sent := gw_sent ?g @ concat (map (sends (live_channels g u)) (fresh_payloads ?W (?h # ?seen) (map snd recs))),
        gw_delivered := (if n' = Suc n then gw_delivered ?g else (gw_delivered ?g)(u \<mapsto> hs))\<rparr>"
      using Cons.IH[OF lg f] unfolding live fr by blast
    have "\<exists>hs. set hs = set ?seen \<union> payload_hash ?W ` snd ` set (r # recs) \<and>
        g' = g\<lparr>gw_sent := gw_sent g @ concat (map (sends (live_channels g u)) (fresh_payloads ?W ?seen (map snd (r # recs)))),
           gw_delivered := (gw_delivered g)(u \<mapsto> hs)\<rparr>"
    proof (cases "n' = Suc n")
      case True
      then have none: "fresh_payloads ?W (?h # ?seen) (map snd recs) = []" using ih(2) by simp
      have sub: "payload_hash ?W ` snd ` set recs \<subseteq> set (?h # ?seen)"
        using fresh_payloads_spec(4)[of _ "map snd recs" ?W "?h # ?seen"] unfolding none by auto
      show ?thesis
        using ih(4) True False none sub by (intro exI[of _ "hs_insert ?h ?seen"]) (auto simp: r)
    next
      case no: False
      then show ?thesis using ih(3,4) False by (intro exI[of _ hs]) (auto simp: r)
    qed
    moreover have n: "n' \<noteq> n" "n' = n + length (fresh_payloads ?W ?seen (map snd (r # recs)))"
      using ih(2) False by (simp_all add: r)
    moreover have "rm' = rm @ map fst (r # recs)" using ih(1) by (simp add: r)
    ultimately show ?thesis by (simp only: if_not_P[OF n(1)] if_False simp_thms)
  qed
qed

lemma drain_fold_dead:
  assumes "live_channels g u = []"
  shows "fold (drain_record E u) recs ((rm, n), g) =
    ((rm @ map fst (filter (\<lambda>r. payload_hash (ge_wire E) (snd r) \<in> set (hashes_of (gw_delivered g) u)) recs), n), g)"
proof (induction recs arbitrary: rm)
  case Nil
  then show ?case by simp
next
  case (Cons r recs)
  have "drain_record E u r ((rm, n), g) =
      ((if payload_hash (ge_wire E) (snd r) \<in> set (hashes_of (gw_delivered g) u) then rm @ [fst r] else rm, n), g)"
    using assms
    by (auto simp: drain_record_def live_channels_def send_all_eq sends_def case_prod_beta Let_def
        split: option.splits)
  then show ?case by (simp add: Cons.IH)
qed


text \<open>The drain with a live connection: new payloads once each, everything read is removed.\<close>

lemma drain_live:
  assumes "env_wf E" "gw_mailbox g" "live_channels g u \<noteq> []"
    and r: "read_sled_backup (ge_wire E) (ge_sled E) (gw_db g) u = (db1, recs)"
  defines "new \<equiv> fresh_payloads (ge_wire E) (hashes_of (gw_delivered g) u) (map snd recs)"
  obtains hs db where "drain_local E u g =
      g\<lparr>gw_sent := gw_sent g @ concat (map (sends (live_channels g u)) new), gw_db := db,
        gw_delivered := (if new = [] then gw_delivered g else (gw_delivered g)(u \<mapsto> hs))\<rparr>"
    "set hs = set (hashes_of (gw_delivered g) u) \<union> payload_hash (ge_wire E) ` snd ` set recs"
    "\<And>k. sl_get (ge_sled E) db SLED_MAILBOX_TREE k =
       (if k \<in> fst ` set recs then None else sl_get (ge_sled E) db1 SLED_MAILBOX_TREE k)"
    "\<And>v. load_delivered_hashes (ge_wire E) (ge_sled E) db v =
       (if v = u \<and> new \<noteq> [] then trim_hashes hs else persisted E g v)"
proof -
  let ?W = "ge_wire E" and ?S = "ge_sled E"
  have S: "sled_ok ?S" "bincode_ok ?W" using assms(1) by (simp_all add: env_wf_def)
  let ?g0 = "g\<lparr>gw_db := db1\<rparr>"
  have live: "live_channels ?g0 u = live_channels g u" by (rule live_channels_cong) simp_all
  obtain rm n g1 where f: "fold (drain_record E u) recs (([], 0), ?g0) = ((rm, n), g1)"
    by (metis prod.collapse)
  obtain hs where d: "rm = map fst recs" "n = length new"
    "set hs = set (hashes_of (gw_delivered g) u) \<union> payload_hash ?W ` snd ` set recs"
    "g1 = ?g0\<lparr>gw_sent := gw_sent g @ concat (map (sends (live_channels g u)) new),
        gw_delivered := (if n = 0 then gw_delivered g else (gw_delivered g)(u \<mapsto> hs))\<rparr>"
    using drain_fold_live[OF _ f] assms(3) unfolding live new_def by auto
  define g2 where "g2 = (if 0 < n then persist_delivered_set E u g1 else g1)"
  define db where "db = remove_sled_records ?S (gw_db g2) rm"
  have "drain_local E u g = g2\<lparr>gw_db := db\<rparr>"
    using assms(2) by (simp add: drain_local_def r f g2_def[symmetric] db_def remove_sled_records_def)
  also have "g2\<lparr>gw_db := db\<rparr> = g1\<lparr>gw_db := db\<rparr>"
    by (simp add: g2_def persist_delivered_set_def split: option.split)
  finally have eq: "drain_local E u g = g1\<lparr>gw_db := db\<rparr>" .
  have "gw_db g1 = db1" by (simp add: d(4))
  then have mail: "sl_get ?S (gw_db g2) SLED_MAILBOX_TREE k = sl_get ?S db1 SLED_MAILBOX_TREE k" for k
    using persist_keeps_mailbox[OF assms(1), of u g1 k] by (simp add: g2_def)
  have "gw_mailbox g1" using assms(2) by (simp add: d(4))
  moreover have "gw_delivered g1 u = (if new = [] then gw_delivered g u else Some hs)"
    using d(2) by (simp add: d(4))
  moreover have "persisted E g1 v = persisted E g v" for v
    using backup_keeps_delivered[OF S(1), of ?W "gw_db g" u v] by (simp add: persisted_def d(4) r)
  ultimately have per: "persisted E g2 v = (if v = u \<and> new \<noteq> [] then trim_hashes hs else persisted E g v)" for v
    using persisted_after[OF assms(1), of g1 u v] d(2) by (auto simp: g2_def)
  show ?thesis
  proof (rule that[of hs db])
    show "drain_local E u g = g\<lparr>gw_sent := gw_sent g @ concat (map (sends (live_channels g u)) new), gw_db := db,
        gw_delivered := (if new = [] then gw_delivered g else (gw_delivered g)(u \<mapsto> hs))\<rparr>"
      using eq d(2) by (simp add: d(4))
    show "set hs = set (hashes_of (gw_delivered g) u) \<union> payload_hash ?W ` snd ` set recs" by (rule d(3))
    show "sl_get ?S db SLED_MAILBOX_TREE k =
       (if k \<in> fst ` set recs then None else sl_get ?S db1 SLED_MAILBOX_TREE k)" for k
      by (simp add: db_def get_remove_sled_records[OF S(1)] mail d(1))
    show "load_delivered_hashes ?W ?S db v = (if v = u \<and> new \<noteq> [] then trim_hashes hs else persisted E g v)" for v
      using per[of v] by (simp add: db_def load_remove_sled_records[OF S(1)] persisted_def)
  qed
qed

text \<open>Without one nothing is sent, and only payloads that were delivered before are removed.\<close>

lemma drain_dead:
  assumes "env_wf E" "gw_mailbox g" "live_channels g u = []"
    and r: "read_sled_backup (ge_wire E) (ge_sled E) (gw_db g) u = (db1, recs)"
  obtains db where "drain_local E u g = g\<lparr>gw_db := db\<rparr>"
    "\<And>k. sl_get (ge_sled E) db SLED_MAILBOX_TREE k =
       (if \<exists>p. (k, p) \<in> set recs \<and> payload_hash (ge_wire E) p \<in> set (hashes_of (gw_delivered g) u)
        then None else sl_get (ge_sled E) db1 SLED_MAILBOX_TREE k)"
proof -
  let ?rm = "map fst (filter (\<lambda>r. payload_hash (ge_wire E) (snd r) \<in> set (hashes_of (gw_delivered g) u)) recs)"
  have "live_channels (g\<lparr>gw_db := db1\<rparr>) u = []" using assms(3) by (simp add: live_channels_def cong: option.case_cong)
  from drain_fold_dead[OF this, of E recs "[]" 0]
  have f: "fold (drain_record E u) recs (([], 0), g\<lparr>gw_db := db1\<rparr>) = ((?rm, 0), g\<lparr>gw_db := db1\<rparr>)" by simp
  have eq: "drain_local E u g = g\<lparr>gw_db := remove_sled_records (ge_sled E) db1 ?rm\<rparr>"
    using assms(2) by (simp add: drain_local_def r f remove_sled_records_def)
  show ?thesis
  proof (rule that[OF eq])
    fix k
    have "k \<in> set ?rm \<longleftrightarrow> (\<exists>p. (k, p) \<in> set recs \<and> payload_hash (ge_wire E) p \<in> set (hashes_of (gw_delivered g) u))"
      by force
    then show "sl_get (ge_sled E) (remove_sled_records (ge_sled E) db1 ?rm) SLED_MAILBOX_TREE k =
       (if \<exists>p. (k, p) \<in> set recs \<and> payload_hash (ge_wire E) p \<in> set (hashes_of (gw_delivered g) u)
        then None else sl_get (ge_sled E) db1 SLED_MAILBOX_TREE k)"
      using assms(1) by (simp add: env_wf_def get_remove_sled_records)
  qed
qed


section \<open>Connecting\<close>

lemma register_fields:
  assumes "gw_mailbox g"
  shows "live_channels (register_client E now u ch g) u = live_channels g u @ (if gw_alive g ch then [ch] else [])"
    and "set (hashes_of (gw_delivered (register_client E now u ch g)) u) = set (persisted E g u)"
    and "gw_sent (register_client E now u ch g) = gw_sent g"
    and "gw_db (register_client E now u ch g) = gw_db g"
    and "gw_mailbox (register_client E now u ch g)"
    and "gw_limiters (register_client E now u ch g) u =
      Some (bucket_new now RATE_LIMIT_STORE_PER_SEC RATE_LIMIT_STORE_PER_SEC,
            bucket_new now RATE_LIMIT_LOOKUP_PER_SEC RATE_LIMIT_LOOKUP_PER_SEC)"
  using assms hs_collect_spec[of "persisted E g u"]
  by (simp_all add: register_client_def send_cmd_def live_channels_def persisted_def Let_def
      split: option.split)

lemma send_cmd_fields [simp]:
  "gw_clients (send_cmd c g) = gw_clients g" "gw_sent (send_cmd c g) = gw_sent g"
  "gw_delivered (send_cmd c g) = gw_delivered g" "gw_db (send_cmd c g) = gw_db g"
  "gw_alive (send_cmd c g) = gw_alive g" "gw_mailbox (send_cmd c g) = gw_mailbox g"
  by (simp_all add: send_cmd_def)

lemma connect_fields:
  assumes "u \<noteq> []"
  shows "gw_sent (connect_client E now u ch g) = gw_sent (drain_local E u (register_client E now u ch g))"
    and "gw_delivered (connect_client E now u ch g) = gw_delivered (drain_local E u (register_client E now u ch g))"
    and "gw_db (connect_client E now u ch g) = gw_db (drain_local E u (register_client E now u ch g))"
  using assms by (simp_all add: connect_client_def)

lemma connect_live:
  fixes now :: rat and k :: bytes
  assumes E: "env_wf E" and mb: "gw_mailbox g" and u: "u \<noteq> []" and ch: "gw_alive g ch"
    and r: "read_sled_backup (ge_wire E) (ge_sled E) (gw_db g) u = (db1, recs)"
  defines "new \<equiv> fresh_payloads (ge_wire E) (persisted E g u) (map snd recs)"
    and "g' \<equiv> connect_client E now u ch g"
  shows "gw_sent g' = gw_sent g @ concat (map (sends (live_channels g u @ [ch])) new)"
    and "set (hashes_of (gw_delivered g') u) = set (persisted E g u) \<union> payload_hash (ge_wire E) ` snd ` set recs"
    and "sl_get (ge_sled E) (gw_db g') SLED_MAILBOX_TREE k =
       (if k \<in> fst ` set recs then None else sl_get (ge_sled E) db1 SLED_MAILBOX_TREE k)"
    and "new = [] \<Longrightarrow> persisted E g' u = persisted E g u"
    and "new \<noteq> [] \<Longrightarrow> persisted E g' u = trim_hashes (hashes_of (gw_delivered g') u)"
proof -
  let ?r = "register_client E now u ch g"
  note reg = register_fields[OF mb, of E now u ch]
  have live: "live_channels ?r u = live_channels g u @ [ch]" using reg(1) ch by simp
  then have ne: "live_channels ?r u \<noteq> []" by simp
  have rb: "read_sled_backup (ge_wire E) (ge_sled E) (gw_db ?r) u = (db1, recs)" using r reg(4) by simp
  have fr: "fresh_payloads (ge_wire E) (hashes_of (gw_delivered ?r) u) (map snd recs) = new"
    unfolding new_def by (rule fresh_payloads_cong) (rule reg(2))
  obtain hs db where d: "drain_local E u ?r =
      ?r\<lparr>gw_sent := gw_sent ?r @ concat (map (sends (live_channels ?r u)) new), gw_db := db,
        gw_delivered := (if new = [] then gw_delivered ?r else (gw_delivered ?r)(u \<mapsto> hs))\<rparr>"
    "set hs = set (hashes_of (gw_delivered ?r) u) \<union> payload_hash (ge_wire E) ` snd ` set recs"
    "\<And>k. sl_get (ge_sled E) db SLED_MAILBOX_TREE k =
       (if k \<in> fst ` set recs then None else sl_get (ge_sled E) db1 SLED_MAILBOX_TREE k)"
    "\<And>v. load_delivered_hashes (ge_wire E) (ge_sled E) db v =
       (if v = u \<and> new \<noteq> [] then trim_hashes hs else persisted E ?r v)"
    using drain_live[OF E reg(5) ne rb] unfolding fr by metis
  have c: "gw_sent g' = gw_sent g @ concat (map (sends (live_channels g u @ [ch])) new)"
    "gw_delivered g' = (if new = [] then gw_delivered ?r else (gw_delivered ?r)(u \<mapsto> hs))" "gw_db g' = db"
    unfolding g'_def connect_fields[OF u] d(1) by (simp_all add: reg(3) live)
  show "gw_sent g' = gw_sent g @ concat (map (sends (live_channels g u @ [ch])) new)" by (rule c(1))
  have sub: "payload_hash (ge_wire E) ` snd ` set recs \<subseteq> set (persisted E g u)" if "new = []"
    using fresh_payloads_spec(4)[of _ "map snd recs" "ge_wire E" "persisted E g u"] that
    by (auto simp: new_def)
  show "set (hashes_of (gw_delivered g') u) = set (persisted E g u) \<union> payload_hash (ge_wire E) ` snd ` set recs"
    using sub d(2) reg(2) by (cases "new = []") (auto simp: c(2))
  show "sl_get (ge_sled E) (gw_db g') SLED_MAILBOX_TREE k =
       (if k \<in> fst ` set recs then None else sl_get (ge_sled E) db1 SLED_MAILBOX_TREE k)"
    unfolding c(3) by (rule d(3))
  show "persisted E g' u = persisted E g u" if "new = []"
    using d(4)[of u] that by (simp add: persisted_def c(3) reg(4))
  show "persisted E g' u = trim_hashes (hashes_of (gw_delivered g') u)" if "new \<noteq> []"
    using d(4)[of u] that by (simp add: persisted_def c(2,3))
qed

text \<open>Whatever the state of the connections, a payload marked on disk is not sent on connecting.\<close>

lemma connect_skips_persisted:
  assumes E: "env_wf E" and mb: "gw_mailbox g" and u: "u \<noteq> []"
  shows "\<exists>xs. gw_sent (connect_client E now u ch g) = gw_sent g @ xs \<and>
    (\<forall>(c, q) \<in> set xs. payload_hash (ge_wire E) q \<notin> set (persisted E g u))"
proof -
  let ?r = "register_client E now u ch g"
  note reg = register_fields[OF mb, of E now u ch]
  obtain db1 recs where rb: "read_sled_backup (ge_wire E) (ge_sled E) (gw_db ?r) u = (db1, recs)"
    by (metis prod.collapse)
  show ?thesis
  proof (cases "live_channels ?r u = []")
    case True
    obtain db where "drain_local E u ?r = ?r\<lparr>gw_db := db\<rparr>" using drain_dead[OF E reg(5) True rb] by blast
    then show ?thesis by (intro exI[of _ "[]"]) (simp add: connect_fields[OF u] reg(3))
  next
    case False
    let ?new = "fresh_payloads (ge_wire E) (hashes_of (gw_delivered ?r) u) (map snd recs)"
    have "gw_sent (drain_local E u ?r) = gw_sent ?r @ concat (map (sends (live_channels ?r u)) ?new)"
    proof -
      obtain hs db where "drain_local E u ?r =
          ?r\<lparr>gw_sent := gw_sent ?r @ concat (map (sends (live_channels ?r u)) ?new), gw_db := db,
            gw_delivered := (if ?new = [] then gw_delivered ?r else (gw_delivered ?r)(u \<mapsto> hs))\<rparr>"
        using drain_live[OF E reg(5) False rb] by metis
      then show ?thesis by simp
    qed
    then show ?thesis
      using fresh_payloads_spec(2)[of _ "ge_wire E" "hashes_of (gw_delivered ?r) u" "map snd recs"] reg(2)
      by (intro exI[of _ "concat (map (sends (live_channels ?r u)) ?new)"])
        (auto simp: connect_fields[OF u] reg(3) sends_def)
  qed
qed

lemma disconnect_persists:
  assumes "env_wf E" "gw_mailbox g" "gw_delivered g u = Some hs"
  shows "persisted E (disconnect_client E u g) u = trim_hashes hs"
    and "gw_sent (disconnect_client E u g) = gw_sent g" and "gw_mailbox (disconnect_client E u g)"
proof -
  have "gw_db (prune_client u h) = gw_db h \<and> gw_sent (prune_client u h) = gw_sent h \<and> gw_mailbox (prune_client u h) = gw_mailbox h"
    for h :: "'a gateway" by (simp add: prune_client_def Let_def split: option.split)
  then show "persisted E (disconnect_client E u g) u = trim_hashes hs"
    "gw_sent (disconnect_client E u g) = gw_sent g" "gw_mailbox (disconnect_client E u g)"
    using persisted_after[OF assms(1,2), of u u] assms
    by (simp_all add: disconnect_client_def persisted_def)
qed

lemma disconnect_forgets: "gw_delivered (disconnect_client E u g) u = None"
  by (simp add: disconnect_client_def prune_client_def Let_def split: option.split)

text \<open>A session that is away: no live connection, no set in memory, and its set on disk. Relaying, to
  it or to others, leaves it so.\<close>

definition away :: "'db gw_env \<Rightarrow> bytes \<Rightarrow> u64 list \<Rightarrow> 'db gateway \<Rightarrow> bool" where
  "away E u hs g \<longleftrightarrow> gw_mailbox g \<and> live_channels g u = [] \<and> gw_delivered g u = None \<and> persisted E g u = hs"

lemma away_cong:
  "away E u hs g \<Longrightarrow> gw_mailbox h = gw_mailbox g \<Longrightarrow> gw_clients h = gw_clients g \<Longrightarrow> gw_alive h = gw_alive g \<Longrightarrow>
    gw_delivered h = gw_delivered g \<Longrightarrow> gw_db h = gw_db g \<Longrightarrow> away E u hs h"
  by (simp add: away_def persisted_def live_channels_cong[of h u g])

lemma relay_away_session:
  assumes E: "env_wf E" and g: "away E u hs g"
  shows "away E u hs (relay_or_p2p E clk s d g)"
proof (cases "parse_relay d")
  case None
  then show ?thesis using g by (simp add: relay_refused)
next
  case (Some rp)
  obtain r p where rp: "parse_relay d = Some (r, p)" using Some by (cases rp) simp
  obtain ok g1 where lim: "check_rate_limit_store (ge_round E) clk s g = (ok, g1)" by fastforce
  then obtain l where g1: "g1 = g\<lparr>gw_limiters := l\<rparr>" using rate_limit_frame by blast
  have a1: "away E u hs g1" by (rule away_cong[OF g]) (simp_all add: g1)
  let ?h = "payload_hash (ge_wire E) (forward_frame s p)"
  consider "\<not> ok" | "ok" "gw_clients g r \<noteq> None" "?h \<in> set (hashes_of (gw_delivered g) r)"
    | "ok" "gw_clients g r = None \<or> ?h \<notin> set (hashes_of (gw_delivered g) r)" "live_channels g r = []"
    | "ok" "?h \<notin> set (hashes_of (gw_delivered g) r)" "live_channels g r \<noteq> []"
    by (cases "live_channels g r = []"; cases "gw_clients g r = None") (auto simp: live_channels_def)
  then show ?thesis
  proof cases
    case 1
    then show ?thesis using a1 lim relay_refused(2)[OF rp, of E clk s g g1] by simp
  next
    case 2
    then show ?thesis using a1 relay_repeat[OF rp _ 2(2,3), of clk g1] lim by simp
  next
    case 3
    then show ?thesis using relay_away[OF rp _ 3(3,2)] lim by (auto intro: away_cong[OF a1] simp: send_cmd_def)
  next
    case 4
    let ?g2 = "g1\<lparr>gw_sent := gw_sent g @ sends (live_channels g r) (forward_frame s p),
        gw_delivered := (gw_delivered g)(r \<mapsto> hs_insert ?h (hashes_of (gw_delivered g) r))\<rparr>"
    have ru: "r \<noteq> u" using 4(3) g by (auto simp: away_def)
    have "live_channels (persist_delivered_set E r ?g2) u = live_channels g u"
      by (rule live_channels_cong) (simp_all add: g1)
    moreover have "persisted E (persist_delivered_set E r ?g2) u = persisted E g u"
      using persisted_after[OF E, of ?g2 r u] g ru by (simp add: g1 away_def) (simp add: persisted_def)
    moreover have "relay_or_p2p E clk s d g = persist_delivered_set E r ?g2"
      by (rule relay_fresh[OF rp _ 4(3,2)]) (use lim 4(1) in simp)
    ultimately show ?thesis using g ru by (simp add: away_def g1)
  qed
qed

lemma relays_away:
  "env_wf E \<Longrightarrow> away E u hs g \<Longrightarrow> away E u hs (fold (\<lambda>(clk, s, d). relay_or_p2p E clk s d) relays g)"
  by (induction relays arbitrary: g) (auto intro: relay_away_session)

text \<open>
  What a first connection is sent of the mailbox: distinct payloads, a waiting one among them
  unless it was delivered before, and no record is left.
\<close>

lemma connect_delivers:
  assumes G: "env_wf G" and h: "gw_mailbox h" "gw_alive h ch" "live_channels h r = []" "r \<noteq> []"
    and k: "prefix r k" "sl_get (ge_sled G) (gw_db h) SLED_MAILBOX_TREE k = Some raw"
      "record_payload (ge_wire G) r raw = Some p" "payload_hash (ge_wire G) p \<notin> set (persisted G h r)"
    and coll: "\<And>k v q. prefix r k \<Longrightarrow> sl_get (ge_sled G) (gw_db h) SLED_MAILBOX_TREE k = Some v \<Longrightarrow>
      record_payload (ge_wire G) r v = Some q \<Longrightarrow> payload_hash (ge_wire G) q = payload_hash (ge_wire G) p \<Longrightarrow> q = p"
  obtains sent where "gw_sent (connect_client G t r ch h) = gw_sent h @ map (Pair ch) sent"
    "distinct sent" "p \<in> set sent"
    "\<And>k. prefix r k \<Longrightarrow> sl_get (ge_sled G) (gw_db (connect_client G t r ch h)) SLED_MAILBOX_TREE k = None"
proof -
  let ?W = "ge_wire G" and ?S = "ge_sled G"
  have S: "sled_ok ?S" using G by (simp add: env_wf_def)
  obtain db1 recs where rb: "read_sled_backup ?W ?S (gw_db h) r = (db1, recs)" by (metis prod.collapse)
  define sent where "sent = fresh_payloads ?W (persisted G h r) (map snd recs)"
  have "(k, p) \<in> set recs" using read_backup_spec(1)[OF S rb] k by blast
  then have "p \<in> set (map snd recs)" by force
  then obtain q where q: "q \<in> set sent" "payload_hash ?W q = payload_hash ?W p"
    using fresh_payloads_spec(4)[of p "map snd recs" ?W "persisted G h r"] k(4) by (auto simp: sent_def)
  then obtain k' where "(k', q) \<in> set recs"
    using fresh_payloads_spec(1)[of ?W "persisted G h r" "map snd recs"] by (auto simp: sent_def)
  then have "q = p" using read_backup_spec(1)[OF S rb, of k' q] coll q(2) by blast
  then have in_sent: "p \<in> set sent" using q(1) by simp
  have dist: "distinct sent"
    using fresh_payloads_spec(3)[of ?W "persisted G h r" "map snd recs"] by (simp add: sent_def distinct_map)
  have "concat (map (sends [ch]) xs) = map (Pair ch) xs" for xs by (induction xs) (simp_all add: sends_def)
  then have log: "gw_sent (connect_client G t r ch h) = gw_sent h @ map (Pair ch) sent"
    using connect_live(1)[OF G h(1,4,2) rb] by (simp add: h(3) sent_def)
  have "sl_get ?S (gw_db (connect_client G t r ch h)) SLED_MAILBOX_TREE j = None" if j: "prefix r j" for j
  proof (cases "\<exists>q. (j, q) \<in> set recs")
    case True
    then have "j \<in> fst ` set recs" by force
    then show ?thesis using connect_live(3)[OF G h(1,4,2) rb, of t j] by simp
  next
    case False
    then have "sl_get ?S (gw_db h) SLED_MAILBOX_TREE j = Some v \<Longrightarrow> record_payload ?W r v = None" for v
      using read_backup_spec(1)[OF S rb, of j] j by (cases "record_payload ?W r v") blast+
    then have "sl_get ?S db1 SLED_MAILBOX_TREE j = None"
      using read_backup_spec(2)[OF S rb, of SLED_MAILBOX_TREE j] j
      by (cases "sl_get ?S (gw_db h) SLED_MAILBOX_TREE j") simp_all
    then show ?thesis using connect_live(3)[OF G h(1,4,2) rb, of t j] by simp
  qed
  with log dist in_sent show ?thesis using that by blast
qed


section \<open>Theorems\<close>

text \<open>A gateway with one connection of the session \<open>[9]\<close> on channel 3, for the examples.\<close>

definition demo_gateway :: "(string \<Rightarrow> (bytes, bytes) btree) gateway" where
  "demo_gateway =
     \<lparr>gw_clients = [[9] \<mapsto> [3]], gw_p2p_tx = True, gw_p2p_connected = True,
      gw_limiters = [[7] \<mapsto> (bucket_new 0 RATE_LIMIT_STORE_PER_SEC RATE_LIMIT_STORE_PER_SEC,
                          bucket_new 0 RATE_LIMIT_LOOKUP_PER_SEC RATE_LIMIT_LOOKUP_PER_SEC)],
      gw_delivered = [[9] \<mapsto> []], gw_mailbox = True,
      gw_db = (\<lambda>t. if t = SLED_MAILBOX_TREE then [([9, 1], [5, 6])] else []),
      gw_alive = (\<lambda>ch. True), gw_sent = [], gw_cmds = []\<rparr>"

definition demo_env :: "(string \<Rightarrow> (bytes, bytes) btree) gw_env" where
  "demo_env = \<lparr>ge_wire = toy_wire, ge_sled = toy_sled, ge_round = (\<lambda>x. x)\<rparr>"

definition demo_frame :: bytes where
  "demo_frame = [1, 0, 9, 4, 5]"

lemma demo_env_wf: "env_wf demo_env"
  by (simp add: env_wf_def demo_env_def toy_sled_ok toy_wire_ok)

lemma demo_parse: "parse_relay demo_frame = Some ([9], [4, 5])"
  by (simp add: parse_relay_def demo_frame_def slice_def le_u16_def Let_def)

lemma demo_limit:
  "check_rate_limit_store (ge_round demo_env) (0, 0) [7] demo_gateway =
    (True, demo_gateway\<lparr>gw_limiters := (gw_limiters demo_gateway)([7] \<mapsto>
      (\<lparr>tb_tokens = 9, tb_last = 0, tb_rate = 10, tb_capacity = 10\<rparr>,
       bucket_new 0 RATE_LIMIT_LOOKUP_PER_SEC RATE_LIMIT_LOOKUP_PER_SEC))\<rparr>)"
  by (simp add: check_rate_limit_store_def demo_gateway_def demo_env_def try_consume_def refill_def
      bucket_new_def RATE_LIMIT_STORE_PER_SEC_def Let_def)

lemma demo_live: "live_channels demo_gateway [9] = [3]" "hashes_of (gw_delivered demo_gateway) [9] = []"
  "gw_p2p_tx demo_gateway" "gw_mailbox demo_gateway" "gw_alive demo_gateway ch"
  by (simp_all add: live_channels_def demo_gateway_def hashes_of_def)

lemma demo_backup:
  "read_sled_backup (ge_wire demo_env) (ge_sled demo_env) (gw_db demo_gateway) [9] =
    (gw_db demo_gateway, [([9, 1], [5, 6])])"
proof -
  have "deserialize_envelope toy_wire [5, 6] = None"
    by (simp add: toy_wire_def deserialize_envelope_def toy_unlist_def toy_unblock_def Let_def)
  then show ?thesis
    by (simp add: demo_env_def demo_gateway_def read_sled_backup_def toy_sled_def backup_step_def
        toy_norm_def bt_wf_def)
qed

lemma demo_forward: "forward_frame [7] [4, 5] = [1, 0, 7, 4, 5]"
  by code_simp

text \<open>A well-formed frame that passes the limiter is never lost: it is sent to every live
  connection of its recipient and marked, or it was delivered before and is dropped as a
  duplicate, or it is published and queued for the recipient's mailbox with nothing else changed.\<close>

theorem relay_never_loses:
  assumes parse: "parse_relay d = Some (r, p)" and tx: "gw_p2p_tx g"
    and lim: "check_rate_limit_store (ge_round E) clk s g = (True, g1)"
  shows "let g' = relay_or_p2p E clk s d g; fwd = forward_frame s p; h = payload_hash (ge_wire E) fwd in
    (live_channels g r \<noteq> [] \<and> h \<notin> set (hashes_of (gw_delivered g) r) \<and>
       gw_sent g' = gw_sent g @ sends (live_channels g r) fwd \<and> gw_cmds g' = gw_cmds g \<and>
       h \<in> set (hashes_of (gw_delivered g') r)) \<or>
    (h \<in> set (hashes_of (gw_delivered g) r) \<and> gw_sent g' = gw_sent g \<and> gw_cmds g' = gw_cmds g) \<or>
    (live_channels g r = [] \<and> gw_sent g' = gw_sent g \<and> gw_delivered g' = gw_delivered g \<and>
       gw_cmds g' = gw_cmds g @ [Publish (w_hex (ge_wire E) r) fwd, MailboxStore r s p])"
proof -
  obtain l where g1: "g1 = g\<lparr>gw_limiters := l\<rparr>" using rate_limit_frame[OF lim] by blast
  consider (fresh) "live_channels g r \<noteq> []" "payload_hash (ge_wire E) (forward_frame s p) \<notin> set (hashes_of (gw_delivered g) r)"
    | (dup) "gw_clients g r \<noteq> None" "payload_hash (ge_wire E) (forward_frame s p) \<in> set (hashes_of (gw_delivered g) r)"
    | (away) "live_channels g r = []" "gw_clients g r = None \<or> payload_hash (ge_wire E) (forward_frame s p) \<notin> set (hashes_of (gw_delivered g) r)"
    using live_channels_known[of g r] by metis
  then show ?thesis
  proof cases
    case fresh
    then show ?thesis by (simp add: relay_fresh[OF parse lim fresh] g1 Let_def)
  next
    case dup
    then show ?thesis by (simp add: relay_repeat[OF parse lim dup] g1 Let_def)
  next
    case away
    then show ?thesis using tx by (simp add: relay_away[OF parse lim away] g1 send_cmd_def Let_def)
  qed
qed

theorem relay_never_loses_witness:
  "gw_sent (relay_or_p2p demo_env (0, 0) [7] demo_frame demo_gateway) = [(3, [1, 0, 7, 4, 5])]"
  using relay_never_loses[OF demo_parse demo_live(3) demo_limit]
  by (simp add: demo_live sends_def Let_def demo_forward) (simp add: demo_gateway_def)

text \<open>C12: A relayed message is delivered exactly once: it reaches each live connection of its
  recipient, is recorded on disk before the relay returns, and relaying the same frame again, at
  any time, sends nothing and queues nothing.\<close>

theorem relay_exactly_once:
  assumes E: "env_wf E" and mb: "gw_mailbox g" and parse: "parse_relay d = Some (r, p)"
    and lim: "check_rate_limit_store (ge_round E) clk s g = (True, g1)"
    and live: "live_channels g r \<noteq> []"
    and new: "payload_hash (ge_wire E) (forward_frame s p) \<notin> set (hashes_of (gw_delivered g) r)"
    and room: "length (hashes_of (gw_delivered g) r) < MAX_PERSISTED_HASHES"
  shows "let g' = relay_or_p2p E clk s d g in
    gw_sent g' = gw_sent g @ sends (live_channels g r) (forward_frame s p) \<and>
    payload_hash (ge_wire E) (forward_frame s p) \<in> set (persisted E g' r) \<and>
    gw_sent (relay_or_p2p E clk' s d g') = gw_sent g' \<and> gw_cmds (relay_or_p2p E clk' s d g') = gw_cmds g'"
proof -
  let ?h = "payload_hash (ge_wire E) (forward_frame s p)"
  let ?hs = "hs_insert ?h (hashes_of (gw_delivered g) r)"
  let ?g' = "relay_or_p2p E clk s d g"
  obtain l where g1: "g1 = g\<lparr>gw_limiters := l\<rparr>" using rate_limit_frame[OF lim] by blast
  have "length ?hs \<le> MAX_PERSISTED_HASHES" using room by (simp add: hs_insert_def)
  then have per: "persisted E ?g' r = ?hs"
    using persisted_after[OF E] mb trim_hashes_spec(3)[of ?hs]
    by (simp add: relay_fresh[OF parse lim live new] g1)
  have seen: "?h \<in> set (hashes_of (gw_delivered ?g') r)" "gw_clients ?g' r \<noteq> None"
    using live_channels_known[OF live] by (simp_all add: relay_fresh[OF parse lim live new] g1)
  obtain ok g2 where l2: "check_rate_limit_store (ge_round E) clk' s ?g' = (ok, g2)"
    by (cases "check_rate_limit_store (ge_round E) clk' s ?g'")
  obtain l' where g2: "g2 = ?g'\<lparr>gw_limiters := l'\<rparr>" using rate_limit_frame[OF l2] by blast
  have "relay_or_p2p E clk' s d ?g' = g2"
    using relay_repeat[OF parse, of E clk' s ?g' g2] relay_refused(2)[OF parse, of E clk' s ?g' g2] l2 seen
    by (cases ok) simp_all
  then show ?thesis
    using per by (simp add: relay_fresh[OF parse lim live new] g1 g2 Let_def)
qed

theorem relay_exactly_once_witness:
  "let g' = relay_or_p2p demo_env (0, 0) [7] demo_frame demo_gateway
   in gw_sent g' = [(3, [1, 0, 7, 4, 5])] \<and> gw_sent (relay_or_p2p demo_env (1, 1) [7] demo_frame g') = gw_sent g'"
proof -
  have "gw_sent demo_gateway = []" by (simp add: demo_gateway_def)
  then show ?thesis
    using relay_exactly_once[OF demo_env_wf demo_live(4) demo_parse demo_limit, of "(1, 1)"]
    by (simp add: demo_live MAX_PERSISTED_HASHES_def sends_def demo_forward Let_def)
qed

text \<open>C31: The rate limit holds over every period, not only from the creation of the bucket: after any
  frames the sender has submitted, the commands caused at the P2P node by the frames of a period are at
  most two per admitted message, with at most ten admitted at once and ten more per second of the
  period, so tokens never accumulate beyond ten (exact arithmetic, clock readings that do not run
  backwards).\<close>

theorem relay_rate_limit:
  assumes "gw_limiters g s = Some (bucket_new now RATE_LIMIT_STORE_PER_SEC RATE_LIMIT_STORE_PER_SEC, l)"
    and "ge_round E = (\<lambda>x. x)" and "clock_ok now (map fst (before @ ((t, t'), d) # fs))"
  shows "rat_of_nat (length (gw_cmds (relay_run E s (((t, t'), d) # fs) (relay_run E s before g)))) \<le>
    rat_of_nat (length (gw_cmds (relay_run E s before g))) + 20 + 20 * (clock_end t (map fst (((t, t'), d) # fs)) - t)"
proof -
  let ?b = "bucket_new now RATE_LIMIT_STORE_PER_SEC RATE_LIMIT_STORE_PER_SEC"
  have b: "bucket_ok ?b" "tb_last ?b = now" "tb_capacity ?b = 10" "tb_rate ?b = 10"
    by (simp_all add: bucket_ok_def bucket_new_def RATE_LIMIT_STORE_PER_SEC_def)
  obtain b' where b': "gw_limiters (relay_run E s before g) s = Some (b', l)" "bucket_ok b'"
    "tb_capacity b' = 10" "tb_rate b' = 10" "clock_ok (tb_last b') (map fst (((t, t'), d) # fs))"
    using relay_run_bucket[OF assms(1,2) b(1), of before "((t, t'), d) # fs"] assms(3) b by auto
  from relay_period_bound[OF b'(1) assms(2) b'(2,5), of t] b'(3,4,5) show ?thesis by simp
qed

theorem relay_rate_limit_witness:
  "rat_of_nat (length (gw_cmds (relay_run demo_env [7] [((9, 9), demo_frame), ((9, 9), demo_frame)]
      (relay_run demo_env [7] [((0, 0), demo_frame)] demo_gateway)))) \<le>
    rat_of_nat (length (gw_cmds (relay_run demo_env [7] [((0, 0), demo_frame)] demo_gateway))) + 20"
proof -
  have "gw_limiters demo_gateway [7] = Some (bucket_new 0 RATE_LIMIT_STORE_PER_SEC RATE_LIMIT_STORE_PER_SEC,
      bucket_new 0 RATE_LIMIT_LOOKUP_PER_SEC RATE_LIMIT_LOOKUP_PER_SEC)"
    by (simp add: demo_gateway_def)
  from relay_rate_limit[OF this, of demo_env "[((0, 0), demo_frame)]" 9 9 demo_frame "[((9, 9), demo_frame)]"]
  show ?thesis by (simp add: demo_env_def)
qed


text \<open>C19: Connecting drains the local mailbox exactly once: the new connection and the other live
  connections of the session receive every pending payload that no earlier connection received, each
  payload once and in key order; every record read is removed from the mailbox; and afterwards all
  their hashes are in the delivered set.\<close>

theorem connect_drains_once:
  assumes E: "env_wf E" and mb: "gw_mailbox g" and u: "u \<noteq> []" and ch: "gw_alive g ch"
    and r: "read_sled_backup (ge_wire E) (ge_sled E) (gw_db g) u = (db1, recs)"
  shows "let new = fresh_payloads (ge_wire E) (persisted E g u) (map snd recs);
      g' = connect_client E now u ch g in
    gw_sent g' = gw_sent g @ concat (map (sends (live_channels g u @ [ch])) new) \<and>
    distinct (map (payload_hash (ge_wire E)) new) \<and>
    (\<forall>(k, p) \<in> set recs. sl_get (ge_sled E) (gw_db g') SLED_MAILBOX_TREE k = None \<and>
       payload_hash (ge_wire E) p \<in> set (hashes_of (gw_delivered g') u))"
  using connect_live(1-3)[OF E mb u ch r] fresh_payloads_spec(3)[of "ge_wire E" "persisted E g u" "map snd recs"]
  by (auto simp: Let_def rev_image_eqI)

theorem connect_drains_once_witness:
  "gw_sent (connect_client demo_env 0 [9] 4 demo_gateway) = [(3, [5, 6]), (4, [5, 6])]"
proof -
  have "persisted demo_env demo_gateway [9] = []"
    by (simp add: persisted_def demo_env_def demo_gateway_def load_delivered_hashes_def toy_sled_def
        toy_norm_def bt_wf_def bt_get_def SLED_MAILBOX_TREE_def SLED_DELIVERED_TREE_def)
  moreover have "gw_sent demo_gateway = []" by (simp add: demo_gateway_def)
  ultimately show ?thesis
    using connect_drains_once[OF demo_env_wf demo_live(4) _ demo_live(5) demo_backup, of 0 4]
    by (simp add: demo_live sends_def Let_def)
qed

text \<open>The drain deletes on success only: when every connection of the session is gone, nothing is
  sent, the delivered set is unchanged, and every record whose payload was not delivered before is
  still in the mailbox.\<close>

theorem drain_loses_nothing:
  assumes E: "env_wf E" and mb: "gw_mailbox g" and dead: "live_channels g u = []"
    and r: "read_sled_backup (ge_wire E) (ge_sled E) (gw_db g) u = (db1, recs)"
    and rec: "(k, p) \<in> set recs" "payload_hash (ge_wire E) p \<notin> set (hashes_of (gw_delivered g) u)"
  shows "gw_sent (drain_local E u g) = gw_sent g \<and> gw_delivered (drain_local E u g) = gw_delivered g \<and>
    sl_get (ge_sled E) (gw_db (drain_local E u g)) SLED_MAILBOX_TREE k =
      sl_get (ge_sled E) (gw_db g) SLED_MAILBOX_TREE k"
proof -
  have S: "sled_ok (ge_sled E)" using E by (simp add: env_wf_def)
  obtain db where d: "drain_local E u g = g\<lparr>gw_db := db\<rparr>"
    "sl_get (ge_sled E) db SLED_MAILBOX_TREE k =
       (if \<exists>p. (k, p) \<in> set recs \<and> payload_hash (ge_wire E) p \<in> set (hashes_of (gw_delivered g) u)
        then None else sl_get (ge_sled E) db1 SLED_MAILBOX_TREE k)"
    using drain_dead[OF E mb dead r] by metis
  have "q = p" if "(k, q) \<in> set recs" for q
    using read_backup_spec(3)[OF S r] that rec(1) by (metis eq_key_imp_eq_value)
  then have "sl_get (ge_sled E) db SLED_MAILBOX_TREE k = sl_get (ge_sled E) db1 SLED_MAILBOX_TREE k"
    using d(2) rec(2) by auto
  moreover have "sl_get (ge_sled E) db1 SLED_MAILBOX_TREE k = sl_get (ge_sled E) (gw_db g) SLED_MAILBOX_TREE k"
    using read_backup_spec(1)[OF S r, of k p] read_backup_spec(2)[OF S r, of SLED_MAILBOX_TREE k] rec(1)
    by auto
  ultimately show ?thesis by (simp add: d(1))
qed

theorem drain_loses_nothing_witness:
  "let g = demo_gateway\<lparr>gw_alive := (\<lambda>ch. False)\<rparr> in
    sl_get toy_sled (gw_db (drain_local demo_env [9] g)) SLED_MAILBOX_TREE [9, 1] = Some [5, 6]"
proof -
  let ?g = "demo_gateway\<lparr>gw_alive := (\<lambda>ch. False)\<rparr>"
  have "live_channels ?g [9] = []" by (simp add: live_channels_def demo_gateway_def)
  from drain_loses_nothing[OF demo_env_wf _ this, of _ _ "[9, 1]" "[5, 6]"]
  have "sl_get (ge_sled demo_env) (gw_db (drain_local demo_env [9] ?g)) SLED_MAILBOX_TREE [9, 1] =
      sl_get (ge_sled demo_env) (gw_db ?g) SLED_MAILBOX_TREE [9, 1]"
    using demo_backup by (simp add: demo_live)
  then show ?thesis
    by (simp add: demo_env_def demo_gateway_def toy_sled_def toy_norm_def bt_wf_def bt_get_def Let_def)
qed

text \<open>C22: Nothing delivered is sent again by the connection that follows. When the connection of a session
  ends and no other one of the session is left, its delivered set, of at most 8192 hashes, is on disk;
  whatever anybody relays to anybody before the session connects again, the new connection is sent no
  payload whose hash is in that set.\<close>

theorem reconnect_skips_delivered:
  assumes E: "env_wf E" and mb: "gw_mailbox g" and u: "u \<noteq> []"
    and hs: "gw_delivered g u = Some hs" "length hs \<le> MAX_PERSISTED_HASHES"
    and gone: "live_channels ((disconnect_client E u g)\<lparr>gw_alive := al\<rparr>) u = []"
  shows "let g2 = fold (\<lambda>(clk, s, d). relay_or_p2p E clk s d) relays ((disconnect_client E u g)\<lparr>gw_alive := al\<rparr>) in
    \<exists>xs. gw_sent (connect_client E now u ch g2) = gw_sent g2 @ xs \<and>
      (\<forall>(c, q) \<in> set xs. payload_hash (ge_wire E) q \<notin> set hs)"
proof -
  let ?g1 = "(disconnect_client E u g)\<lparr>gw_alive := al\<rparr>"
  note d = disconnect_persists[OF E mb hs(1)]
  have "away E u hs ?g1"
    using d gone trim_hashes_spec(3)[OF hs(2)] by (simp add: away_def persisted_def disconnect_forgets)
  from relays_away[OF E this, of relays] connect_skips_persisted[OF E _ u] show ?thesis
    by (auto simp: away_def Let_def)
qed

theorem reconnect_skips_delivered_witness:
  "let g = demo_gateway\<lparr>gw_delivered := [[9] \<mapsto> [2]]\<rparr>; g1 = (disconnect_client demo_env [9] g)\<lparr>gw_alive := (\<lambda>c. c = 4)\<rparr>;
      g2 = relay_or_p2p demo_env (0, 0) [7] demo_frame g1 in
    \<exists>xs. gw_sent (connect_client demo_env 0 [9] 4 g2) = gw_sent g2 @ xs \<and> [5, 6] \<notin> snd ` set xs"
proof -
  let ?g = "demo_gateway\<lparr>gw_delivered := [[9] \<mapsto> [2]]\<rparr>"
  have g: "gw_mailbox ?g" "gw_delivered ?g [9] = Some [2]" by (simp_all add: demo_gateway_def)
  have gone: "live_channels ((disconnect_client demo_env [9] ?g)\<lparr>gw_alive := (\<lambda>c. c = 4)\<rparr>) [9] = []"
    by (simp add: disconnect_client_def prune_client_def persist_delivered_set_def live_channels_def demo_gateway_def Let_def)
  have "length [2 :: u64] \<le> MAX_PERSISTED_HASHES" "[9 :: u8] \<noteq> []" by (simp_all add: MAX_PERSISTED_HASHES_def)
  moreover have "payload_hash (ge_wire demo_env) [5, 6] = 2" by (simp add: payload_hash_def demo_env_def toy_wire_def)
  ultimately show ?thesis
    using reconnect_skips_delivered[OF demo_env_wf g(1) _ g(2) _ gone, of "[((0, 0), [7], demo_frame)]" 0 4]
    by (fastforce simp: Let_def)
qed

text \<open>Checking a payload is exact and bounded: it is new precisely when its hash is not in the
  user's set, it is in the set afterwards, the set of another user is unchanged, nothing but this
  hash is added, and the set never holds more than 4096 hashes.\<close>

theorem delivered_set_bounded:
  assumes "distinct (hashes_of m u)" "length (hashes_of m u) \<le> MAX_DELIVERED_HASHES" "v \<noteq> u"
  shows "let (new, m') = check_and_mark_delivered W m u p in
    (new \<longleftrightarrow> payload_hash W p \<notin> set (hashes_of m u)) \<and> payload_hash W p \<in> set (hashes_of m' u) \<and>
    m' v = m v \<and> set (hashes_of m' u) \<subseteq> insert (payload_hash W p) (set (hashes_of m u)) \<and>
    distinct (hashes_of m' u) \<and> length (hashes_of m' u) \<le> MAX_DELIVERED_HASHES"
proof -
  obtain new m' where c: "check_and_mark_delivered W m u p = (new, m')"
    by (cases "check_and_mark_delivered W m u p")
  show ?thesis
    using check_and_mark_spec(1,2,4)[OF c] check_and_mark_spec(3)[OF c assms(3)]
      check_and_mark_spec(5)[OF c assms(1,2)]
    by (simp add: c)
qed

theorem delivered_set_bounded_witness:
  "fst (check_and_mark_delivered toy_wire [[9] \<mapsto> [1, 2]] [9] [5, 5, 5])"
  using delivered_set_bounded[of "[[9] \<mapsto> [1, 2]]" "[9]" "[8]" toy_wire "[5, 5, 5]"]
  by (simp add: hashes_of_def MAX_DELIVERED_HASHES_def payload_hash_def toy_wire_def case_prod_beta Let_def)

text \<open>A session with two connections loses its delivered set when one of them closes: the next
  message relayed to the other one leaves only its own hash on disk, so every payload delivered
  before counts as new again.\<close>

theorem second_connection_forgets:
  assumes E: "env_wf E" and mb: "gw_mailbox g" and live: "live_channels g r \<noteq> []"
    and parse: "parse_relay d = Some (r, p)"
    and lim: "check_rate_limit_store (ge_round E) clk s (disconnect_client E r g) = (True, g1)"
  shows "persisted E (relay_or_p2p E clk s d (disconnect_client E r g)) r =
    [payload_hash (ge_wire E) (forward_frame s p)]"
proof -
  let ?g = "disconnect_client E r g"
  have cl: "live_channels (prune_client r h) r = live_channels h r" for h :: "'a gateway"
    by (auto simp: prune_client_def live_channels_def Let_def split: option.split)
  have "live_channels ?g r = live_channels g r"
    unfolding disconnect_client_def Let_def cl by (rule live_channels_cong) simp_all
  then have live': "live_channels ?g r \<noteq> []" using live by simp
  have pr: "gw_delivered (prune_client r h) = gw_delivered h \<and> gw_mailbox (prune_client r h) = gw_mailbox h"
    for h :: "'a gateway" by (simp add: prune_client_def Let_def split: option.split)
  have none: "hashes_of (gw_delivered ?g) r = []" "gw_mailbox ?g"
    using mb by (simp_all add: disconnect_client_def pr hashes_of_def Let_def)
  obtain l where g1: "g1 = ?g\<lparr>gw_limiters := l\<rparr>" using rate_limit_frame[OF lim] by blast
  have "trim_hashes [h] = [h]" for h by (simp add: trim_hashes_def MAX_PERSISTED_HASHES_def)
  then show ?thesis
    using persisted_after[OF E] none
    by (simp add: relay_fresh[OF parse lim live'] g1 hs_insert_def)
qed

theorem second_connection_forgets_witness:
  "persisted demo_env (relay_or_p2p demo_env (0, 0) [7] demo_frame (disconnect_client demo_env [9] demo_gateway)) [9] = [5]"
proof -
  have "\<exists>g1. check_rate_limit_store (ge_round demo_env) (0, 0) [7] (disconnect_client demo_env [9] demo_gateway) = (True, g1)"
    by (simp add: check_rate_limit_store_def disconnect_client_def prune_client_def persist_delivered_set_def
        demo_gateway_def demo_env_def try_consume_def refill_def bucket_new_def RATE_LIMIT_STORE_PER_SEC_def Let_def)
  then obtain g1 where lim: "check_rate_limit_store (ge_round demo_env) (0, 0) [7]
      (disconnect_client demo_env [9] demo_gateway) = (True, g1)" by blast
  have "live_channels demo_gateway [9] \<noteq> []" by (simp add: demo_live)
  from second_connection_forgets[OF demo_env_wf demo_live(4) this demo_parse lim]
  show ?thesis by (simp add: demo_forward payload_hash_def demo_env_def toy_wire_def)
qed

text \<open>A relay frame for a recipient whose id has 256 bytes starts with a zero byte and is taken for a
  profile request: instead of being relayed, it registers the message, behind the rest of the id, as
  the profile under the first 32 bytes of the id.\<close>

theorem long_recipient_registers:
  assumes frame: "parse_relay d = Some (r, p)" and len: "length r = 256"
  shows "handle_client_message E P clk token s d n g = handle_profile_operation P token s 0x01 (r @ p) n g"
proof -
  have d: "2 \<le> length d" "length r = unat (le_u16 [d ! 0, d ! 1])" "r = take (length r) (drop 2 d)" "p = drop (length r) (drop 2 d)"
    using frame by (auto simp: parse_relay_def slice_def Let_def split: if_splits)
  have rp: "drop 2 d = r @ p" using d(3,4) by (metis append_take_drop_id)
  have "le_u16 [d ! 0, d ! 1] = word_of_nat (unat (le_u16 [d ! 0, d ! 1]))" by simp
  also have "\<dots> = 256" unfolding d(2)[symmetric] len by simp
  finally have "le_u16 [d ! 0, d ! 1] = 256" .
  then have "[d ! 0, d ! 1] = u16_le 256" using u16_le_le_u16[of "d ! 0" "d ! 1"] by (simp only:)
  moreover have "u16_le 256 = [0, 1]" by code_simp
  ultimately have "d ! 0 = 0" "d ! 1 = 1" by simp_all
  with d(1) rp show ?thesis by (simp add: handle_client_message_def)
qed

theorem long_recipient_registers_witness:
  "handle_client_message demo_env P (0, 0) token [7] ([0, 1] @ replicate 256 9 @ [5]) n g =
    handle_profile_operation P token [7] 0x01 (replicate 256 9 @ [5]) n g"
  by (rule long_recipient_registers) (simp_all add: parse_relay_def le_u16_def slice_def)

end
