(* ===== verification/Events_Props.thy ===== *)
theory Events_Props
  imports Events Gateway_Props
begin

text \<open>
  What the node's events do at the gateway: gossip messages and retrieved records reach the
  recipient's connections once; the defect that marks a record before it is sent; and the command
  line as a fold over its options.
\<close>

section \<open>Delivering a list of payloads\<close>

text \<open>The effect both deliveries have on the gateway, apart from their counters.\<close>

definition deliver_one :: "'db gw_env \<Rightarrow> bytes \<Rightarrow> nat list \<Rightarrow> bytes \<Rightarrow> 'db gateway \<Rightarrow> 'db gateway" where
  "deliver_one E u senders p g =
     (let (new, m) = check_and_mark_delivered (ge_wire E) (gw_delivered g) u p;
          g1 = g\<lparr>gw_delivered := m\<rparr>
      in if new then snd (send_all senders p g1) else g1)"

lemma deliver_fetched_state: "snd (deliver_fetched E u senders p (r, g)) = deliver_one E u senders p g"
  by (simp add: deliver_fetched_def deliver_one_def case_prod_beta Let_def)

lemma deliver_backup_state: "snd (deliver_backup E u senders (k, p) (r, g)) = deliver_one E u senders p g"
  by (simp add: deliver_backup_def deliver_one_def case_prod_beta Let_def)

lemma fetched_fold:
  "snd (fold (deliver_fetched E u senders) ps (r, g)) = fold (deliver_one E u senders) ps g"
  by (induction ps arbitrary: r g) (simp_all, metis deliver_fetched_state prod.collapse)

lemma backup_state_fold:
  "snd (fold (deliver_backup E u senders) recs (r, g)) = fold (deliver_one E u senders) (map snd recs) g"
  by (induction recs arbitrary: r g) (simp_all, metis deliver_backup_state prod.collapse)

lemma deliver_one_fold:
  assumes "length (hashes_of (gw_delivered g) u) + length ps \<le> MAX_DELIVERED_HASHES"
  shows "\<exists>m. fold (deliver_one E u senders) ps g =
      g\<lparr>gw_sent := gw_sent g @ concat (map (sends (filter (gw_alive g) senders))
          (fresh_payloads (ge_wire E) (hashes_of (gw_delivered g) u) ps)), gw_delivered := m\<rparr> \<and>
    set (hashes_of m u) = set (hashes_of (gw_delivered g) u) \<union> payload_hash (ge_wire E) ` set ps \<and>
    length (hashes_of m u) \<le> length (hashes_of (gw_delivered g) u) + length ps \<and>
    (\<forall>v. v \<noteq> u \<longrightarrow> m v = gw_delivered g v)"
  using assms
proof (induction ps arbitrary: g)
  case Nil
  then show ?case by (intro exI[of _ "gw_delivered g"]) simp
next
  case (Cons p ps)
  let ?W = "ge_wire E" and ?hs = "hashes_of (gw_delivered g) u"
  let ?h = "payload_hash ?W p"
  let ?m = "(gw_delivered g)(u \<mapsto> hs_insert ?h ?hs)"
  let ?g = "g\<lparr>gw_sent := gw_sent g @ (if ?h \<in> set ?hs then [] else sends (filter (gw_alive g) senders) p),
    gw_delivered := ?m\<rparr>"
  have "check_and_mark_delivered ?W (gw_delivered g) u p = (?h \<notin> set ?hs, ?m)"
    using Cons.prems by (auto simp: check_and_mark_delivered_def Let_def hs_insert_def)
  then have one: "deliver_one E u senders p g = ?g" by (simp add: deliver_one_def send_all_eq)
  have len: "length (hashes_of (gw_delivered ?g) u) + length ps \<le> MAX_DELIVERED_HASHES"
    using Cons.prems by (simp add: hs_insert_def)
  have fr: "fresh_payloads ?W (hashes_of (gw_delivered ?g) u) ps = fresh_payloads ?W (?h # ?hs) ps"
    by (rule fresh_payloads_cong) simp
  obtain m where m: "fold (deliver_one E u senders) ps ?g =
      ?g\<lparr>gw_sent := gw_sent ?g @ concat (map (sends (filter (gw_alive ?g) senders))
          (fresh_payloads ?W (?h # ?hs) ps)), gw_delivered := m\<rparr>"
    "set (hashes_of m u) = set (hashes_of (gw_delivered ?g) u) \<union> payload_hash ?W ` set ps"
    "length (hashes_of m u) \<le> length (hashes_of (gw_delivered ?g) u) + length ps"
    "\<forall>v. v \<noteq> u \<longrightarrow> m v = gw_delivered ?g v"
    using Cons.IH[OF len] unfolding fr by blast
  have seen: "fresh_payloads ?W (?h # ?hs) ps = fresh_payloads ?W ?hs ps" if "?h \<in> set ?hs"
    using that by (intro fresh_payloads_cong) auto
  have "fold (deliver_one E u senders) (p # ps) g =
      g\<lparr>gw_sent := gw_sent g @ concat (map (sends (filter (gw_alive g) senders))
          (fresh_payloads ?W ?hs (p # ps))), gw_delivered := m\<rparr>"
    using m(1) seen by (simp add: one)
  moreover have "set (hashes_of m u) = set ?hs \<union> payload_hash ?W ` set (p # ps)" using m(2) by auto
  moreover have "length (hashes_of m u) \<le> length ?hs + length (p # ps)"
    using m(3) by (simp add: hs_insert_def split: if_splits)
  ultimately show ?case using m(4) by auto
qed

text \<open>Which records a delivery schedules for removal.\<close>

lemma backup_removed_live:
  assumes "filter (gw_alive g) senders \<noteq> []"
  shows "rv_remove (fst (fold (deliver_backup E u senders) recs (r, g))) = rv_remove r @ map fst recs"
  using assms
proof (induction recs arbitrary: r g)
  case Nil
  then show ?case by simp
next
  case (Cons rec recs)
  obtain k p where rec: "rec = (k, p)" by (cases rec)
  obtain r1 g1 where d: "deliver_backup E u senders rec (r, g) = (r1, g1)" by (metis prod.collapse)
  have "gw_alive g1 = gw_alive g" "rv_remove r1 = rv_remove r @ [k]"
    using d Cons.prems
    by (auto simp: rec deliver_backup_def send_all_eq case_prod_beta Let_def split: if_splits)
  then show ?case using Cons.IH[of g1 r1] Cons.prems by (simp add: d) (simp add: rec)
qed

lemma backup_removed_seen:
  assumes "payload_hash (ge_wire E) ` snd ` set recs \<subseteq> set (hashes_of (gw_delivered g) u)"
  shows "rv_remove (fst (fold (deliver_backup E u senders) recs (r, g))) = rv_remove r @ map fst recs"
  using assms
proof (induction recs arbitrary: r g)
  case Nil
  then show ?case by simp
next
  case (Cons rec recs)
  obtain k p where rec: "rec = (k, p)" by (cases rec)
  have seen: "payload_hash (ge_wire E) p \<in> set (hashes_of (gw_delivered g) u)" using Cons.prems by (simp add: rec)
  let ?g = "g\<lparr>gw_delivered := (gw_delivered g)(u \<mapsto> hashes_of (gw_delivered g) u)\<rparr>"
  have "deliver_backup E u senders rec (r, g) =
      (r\<lparr>rv_dupes := Suc (rv_dupes r), rv_remove := rv_remove r @ [k]\<rparr>, ?g)"
    using seen by (simp add: rec deliver_backup_def check_and_mark_delivered_def)
  moreover have "payload_hash (ge_wire E) ` snd ` set recs \<subseteq> set (hashes_of (gw_delivered ?g) u)"
    using Cons.prems by simp
  ultimately show ?case using Cons.IH[of ?g "r\<lparr>rv_dupes := Suc (rv_dupes r), rv_remove := rv_remove r @ [k]\<rparr>"]
    by (simp add: rec del: fun_upd_apply)
qed

lemma disjoint_insert_mono: "m \<subseteq> insert h s \<Longrightarrow> h \<notin> X \<Longrightarrow> X \<inter> s = {} \<Longrightarrow> X \<inter> m = {}"
  by blast

lemma backup_removed_dead:
  assumes "filter (gw_alive g) senders = []"
    and "distinct (map (payload_hash (ge_wire E)) (map snd recs))"
    and "payload_hash (ge_wire E) ` snd ` set recs \<inter> set (hashes_of (gw_delivered g) u) = {}"
  shows "rv_remove (fst (fold (deliver_backup E u senders) recs (r, g))) = rv_remove r"
  using assms
proof (induction recs arbitrary: r g)
  case Nil
  then show ?case by simp
next
  case (Cons rec recs)
  obtain k p where rec: "rec = (k, p)" by (cases rec)
  obtain new m where c: "check_and_mark_delivered (ge_wire E) (gw_delivered g) u p = (new, m)"
    by (metis prod.collapse)
  note cm = check_and_mark_spec[OF c]
  have "new" using cm(1) Cons.prems(3) by (simp add: rec)
  then have d: "deliver_backup E u senders rec (r, g) = (r, g\<lparr>gw_delivered := m\<rparr>)"
    using Cons.prems(1) by (simp add: rec deliver_backup_def c send_all_eq sends_def)
  have new: "payload_hash (ge_wire E) p \<notin> payload_hash (ge_wire E) ` snd ` set recs"
    using Cons.prems(2) by (simp add: rec image_image)
  have old: "payload_hash (ge_wire E) ` snd ` set recs \<inter> set (hashes_of (gw_delivered g) u) = {}"
    using Cons.prems(3) by auto
  have "payload_hash (ge_wire E) ` snd ` set recs \<inter> set (hashes_of m u) = {}"
    by (rule disjoint_insert_mono[OF cm(4) new old])
  then have disj: "payload_hash (ge_wire E) ` snd ` set recs \<inter>
      set (hashes_of (gw_delivered (g\<lparr>gw_delivered := m\<rparr>)) u) = {}" by simp
  have dead: "filter (gw_alive (g\<lparr>gw_delivered := m\<rparr>)) senders = []" using Cons.prems(1) by simp
  have "distinct (map (payload_hash (ge_wire E)) (map snd recs))" using Cons.prems(2) by simp
  from Cons.IH[OF dead this disj, of r] show ?case by (simp only: fold_simps comp_apply d)
qed


section \<open>Retrieved records\<close>

lemma deliver_one_fields [simp]:
  "gw_clients (fold (deliver_one E u senders) ps g) = gw_clients g"
  "gw_alive (fold (deliver_one E u senders) ps g) = gw_alive g"
  "gw_db (fold (deliver_one E u senders) ps g) = gw_db g"
proof -
  have one: "gw_clients (deliver_one E u senders p g) = gw_clients g \<and> gw_alive (deliver_one E u senders p g) = gw_alive g \<and>
      gw_db (deliver_one E u senders p g) = gw_db g" for p and g :: "'a gateway"
    by (simp add: deliver_one_def send_all_eq case_prod_beta Let_def)
  show "gw_clients (fold (deliver_one E u senders) ps g) = gw_clients g"
    "gw_alive (fold (deliver_one E u senders) ps g) = gw_alive g"
    "gw_db (fold (deliver_one E u senders) ps g) = gw_db g"
    by (induction ps arbitrary: g) (simp_all add: one)
qed

lemma retrieved_fetched:
  assumes "snd (handle_retrieval_result (ge_wire E) [] u ms) = ps" "ps \<noteq> []" "gw_clients g u = Some senders"
  defines "g' \<equiv> on_mailbox_retrieved E u ms g" and "d \<equiv> fold (deliver_one E u senders) ps g"
  shows "gw_sent g' = gw_sent d \<and> gw_delivered g' = gw_delivered d \<and> gw_clients g' = gw_clients g \<and> gw_alive g' = gw_alive g"
  using assms(1-3)
  by (simp add: g'_def d_def on_mailbox_retrieved_def fetched_fold case_prod_beta Let_def split: option.split)

text \<open>The fallback to the backup when nothing was fetched.\<close>

lemma retrieved_backup:
  assumes S: "env_wf E" and "snd (handle_retrieval_result (ge_wire E) [] u ms) = []" "gw_clients g u = Some senders"
    and r: "read_sled_backup (ge_wire E) (ge_sled E) (gw_db g) u = (db1, recs)"
  defines "g' \<equiv> on_mailbox_retrieved E u ms g" and "g0 \<equiv> g\<lparr>gw_db := db1\<rparr>"
    and "rm \<equiv> rv_remove (fst (fold (deliver_backup E u senders) recs
      (\<lparr>rv_remove = [], rv_delivered = 0, rv_dupes = 0\<rparr>, g\<lparr>gw_db := db1\<rparr>)))"
  shows "gw_sent g' = gw_sent (fold (deliver_one E u senders) (map snd recs) g0)"
    and "gw_delivered g' = gw_delivered (fold (deliver_one E u senders) (map snd recs) g0)"
    and "gw_clients g' = gw_clients g" and "gw_alive g' = gw_alive g"
    and "sl_get (ge_sled E) (gw_db g') SLED_MAILBOX_TREE k =
      (if k \<in> set rm then None else sl_get (ge_sled E) db1 SLED_MAILBOX_TREE k)"
proof -
  let ?r0 = "\<lparr>rv_remove = [], rv_delivered = 0, rv_dupes = 0\<rparr> :: 'a retrieval"
  obtain r1 g1 where f: "fold (deliver_backup E u senders) recs (?r0, g0) = (r1, g1)" by (metis prod.collapse)
  have g1: "g1 = fold (deliver_one E u senders) (map snd recs) g0"
    using backup_state_fold[of E u senders recs ?r0 g0] f by simp
  have rm: "rm = rv_remove r1" using f by (simp add: rm_def g0_def)
  have ok: "sled_ok (ge_sled E)" using S by (simp add: env_wf_def)
  have db: "gw_db g1 = db1" by (simp add: g1) (simp add: g0_def)
  define dbs where "dbs = (if 0 < rv_delivered r1 then
      (case gw_delivered g1 u of None \<Rightarrow> db1
       | Some hashes \<Rightarrow> save_delivered_hashes (ge_wire E) (ge_sled E) db1 u hashes) else db1)"
  have saved: "(if 0 < rv_delivered r1 then
      (case gw_delivered g1 u of None \<Rightarrow> g1
       | Some hashes \<Rightarrow> g1\<lparr>gw_db := save_delivered_hashes (ge_wire E) (ge_sled E) (gw_db g1) u hashes\<rparr>) else g1) =
      g1\<lparr>gw_db := dbs\<rparr>" by (simp add: dbs_def db[symmetric] split: option.split)
  have keep: "sl_get (ge_sled E) dbs SLED_MAILBOX_TREE k = sl_get (ge_sled E) db1 SLED_MAILBOX_TREE k"
    by (simp add: dbs_def save_keeps_mailbox[OF ok] split: option.split)
  have eq: "g' = (if recs = [] then g1 else g1\<lparr>gw_db := remove_sled_records (ge_sled E) dbs (rv_remove r1)\<rparr>)"
  proof (cases "recs = []")
    case True
    then have "g1 = g0" by (simp add: g1)
    then show ?thesis using True assms(2) by (simp add: g'_def on_mailbox_retrieved_def r g0_def)
  next
    case False
    have "g' = (let g3 = g1\<lparr>gw_db := dbs\<rparr> in if rv_remove r1 = [] then g3
        else g3\<lparr>gw_db := remove_sled_records (ge_sled E) (gw_db g3) (rv_remove r1)\<rparr>)"
      unfolding saved[symmetric] using assms(2,3) f False
      by (simp add: g'_def on_mailbox_retrieved_def r g0_def Let_def)
    then show ?thesis using False by (simp add: Let_def remove_sled_records_def)
  qed
  have fields: "gw_clients g1 = gw_clients g" "gw_alive g1 = gw_alive g" by (simp_all add: g1) (simp_all add: g0_def)
  show "gw_sent g' = gw_sent (fold (deliver_one E u senders) (map snd recs) g0)"
    and "gw_delivered g' = gw_delivered (fold (deliver_one E u senders) (map snd recs) g0)"
    and "gw_clients g' = gw_clients g" and "gw_alive g' = gw_alive g"
    unfolding g1[symmetric] eq using fields by simp_all
  have "rv_remove r1 = []" if "recs = []" using f that by auto
  then show "sl_get (ge_sled E) (gw_db g') SLED_MAILBOX_TREE k =
      (if k \<in> set rm then None else sl_get (ge_sled E) db1 SLED_MAILBOX_TREE k)"
    unfolding eq rm by (simp add: db get_remove_sled_records[OF ok] keep)
qed

lemma deliver_one_dead:
  "filter (gw_alive g) senders = [] \<Longrightarrow> gw_sent (fold (deliver_one E u senders) ps g) = gw_sent g"
proof (induction ps arbitrary: g)
  case Nil
  then show ?case by simp
next
  case (Cons p ps)
  have "gw_sent (deliver_one E u senders p g) = gw_sent g" "gw_alive (deliver_one E u senders p g) = gw_alive g"
    using Cons.prems by (simp_all add: deliver_one_def send_all_eq sends_def case_prod_beta Let_def)
  then show ?case using Cons by simp
qed


section \<open>Theorems\<close>

text \<open>C28: Records fetched from the DHT reach each live connection of the user once: the payloads not
  delivered before are sent in order, each once, all of them are in the delivered set afterwards,
  and handling the same retrieval again sends nothing.\<close>

theorem fetched_delivered_once:
  assumes ps: "snd (handle_retrieval_result (ge_wire E) [] u ms) = ps" "ps \<noteq> []"
    and cl: "gw_clients g u = Some senders"
    and room: "length (hashes_of (gw_delivered g) u) + 2 * length ps \<le> MAX_DELIVERED_HASHES"
  shows "let g' = on_mailbox_retrieved E u ms g in
    gw_sent g' = gw_sent g @ concat (map (sends (live_channels g u))
      (fresh_payloads (ge_wire E) (hashes_of (gw_delivered g) u) ps)) \<and>
    (\<forall>p \<in> set ps. payload_hash (ge_wire E) p \<in> set (hashes_of (gw_delivered g') u)) \<and>
    gw_sent (on_mailbox_retrieved E u ms g') = gw_sent g'"
proof -
  let ?g = "on_mailbox_retrieved E u ms g"
  let ?d = "fold (deliver_one E u senders) ps g"
  note a = retrieved_fetched[OF ps cl]
  have "length (hashes_of (gw_delivered g) u) + length ps \<le> MAX_DELIVERED_HASHES" using room by simp
  from deliver_one_fold[OF this] obtain m where m: "?d = g\<lparr>gw_sent := gw_sent g @ concat (map (sends (filter (gw_alive g) senders))
          (fresh_payloads (ge_wire E) (hashes_of (gw_delivered g) u) ps)), gw_delivered := m\<rparr>"
    "set (hashes_of m u) = set (hashes_of (gw_delivered g) u) \<union> payload_hash (ge_wire E) ` set ps"
    "length (hashes_of m u) \<le> length (hashes_of (gw_delivered g) u) + length ps" by blast
  have del: "gw_delivered ?g = m" using a m(1) by simp
  have cl2: "gw_clients ?g u = Some senders" using a cl by simp
  have room2: "length (hashes_of (gw_delivered ?g) u) + length ps \<le> MAX_DELIVERED_HASHES"
    using m(3) room by (simp add: del)
  have none: "fresh_payloads (ge_wire E) (hashes_of (gw_delivered ?g) u) ps = []"
    by (rule fresh_payloads_all_seen) (simp add: del m(2))
  have "gw_sent (fold (deliver_one E u senders) ps ?g) = gw_sent ?g"
    using deliver_one_fold[OF room2, of E senders] unfolding none by auto
  then have "gw_sent (on_mailbox_retrieved E u ms ?g) = gw_sent ?g"
    using retrieved_fetched[OF ps cl2] by simp
  then show ?thesis
    using a m(1,2) cl by (simp add: Let_def del live_channels_def)
qed

theorem fetched_delivered_once_witness:
  "gw_sent (on_mailbox_retrieved demo_env [9] [[5, 6], [5, 6]] demo_gateway) = [(3, [5, 6])]"
proof -
  have "deserialize_envelope toy_wire [5, 6] = None"
    by (simp add: toy_wire_def deserialize_envelope_def toy_unlist_def toy_unblock_def Let_def)
  then have "snd (handle_retrieval_result (ge_wire demo_env) [] [9] [[5, 6], [5, 6]]) = [[5, 6], [5, 6]]"
    by (simp add: handle_retrieval_result_def demo_env_def record_payload_def List.map_filter_simps)
  moreover have "gw_clients demo_gateway [9] = Some [3]" "gw_sent demo_gateway = []" by (simp_all add: demo_gateway_def)
  ultimately show ?thesis
    using fetched_delivered_once[of demo_env "[9]" "[[5, 6], [5, 6]]" "[[5, 6], [5, 6]]" demo_gateway "[3]"]
    by (simp add: MAX_DELIVERED_HASHES_def demo_live sends_def payload_hash_def Let_def)
qed

text \<open>A record of the local backup that no connection accepts is marked as delivered before it is
  sent: the first retrieval keeps it in the mailbox, the second one takes it for a duplicate and
  removes it, and it has never been sent.\<close>

theorem unaccepted_record_lost:
  assumes E: "env_wf E" and ps: "snd (handle_retrieval_result (ge_wire E) [] u ms) = []"
    and cl: "gw_clients g u = Some senders" "filter (gw_alive g) senders = []"
    and r: "read_sled_backup (ge_wire E) (ge_sled E) (gw_db g) u = (db1, recs)"
    and new: "distinct (map (payload_hash (ge_wire E)) (map snd recs))"
      "payload_hash (ge_wire E) ` snd ` set recs \<inter> set (hashes_of (gw_delivered g) u) = {}"
    and room: "length (hashes_of (gw_delivered g) u) + length recs \<le> MAX_DELIVERED_HASHES"
    and rec: "(k, p) \<in> set recs"
  defines "g1 \<equiv> on_mailbox_retrieved E u ms g"
  shows "sl_get (ge_sled E) (gw_db g1) SLED_MAILBOX_TREE k = sl_get (ge_sled E) (gw_db g) SLED_MAILBOX_TREE k \<and>
    sl_get (ge_sled E) (gw_db (on_mailbox_retrieved E u ms g1)) SLED_MAILBOX_TREE k = None \<and>
    gw_sent (on_mailbox_retrieved E u ms g1) = gw_sent g"
proof -
  have S: "sled_ok (ge_sled E)" using E by (simp add: env_wf_def)
  let ?g0 = "g\<lparr>gw_db := db1\<rparr>"
  note b = retrieved_backup[OF E ps cl(1) r, folded g1_def]
  have dead: "filter (gw_alive ?g0) senders = []" using cl(2) by simp
  have dis: "payload_hash (ge_wire E) ` snd ` set recs \<inter> set (hashes_of (gw_delivered ?g0) u) = {}"
    using new(2) by simp
  have db: "sl_get (ge_sled E) (gw_db g1) SLED_MAILBOX_TREE j = sl_get (ge_sled E) db1 SLED_MAILBOX_TREE j" for j
    using b(5)[of j] backup_removed_dead[OF dead new(1) dis] by simp
  have "length (hashes_of (gw_delivered ?g0) u) + length (map snd recs) \<le> MAX_DELIVERED_HASHES" using room by simp
  from deliver_one_fold[OF this, of E senders] obtain m where
    m: "fold (deliver_one E u senders) (map snd recs) ?g0 = ?g0\<lparr>gw_sent := gw_sent ?g0 @ concat (map (sends (filter (gw_alive ?g0) senders))
          (fresh_payloads (ge_wire E) (hashes_of (gw_delivered ?g0) u) (map snd recs))), gw_delivered := m\<rparr>"
    "set (hashes_of m u) = set (hashes_of (gw_delivered ?g0) u) \<union> payload_hash (ge_wire E) ` set (map snd recs)"
    by blast
  have seen: "payload_hash (ge_wire E) ` set (map snd recs) \<subseteq> set (hashes_of (gw_delivered g1) u)"
    unfolding b(2) m(1) using m(2) by simp
  have cl1: "gw_clients g1 u = Some senders" "filter (gw_alive g1) senders = []" using b(3,4) cl by simp_all
  obtain db2 recs2 where r2: "read_sled_backup (ge_wire E) (ge_sled E) (gw_db g1) u = (db2, recs2)"
    by (metis prod.collapse)
  have mem: "(j, q) \<in> set recs2 \<longleftrightarrow> (j, q) \<in> set recs" for j q
    using read_backup_spec(1)[OF S r2, of j q] read_backup_spec(1)[OF S r, of j q]
      read_backup_spec(2)[OF S r, of SLED_MAILBOX_TREE j] by (auto simp: db)
  then have same: "set recs2 = set recs" by auto
  note b2 = retrieved_backup[OF E ps cl1(1) r2]
  let ?r0 = "\<lparr>rv_remove = [], rv_delivered = 0, rv_dupes = 0\<rparr> :: 'a retrieval"
  have seen2: "payload_hash (ge_wire E) ` snd ` set recs2 \<subseteq> set (hashes_of (gw_delivered (g1\<lparr>gw_db := db2\<rparr>)) u)"
    using seen same by simp
  have "k \<in> set (rv_remove (fst (fold (deliver_backup E u senders) recs2 (?r0, g1\<lparr>gw_db := db2\<rparr>))))"
    unfolding backup_removed_seen[OF seen2] using rec same by force
  then have "sl_get (ge_sled E) (gw_db (on_mailbox_retrieved E u ms g1)) SLED_MAILBOX_TREE k = None"
    using b2(5)[of k] by simp
  moreover have "gw_sent g1 = gw_sent g" using b(1) deliver_one_dead[OF dead] by simp
  moreover have "gw_sent (on_mailbox_retrieved E u ms g1) = gw_sent g1"
    using b2(1) deliver_one_dead[of "g1\<lparr>gw_db := db2\<rparr>" senders] cl1(2) by simp
  moreover have "sl_get (ge_sled E) (gw_db g1) SLED_MAILBOX_TREE k = sl_get (ge_sled E) (gw_db g) SLED_MAILBOX_TREE k"
    using db[of k] read_backup_spec(1)[OF S r, of k p] read_backup_spec(2)[OF S r, of SLED_MAILBOX_TREE k] rec
    by auto
  ultimately show ?thesis by simp
qed

theorem unaccepted_record_lost_witness:
  "let g = demo_gateway\<lparr>gw_alive := (\<lambda>ch. False)\<rparr>; g1 = on_mailbox_retrieved demo_env [9] [] g in
    sl_get toy_sled (gw_db g) SLED_MAILBOX_TREE [9, 1] = Some [5, 6] \<and>
    sl_get toy_sled (gw_db (on_mailbox_retrieved demo_env [9] [] g1)) SLED_MAILBOX_TREE [9, 1] = None"
proof -
  let ?g = "demo_gateway\<lparr>gw_alive := (\<lambda>ch. False)\<rparr>"
  have r: "read_sled_backup (ge_wire demo_env) (ge_sled demo_env) (gw_db ?g) [9] = (gw_db demo_gateway, [([9, 1], [5, 6])])"
    using demo_backup by simp
  have a: "snd (handle_retrieval_result (ge_wire demo_env) [] [9] []) = []" "gw_clients ?g [9] = Some [3]"
    "filter (gw_alive ?g) [3] = []" "hashes_of (gw_delivered ?g) [9] = []"
    by (simp_all add: handle_retrieval_result_def demo_gateway_def hashes_of_def List.map_filter_simps)
  have "sl_get (ge_sled demo_env) (gw_db (on_mailbox_retrieved demo_env [9] [] (on_mailbox_retrieved demo_env [9] [] ?g)))
      SLED_MAILBOX_TREE [9, 1] = None"
    using unaccepted_record_lost[OF demo_env_wf a(1-3) r, of "[9, 1]" "[5, 6]"]
    by (simp add: demo_live MAX_DELIVERED_HASHES_def)
  moreover have "ge_sled demo_env = toy_sled" by (simp add: demo_env_def)
  moreover have "sl_get toy_sled (gw_db ?g) SLED_MAILBOX_TREE [9, 1] = Some [5, 6]"
    by (simp add: demo_gateway_def toy_sled_def toy_norm_def bt_wf_def bt_get_def)
  ultimately show ?thesis by (simp add: Let_def)
qed

text \<open>A gossip message on the topic of a connected user is sent to each live connection exactly
  when it is new, is marked, and the same message arriving again is dropped; for a user without a
  connection on this node nothing changes.\<close>

theorem gossip_routed_once:
  assumes "topic \<noteq> []" "w_unhex (ge_wire E) topic = Some u"
  shows "let g' = handle_p2p_event E users (MessageReceived from topic d) g in
    (gw_clients g u = None \<longrightarrow> g' = g) \<and>
    (gw_clients g u \<noteq> None \<longrightarrow>
       gw_sent g' = gw_sent g @ (if payload_hash (ge_wire E) d \<in> set (hashes_of (gw_delivered g) u) then []
         else sends (live_channels g u) d) \<and>
       payload_hash (ge_wire E) d \<in> set (hashes_of (gw_delivered g') u) \<and>
       gw_sent (handle_p2p_event E users (MessageReceived from' topic d) g') = gw_sent g')"
proof (cases "gw_clients g u")
  case None
  then show ?thesis using assms by (simp add: handle_p2p_event_def on_message_received_def)
next
  case (Some senders)
  let ?g = "on_message_received E topic d g"
  obtain new m where c: "check_and_mark_delivered (ge_wire E) (gw_delivered g) u d = (new, m)"
    by (metis prod.collapse)
  note cm = check_and_mark_spec[OF c]
  have sent: "gw_sent ?g = gw_sent g @ (if new then sends (live_channels g u) d else [])"
    "gw_delivered ?g = m" "gw_clients ?g u = Some senders"
    using assms Some by (simp_all add: on_message_received_def c send_all_eq live_channels_def Let_def)
  obtain new' m' where c': "check_and_mark_delivered (ge_wire E) (gw_delivered ?g) u d = (new', m')"
    by (metis prod.collapse)
  have "\<not> new'" using check_and_mark_spec(1)[OF c'] cm(2) sent(2) by simp
  then have "gw_sent (on_message_received E topic d ?g) = gw_sent ?g"
    using assms sent(3) by (simp add: on_message_received_def[of E topic d ?g] c')
  then show ?thesis
    using assms(1) Some sent cm(1,2) by (simp add: handle_p2p_event_def Let_def)
qed

theorem gossip_routed_once_witness:
  "gw_sent (handle_p2p_event demo_env [] (MessageReceived [1] [9] [5]) demo_gateway) = [(3, [5])]"
proof -
  have "w_unhex (ge_wire demo_env) [9] = Some [9]" "gw_clients demo_gateway [9] \<noteq> None" "gw_sent demo_gateway = []"
    by (simp_all add: demo_env_def toy_wire_def demo_gateway_def)
  with gossip_routed_once[of "[9]" demo_env "[9]" "[]" "[1]" "[5]" demo_gateway "[1]"] show ?thesis
    by (simp add: demo_live sends_def Let_def)
qed


section \<open>The command line\<close>

definition values_of :: "string \<Rightarrow> (string \<times> string) list \<Rightarrow> string list" where
  "values_of flag opts = map snd (filter (\<lambda>e. fst e = flag) opts)"

definition option_ok :: "string \<times> string \<Rightarrow> bool" where
  "option_ok e \<longleftrightarrow>
     fst e \<in> {''--port'', ''--listen-p2p'', ''--bootstrap'', ''--cert'', ''--key''} \<and>
     (fst e = ''--port'' \<longrightarrow> parse_unsigned 16 (snd e) \<noteq> None)"

text \<open>The options of the command line override what the environment gave, the last one of a kind
  wins, bootstrap addresses accumulate in order behind those of the environment, and the
  certificate and the key select TLS only together.\<close>

theorem cli_options:
  assumes "\<forall>e \<in> set opts. option_ok e"
  shows "let args = concat (map (\<lambda>(f, v). [f, v]) opts);
      cert = last (ev_cert env # map Some (values_of ''--cert'' opts));
      key = last (ev_key env # map Some (values_of ''--key'' opts))
    in case cli_parse env args of
        Inr a \<Rightarrow>
          ca_ws_port a = last (cs_port (cli_defaults env) # map (\<lambda>v. the (parse_unsigned 16 v)) (values_of ''--port'' opts)) \<and>
          ca_p2p_listen a = last (cs_listen (cli_defaults env) # values_of ''--listen-p2p'' opts) \<and>
          ca_bootstrap a = cs_bootstrap (cli_defaults env) @ values_of ''--bootstrap'' opts \<and>
          (case ca_mode a of Plain \<Rightarrow> cert = None \<and> key = None | Tls c k \<Rightarrow> cert = Some c \<and> key = Some k)
      | Inl e \<Rightarrow> e = ExitCertKey \<and> (cert = None \<longleftrightarrow> key \<noteq> None)"
proof -
  have "\<exists>s'. cli_flags (concat (map (\<lambda>(f, v). [f, v]) opts)) s = Inr s' \<and>
      cs_port s' = last (cs_port s # map (\<lambda>v. the (parse_unsigned 16 v)) (values_of ''--port'' opts)) \<and>
      cs_listen s' = last (cs_listen s # values_of ''--listen-p2p'' opts) \<and>
      cs_bootstrap s' = cs_bootstrap s @ values_of ''--bootstrap'' opts \<and>
      cs_cert s' = last (cs_cert s # map Some (values_of ''--cert'' opts)) \<and>
      cs_key s' = last (cs_key s # map Some (values_of ''--key'' opts))" for s
    using assms
  proof (induction opts arbitrary: s)
    case Nil
    then show ?case by (simp add: values_of_def)
  next
    case (Cons e opts)
    obtain f v where e: "e = (f, v)" by (cases e)
    have ok: "option_ok (f, v)" "\<forall>e \<in> set opts. option_ok e" using Cons.prems by (simp_all add: e)
    note ih = Cons.IH[OF ok(2)]
    from ok(1) consider "f = ''--port''" | "f = ''--listen-p2p''" | "f = ''--bootstrap''" | "f = ''--cert''" | "f = ''--key''"
      by (auto simp: option_ok_def)
    then show ?case
    proof cases
      case 1
      then obtain n where "parse_unsigned 16 v = Some n" using ok(1) by (auto simp: option_ok_def)
      then show ?thesis using 1 ih[of "s\<lparr>cs_port := n\<rparr>"] by (simp add: e values_of_def)
    next
      case 2
      then show ?thesis using ih[of "s\<lparr>cs_listen := v\<rparr>"] by (simp add: e values_of_def)
    next
      case 3
      then show ?thesis using ih[of "s\<lparr>cs_bootstrap := cs_bootstrap s @ [v]\<rparr>"] by (simp add: e values_of_def)
    next
      case 4
      then show ?thesis using ih[of "s\<lparr>cs_cert := Some v\<rparr>"] by (simp add: e values_of_def)
    next
      case 5
      then show ?thesis using ih[of "s\<lparr>cs_key := Some v\<rparr>"] by (simp add: e values_of_def)
    qed
  qed
  from this[of "cli_defaults env"] obtain s' where s':
    "cli_flags (concat (map (\<lambda>(f, v). [f, v]) opts)) (cli_defaults env) = Inr s'"
    "cs_port s' = last (cs_port (cli_defaults env) # map (\<lambda>v. the (parse_unsigned 16 v)) (values_of ''--port'' opts))"
    "cs_listen s' = last (cs_listen (cli_defaults env) # values_of ''--listen-p2p'' opts)"
    "cs_bootstrap s' = cs_bootstrap (cli_defaults env) @ values_of ''--bootstrap'' opts"
    "cs_cert s' = last (ev_cert env # map Some (values_of ''--cert'' opts))"
    "cs_key s' = last (ev_key env # map Some (values_of ''--key'' opts))"
    by (auto simp: cli_defaults_def)
  show ?thesis
    unfolding Let_def cli_parse_def s'(1) res_bind.simps s'(2-6)[symmetric]
    by (cases "cs_cert s'"; cases "cs_key s'") simp_all
qed

theorem cli_options_witness:
  "case cli_parse \<lparr>ev_port = Some ''81'', ev_p2p_listen = None, ev_bootstrap = None, ev_cert = None, ev_key = None\<rparr>
      [''--port'', ''80'', ''--bootstrap'', ''a'', ''--port'', ''443''] of
    Inr a \<Rightarrow> ca_ws_port a = 443 \<and> ca_bootstrap a = [''a''] | Inl e \<Rightarrow> False"
proof -
  let ?env = "\<lparr>ev_port = Some ''81'', ev_p2p_listen = None, ev_bootstrap = None, ev_cert = None, ev_key = None\<rparr>"
  let ?opts = "[(''--port'', ''80''), (''--bootstrap'', ''a''), (''--port'', ''443'')]"
  have ports: "parse_unsigned 16 ''80'' = Some 80" "parse_unsigned 16 ''443'' = Some 443"
    by (simp_all add: parse_unsigned_def is_digit_def dec_val_def)
  then have "\<forall>e \<in> set ?opts. option_ok e" by (simp add: option_ok_def)
  from cli_options[OF this, of ?env] show ?thesis
    by (simp add: values_of_def ports cli_defaults_def Let_def split: sum.splits)
qed

end
