(* ===== verification/Server_Inv.thy ===== *)
theory Server_Inv
  imports Server Events_Props
begin

text \<open>
  What one action of the gateway or the event handler may do to delivery: the order \<open>progress\<close> on
  gateway states. A state is sound when a hash stands in a delivered set, in memory or on disk, only
  if a payload with that hash was sent to a connection of the session (or the set on disk at the
  start held it); progress keeps soundness and removes a mailbox record only if its payload was.
\<close>

section \<open>Soundness and progress\<close>

definition evident ::
    "wire \<Rightarrow> (nat \<rightharpoonup> bytes) \<Rightarrow> (bytes \<Rightarrow> u64 list) \<Rightarrow> (nat \<times> bytes) list \<Rightarrow> bytes \<Rightarrow> u64 \<Rightarrow> bool" where
  "evident W own old sent v h \<longleftrightarrow>
     h \<in> set (old v) \<or> (\<exists>ch q. (ch, q) \<in> set sent \<and> own ch = Some v \<and> payload_hash W q = h)"

definition gw_sound ::
    "'db gw_env \<Rightarrow> (nat \<rightharpoonup> bytes) \<Rightarrow> (bytes \<Rightarrow> u64 list) \<Rightarrow> 'db gateway \<Rightarrow> bool" where
  "gw_sound E own old g \<longleftrightarrow>
     (\<forall>v cs ch. gw_clients g v = Some cs \<longrightarrow> ch \<in> set cs \<longrightarrow> own ch = Some v) \<and>
     (\<forall>v h. h \<in> set (hashes_of (gw_delivered g) v) \<or> h \<in> set (persisted E g v) \<longrightarrow>
        evident (ge_wire E) own old (gw_sent g) v h)"

abbreviation mail :: "'db gw_env \<Rightarrow> 'db gateway \<Rightarrow> bytes \<Rightarrow> bytes option" where
  "mail E g k \<equiv> sl_get (ge_sled E) (gw_db g) SLED_MAILBOX_TREE k"

text \<open>A record that is gone was undeliverable, or its payload has been sent.\<close>

definition accounted ::
    "'db gw_env \<Rightarrow> (nat \<rightharpoonup> bytes) \<Rightarrow> (bytes \<Rightarrow> u64 list) \<Rightarrow> (nat \<times> bytes) list \<Rightarrow> bytes \<Rightarrow> bytes \<Rightarrow> bool" where
  "accounted E own old sent k raw \<longleftrightarrow>
     (\<forall>p. 32 \<le> length k \<longrightarrow> record_payload (ge_wire E) (take 32 k) raw = Some p \<longrightarrow>
        (\<exists>v. prefix v k \<and> evident (ge_wire E) own old sent v (payload_hash (ge_wire E) p)))"

definition progress ::
    "'db gw_env \<Rightarrow> (nat \<rightharpoonup> bytes) \<Rightarrow> (bytes \<Rightarrow> u64 list) \<Rightarrow> 'db gateway \<Rightarrow> 'db gateway \<Rightarrow> bool" where
  "progress E own old g g' \<longleftrightarrow>
     (gw_sound E own old g \<longrightarrow>
        gw_sound E own old g' \<and> set (gw_sent g) \<subseteq> set (gw_sent g') \<and>
        (\<forall>k raw. mail E g k = Some raw \<longrightarrow>
           mail E g' k = Some raw \<or> accounted E own old (gw_sent g') k raw) \<and>
        (\<forall>k. mail E g' k = None \<or> mail E g' k = mail E g k))"

lemma evident_mono:
  "evident W own old sent v h \<Longrightarrow> set sent \<subseteq> set sent' \<Longrightarrow> own \<subseteq>\<^sub>m own' \<Longrightarrow> evident W own' old sent' v h"
  by (force simp: evident_def map_le_def dom_def)

lemma evident_append [simp]: "evident W own old sent v h \<Longrightarrow> evident W own old (sent @ sent2) v h"
  by (auto simp: evident_def)

lemma accounted_mono:
  "accounted E own old sent k raw \<Longrightarrow> set sent \<subseteq> set sent' \<Longrightarrow> own \<subseteq>\<^sub>m own' \<Longrightarrow>
    accounted E own' old sent' k raw"
  unfolding accounted_def using evident_mono by metis

lemma gw_sound_mono: "gw_sound E own old g \<Longrightarrow> own \<subseteq>\<^sub>m own' \<Longrightarrow> gw_sound E own' old g"
  unfolding gw_sound_def
proof (intro conjI allI impI, goal_cases)
  case (1 v cs ch)
  then have "own ch = Some v" by blast
  then show ?case using 1(2) by (force simp: map_le_def dom_def)
next
  case (2 v h)
  then show ?case using evident_mono by blast
qed

lemma progress_refl [simp]: "progress E own old g g"
  by (simp add: progress_def)

lemma progress_trans [trans]:
  assumes "progress E own old a b" "progress E own old b c"
  shows "progress E own old a c"
  unfolding progress_def
proof (intro impI)
  assume s: "gw_sound E own old a"
  note ab = assms(1)[unfolded progress_def, rule_format, OF s]
  note bc = assms(2)[unfolded progress_def, rule_format, OF conjunct1[OF ab]]
  have mono: "accounted E own old (gw_sent b) k raw \<Longrightarrow> accounted E own old (gw_sent c) k raw" for k raw
    using accounted_mono[OF _ conjunct1[OF conjunct2[OF bc]] map_le_refl] by blast
  show "gw_sound E own old c \<and> set (gw_sent a) \<subseteq> set (gw_sent c) \<and>
      (\<forall>k raw. mail E a k = Some raw \<longrightarrow> mail E c k = Some raw \<or> accounted E own old (gw_sent c) k raw) \<and>
      (\<forall>k. mail E c k = None \<or> mail E c k = mail E a k)"
  proof (intro conjI allI impI)
    show "gw_sound E own old c" using bc by blast
    show "set (gw_sent a) \<subseteq> set (gw_sent c)" using ab bc by blast
    show "mail E c k = Some raw \<or> accounted E own old (gw_sent c) k raw" if "mail E a k = Some raw" for k raw
      using ab bc mono that by blast
    show "mail E c k = None \<or> mail E c k = mail E a k" for k using ab bc by metis
  qed
qed

text \<open>Progress may be shown under the assumption that the first state is sound.\<close>

lemma progress_when: "(gw_sound E own old g \<Longrightarrow> progress E own old g g') \<Longrightarrow> progress E own old g g'"
  by (auto simp: progress_def)

text \<open>Changes that touch neither connections, sets, database nor the log.\<close>

lemma progress_frame:
  assumes "gw_clients g' = gw_clients g" "gw_delivered g' = gw_delivered g" "gw_db g' = gw_db g"
    and "gw_sent g' = gw_sent g"
  shows "progress E own old g g'"
  using assms by (simp add: progress_def gw_sound_def persisted_def)

lemma progress_clients:
  assumes "\<And>v cs. gw_clients g' v = Some cs \<Longrightarrow> \<forall>ch \<in> set cs. own ch = Some v \<or> (\<exists>cs'. gw_clients g v = Some cs' \<and> ch \<in> set cs')"
    and "\<And>v. set (hashes_of (gw_delivered g') v) \<subseteq> set (hashes_of (gw_delivered g) v) \<union> set (persisted E g v)"
    and "gw_db g' = gw_db g" "gw_sent g' = gw_sent g"
  shows "progress E own old g g'"
proof -
  have p: "persisted E g' v = persisted E g v" for v by (simp add: persisted_def assms(3))
  show ?thesis
    unfolding progress_def gw_sound_def p assms(3,4)
    using assms(1,2) by (fastforce simp del: not_None_eq)
qed

lemma progress_save:
  assumes E: "env_wf E" and hs: "gw_delivered g u = Some hs"
  shows "progress E own old g (g\<lparr>gw_db := save_delivered_hashes (ge_wire E) (ge_sled E) (gw_db g) u hs\<rparr>)"
proof -
  have ok: "sled_ok (ge_sled E)" "bincode_ok (ge_wire E)" using E by (simp_all add: env_wf_def)
  let ?g = "g\<lparr>gw_db := save_delivered_hashes (ge_wire E) (ge_sled E) (gw_db g) u hs\<rparr>"
  have "\<forall>v. set (persisted E ?g v) \<subseteq> set (persisted E g v) \<union> set (hashes_of (gw_delivered g) v)"
    using hs trim_hashes_spec(2)[of hs] by (auto simp: persisted_def load_save[OF ok] hashes_of_def split: if_splits)
  moreover have "mail E ?g k = mail E g k" for k by (simp add: save_keeps_mailbox[OF ok(1)])
  ultimately show ?thesis unfolding progress_def gw_sound_def by simp blast
qed

lemma progress_persist:
  assumes "env_wf E"
  shows "progress E own old g (persist_delivered_set E u g)"
  using progress_save[OF assms] by (simp add: persist_delivered_set_def split: option.split)

text \<open>A payload goes to the live connections of a session and is marked.\<close>

lemma progress_send:
  assumes cl: "gw_clients g u = Some cs" and live: "filter (gw_alive g) cs \<noteq> []"
    and m: "\<And>v. set (hashes_of m v) \<subseteq> (if v = u then {payload_hash (ge_wire E) p} else {}) \<union> set (hashes_of (gw_delivered g) v)"
  shows "progress E own old g
    (g\<lparr>gw_sent := gw_sent g @ sends (filter (gw_alive g) cs) p, gw_delivered := m\<rparr>)"
  unfolding progress_def
proof (intro impI)
  let ?g = "g\<lparr>gw_sent := gw_sent g @ sends (filter (gw_alive g) cs) p, gw_delivered := m\<rparr>"
  assume s: "gw_sound E own old g"
  obtain ch where ch: "ch \<in> set cs" "gw_alive g ch" using live by (auto simp: filter_empty_conv)
  then have "(ch, p) \<in> set (gw_sent ?g)" "own ch = Some u" using s cl by (auto simp: sends_def gw_sound_def)
  then have new: "evident (ge_wire E) own old (gw_sent ?g) u (payload_hash (ge_wire E) p)"
    by (auto simp: evident_def)
  have "evident (ge_wire E) own old (gw_sent ?g) v h"
    if "h \<in> set (hashes_of (gw_delivered g) v) \<or> h \<in> set (persisted E g v)" for v h
    using s that evident_mono[OF _ _ map_le_refl, of "ge_wire E" own old "gw_sent g" v h "gw_sent ?g"]
    by (auto simp: gw_sound_def)
  then have "evident (ge_wire E) own old (gw_sent ?g) v h"
    if "h \<in> set (hashes_of m v) \<or> h \<in> set (persisted E g v)" for v h
    using m[of v] new that by (cases "v = u") auto
  then show "gw_sound E own old ?g \<and> set (gw_sent g) \<subseteq> set (gw_sent ?g) \<and>
      (\<forall>k raw. mail E g k = Some raw \<longrightarrow> mail E ?g k = Some raw \<or> accounted E own old (gw_sent ?g) k raw) \<and>
      (\<forall>k. mail E ?g k = None \<or> mail E ?g k = mail E g k)"
    using s by (auto simp: gw_sound_def persisted_def)
qed

lemma sent_evident:
  assumes "gw_sound E own old g" "gw_clients g u = Some cs" "ch \<in> set cs" "(ch, p) \<in> set sent"
  shows "evident (ge_wire E) own old sent u (payload_hash (ge_wire E) p)"
  using assms unfolding evident_def gw_sound_def by blast


section \<open>The operations of the gateway\<close>

lemma progress_send_cmd [simp]: "progress E own old g (send_cmd c g)"
  by (rule progress_frame) (simp_all add: send_cmd_def)

lemma progress_limiter:
  assumes "check_rate_limit_store fl clk c g = (ok, g1)"
  shows "progress E own old g g1"
  by (rule rate_limit_frame[OF assms]) (rule progress_frame; simp)

text \<open>Sending without marking, as profile answers and broadcasts do.\<close>

lemma progress_send_all: "progress E own old g (snd (send_all cs d g))"
  unfolding progress_def gw_sound_def by (simp add: send_all_eq persisted_def)

lemma progress_deliver_local:
  assumes "deliver_local E r d g = (res, g')"
  shows "progress E own old g g'"
proof (cases "gw_clients g r")
  case None
  then show ?thesis using assms by (simp add: deliver_local_def)
next
  case (Some cs)
  let ?h = "payload_hash (ge_wire E) d"
  consider "?h \<in> set (hashes_of (gw_delivered g) r)"
    | "?h \<notin> set (hashes_of (gw_delivered g) r)" "filter (gw_alive g) cs = []"
    | "?h \<notin> set (hashes_of (gw_delivered g) r)" "filter (gw_alive g) cs \<noteq> []" by blast
  then show ?thesis
  proof cases
    case 1
    then show ?thesis using assms Some by (simp add: deliver_local_def)
  next
    case 2
    then have "g' = snd (send_all cs d g)"
      using assms Some by (auto simp: deliver_local_def send_all_eq Let_def)
    then show ?thesis using progress_send_all by simp
  next
    case 3
    then have "g' = g\<lparr>gw_sent := gw_sent g @ sends (filter (gw_alive g) cs) d,
        gw_delivered := (gw_delivered g)(r \<mapsto> hs_insert ?h (hashes_of (gw_delivered g) r))\<rparr>"
      using assms Some by (simp add: deliver_local_def send_all_eq Let_def)
    then show ?thesis by (simp only:) (rule progress_send[OF Some 3(2)]; simp)
  qed
qed

lemma progress_relay:
  assumes "env_wf E"
  shows "progress E own old g (relay_or_p2p E clk s d g)"
proof (cases "parse_relay d")
  case None
  then show ?thesis by (simp add: relay_or_p2p_def)
next
  case (Some rp)
  obtain r p where rp: "rp = (r, p)" by (cases rp)
  obtain ok g1 where lim: "check_rate_limit_store (ge_round E) clk s g = (ok, g1)" by fastforce
  obtain dl du g2 where loc: "deliver_local E r (forward_frame s p) g1 = ((dl, du), g2)" by (metis prod_cases3 prod.collapse)
  have eq: "relay_or_p2p E clk s d g =
      (if \<not> ok then g1 else if dl then (if du then g2 else persist_delivered_set E r g2)
       else send_cmd (MailboxStore r s p) (send_cmd (Publish (w_hex (ge_wire E) r) (forward_frame s p)) g2))"
    using Some by (simp add: relay_or_p2p_def rp lim loc Let_def)
  have g1: "progress E own old g g1" by (rule progress_limiter[OF lim])
  have g2: "progress E own old g g2" by (rule progress_trans[OF g1 progress_deliver_local[OF loc]])
  have g3: "progress E own old g (persist_delivered_set E r g2)"
    by (rule progress_trans[OF g2 progress_persist[OF assms]])
  have g4: "progress E own old g
      (send_cmd (MailboxStore r s p) (send_cmd (Publish (w_hex (ge_wire E) r) (forward_frame s p)) g2))"
    by (rule progress_trans[OF progress_trans[OF g2 progress_send_cmd] progress_send_cmd])
  show ?thesis unfolding eq using g1 g2 g3 g4 by simp
qed

lemma progress_profile: "progress E own old g (snd (handle_profile_operation P token c op d n g))"
proof -
  obtain r n' where r: "profile_response P token op d n = (r, n')" by fastforce
  show ?thesis
    using progress_send_all[of E own old g]
    by (auto simp: handle_profile_operation_def r split: option.split)
qed

lemma progress_message:
  assumes "env_wf E"
  shows "progress E own old g (snd (handle_client_message E P clk token s d n g))"
  using progress_relay[OF assms] by (simp add: handle_client_message_def progress_profile)

lemma progress_prune: "progress E own old g (prune_client u g)"
proof (cases "gw_clients g u")
  case None
  then show ?thesis by (simp add: prune_client_def)
next
  case (Some cs)
  then show ?thesis by (intro progress_clients) (auto simp: prune_client_def Let_def split: if_splits)
qed

lemma progress_disconnect:
  assumes "env_wf E"
  shows "progress E own old g (disconnect_client E u g)"
proof -
  let ?p = "persist_delivered_set E u g"
  have "progress E own old ?p (?p\<lparr>gw_limiters := (gw_limiters ?p)(u := None), gw_delivered := (gw_delivered ?p)(u := None)\<rparr>)"
    by (rule progress_clients) (auto simp: hashes_of_def)
  from progress_trans[OF progress_trans[OF progress_persist[OF assms] this] progress_prune]
  show ?thesis by (simp add: disconnect_client_def)
qed

lemma progress_client_message:
  assumes "env_wf E"
  shows "progress E own old g (snd (client_message E P clk token u msg n g))"
  using progress_message[OF assms] progress_disconnect[OF assms]
  by (cases msg) (simp_all add: client_message_def)


section \<open>Reading and draining the backup\<close>

lemma record_payload_prefix:
  assumes "prefix u k" "32 \<le> length u"
  shows "record_payload W (take 32 k) raw = record_payload W u raw"
proof -
  have "take 32 (take 32 k) = take 32 u" using assms by (auto simp: prefix_def)
  moreover have "32 \<le> length (take 32 k)" using assms by (auto simp: prefix_def)
  ultimately have "verify_envelope W e (take 32 k) = verify_envelope W e u" for e
    using assms(2) by (rule verify_envelope_prefix)
  then show ?thesis by (simp add: record_payload_def split: option.split)
qed

lemma progress_db:
  assumes "\<And>v. persisted E (g\<lparr>gw_db := db\<rparr>) v = persisted E g v"
    and "\<And>k. mail E (g\<lparr>gw_db := db\<rparr>) k = mail E g k \<or> mail E (g\<lparr>gw_db := db\<rparr>) k = None \<and>
      (\<forall>raw. gw_sound E own old g \<longrightarrow> mail E g k = Some raw \<longrightarrow> accounted E own old (gw_sent g) k raw)"
  shows "progress E own old g (g\<lparr>gw_db := db\<rparr>)"
  unfolding progress_def
proof (intro impI conjI allI)
  assume s: "gw_sound E own old g"
  show "gw_sound E own old (g\<lparr>gw_db := db\<rparr>)" using s by (simp add: gw_sound_def assms(1))
  show "set (gw_sent g) \<subseteq> set (gw_sent (g\<lparr>gw_db := db\<rparr>))" by simp
  show "mail E (g\<lparr>gw_db := db\<rparr>) k = Some raw \<or> accounted E own old (gw_sent (g\<lparr>gw_db := db\<rparr>)) k raw"
    if "mail E g k = Some raw" for k raw
    using assms(2)[of k] s that by auto
  show "mail E (g\<lparr>gw_db := db\<rparr>) k = None \<or> mail E (g\<lparr>gw_db := db\<rparr>) k = mail E g k" for k
    using assms(2)[of k] by auto
qed

lemma progress_read:
  assumes E: "env_wf E" and u: "32 \<le> length u"
    and r: "read_sled_backup (ge_wire E) (ge_sled E) (gw_db g) u = (db, recs)"
  shows "progress E own old g (g\<lparr>gw_db := db\<rparr>)"
proof (rule progress_db)
  have S: "sled_ok (ge_sled E)" using E by (simp add: env_wf_def)
  show "persisted E (g\<lparr>gw_db := db\<rparr>) v = persisted E g v" for v
    using backup_keeps_delivered[OF S, of "ge_wire E" "gw_db g" u v] by (simp add: persisted_def r)
  show "mail E (g\<lparr>gw_db := db\<rparr>) k = mail E g k \<or> mail E (g\<lparr>gw_db := db\<rparr>) k = None \<and>
      (\<forall>raw. gw_sound E own old g \<longrightarrow> mail E g k = Some raw \<longrightarrow> accounted E own old (gw_sent g) k raw)" for k
    using read_backup_spec(2)[OF S r, of SLED_MAILBOX_TREE k] record_payload_prefix[OF _ u, of k "ge_wire E"]
    by (auto simp: accounted_def)
qed

text \<open>Removing records that were read and whose payload is evident.\<close>

lemma progress_remove:
  assumes E: "env_wf E" and u: "32 \<le> length u"
    and r: "read_sled_backup (ge_wire E) (ge_sled E) (gw_db g0) u = (db, recs)"
    and same: "\<And>k. mail E g k = sl_get (ge_sled E) db SLED_MAILBOX_TREE k"
    and ks: "gw_sound E own old g \<Longrightarrow> \<forall>k \<in> set ks. \<exists>p. (k, p) \<in> set recs \<and>
      evident (ge_wire E) own old (gw_sent g) u (payload_hash (ge_wire E) p)"
  shows "progress E own old g (g\<lparr>gw_db := remove_sled_records (ge_sled E) (gw_db g) ks\<rparr>)"
proof (rule progress_db)
  have S: "sled_ok (ge_sled E)" using E by (simp add: env_wf_def)
  let ?db = "remove_sled_records (ge_sled E) (gw_db g) ks"
  show "persisted E (g\<lparr>gw_db := ?db\<rparr>) v = persisted E g v" for v
    by (simp add: persisted_def load_remove_sled_records[OF S])
  fix k
  have "accounted E own old (gw_sent g) k raw"
    if s: "gw_sound E own old g" and k: "k \<in> set ks" and m: "mail E g k = Some raw" for raw
  proof -
    obtain p where p: "(k, p) \<in> set recs" "evident (ge_wire E) own old (gw_sent g) u (payload_hash (ge_wire E) p)"
      using ks[OF s] k by blast
    then obtain raw0 where raw0: "prefix u k" "sl_get (ge_sled E) (gw_db g0) SLED_MAILBOX_TREE k = Some raw0"
      "record_payload (ge_wire E) u raw0 = Some p" using read_backup_spec(1)[OF S r] by blast
    have "raw = raw0"
      using m raw0 read_backup_spec(2)[OF S r, of SLED_MAILBOX_TREE k] by (simp add: same split: if_splits)
    then show ?thesis using p(2) raw0 record_payload_prefix[OF raw0(1) u] by (auto simp: accounted_def)
  qed
  then show "mail E (g\<lparr>gw_db := ?db\<rparr>) k = mail E g k \<or> mail E (g\<lparr>gw_db := ?db\<rparr>) k = None \<and>
      (\<forall>raw. gw_sound E own old g \<longrightarrow> mail E g k = Some raw \<longrightarrow> accounted E own old (gw_sent g) k raw)"
    by (auto simp: get_remove_sled_records[OF S])
qed

lemma drain_record_progress:
  assumes "drain_record E u (k, p) ((rm, n), g) = ((rm', n'), g')"
  shows "progress E own old g g' \<and> gw_db g' = gw_db g \<and>
    (rm' = rm \<or> rm' = rm @ [k] \<and>
       (gw_sound E own old g \<longrightarrow> evident (ge_wire E) own old (gw_sent g') u (payload_hash (ge_wire E) p)))"
proof -
  let ?h = "payload_hash (ge_wire E) p"
  consider "?h \<in> set (hashes_of (gw_delivered g) u)"
    | cs where "?h \<notin> set (hashes_of (gw_delivered g) u)" "gw_clients g u = Some cs" "filter (gw_alive g) cs \<noteq> []"
    | "?h \<notin> set (hashes_of (gw_delivered g) u)" "live_channels g u = []"
    by (cases "gw_clients g u") (auto simp: live_channels_def)
  then show ?thesis
  proof cases
    case 1
    then have "g' = g" "rm' = rm @ [k]" using assms by (simp_all add: drain_seen)
    then show ?thesis using 1 by (auto simp: gw_sound_def)
  next
    case (2 cs)
    have live: "live_channels g u = filter (gw_alive g) cs" using 2(2) by (simp add: live_channels_def)
    have g': "g' = g\<lparr>gw_sent := gw_sent g @ sends (filter (gw_alive g) cs) p,
        gw_delivered := (gw_delivered g)(u \<mapsto> hs_insert ?h (hashes_of (gw_delivered g) u))\<rparr>" "rm' = rm @ [k]"
      using assms drain_new[OF 2(1), of k rm n] 2(3) by (simp_all add: live)
    obtain ch where ch: "ch \<in> set cs" "gw_alive g ch" using 2(3) by (auto simp: filter_empty_conv)
    then have "(ch, p) \<in> set (gw_sent g')" by (simp add: g'(1) sends_def)
    then have "gw_sound E own old g \<longrightarrow> evident (ge_wire E) own old (gw_sent g') u ?h"
      using sent_evident[OF _ 2(2) ch(1)] by blast
    moreover have "progress E own old g g'"
      unfolding g'(1) by (rule progress_send[OF 2(2,3)]) simp
    ultimately show ?thesis by (simp add: g')
  next
    case 3
    then have "rm' = rm" "g' = g"
      using assms by (auto simp: drain_record_def live_channels_def send_all_eq sends_def split: option.splits)
    then show ?thesis by simp
  qed
qed

lemma drain_fold_progress:
  assumes "fold (drain_record E u) recs ((rm, n), g) = ((rm', n'), g')"
  shows "progress E own old g g' \<and> gw_db g' = gw_db g \<and>
    (gw_sound E own old g \<longrightarrow> (\<forall>k \<in> set rm'. k \<in> set rm \<or> (\<exists>p. (k, p) \<in> set recs \<and>
       evident (ge_wire E) own old (gw_sent g') u (payload_hash (ge_wire E) p))))"
  using assms
proof (induction recs arbitrary: rm n g)
  case Nil
  then show ?case by auto
next
  case (Cons e recs)
  obtain k p where e: "e = (k, p)" by (cases e)
  obtain rm1 n1 g1 where one: "drain_record E u (k, p) ((rm, n), g) = ((rm1, n1), g1)" by (metis prod.collapse)
  note a = drain_record_progress[OF one, of own old]
  have f: "fold (drain_record E u) recs ((rm1, n1), g1) = ((rm', n'), g')" using Cons.prems one by (simp add: e)
  note b = Cons.IH[OF f]
  have p: "progress E own old g g'" using progress_trans a b by blast
  show ?case
  proof (intro conjI impI ballI)
    show "progress E own old g g'" by (rule p)
    show "gw_db g' = gw_db g" using a b by simp
    fix j
    assume s: "gw_sound E own old g" and j: "j \<in> set rm'"
    have s1: "gw_sound E own old g1" using a s by (simp add: progress_def)
    have sub: "set (gw_sent g1) \<subseteq> set (gw_sent g')" using b s1 by (simp add: progress_def)
    have "evident (ge_wire E) own old (gw_sent g1) u (payload_hash (ge_wire E) p) \<Longrightarrow>
        evident (ge_wire E) own old (gw_sent g') u (payload_hash (ge_wire E) p)"
      using evident_mono[OF _ sub map_le_refl] by blast
    moreover have "j \<in> set rm1 \<or> (\<exists>q. (j, q) \<in> set recs \<and>
        evident (ge_wire E) own old (gw_sent g') u (payload_hash (ge_wire E) q))" using b s1 j by blast
    moreover have "j \<in> set rm \<or> j = k \<and> evident (ge_wire E) own old (gw_sent g1) u (payload_hash (ge_wire E) p)"
      if "j \<in> set rm1" using a s that by auto
    ultimately show "j \<in> set rm \<or> (\<exists>p. (j, p) \<in> set (e # recs) \<and>
        evident (ge_wire E) own old (gw_sent g') u (payload_hash (ge_wire E) p))"
      unfolding e by fastforce
  qed
qed


lemma mail_persist:
  "env_wf E \<Longrightarrow> mail E (persist_delivered_set E u g) k = mail E g k"
  by (rule persist_keeps_mailbox)

lemma progress_drain:
  assumes E: "env_wf E" and u: "32 \<le> length u"
  shows "progress E own old g (drain_local E u g)"
proof (cases "gw_mailbox g")
  case False
  then show ?thesis by (simp add: drain_local_def)
next
  case True
  obtain db recs where r: "read_sled_backup (ge_wire E) (ge_sled E) (gw_db g) u = (db, recs)" by fastforce
  obtain rm n g1 where f: "fold (drain_record E u) recs (([], 0), g\<lparr>gw_db := db\<rparr>) = ((rm, n), g1)"
    by (metis prod.collapse)
  define g2 where "g2 = (if 0 < n then persist_delivered_set E u g1 else g1)"
  have eq: "drain_local E u g =
      (if rm = [] then g2 else g2\<lparr>gw_db := remove_sled_records (ge_sled E) (gw_db g2) rm\<rparr>)"
    using True by (simp add: drain_local_def r f g2_def Let_def)
  note fold = drain_fold_progress[OF f, of own old]
  have p1: "progress E own old g g1" using progress_trans[OF progress_read[OF E u r]] fold by blast
  have p12: "progress E own old g1 g2" using progress_persist[OF E] by (simp add: g2_def)
  have p2: "progress E own old g g2" by (rule progress_trans[OF p1 p12])
  have sent: "gw_sent g2 = gw_sent g1" by (simp add: g2_def)
  have same: "mail E g2 k = sl_get (ge_sled E) db SLED_MAILBOX_TREE k" for k
    using fold mail_persist[OF E] by (simp add: g2_def)
  have "progress E own old g (g2\<lparr>gw_db := remove_sled_records (ge_sled E) (gw_db g2) rm\<rparr>)"
    proof (rule progress_when)
    assume s: "gw_sound E own old g"
    then have "gw_sound E own old (g\<lparr>gw_db := db\<rparr>)" using progress_read[OF E u r] by (simp add: progress_def)
    then have "\<forall>k \<in> set rm. \<exists>p. (k, p) \<in> set recs \<and>
        evident (ge_wire E) own old (gw_sent g2) u (payload_hash (ge_wire E) p)"
      using fold by (simp add: sent)
    then have "progress E own old g2 (g2\<lparr>gw_db := remove_sled_records (ge_sled E) (gw_db g2) rm\<rparr>)"
      using progress_remove[OF E u r same] by blast
    with p2 show "progress E own old g (g2\<lparr>gw_db := remove_sled_records (ge_sled E) (gw_db g2) rm\<rparr>)"
      by (rule progress_trans)
  qed
  then show ?thesis using p2 by (simp add: eq)
qed

lemma progress_register:
  assumes "own ch = Some u"
  shows "progress E own old g (register_client E now u ch g)"
proof (rule progress_clients)
  show "gw_db (register_client E now u ch g) = gw_db g" "gw_sent (register_client E now u ch g) = gw_sent g"
    by (simp_all add: register_client_def Let_def)
  show "\<forall>c \<in> set cs. own c = Some v \<or> (\<exists>cs'. gw_clients g v = Some cs' \<and> c \<in> set cs')"
    if "gw_clients (register_client E now u ch g) v = Some cs" for v cs
    using that assms by (auto simp: register_client_def Let_def split: if_splits option.splits)
  show "set (hashes_of (gw_delivered (register_client E now u ch g)) v)
      \<subseteq> set (hashes_of (gw_delivered g) v) \<union> set (persisted E g v)" for v
    using hs_collect_spec by (auto simp: register_client_def Let_def persisted_def)
qed

lemma progress_connect:
  assumes "env_wf E" "32 \<le> length u" "own ch = Some u"
  shows "progress E own old g (connect_client E now u ch g)"
proof (cases "u = []")
  case True
  then show ?thesis by (simp add: connect_client_def)
next
  case False
  then show ?thesis
    using progress_trans[OF progress_trans[OF progress_register[of own ch u, OF assms(3)] progress_drain[OF assms(1,2)]] progress_send_cmd]
    by (simp add: connect_client_def)
qed


section \<open>The events\<close>

lemma deliver_one_progress:
  assumes cl: "gw_clients g u = Some cs" and live: "filter (gw_alive g) cs \<noteq> []"
  shows "progress E own old g (deliver_one E u cs p g) \<and>
    (gw_sound E own old g \<longrightarrow>
       evident (ge_wire E) own old (gw_sent (deliver_one E u cs p g)) u (payload_hash (ge_wire E) p))"
proof -
  let ?h = "payload_hash (ge_wire E) p"
  obtain new m where m: "check_and_mark_delivered (ge_wire E) (gw_delivered g) u p = (new, m)" by fastforce
  note c = check_and_mark_spec[OF m]
  have hs: "hashes_of m v = hashes_of (gw_delivered g) v" if "v \<noteq> u" for v
    using c(3)[OF that] by (simp add: hashes_of_def)
  show ?thesis
  proof (cases new)
    case True
    let ?g = "g\<lparr>gw_sent := gw_sent g @ sends (filter (gw_alive g) cs) p, gw_delivered := m\<rparr>"
    have eq: "deliver_one E u cs p g = ?g"
      using True by (simp add: deliver_one_def m send_all_eq)
    have "progress E own old g ?g"
    proof (rule progress_send[OF cl live])
      show "set (hashes_of m v) \<subseteq> (if v = u then {?h} else {}) \<union> set (hashes_of (gw_delivered g) v)" for v
        using c(4) hs[of v] by (cases "v = u") auto
    qed
    moreover obtain ch where ch: "ch \<in> set cs" "gw_alive g ch" using live by (auto simp: filter_empty_conv)
    then have "(ch, p) \<in> set (gw_sent ?g)" by (simp add: sends_def)
    then have "gw_sound E own old g \<longrightarrow> evident (ge_wire E) own old (gw_sent ?g) u ?h"
      using sent_evident[OF _ cl ch(1)] by blast
    ultimately show ?thesis by (simp add: eq)
  next
    case False
    then have in_set: "?h \<in> set (hashes_of (gw_delivered g) u)" using c(1) by simp
    have eq: "deliver_one E u cs p g = g\<lparr>gw_delivered := m\<rparr>" using False by (simp add: deliver_one_def m)
    have "progress E own old g (g\<lparr>gw_delivered := m\<rparr>)"
    proof (rule progress_clients)
      show "set (hashes_of (gw_delivered (g\<lparr>gw_delivered := m\<rparr>)) v) \<subseteq>
          set (hashes_of (gw_delivered g) v) \<union> set (persisted E g v)" for v
        using c(4) in_set hs[of v] by (cases "v = u") auto
    qed auto
    then show ?thesis using in_set by (auto simp: eq gw_sound_def)
  qed
qed


lemma deliver_fold_progress:
  assumes "gw_clients g u = Some cs" "filter (gw_alive g) cs \<noteq> []"
  shows "progress E own old g (fold (deliver_one E u cs) ps g) \<and>
    (gw_sound E own old g \<longrightarrow> (\<forall>p \<in> set ps.
       evident (ge_wire E) own old (gw_sent (fold (deliver_one E u cs) ps g)) u (payload_hash (ge_wire E) p)))"
  using assms
proof (induction ps arbitrary: g)
  case Nil
  then show ?case by simp
next
  case (Cons p ps)
  let ?g = "deliver_one E u cs p g" and ?g' = "fold (deliver_one E u cs) (p # ps) g"
  note one = deliver_one_progress[OF Cons.prems, of E own old p]
  have fields: "gw_clients ?g u = Some cs" "filter (gw_alive ?g) cs \<noteq> []"
    using deliver_one_fields[of E u cs "[p]" g] Cons.prems by simp_all
  note rest = Cons.IH[OF fields]
  have sub: "set (gw_sent ?g) \<subseteq> set (gw_sent ?g')" if "gw_sound E own old g"
    using one rest that by (simp add: progress_def)
  show ?case
  proof (intro conjI impI ballI)
    show "progress E own old g ?g'" using progress_trans one rest by fastforce
    fix q
    assume s: "gw_sound E own old g" and q: "q \<in> set (p # ps)"
    show "evident (ge_wire E) own old (gw_sent ?g') u (payload_hash (ge_wire E) q)"
    proof (cases "q = p")
      case True
      then show ?thesis using evident_mono[OF _ sub[OF s] map_le_refl] one s by blast
    next
      case False
      have "gw_sound E own old ?g" using one s by (simp add: progress_def)
      then show ?thesis using rest q False by simp
    qed
  qed
qed

lemma backup_remove_subset:
  "set (rv_remove (fst (fold (deliver_backup E u cs) recs (r, g)))) \<subseteq> set (rv_remove r) \<union> fst ` set recs"
proof (induction recs arbitrary: r g)
  case Nil
  then show ?case by simp
next
  case (Cons e recs)
  obtain k p where e: "e = (k, p)" by (cases e)
  obtain r1 g1 where one: "deliver_backup E u cs (k, p) (r, g) = (r1, g1)" by fastforce
  then have "set (rv_remove r1) \<subseteq> set (rv_remove r) \<union> {k}"
    by (auto simp: deliver_backup_def Let_def split: prod.splits if_splits)
  with Cons[of r1 g1] show ?case by (auto simp: e one)
qed

lemma fetched_removes_nothing: "rv_remove (fst (fold (deliver_fetched E u cs) ps (r, g))) = rv_remove r"
proof (induction ps arbitrary: r g)
  case Nil
  then show ?case by simp
next
  case (Cons p ps)
  obtain r1 g1 where one: "deliver_fetched E u cs p (r, g) = (r1, g1)" by fastforce
  then have "rv_remove r1 = rv_remove r"
    by (auto simp: deliver_fetched_def Let_def split: prod.splits if_splits)
  with Cons[of r1 g1] show ?case by (simp add: one)
qed


text \<open>When an event is handled, every registered session has a live connection.\<close>

definition attended :: "'db gateway \<Rightarrow> bool" where
  "attended g \<longleftrightarrow> (\<forall>v cs. gw_clients g v = Some cs \<longrightarrow> filter (gw_alive g) cs \<noteq> [])"

definition full_id :: "node_event \<Rightarrow> bool" where
  "full_id ev = (case ev of MailboxRetrieved u ms \<Rightarrow> 32 \<le> length u | _ \<Rightarrow> True)"

lemma progress_retrieved:
  assumes E: "env_wf E" and u: "32 \<le> length u" and att: "attended g"
  shows "progress E own old g (on_mailbox_retrieved E u ms g)"
proof -
  let ?W = "ge_wire E" and ?S = "ge_sled E"
  define ps where "ps = snd (handle_retrieval_result ?W [] u ms)"
  obtain db recs where r: "read_sled_backup ?W ?S (gw_db g) u = (db, recs)" by fastforce
  define db1 where "db1 = (if ps = [] then db else gw_db g)"
  define recs1 where "recs1 = (if ps = [] then recs else [])"
  have read: "(if ps = [] then read_sled_backup ?W ?S (gw_db g) u else (gw_db g, [])) = (db1, recs1)"
    by (simp add: db1_def recs1_def r)
  let ?g0 = "g\<lparr>gw_db := db1\<rparr>"
  have p0: "progress E own old g ?g0" using progress_read[OF E u r] by (simp add: db1_def)
  show ?thesis
  proof (cases "ps = [] \<and> recs1 = [] \<or> gw_clients g u = None")
    case True
    then have "on_mailbox_retrieved E u ms g = ?g0"
      unfolding on_mailbox_retrieved_def Let_def ps_def[symmetric] read prod.case by auto
    then show ?thesis using p0 by simp
  next
    case False
    then have ne: "\<not> (ps = [] \<and> recs1 = [])" by blast
    obtain cs where cl: "gw_clients ?g0 u = Some cs" using False by auto
    then have live: "filter (gw_alive ?g0) cs \<noteq> []" using att by (simp add: attended_def)
    let ?r0 = "\<lparr>rv_remove = [], rv_delivered = 0, rv_dupes = 0\<rparr> :: 'a retrieval"
    obtain r1 g1 where f1: "fold (deliver_backup E u cs) recs1 (?r0, ?g0) = (r1, g1)" by fastforce
    obtain r2 g2 where f2: "fold (deliver_fetched E u cs) ps (r1, g1) = (r2, g2)" by fastforce
    define g3 where "g3 = (if 0 < rv_delivered r2 then (case gw_delivered g2 u of None \<Rightarrow> g2
      | Some hashes \<Rightarrow> g2\<lparr>gw_db := save_delivered_hashes ?W ?S (gw_db g2) u hashes\<rparr>) else g2)"
    have eq: "on_mailbox_retrieved E u ms g = (if rv_remove r2 = [] then g3
        else g3\<lparr>gw_db := remove_sled_records ?S (gw_db g3) (rv_remove r2)\<rparr>)"
      unfolding on_mailbox_retrieved_def Let_def ps_def[symmetric] read prod.case g3_def
      by (simp only: ne if_False cl option.case f1 f2 prod.case)
    have g1: "g1 = fold (deliver_one E u cs) (map snd recs1) ?g0"
      using backup_state_fold[of E u cs recs1 ?r0 ?g0] by (simp add: f1)
    have g2: "g2 = fold (deliver_one E u cs) ps g1" using fetched_fold[of E u cs ps r1 g1] by (simp add: f2)
    note d1 = deliver_fold_progress[OF cl live, of E own old "map snd recs1", folded g1]
    have "gw_clients g1 u = Some cs" "filter (gw_alive g1) cs \<noteq> []" using cl live by (simp_all add: g1)
    note d2 = deliver_fold_progress[OF this, of E own old ps, folded g2]
    have p12: "progress E own old g1 g2" using d2 by blast
    have p23: "progress E own old g2 g3"
      using progress_save[OF E] by (simp add: g3_def split: option.split)
    have p: "progress E own old g g3"
      using progress_trans[OF progress_trans[OF progress_trans[OF p0 conjunct1[OF d1]] p12] p23] .
    have same: "mail E g3 k = sl_get ?S db1 SLED_MAILBOX_TREE k" for k
      using E by (simp add: g3_def g1 g2 env_wf_def save_keeps_mailbox split: option.split)
    have rm: "set (rv_remove r2) \<subseteq> fst ` set recs1"
      using backup_remove_subset[of E u cs recs1 ?r0 ?g0] fetched_removes_nothing[of E u cs ps r1 g1]
      by (simp add: f1 f2)
    have "progress E own old g3 (g3\<lparr>gw_db := remove_sled_records ?S (gw_db g3) (rv_remove r2)\<rparr>)"
      if s: "gw_sound E own old g" and ne: "rv_remove r2 \<noteq> []"
    proof (rule progress_remove[OF E u r])
      have "ps = []" using ne rm by (cases "ps = []") (simp_all add: recs1_def)
      then have eqs: "db1 = db" "recs1 = recs" by (simp_all add: db1_def recs1_def)
      show "mail E g3 k = sl_get ?S db SLED_MAILBOX_TREE k" for k using same by (simp add: eqs)
      have "gw_sound E own old ?g0" using s p0 by (simp add: progress_def)
      then have ev: "\<forall>p \<in> set (map snd recs). evident ?W own old (gw_sent g1) u (payload_hash ?W p)"
        and s1: "gw_sound E own old g1" using d1 by (simp_all add: eqs progress_def)
      have sub: "set (gw_sent g1) \<subseteq> set (gw_sent g3)"
        using progress_trans[OF p12 p23] s1 by (simp add: progress_def)
      show "\<forall>k \<in> set (rv_remove r2). \<exists>p. (k, p) \<in> set recs \<and>
          evident ?W own old (gw_sent g3) u (payload_hash ?W p)"
      proof
        fix k
        assume "k \<in> set (rv_remove r2)"
        then obtain p where p: "(k, p) \<in> set recs" using rm by (auto simp: eqs)
        then have "p \<in> set (map snd recs)" by force
        with ev have "evident ?W own old (gw_sent g1) u (payload_hash ?W p)" by blast
        with p show "\<exists>p. (k, p) \<in> set recs \<and> evident ?W own old (gw_sent g3) u (payload_hash ?W p)"
          using evident_mono[OF _ sub map_le_refl] by blast
      qed
    qed
    then have "progress E own old g (g3\<lparr>gw_db := remove_sled_records ?S (gw_db g3) (rv_remove r2)\<rparr>)"
      if "rv_remove r2 \<noteq> []"
      using progress_trans[OF p] that by (blast intro: progress_when)
    then show ?thesis unfolding eq using p by simp
  qed
qed

lemma progress_gossip:
  assumes E: "env_wf E" and att: "attended g"
  shows "progress E own old g (on_message_received E topic d g)"
proof (cases "topic = [] \<or> w_unhex (ge_wire E) topic = None")
  case True
  then show ?thesis by (auto simp: on_message_received_def)
next
  case False
  then obtain u where u: "w_unhex (ge_wire E) topic = Some u" "topic \<noteq> []" by auto
  show ?thesis
  proof (cases "gw_clients g u")
    case None
    then show ?thesis using u by (simp add: on_message_received_def)
  next
    case (Some cs)
    then have live: "filter (gw_alive g) cs \<noteq> []" using att by (simp add: attended_def)
    have "on_message_received E topic d g = deliver_one E u cs d g \<or>
        on_message_received E topic d g = persist_delivered_set E u (deliver_one E u cs d g)"
      using u Some by (simp add: on_message_received_def deliver_one_def case_prod_beta Let_def)
    then show ?thesis
      using deliver_one_progress[OF Some live, of E own old d] progress_persist[OF E] progress_trans by metis
  qed
qed

lemma progress_broadcast: "progress E own old g (on_broadcast users d g)"
proof (induction users arbitrary: g)
  case Nil
  then show ?case by (simp add: on_broadcast_def)
next
  case (Cons u users)
  from progress_trans[OF progress_send_all Cons] show ?case by (simp add: on_broadcast_def)
qed

lemma progress_event:
  assumes "env_wf E" "attended g" "full_id ev"
  shows "progress E own old g (handle_p2p_event E users ev g)"
proof -
  have conn: "progress E own old g (set_connected_bootstrap g)"
    by (rule progress_frame) (simp_all add: set_connected_bootstrap_def)
  show ?thesis
    using conn assms(3)
    by (cases ev) (simp_all add: handle_p2p_event_def full_id_def progress_broadcast
        progress_gossip[OF assms(1,2)] progress_retrieved[OF assms(1) _ assms(2)])
qed

end
