(* ===== verification/Server_Run.thy ===== *)
theory Server_Run
  imports Server_Inv
begin

text \<open>
  Runs of the server: the node's steps leave the delivered sets alone, the gateway's removals keep
  the node's invariant, and both together give the invariant of all interleavings.
\<close>

section \<open>The node leaves the delivered sets alone\<close>

definition marks_kept :: "('db, 'q) node_env \<Rightarrow> ('db, 'q) node \<Rightarrow> ('db, 'q) node \<Rightarrow> bool" where
  "marks_kept E nd nd' \<longleftrightarrow>
     (\<forall>k. sl_get (ne_sled E) (nd_db nd') SLED_DELIVERED_TREE k = sl_get (ne_sled E) (nd_db nd) SLED_DELIVERED_TREE k)"

lemma marks_kept_same [intro]: "nd_db nd' = nd_db nd \<Longrightarrow> marks_kept E nd nd'"
  by (simp add: marks_kept_def)

lemma marks_kept_from: "marks_kept E a b \<Longrightarrow> nd_db a = nd_db a' \<Longrightarrow> nd_db b = nd_db b' \<Longrightarrow> marks_kept E a' b'"
  by (simp add: marks_kept_def)

lemma helpers_db:
  "emit_empty_mailbox u nd = (st, nd') \<Longrightarrow> nd_db nd' = nd_db nd"
  "start_collecting_messages E now u i nd = (st, nd') \<Longrightarrow> nd_db nd' = nd_db nd"
  "collect_message E u rem val ms d nd = (st, nd') \<Longrightarrow> nd_db nd' = nd_db nd"
  "check_state_timeout now st1 nd = (st, nd') \<Longrightarrow> nd_db nd' = nd_db nd"
  "fire_window E u start nd = (nd', q) \<Longrightarrow> nd_db nd' = nd_db nd"
  using mailbox_helpers_frame(2,4,6,8) fire_window_frame(2) by (metis snd_conv fst_conv)+

lemma start_fetch_db: "start_fetch E now cmd nd = (st, nd') \<Longrightarrow> nd_db nd' = nd_db nd"
  by (auto simp: start_fetch_def dest!: helpers_db(5) split: prod.splits)

lemma store_marks:
  assumes "sled_ok (ne_sled E)" "store_signed_envelope E r s p seq nd = Some nd'"
  shows "marks_kept E nd nd'"
  using assms(2)
  by (auto simp: store_signed_envelope_def marks_kept_def call_def Let_def sledD[OF assms(1)]
      split: option.splits)

lemma resume_marks:
  assumes "sled_ok (ne_sled E)" "resume_pending_command E now cmd i nd = Some (st, nd')"
  shows "marks_kept E nd nd'"
proof (cases cmd)
  case (PendingStore r s p)
  then show ?thesis using assms store_marks by (auto simp: resume_pending_command_def)
next
  case (PendingRetrieve u)
  then have "nd_db nd' = nd_db nd"
    using assms(2) by (auto simp: resume_pending_command_def dest!: helpers_db split: if_splits)
  then show ?thesis by blast
qed

lemma resolve_marks:
  assumes "sled_ok (ne_sled E)" "try_resolve_window E now cmd start mx pending found d nd = Some (st, nd')"
  shows "marks_kept E nd nd'"
proof (cases "scan_window pending found (window_seqs start)")
  case (Gap s)
  then show ?thesis
    using assms(2) marks_kept_from[OF resume_marks[OF assms(1)]] by (simp add: try_resolve_window_def Let_def)
next
  case AllFound
  then have "nd_db nd' = nd_db nd"
    using assms(2) by (auto simp: try_resolve_window_def Let_def dest!: helpers_db(5) split: prod.splits)
  then show ?thesis by blast
qed (use assms(2) in \<open>auto simp: try_resolve_window_def\<close>)

lemma found_marks:
  assumes "sled_ok (ne_sled E)" "handle_found_record E now key val qid st nd = Some (st', nd')"
  shows "marks_kept E nd nd'"
  using assms(2)
  by (auto simp: handle_found_record_def Let_def emit_def dest!: resolve_marks[OF assms(1)] helpers_db(3)
      split: mailbox_state.splits option.splits if_splits)


lemma not_found_marks:
  assumes "sled_ok (ne_sled E)" "handle_not_found E now qid st nd = Some (st', nd')"
  shows "marks_kept E nd nd'"
  using assms(2)
  by (auto simp: handle_not_found_def dest!: resolve_marks[OF assms(1)] helpers_db(3)
      split: mailbox_state.splits option.splits)

lemma failed_marks:
  assumes S: "sled_ok (ne_sled E)" and r: "handle_kad_failed E now qid key st nd = Some (st', nd')"
  shows "marks_kept E nd nd'"
proof -
  define nd1 where "nd1 = (case map_of (nd_profile_queries nd) qid of
      Some ch \<Rightarrow> reply ch None (nd\<lparr>nd_profile_queries := am_remove qid (nd_profile_queries nd)\<rparr>) | None \<Rightarrow> nd)"
  have db: "nd_db nd1 = nd_db nd" by (simp add: nd1_def reply_def split: option.split)
  show ?thesis
  proof (cases st)
    case (FetchingIndex cmd start mx pending found d)
    then obtain st2 where "resume_pending_command E now cmd 0
        (nd1\<lparr>nd_indices := (nd_indices nd1)(pending_user cmd \<mapsto> 0)\<rparr>) = Some (st2, nd')"
      using r by (auto simp: handle_kad_failed_def nd1_def Let_def)
    from marks_kept_from[OF resume_marks[OF S this]] show ?thesis by (simp add: db)
  qed (use r db in \<open>auto simp: handle_kad_failed_def nd1_def[symmetric] Let_def emit_def\<close>)
qed

lemma swarm_marks:
  assumes S: "sled_ok (ne_sled E)" and r: "handle_swarm_event E now ev st nd = Some (st', nd')"
  shows "marks_kept E nd nd'"
proof (cases ev)
  case (KadFound qid key val)
  then show ?thesis
    using r found_marks[OF S]
    by (auto simp: handle_swarm_event_def handle_kad_found_def reply_def split: if_splits option.splits)
next
  case (KadFinished qid)
  then show ?thesis
    using r not_found_marks[OF S]
    by (auto simp: handle_swarm_event_def handle_kad_finished_def reply_def split: option.splits)
next
  case (KadFailed qid key)
  then show ?thesis using r failed_marks[OF S] by (simp add: handle_swarm_event_def)
next
  case (ConnectionEstablished peer addr)
  then show ?thesis
    using r by (auto simp: handle_swarm_event_def handle_connection_established_def emit_def Let_def marks_kept_def
        persist_peer_addr_def sledD[OF S] SLED_PEER_TREE_def SLED_DELIVERED_TREE_def split: option.split)
next
  case (ConnectionClosed peer)
  then show ?thesis using r by (auto simp: handle_swarm_event_def handle_connection_closed_def)
qed (use r in \<open>auto simp: handle_swarm_event_def emit_def\<close>)

lemma command_marks:
  assumes S: "sled_ok (ne_sled E)" and r: "handle_command E now peers cmd st nd = Some (st', nd')"
  shows "marks_kept E nd nd'"
proof (cases cmd)
  case (MailboxStore recipient sender p)
  then show ?thesis
    using r by (auto simp: handle_command_def cmd_mailbox_store_def dest!: store_marks[OF S] start_fetch_db
        split: if_splits option.splits)
next
  case (MailboxRetrieve u)
  then have "cmd_mailbox_retrieve E now peers u st nd = (st', nd')" using r by (simp add: handle_command_def)
  then have "nd_db nd' = nd_db nd"
    by (auto simp: cmd_mailbox_retrieve_def dest!: start_fetch_db helpers_db split: if_splits option.splits)
  then show ?thesis by blast
qed (use r in \<open>auto simp: handle_command_def profile_query_def get_record_def call_def\<close>)

lemma node_step_marks:
  assumes S: "sled_ok (ne_sled E)" and r: "node_step E now conn inp st nd = Some (st', nd')"
  shows "marks_kept E nd nd'"
proof -
  have tick: "nd_db b = nd_db a" if "check_state_timeout now s a = (t, b)" for s t and a b :: "('a, 'b) node"
    by (rule helpers_db(4)[OF that])
  show ?thesis
  proof (cases inp)
    case TimeoutTick
    then show ?thesis using r tick by (auto simp: node_step_def)
  next
    case ReconnectTick
    then have "nd_db nd' = nd_db nd" using r by (auto simp: node_step_def reconnect_tick_def case_prod_beta Let_def)
    then show ?thesis by blast
  next
    case (Swarm ev)
    then obtain st1 nd1 where "handle_swarm_event E now ev st nd = Some (st1, nd1)"
      "check_state_timeout now st1 nd1 = (st', nd')" using r by (auto simp: node_step_def)
    then show ?thesis using marks_kept_from[OF swarm_marks[OF S]] tick by metis
  next
    case (Command cmd)
    then obtain st1 nd1 where c: "handle_command E now (conn \<noteq> []) cmd st (seed_index E cmd st nd) = Some (st1, nd1)"
      "check_state_timeout now st1 nd1 = (st', nd')" using r by (auto simp: node_step_def)
    have "nd_db (seed_index E cmd st nd) = nd_db nd" by (simp add: seed_index_def split: option.split)
    then show ?thesis using marks_kept_from[OF command_marks[OF S c(1)]] tick[OF c(2)] by metis
  qed
qed



section \<open>The invariant of the server\<close>

definition server_inv ::
    "('db, 'q, 'n) server_env \<Rightarrow> (bytes \<Rightarrow> u64 list) \<Rightarrow> nat \<Rightarrow> ('db, 'q, 'n) server \<Rightarrow> bool" where
  "server_inv Z old n s \<longleftrightarrow>
     node_inv (se_node Z) n (sv_state s) ((sv_node s)\<lparr>nd_db := gw_db (sv_gw s)\<rparr>) \<and>
     gw_sound (se_gw Z) (sv_owner s) old (sv_gw s)"

text \<open>
  The circumstances under which nothing is lost: sessions have ids of full length, and an event
  of the node is handled while every registered session has a live connection and names, if it is
  a retrieval, a user of full length.
\<close>

definition calm :: "'q server_input \<Rightarrow> ('db, 'q, 'n) server \<Rightarrow> bool" where
  "calm inp s =
     (case inp of
        Opens now ch msg \<Rightarrow> (case msg of Binary session \<Rightarrow> session = [] \<or> 32 \<le> length session | _ \<Rightarrow> True)
      | Reports users \<Rightarrow> sv_handled s < length (nd_events (sv_node s)) \<longrightarrow>
          attended (sv_gw s) \<and> full_id (nd_events (sv_node s) ! sv_handled s)
      | _ \<Rightarrow> True)"

primrec calm_run :: "('db, 'q, 'n) server_env \<Rightarrow> 'q server_input list \<Rightarrow> ('db, 'q, 'n) server \<Rightarrow> bool" where
  "calm_run Z [] s = True"
| "calm_run Z (i # is) s =
     (calm i s \<and> (case server_step Z i s of None \<Rightarrow> True | Some s' \<Rightarrow> calm_run Z is s'))"

definition server_env_ok :: "('db, 'q, 'n) server_env \<Rightarrow> bool" where
  "server_env_ok Z \<longleftrightarrow> env_wf (se_gw Z) \<and> ne_sled (se_node Z) = ge_sled (se_gw Z)"

text \<open>From one state to a later one.\<close>

definition server_leads ::
    "('db, 'q, 'n) server_env \<Rightarrow> (bytes \<Rightarrow> u64 list) \<Rightarrow> ('db, 'q, 'n) server \<Rightarrow> ('db, 'q, 'n) server \<Rightarrow> bool" where
  "server_leads Z old s s' \<longleftrightarrow>
     sv_owner s \<subseteq>\<^sub>m sv_owner s' \<and> set (gw_sent (sv_gw s)) \<subseteq> set (gw_sent (sv_gw s')) \<and>
     (\<forall>k raw. mail (se_gw Z) (sv_gw s) k = Some raw \<longrightarrow>
        mail (se_gw Z) (sv_gw s') k = Some raw \<or>
        accounted (se_gw Z) (sv_owner s') old (gw_sent (sv_gw s')) k raw)"

lemma server_leads_refl: "server_leads Z old s s"
  by (simp add: server_leads_def)

lemma server_leads_trans:
  assumes "server_leads Z old a b" "server_leads Z old b c"
  shows "server_leads Z old a c"
proof -
  have "accounted (se_gw Z) (sv_owner b) old (gw_sent (sv_gw b)) k raw \<Longrightarrow>
      accounted (se_gw Z) (sv_owner c) old (gw_sent (sv_gw c)) k raw" for k raw
    using assms(2) accounted_mono unfolding server_leads_def by blast
  then show ?thesis
    using assms map_le_trans unfolding server_leads_def by blast
qed

lemma node_inv_shrinks:
  assumes inv: "node_inv E n st (nd\<lparr>nd_db := db\<rparr>)"
    and "\<And>k. sl_get (ne_sled E) db' SLED_MAILBOX_TREE k = None \<or>
      sl_get (ne_sled E) db' SLED_MAILBOX_TREE k = sl_get (ne_sled E) db SLED_MAILBOX_TREE k"
  shows "node_inv E n st (nd\<lparr>nd_db := db'\<rparr>)"
proof -
  have has: "\<forall>u s. backup_has E db' u s \<longrightarrow> backup_has E db u s"
    using assms(2) unfolding backup_has_def by metis
  then have "\<forall>u i. backup_below E db u i \<longrightarrow> backup_below E db' u i" unfolding backup_below_def by blast
  with has inv show ?thesis unfolding node_inv_def by (cases st) (simp_all, blast+)
qed

text \<open>An action that changes the gateway alone, possibly with a new channel.\<close>

lemma gateway_action:
  assumes Z: "server_env_ok Z" and inv: "server_inv Z old n s"
    and own: "sv_owner s \<subseteq>\<^sub>m sv_owner s'"
    and p: "progress (se_gw Z) (sv_owner s') old (sv_gw s) (sv_gw s')"
    and node: "sv_node s' = sv_node s" "sv_state s' = sv_state s"
  shows "server_inv Z old n s' \<and> server_leads Z old s s'"
proof -
  have S: "ne_sled (se_node Z) = ge_sled (se_gw Z)" using Z by (simp add: server_env_ok_def)
  have "gw_sound (se_gw Z) (sv_owner s) old (sv_gw s)" using inv by (simp add: server_inv_def)
  note q = p[unfolded progress_def, rule_format, OF gw_sound_mono[OF this own]]
  have "node_inv (se_node Z) n (sv_state s) ((sv_node s)\<lparr>nd_db := gw_db (sv_gw s')\<rparr>)"
  proof (rule node_inv_shrinks)
    show "node_inv (se_node Z) n (sv_state s) ((sv_node s)\<lparr>nd_db := gw_db (sv_gw s)\<rparr>)"
      using inv by (simp add: server_inv_def)
    show "sl_get (ne_sled (se_node Z)) (gw_db (sv_gw s')) SLED_MAILBOX_TREE k = None \<or>
        sl_get (ne_sled (se_node Z)) (gw_db (sv_gw s')) SLED_MAILBOX_TREE k =
        sl_get (ne_sled (se_node Z)) (gw_db (sv_gw s)) SLED_MAILBOX_TREE k" for k
      unfolding S using q by blast
  qed
  then show ?thesis unfolding server_inv_def server_leads_def node using q own by blast
qed

lemma node_action:
  assumes Z: "server_env_ok Z" and inv: "server_inv Z old n s" and n: "n + 11 < 2 ^ 64"
    and r: "node_turn (se_node Z) now conn inp s = Some s'"
  shows "server_inv Z old (n + 10) s' \<and> server_leads Z old s s'"
proof -
  have S: "ne_sled (se_node Z) = ge_sled (se_gw Z)" and ok: "sled_ok (ne_sled (se_node Z))"
    using Z by (simp_all add: server_env_ok_def env_wf_def)
  let ?nd = "(sv_node s)\<lparr>nd_db := gw_db (sv_gw s)\<rparr>"
  obtain st nd where t: "node_step (se_node Z) now conn inp (sv_state s) ?nd = Some (st, nd)"
    and s': "s' = s\<lparr>sv_state := st, sv_node := nd, sv_gw := (sv_gw s)\<lparr>gw_db := nd_db nd\<rparr>\<rparr>"
    using r by (auto simp: node_turn_def)
  have keeps: "node_inv (se_node Z) (n + 10) st nd" "backup_kept (se_node Z) (gw_db (sv_gw s)) (nd_db nd)"
    using node_step_keeps[OF ok _ n t] inv by (simp_all add: server_inv_def)
  have "persisted (se_gw Z) (sv_gw s') v = persisted (se_gw Z) (sv_gw s) v" for v
    using node_step_marks[OF ok t]
    by (simp add: s' persisted_def load_delivered_hashes_def marks_kept_def S sledD(1)[OF ok[unfolded S]])
  then have "gw_sound (se_gw Z) (sv_owner s') old (sv_gw s')" using inv by (simp add: server_inv_def gw_sound_def s')
  moreover have "nd\<lparr>nd_db := nd_db nd\<rparr> = nd" by simp
  ultimately show ?thesis
    using keeps by (simp add: server_inv_def server_leads_def s' backup_kept_def S)
qed


lemma open_socket_action:
  assumes Z: "server_env_ok Z" and inv: "server_inv Z old n s" and c: "calm (Opens now ch msg) s"
  shows "server_inv Z old n (open_socket (se_gw Z) now ch msg s) \<and>
    server_leads Z old s (open_socket (se_gw Z) now ch msg s)"
proof (cases "\<exists>u. sv_owner s ch = None \<and> msg = Binary u \<and> u \<noteq> []")
  case False
  then have "open_socket (se_gw Z) now ch msg s = s"
    by (cases msg) (auto simp: open_socket_def register_message_def)
  then show ?thesis using inv server_leads_refl by simp
next
  case True
  then obtain u where u: "sv_owner s ch = None" "msg = Binary u" "u \<noteq> []" by blast
  let ?s = "s\<lparr>sv_gw := connect_client (se_gw Z) now u ch (sv_gw s), sv_owner := (sv_owner s)(ch \<mapsto> u)\<rparr>"
  have eq: "open_socket (se_gw Z) now ch msg s = ?s" using u by (simp add: open_socket_def register_message_def)
  have "server_inv Z old n ?s \<and> server_leads Z old s ?s"
  proof (rule gateway_action[OF Z inv])
    show "sv_owner s \<subseteq>\<^sub>m sv_owner ?s" using u(1) by (auto simp: map_le_def)
    have "32 \<le> length u" using c u by (simp add: calm_def)
    then show "progress (se_gw Z) (sv_owner ?s) old (sv_gw s) (sv_gw ?s)"
      using Z by (simp add: progress_connect server_env_ok_def)
  qed simp_all
  then show ?thesis by (simp only: eq)
qed

lemma server_step_leads:
  assumes Z: "server_env_ok Z" and inv: "server_inv Z old n s" and n: "n + 11 < 2 ^ 64"
    and c: "calm inp s" and r: "server_step Z inp s = Some s'"
  shows "server_inv Z old (n + 10) s' \<and> server_leads Z old s s'"
proof -
  have E: "env_wf (se_gw Z)" using Z by (simp add: server_env_ok_def)
  have more: "server_inv Z old (n + 10) t" if "server_inv Z old n t" for t
    using that node_inv_mono by (fastforce simp: server_inv_def)
  have gw: "server_inv Z old (n + 10) t \<and> server_leads Z old s t"
    if "sv_owner t = sv_owner s" "progress (se_gw Z) (sv_owner s) old (sv_gw s) (sv_gw t)"
      "sv_node t = sv_node s" "sv_state t = sv_state s" for t
    using gateway_action[OF Z inv, of t] that more by simp
  show ?thesis
  proof (cases inp)
    case (Opens now ch msg)
    then show ?thesis using open_socket_action[OF Z inv, of now ch msg] c r more by (simp add: server_step_def)
  next
    case (Says clk token u msg)
    then show ?thesis
      using r progress_client_message[OF E, of "sv_owner s" old "sv_gw s" "se_ops Z" clk token u msg "sv_store s"]
      by (intro gw) (auto simp: server_step_def split: prod.splits)
  next
    case (Closes ch)
    then show ?thesis using r by (intro gw) (auto simp: server_step_def intro: progress_frame)
  next
    case (ForwardEnds u)
    then show ?thesis using r progress_prune by (intro gw) (auto simp: server_step_def)
  next
    case (Loops now conn i)
    then show ?thesis using node_action[OF Z inv n] r by (simp add: server_step_def)
  next
    case (Takes now conn)
    show ?thesis
    proof (cases "sv_taken s < length (gw_cmds (sv_gw s))")
      case False
      then show ?thesis using r Takes inv more server_leads_refl by (simp add: server_step_def)
    next
      case True
      let ?s = "s\<lparr>sv_taken := Suc (sv_taken s)\<rparr>"
      have t: "node_turn (se_node Z) now conn (Command (gw_cmds (sv_gw s) ! sv_taken s)) ?s = Some s'"
        using r Takes True by (simp add: server_step_def)
      have "server_inv Z old n ?s" using inv by (simp add: server_inv_def)
      from node_action[OF Z this n t] show ?thesis by (simp add: server_leads_def)
    qed
  next
    case (Reports users)
    show ?thesis
    proof (cases "sv_handled s < length (nd_events (sv_node s))")
      case False
      then show ?thesis using r Reports inv more server_leads_refl by (simp add: server_step_def)
    next
      case True
      let ?ev = "nd_events (sv_node s) ! sv_handled s"
      have "attended (sv_gw s)" "full_id ?ev" using c True Reports by (simp_all add: calm_def)
      from progress_event[OF E this] show ?thesis
        using r Reports True by (intro gw) (auto simp: server_step_def)
    qed
  qed
qed

lemma server_run_leads:
  assumes Z: "server_env_ok Z" and inv: "server_inv Z old n s" and n: "n + 10 * length ins + 11 < 2 ^ 64"
    and c: "calm_run Z ins s" and r: "run_steps (server_step Z) ins s = Some s'"
  shows "server_inv Z old (n + 10 * length ins) s' \<and> server_leads Z old s s'"
  using inv n c r
proof (induction ins arbitrary: n s)
  case Nil
  then show ?case by (simp add: server_leads_refl)
next
  case (Cons i ins)
  then obtain s1 where s1: "server_step Z i s = Some s1" "run_steps (server_step Z) ins s1 = Some s'"
    by (auto simp: bind_eq_Some_conv)
  have step: "server_inv Z old (n + 10) s1 \<and> server_leads Z old s s1"
    using server_step_leads[OF Z Cons.prems(1) _ _ s1(1)] Cons.prems(2,3) by simp
  have "server_inv Z old (n + 10 + 10 * length ins) s' \<and> server_leads Z old s1 s'"
    using Cons.prems(2,3) s1 step by (intro Cons.IH) simp_all
  then show ?case using step server_leads_trans by (auto simp: algebra_simps)
qed

lemma calm_run_append:
  "calm_run Z (is @ js) s \<longleftrightarrow> calm_run Z is s \<and>
     (case run_steps (server_step Z) is s of None \<Rightarrow> True | Some s' \<Rightarrow> calm_run Z js s')"
proof (induction "is" arbitrary: s)
  case Nil
  then show ?case by simp
next
  case (Cons i "is")
  then show ?case by (cases "server_step Z i s") auto
qed

lemma dial_persisted_fields:
  "nd_indices (dial_persisted E nd) = nd_indices nd" "nd_events (dial_persisted E nd) = nd_events nd"
  "nd_gets (dial_persisted E nd) = nd_gets nd"
proof -
  have "nd_indices (fold (\<lambda>addr. call (DialPeer addr)) as nd) = nd_indices nd \<and>
      nd_events (fold (\<lambda>addr. call (DialPeer addr)) as nd) = nd_events nd \<and>
      nd_gets (fold (\<lambda>addr. call (DialPeer addr)) as nd) = nd_gets nd" for as and nd :: "('a, 'b) node"
    by (induction as arbitrary: nd) (simp_all add: call_def)
  then show "nd_indices (dial_persisted E nd) = nd_indices nd" "nd_events (dial_persisted E nd) = nd_events nd"
    "nd_gets (dial_persisted E nd) = nd_gets nd" by (simp_all add: dial_persisted_def)
qed

lemma server_start_inv:
  assumes "\<forall>u s. backup_has (se_node Z) db u s \<longrightarrow> unat s \<le> n"
  shows "server_inv Z (\<lambda>v. load_delivered_hashes (ge_wire (se_gw Z)) (ge_sled (se_gw Z)) db v) n
    (server_start db alive dials st (se_node Z))"
  using assms
  by (auto simp: server_inv_def server_start_def node_inv_def gateway_start_def dial_persisted_fields node_start_def
      gw_sound_def hashes_of_def persisted_def evident_def)

text \<open>Along a run from the start, a readable record is kept or accounted for.\<close>

lemma stored_message_kept:
  assumes Z: "server_env_ok Z"
    and run: "run_steps (server_step Z) ins1 (server_start db alive dials st (se_node Z)) = Some s1"
      "run_steps (server_step Z) ins2 s1 = Some s2"
    and calm: "calm_run Z (ins1 @ ins2) (server_start db alive dials st (se_node Z))"
    and numbers: "\<forall>u s. backup_has (se_node Z) db u s \<longrightarrow> unat s \<le> n" "n + 10 * length (ins1 @ ins2) + 11 < 2 ^ 64"
    and rec: "sl_get (ge_sled (se_gw Z)) (gw_db (sv_gw s1)) SLED_MAILBOX_TREE k = Some raw" "32 \<le> length k"
      "record_payload (ge_wire (se_gw Z)) (take 32 k) raw = Some p"
  shows "sl_get (ge_sled (se_gw Z)) (gw_db (sv_gw s2)) SLED_MAILBOX_TREE k = Some raw \<or>
    (\<exists>v. prefix v k \<and>
       (payload_hash (ge_wire (se_gw Z)) p \<in> set (load_delivered_hashes (ge_wire (se_gw Z)) (ge_sled (se_gw Z)) db v) \<or>
        (\<exists>ch q. (ch, q) \<in> set (gw_sent (sv_gw s2)) \<and> sv_owner s2 ch = Some v \<and>
           payload_hash (ge_wire (se_gw Z)) q = payload_hash (ge_wire (se_gw Z)) p)))"
proof -
  let ?old = "\<lambda>v. load_delivered_hashes (ge_wire (se_gw Z)) (ge_sled (se_gw Z)) db v"
  have c: "calm_run Z ins1 (server_start db alive dials st (se_node Z))" "calm_run Z ins2 s1"
    using calm run(1) by (simp_all add: calm_run_append)
  have "server_inv Z ?old (n + 10 * length ins1) s1"
    using server_run_leads[OF Z server_start_inv[OF numbers(1)] _ c(1) run(1)] numbers(2) by simp
  then have "server_leads Z ?old s1 s2"
    using server_run_leads[OF Z _ _ c(2) run(2)] numbers(2) by simp
  then show ?thesis using rec by (auto simp: server_leads_def accounted_def evident_def)
qed

end
