(* ===== verification/Profile_Store.thy ===== *)
theory Profile_Store
  imports Gateway Machine
begin

text \<open>
  The profile handlers of \<open>server/src/ws.rs\<close> over an honest record store. The locale
  \<open>profile_store\<close> states what the handlers rely on when the node stores and looks up records;
  inside it an update token protects a profile against every sequence of requests that does not
  present it. It is interpreted on the store that the node's own record keys and its
  \<open>put_record\<close> calls produce.
\<close>

section \<open>The contract\<close>

locale profile_store =
  fixes P :: "'n profile_ops"
  assumes store_lookup: "po_store P j b n = Some n' \<Longrightarrow> po_lookup P n' i = (if i = j then Some b else po_lookup P n i)"
    and store_token: "po_store P j b n = Some n' \<Longrightarrow> po_token P n' i = po_token P n i"
    and token_lookup: "po_token_store P j t n = Some n' \<Longrightarrow> po_lookup P n' i = po_lookup P n i"
    and token_token: "po_token_store P j t n = Some n' \<Longrightarrow> po_token P n' i = (if i = j then Some t else po_token P n i)"

text \<open>A store that accepts every command.\<close>

locale open_profile_store = profile_store +
  assumes is_open: "po_open P n"
    and store_some: "\<exists>n'. po_store P j b n = Some n'"
    and token_some: "\<exists>n'. po_token_store P j t n = Some n'"

text \<open>A request: the token a registration would mint, the opcode and the payload.\<close>

type_synonym request = "bytes \<times> u8 \<times> bytes"

definition request_step :: "'n profile_ops \<Rightarrow> request \<Rightarrow> 'n \<Rightarrow> 'n option" where
  "request_step P q n = (case q of (tok, opcode, payload) \<Rightarrow> Some (snd (profile_response P tok opcode payload n)))"

text \<open>The request is an update of the profile that presents the token.\<close>

definition presents :: "bytes \<Rightarrow> bytes \<Rightarrow> request \<Rightarrow> bool" where
  "presents i t q \<longleftrightarrow> (case q of (tok, opcode, payload) \<Rightarrow>
     opcode = 0x04 \<and> 64 \<le> length payload \<and> take 32 payload = i \<and> slice 32 64 payload = t)"

context profile_store
begin

lemma register_protected:
  assumes "po_lookup P n i = Some b" "po_token P n i = Some t"
    and "handle_register_profile P tok payload n = (r, n')"
  shows "po_lookup P n' i = Some b \<and> po_token P n' i = Some t"
proof (cases "take 32 payload = i")
  case True
  then show ?thesis using assms by (auto simp: handle_register_profile_def Let_def split: if_splits)
next
  case False
  then show ?thesis
    using assms
    by (auto simp: handle_register_profile_def Let_def store_lookup store_token token_lookup token_token
        split: if_splits option.splits)
qed

lemma update_protected:
  assumes "po_lookup P n i = Some b" "po_token P n i = Some t" "\<not> presents i t (tok, 0x04, payload)"
    and "handle_update_profile P payload n = (r, n')"
  shows "po_lookup P n' i = Some b \<and> po_token P n' i = Some t"
  using assms
  by (auto simp: handle_update_profile_def presents_def Let_def store_lookup store_token
      split: if_splits option.splits)

lemma step_protected:
  assumes "po_lookup P n i = Some b" "po_token P n i = Some t" "\<not> presents i t q"
    and "request_step P q n = Some n'"
  shows "po_lookup P n' i = Some b \<and> po_token P n' i = Some t"
proof -
  obtain tok opcode payload where q: "q = (tok, opcode, payload)" by (cases q)
  have look: "snd (handle_lookup_profile P payload n) = n"
    by (simp add: handle_lookup_profile_def split: option.split)
  have n': "n' = snd (profile_response P tok opcode payload n)"
    using assms(4) by (simp add: request_step_def q)
  show ?thesis
  proof (cases "opcode = 0x01")
    case True
    then show ?thesis
      using register_protected[OF assms(1,2), of tok payload] n'
      by (metis prod.collapse profile_response_def)
  next
    case no1: False
    show ?thesis
    proof (cases "opcode = 0x04")
      case True
      then have "n' = snd (handle_update_profile P payload n)" using n' by (simp add: profile_response_def)
      then show ?thesis
        using update_protected[OF assms(1,2), of tok payload] assms(3) True q by (metis prod.collapse)
    next
      case False
      then have "n' = n" using n' no1 look by (simp add: profile_response_def handle_unregister_profile_def)
      then show ?thesis using assms(1,2) by simp
    qed
  qed
qed

text \<open>The token protects the profile against every run of requests that never presents it.\<close>

lemma token_protects:
  assumes "run_steps (request_step P) qs n = Some n'" "\<forall>q \<in> set qs. \<not> presents i t q"
    and "po_lookup P n i = Some b" "po_token P n i = Some t"
  shows "po_lookup P n' i = Some b \<and> po_token P n' i = Some t"
  using assms
proof (induction qs arbitrary: n)
  case Nil
  then show ?case by simp
next
  case (Cons q qs)
  obtain n1 where n1: "request_step P q n = Some n1" "run_steps (request_step P) qs n1 = Some n'"
    using Cons.prems(1) by (auto simp: bind_eq_Some_conv)
  have "\<not> presents i t q" using Cons.prems(2) by simp
  from step_protected[OF Cons.prems(3,4) this n1(1)] Cons.IH[OF n1(2)] Cons.prems(2)
  show ?case by simp
qed

end

context open_profile_store
begin

lemma request_live: "\<exists>n'. run_steps (request_step P) qs n = Some n'"
  by (induction qs arbitrary: n) (auto simp: request_step_def split: prod.split)

lemma register_free:
  assumes "32 \<le> length payload" "po_lookup P n (take 32 payload) = None \<or> po_token P n (take 32 payload) = None"
  shows "\<exists>n'. handle_register_profile P tok payload n = (Some (PROFILE_SUCCESS @ tok), n') \<and>
    po_lookup P n' (take 32 payload) = Some (drop 32 payload) \<and> po_token P n' (take 32 payload) = Some tok"
proof -
  obtain n1 where n1: "po_store P (take 32 payload) (drop 32 payload) n = Some n1" using store_some by blast
  obtain n2 where n2: "po_token_store P (take 32 payload) tok n1 = Some n2" using token_some by blast
  have "handle_register_profile P tok payload n = (Some (PROFILE_SUCCESS @ tok), n2)"
    using assms is_open n1 n2 by (auto simp: handle_register_profile_def Let_def)
  then show ?thesis
    using store_lookup[OF n1] token_lookup[OF n2] token_token[OF n2] by simp
qed

lemma update_owner:
  assumes "length i = 32" "length t = 32" "blob \<noteq> []" "po_token P n i = Some t"
  shows "\<exists>n'. handle_update_profile P (i @ t @ blob) n = (Some [0xFE, 0x03, 0x00], n') \<and>
    po_lookup P n' i = Some blob \<and> po_token P n' i = Some t"
proof -
  obtain n1 where n1: "po_store P i blob n = Some n1" using store_some by blast
  have "slice 32 64 (i @ t @ blob) = t" using assms by (simp add: slice_def)
  then have "handle_update_profile P (i @ t @ blob) n = (Some [0xFE, 0x03, 0x00], n1)"
    using assms n1 by (simp add: handle_update_profile_def Let_def)
  then show ?thesis using store_lookup[OF n1] store_token[OF n1] assms(4) by simp
qed

end


section \<open>The store behind the node\<close>

text \<open>Records put by the node, the latest under each key; lookups are answered from it.\<close>

definition put_call :: "net_call \<Rightarrow> (bytes \<rightharpoonup> bytes) \<Rightarrow> (bytes \<rightharpoonup> bytes)" where
  "put_call c m = (case c of PutRecord k v \<Rightarrow> m(k \<mapsto> v) | _ \<Rightarrow> m)"

definition dht_ops :: "(bytes \<rightharpoonup> bytes) profile_ops" where
  "dht_ops =
     \<lparr>po_open = (\<lambda>m. True), po_lookup = (\<lambda>m i. m (profile_key i)), po_token = (\<lambda>m i. m (update_key i)),
      po_store = (\<lambda>i b m. Some (put_call (PutRecord (profile_key i) b) m)),
      po_token_store = (\<lambda>i t m. Some (put_call (PutRecord (update_key i) t) m))\<rparr>"

text \<open>The two store commands make exactly these calls.\<close>

lemma node_puts:
  assumes "handle_command E now hp (ProfileStore i b) st nd = Some (st', nd')"
    and "handle_command E now hp (ProfileTokenStore i b) st nd = Some (st'', nd'')"
  shows "po_store dht_ops i b (fold put_call (nd_calls nd) m) = Some (fold put_call (nd_calls nd') m)"
    and "po_token_store dht_ops i b (fold put_call (nd_calls nd) m) = Some (fold put_call (nd_calls nd'') m)"
  using assms by (auto simp: handle_command_def call_def dht_ops_def)

lemma profile_keys_differ [simp]:
  "profile_key i = profile_key j \<longleftrightarrow> i = j" "update_key i = update_key j \<longleftrightarrow> i = j"
  "profile_key i \<noteq> update_key j" "update_key i \<noteq> profile_key j"
  by (auto simp: profile_key_def update_key_def key_prefix_defs)

interpretation dht: open_profile_store dht_ops
  by unfold_locales (auto simp: dht_ops_def put_call_def)


section \<open>Theorems\<close>

text \<open>Registering a free name, or a legacy one without a token, succeeds and mints the token; then
  no sequence of requests that does not present the token changes the blob or the token, whatever
  its order and content; and the owner presenting the token replaces the blob.\<close>

theorem token_guards_profile:
  assumes "length i = 32" "m (profile_key i) = None \<or> m (update_key i) = None"
    and "\<forall>q \<in> set qs. \<not> presents i tok q" "length tok = 32" "blob' \<noteq> []"
  shows "\<exists>m1 m2 m3. handle_register_profile dht_ops tok (i @ blob) m = (Some (PROFILE_SUCCESS @ tok), m1) \<and>
    run_steps (request_step dht_ops) qs m1 = Some m2 \<and>
    m2 (profile_key i) = Some blob \<and> m2 (update_key i) = Some tok \<and>
    handle_update_profile dht_ops (i @ tok @ blob') m2 = (Some [0xFE, 0x03, 0x00], m3) \<and>
    m3 (profile_key i) = Some blob' \<and> m3 (update_key i) = Some tok"
proof -
  have ops: "po_lookup dht_ops m i = m (profile_key i)" "po_token dht_ops m i = m (update_key i)" for m
    by (simp_all add: dht_ops_def)
  obtain m1 where m1: "handle_register_profile dht_ops tok (i @ blob) m = (Some (PROFILE_SUCCESS @ tok), m1)"
    "po_lookup dht_ops m1 i = Some blob" "po_token dht_ops m1 i = Some tok"
    using dht.register_free[of "i @ blob" m tok] assms(1,2) by (auto simp: ops)
  obtain m2 where m2: "run_steps (request_step dht_ops) qs m1 = Some m2" using dht.request_live by blast
  have keep: "po_lookup dht_ops m2 i = Some blob \<and> po_token dht_ops m2 i = Some tok"
    by (rule dht.token_protects[OF m2 assms(3) m1(2,3)])
  then obtain m3 where "handle_update_profile dht_ops (i @ tok @ blob') m2 = (Some [0xFE, 0x03, 0x00], m3)"
    "po_lookup dht_ops m3 i = Some blob' \<and> po_token dht_ops m3 i = Some tok"
    using dht.update_owner[OF assms(1,4,5)] by blast
  then show ?thesis using m1(1) m2 keep unfolding ops by blast
qed

theorem token_guards_profile_witness:
  "\<exists>m1. handle_register_profile dht_ops (replicate 32 7) (replicate 32 1 @ [5]) Map.empty =
    (Some (PROFILE_SUCCESS @ replicate 32 7), m1)"
proof -
  have "\<not> presents (replicate 32 1) (replicate 32 7) ([], 0x04, replicate 32 1 @ replicate 32 8 @ [6])"
    by (simp add: presents_def slice_def numeral_eq_Suc)
  then have q: "\<forall>q \<in> set [([], 0x04, replicate 32 1 @ replicate 32 8 @ [6])]. \<not> presents (replicate 32 1) (replicate 32 7) q"
    by simp
  have "length (replicate 32 1 :: bytes) = 32" "length (replicate 32 7 :: bytes) = 32" "[9 :: u8] \<noteq> []" by simp_all
  from token_guards_profile[OF this(1) _ q this(2,3), of Map.empty "[5]"] show ?thesis by auto
qed

text \<open>A registered profile is found: a lookup answers with the stored blob behind its length, as
  long as the blob is shorter than 65536 bytes.\<close>

theorem register_then_lookup:
  assumes "length i = 32" "m (profile_key i) = None \<or> m (update_key i) = None" "length blob < 2 ^ 16"
  shows "\<exists>m1 b0 b1. handle_register_profile dht_ops tok (i @ blob) m = (Some (PROFILE_SUCCESS @ tok), m1) \<and>
    handle_lookup_profile dht_ops i m1 = (Some ([0xFE, 0x01, b0, b1] @ blob), m1) \<and>
    unat (le_u16 [b0, b1]) = length blob"
proof -
  have ops: "po_lookup dht_ops m i = m (profile_key i)" "po_token dht_ops m i = m (update_key i)"
    "po_open dht_ops m" for m
    by (simp_all add: dht_ops_def)
  obtain m1 where m1: "handle_register_profile dht_ops tok (i @ blob) m = (Some (PROFILE_SUCCESS @ tok), m1)"
    "po_lookup dht_ops m1 i = Some blob"
    using dht.register_free[of "i @ blob" m tok] assms(1,2) by (auto simp: ops)
  let ?l = "u16_le (word_of_nat (length blob))"
  have l: "?l = [?l ! 0, ?l ! 1]" by (rule u16_le_split)
  have "handle_lookup_profile dht_ops i m1 = (Some ([0xFE, 0x01, ?l ! 0, ?l ! 1] @ blob), m1)"
    using m1(2) assms(1) l by (simp add: handle_lookup_profile_def ops(3))
  moreover have "unat (le_u16 [?l ! 0, ?l ! 1]) = length blob"
    unfolding l[symmetric] using assms(3) by simp
  ultimately show ?thesis using m1(1) by blast
qed

theorem register_then_lookup_witness:
  "\<exists>m1 b0 b1. handle_lookup_profile dht_ops (replicate 32 1) m1 = (Some ([0xFE, 0x01, b0, b1, 5, 6]), m1)"
  using register_then_lookup[of "replicate 32 1" Map.empty "[5, 6]" "[]"] by auto

end
