(* ===== verification/Server_Theorems.thy ===== *)
theory Server_Theorems
  imports Server_Run Node_Theorems Profile_Store
begin

text \<open>
  Properties of the running server as a whole: no interleaving of its tasks loses a stored message
  in calm circumstances, and the two ways in which messages are lost otherwise.
\<close>

definition demo_server_env :: "(toy_db, nat, bytes \<rightharpoonup> bytes) server_env" where
  "demo_server_env = \<lparr>se_gw = demo_env, se_node = demo_node_env, se_ops = dht_ops\<rparr>"

definition demo_server :: "(toy_db, nat, bytes \<rightharpoonup> bytes) server" where
  "demo_server = server_start demo_db (\<lambda>ch. True) [] Map.empty demo_node_env"

lemma demo_server_env_ok: "server_env_ok demo_server_env"
  using demo_env_wf
  by (simp add: demo_server_env_def server_env_ok_def demo_node_env_def demo_env_def)

text \<open>No interleaving of the server's tasks loses a stored message. Take any run of the server from
  its start, with connections opening, sending, dying and closing, relays, profile requests, the
  node's ticks, swarm events and commands, and node events handled at any time; a record of the
  mailbox backup that opens to a payload at some moment is still there, unchanged, at every later
  moment, unless a payload with its hash was sent to a connection of a session whose id is a prefix
  of the record's key, or was delivered before the start. This holds as long as session ids have at
  least 32 bytes and the node's events are handled while the registered sessions have a live
  connection and name a user of full length.\<close>

theorem no_message_lost:
  assumes Z: "server_env_ok Z"
    and run: "run_steps (server_step Z) ins1 (server_start db alive dials st (se_node Z)) = Some s1"
      "run_steps (server_step Z) ins2 s1 = Some s2"
    and calm: "calm_run Z (ins1 @ ins2) (server_start db alive dials st (se_node Z))"
    and numbers: "\<forall>u s. backup_has (se_node Z) db u s \<longrightarrow> unat s \<le> n" "n + 10 * length (ins1 @ ins2) + 11 < 2 ^ 64"
    and rec: "sl_get (ge_sled (se_gw Z)) (gw_db (sv_gw s1)) SLED_MAILBOX_TREE k = Some raw" "32 \<le> length k"
      "record_payload (ge_wire (se_gw Z)) (take 32 k) raw = Some p"
  shows "sl_get (ge_sled (se_gw Z)) (gw_db (sv_gw s2)) SLED_MAILBOX_TREE k = Some raw \<or>
    (\<exists>v. prefix v k \<and>
       (payload_hash (ge_wire (se_gw Z)) p \<in> set (load_delivered_hashes (ge_wire (se_gw Z)) (ge_sled (se_gw Z)) db v) \<or>
        (\<exists>ch q. (ch, q) \<in> set (gw_sent (sv_gw s2)) \<and> sv_owner s2 ch = Some v \<and>
           payload_hash (ge_wire (se_gw Z)) q = payload_hash (ge_wire (se_gw Z)) p)))"
  by (rule stored_message_kept[OF assms])


theorem no_message_lost_witness:
  "\<exists>s2. run_steps (server_step demo_server_env) [Opens 0 3 (Binary demo_user)] demo_server = Some s2 \<and>
    (sl_get toy_sled (gw_db (sv_gw s2)) SLED_MAILBOX_TREE (seq_be_key demo_user 1) = Some [5] \<or>
     (\<exists>v ch q. prefix v (seq_be_key demo_user 1) \<and> (ch, q) \<in> set (gw_sent (sv_gw s2)) \<and>
        sv_owner s2 ch = Some v \<and> payload_hash toy_wire q = payload_hash toy_wire [5]))"
proof -
  let ?i = "[Opens 0 3 (Binary demo_user)] :: nat server_input list"
  have env: "ge_sled (se_gw demo_server_env) = toy_sled" "ge_wire (se_gw demo_server_env) = toy_wire"
    "se_node demo_server_env = demo_node_env"
    by (simp_all add: demo_server_env_def demo_env_def)
  obtain s2 where r: "run_steps (server_step demo_server_env) ?i demo_server = Some s2"
    by (simp add: server_step_def)
  have c: "calm_run demo_server_env ([] @ ?i) demo_server"
    by (simp add: calm_def demo_node_ok(2) split: option.split)
  have n: "(1 :: nat) + 10 * length ([] @ ?i) + 11 < 2 ^ 64" by simp
  have rec: "sl_get toy_sled (gw_db (sv_gw demo_server)) SLED_MAILBOX_TREE (seq_be_key demo_user 1) = Some [5]"
    using demo_db_get[of "seq_be_key demo_user 1"]
    by (simp add: demo_server_def server_start_def gateway_start_def demo_node_env_def)
  have k: "32 \<le> length (seq_be_key demo_user 1)" by (simp add: seq_be_key_def demo_user_def)
  have p: "record_payload toy_wire (take 32 (seq_be_key demo_user 1)) [5] = Some [5]"
    using demo_short_records by (simp add: record_payload_def demo_node_env_def)
  have old: "load_delivered_hashes toy_wire toy_sled demo_db v = []" for v
    by (simp add: load_delivered_hashes_def toy_sled_def demo_db_def toy_norm_def bt_wf_def bt_get_def
        SLED_DELIVERED_TREE_def SLED_MAILBOX_TREE_def)
  have b: "\<forall>u s. backup_has demo_node_env demo_db u s \<longrightarrow> unat s \<le> 1" by (simp add: demo_db_has)
  show ?thesis
    using no_message_lost[OF demo_server_env_ok, of "[]" demo_db "\<lambda>ch. True" "[]" Map.empty demo_server ?i s2 1
        "seq_be_key demo_user 1" "[5]" "[5]", unfolded env]
      r c n rec k p b
    by (auto simp: demo_server_def[symmetric] old)
qed

text \<open>C20: A lookup that finds nothing wipes the mailboxes of everybody. A client asks for a profile; the
  node, idle, queries the DHT; when the query fails, the node answers the lookup and also reports a
  retrieval for the empty user id; the handler reads the backup under the empty prefix, where no
  signed record verifies, and so removes every signed record of the database without sending
  anything to anybody.\<close>

theorem failed_lookup_wipes_mailboxes:
  assumes Z: "server_env_ok Z" and idle: "sv_state s = Idle" "sv_handled s = length (nd_events (sv_node s))"
    and key: "key = None \<or> key = Some (profile_key i)" and no_empty: "gw_clients (sv_gw s) [] = None"
  shows "\<exists>s'. run_steps (server_step Z)
      [Loops t conn (Command (ProfileLookup i ch)),
       Loops t' conn' (Swarm (KadFailed (ne_ids (se_node Z) (nd_gets (sv_node s))) key)), Reports users] s = Some s' \<and>
    nd_replies (sv_node s') = nd_replies (sv_node s) @ [(ch, None)] \<and> gw_sent (sv_gw s') = gw_sent (sv_gw s) \<and>
    (\<forall>k raw e. sl_get (ge_sled (se_gw Z)) (gw_db (sv_gw s)) SLED_MAILBOX_TREE k = Some raw \<longrightarrow>
       deserialize_envelope (ge_wire (se_gw Z)) raw = Some e \<longrightarrow>
       sl_get (ge_sled (se_gw Z)) (gw_db (sv_gw s')) SLED_MAILBOX_TREE k = None)"
proof -
  let ?E = "se_node Z" and ?G = "se_gw Z" and ?db = "gw_db (sv_gw s)"
  let ?q = "ne_ids ?E (nd_gets (sv_node s))"
  have S: "sled_ok (ge_sled ?G)" using Z by (simp add: server_env_ok_def env_wf_def)
  have user: "(case Option.bind key parse_user_hash_from_key of None \<Rightarrow> [] | Some h \<Rightarrow> h) = []"
    using key by (auto simp: parse_user_hash_from_key_def profile_key_def key_prefix_defs)
  obtain s1 where s1: "server_step Z (Loops t conn (Command (ProfileLookup i ch))) s = Some s1"
    "sv_state s1 = Idle" "gw_db (sv_gw s1) = ?db" "gw_sent (sv_gw s1) = gw_sent (sv_gw s)"
    "gw_clients (sv_gw s1) = gw_clients (sv_gw s)" "sv_handled s1 = sv_handled s"
    "nd_events (sv_node s1) = nd_events (sv_node s)" "nd_replies (sv_node s1) = nd_replies (sv_node s)"
    "map_of (nd_profile_queries (sv_node s1)) ?q = Some ch"
    by (simp add: server_step_def node_turn_def node_step_def handle_command_def seed_index_def command_user_def
        profile_query_def get_record_def call_def idle(1) check_state_timeout_def map_of_am_insert)
  obtain s2 where s2: "server_step Z (Loops t' conn' (Swarm (KadFailed ?q key))) s1 = Some s2"
    "gw_db (sv_gw s2) = ?db" "gw_sent (sv_gw s2) = gw_sent (sv_gw s)"
    "gw_clients (sv_gw s2) = gw_clients (sv_gw s)" "sv_handled s2 = sv_handled s"
    "nd_events (sv_node s2) = nd_events (sv_node s) @ [MailboxRetrieved [] []]"
    "nd_replies (sv_node s2) = nd_replies (sv_node s) @ [(ch, None)]"
    using s1(2-9) user
    by (simp add: server_step_def node_turn_def node_step_def handle_swarm_event_def handle_kad_failed_def
        reply_def emit_def check_state_timeout_def)
  let ?s3 = "s2\<lparr>sv_gw := on_mailbox_retrieved ?G [] [] (sv_gw s2), sv_handled := Suc (sv_handled s2)\<rparr>"
  have s3: "server_step Z (Reports users) s2 = Some ?s3"
    using s2(5,6) idle(2) by (simp add: server_step_def handle_p2p_event_def nth_append)
  obtain db recs where r: "read_sled_backup (ge_wire ?G) (ge_sled ?G) ?db [] = (db, recs)" by fastforce
  have ev: "on_mailbox_retrieved ?G [] [] (sv_gw s2) = (sv_gw s2)\<lparr>gw_db := db\<rparr>"
    using no_empty by (simp add: on_mailbox_retrieved_def handle_retrieval_result_def List.map_filter_simps s2(2,4) r Let_def)
  have "sl_get (ge_sled ?G) db SLED_MAILBOX_TREE k = None"
    if "sl_get (ge_sled ?G) ?db SLED_MAILBOX_TREE k = Some raw" "deserialize_envelope (ge_wire ?G) raw = Some e" for k raw e
    using short_id_wipes[OF S _ _ that, of "[]"] by (simp add: r)
  then show ?thesis
    by (intro exI[of _ ?s3]) (simp add: s1(1) s2(1,3,7) s3 ev)
qed


theorem failed_lookup_wipes_mailboxes_witness:
  "\<exists>raw. let k = seq_be_key demo_user 2; db = sl_insert toy_sled demo_db SLED_MAILBOX_TREE k raw;
      s = server_start db (\<lambda>ch. True) [] Map.empty demo_node_env
    in \<exists>s'. run_steps (server_step demo_server_env)
        [Loops 0 [] (Command (ProfileLookup [1] 8)), Loops 0 [] (Swarm (KadFailed 0 None)), Reports []] s = Some s' \<and>
      sl_get toy_sled (gw_db (sv_gw s)) SLED_MAILBOX_TREE k = Some raw \<and>
      sl_get toy_sled (gw_db (sv_gw s')) SLED_MAILBOX_TREE k = None"
proof -
  have env: "ge_sled (se_gw demo_server_env) = toy_sled" "ge_wire (se_gw demo_server_env) = toy_wire"
    "se_node demo_server_env = demo_node_env" "ne_ids demo_node_env 0 = 0"
    by (simp_all add: demo_server_env_def demo_env_def demo_node_env_def)
  obtain e :: envelope where "e = e" by blast
  obtain raw where raw: "w_dec_env toy_wire raw = Some e"
    using bincode_envE[OF demo_node_sled(3), of e] by (auto simp: demo_node_env_def)
  let ?k = "seq_be_key demo_user 2"
  let ?db = "sl_insert toy_sled demo_db SLED_MAILBOX_TREE ?k raw"
  let ?s = "server_start ?db (\<lambda>ch. True) [] (Map.empty :: bytes \<rightharpoonup> bytes) demo_node_env :: (toy_db, nat, bytes \<rightharpoonup> bytes) server"
  have st: "sv_state ?s = Idle" "sv_handled ?s = length (nd_events (sv_node ?s))" "nd_gets (sv_node ?s) = 0"
    "gw_clients (sv_gw ?s) [] = None" "gw_db (sv_gw ?s) = ?db"
    by (simp_all add: server_start_def dial_persisted_fields gateway_start_def node_start_def)
  have rec: "sl_get toy_sled ?db SLED_MAILBOX_TREE ?k = Some raw" by (simp add: sledD(2)[OF toy_sled_ok])
  have d: "deserialize_envelope toy_wire raw = Some e" using raw by (simp add: deserialize_envelope_def)
  show ?thesis
    using failed_lookup_wipes_mailboxes[OF demo_server_env_ok st(1,2) _ st(4), of None "[1]" 0 "[]" 8 0 "[]" "[]"]
      rec d by (intro exI[of _ raw]) (auto simp: Let_def env st(3,5))
qed

text \<open>A fetched record whose payload is marked is dropped.\<close>

lemma seen_not_fetched:
  assumes seen: "payload_hash (ge_wire E) p \<in> set (hashes_of (gw_delivered g) u)"
    and raw: "record_payload (ge_wire E) u raw = Some p"
  shows "gw_sent (handle_p2p_event E users (MailboxRetrieved u [raw]) g) = gw_sent g"
proof -
  have ps: "snd (handle_retrieval_result (ge_wire E) [] u [raw]) = [p]"
    by (simp add: handle_retrieval_result_def List.map_filter_simps raw)
  show ?thesis
  proof (cases "gw_clients g u")
    case None
    then show ?thesis by (simp add: handle_p2p_event_def on_mailbox_retrieved_def ps Let_def)
  next
    case (Some senders)
    have "gw_sent (deliver_one E u senders p g) = gw_sent g"
      using seen by (simp add: deliver_one_def check_and_mark_delivered_def Let_def)
    then show ?thesis using retrieved_fetched[OF ps _ Some] by (simp add: handle_p2p_event_def)
  qed
qed

text \<open>C23: A connection that has ended still swallows a message. When a client closes its socket, its
  channel is still open while the cleanup prunes closed channels, so the entry stays; a gossip
  message for the user is then marked as delivered, on disk too, although no receiver is left to
  take it; and when the user reconnects and the message is fetched from the DHT, it is dropped as a
  duplicate: it is never sent.\<close>

theorem closed_connection_swallows:
  assumes E: "env_wf E" and mb: "gw_mailbox g" and u: "u \<noteq> []"
    and one: "gw_clients g u = Some [ch]" "gw_alive g ch" and two: "gw_alive g ch2" "ch2 \<noteq> ch"
    and topic: "topic \<noteq> []" "w_unhex (ge_wire E) topic = Some u"
    and raw: "record_payload (ge_wire E) u raw = Some p"
  shows "let g1 = (disconnect_client E u g)\<lparr>gw_alive := (gw_alive g)(ch := False)\<rparr>;
      g2 = handle_p2p_event E users (MessageReceived from topic p) g1;
      g3 = connect_client E now u ch2 g2;
      g4 = handle_p2p_event E users' (MailboxRetrieved u [raw]) g3
    in gw_sent g2 = gw_sent g \<and> (\<exists>xs. gw_sent g4 = gw_sent g @ xs \<and> p \<notin> snd ` set xs)"
proof -
  define g1 where "g1 = (disconnect_client E u g)\<lparr>gw_alive := (gw_alive g)(ch := False)\<rparr>"
  define g2 where "g2 = handle_p2p_event E users (MessageReceived from topic p) g1"
  define g3 where "g3 = connect_client E now u ch2 g2"
  define g4 where "g4 = handle_p2p_event E users' (MailboxRetrieved u [raw]) g3"
  let ?h = "payload_hash (ge_wire E) p"
  have g1: "gw_clients g1 u = Some [ch]" "\<not> gw_alive g1 ch" "gw_delivered g1 u = None" "gw_sent g1 = gw_sent g"
    "gw_mailbox g1" "gw_alive g1 ch2"
    using one two mb by (auto simp: g1_def disconnect_client_def prune_client_def Let_def)
  obtain new m where m: "check_and_mark_delivered (ge_wire E) (gw_delivered g1) u p = (new, m)" by fastforce
  have new: "new" "m u = Some [?h]"
    using m g1(3) by (auto simp: check_and_mark_delivered_def hashes_of_def Let_def hs_insert_def MAX_DELIVERED_HASHES_def)
  have g2: "g2 = persist_delivered_set E u (g1\<lparr>gw_delivered := m\<rparr>)"
    using topic g1(1,2) new(1) by (simp add: g2_def handle_p2p_event_def on_message_received_def m send_all_eq sends_def)
  have s2: "gw_sent g2 = gw_sent g" "gw_mailbox g2" "gw_alive g2 ch2" by (simp_all add: g2 g1(4-6))
  have "persisted E g2 u = trim_hashes [?h]"
    unfolding g2 using persisted_after[OF E, of "g1\<lparr>gw_delivered := m\<rparr>" u u] g1(5) new(2) by simp
  then have p2: "?h \<in> set (persisted E g2 u)" by (simp add: trim_hashes_def MAX_PERSISTED_HASHES_def)
  obtain xs where xs: "gw_sent g3 = gw_sent g2 @ xs" "\<forall>(c, q) \<in> set xs. payload_hash (ge_wire E) q \<notin> set (persisted E g2 u)"
    using connect_skips_persisted[OF E s2(2) u, of now ch2] by (auto simp: g3_def)
  obtain db recs where r: "read_sled_backup (ge_wire E) (ge_sled E) (gw_db g2) u = (db, recs)" by fastforce
  have seen: "?h \<in> set (hashes_of (gw_delivered g3) u)"
    using connect_live(2)[OF E s2(2) u s2(3) r, of now] p2 by (simp add: g3_def)
  have "gw_sent g4 = gw_sent g3" unfolding g4_def by (rule seen_not_fetched[OF seen raw])
  moreover have "p \<notin> snd ` set xs" using p2 xs(2) by auto
  ultimately have "gw_sent g2 = gw_sent g \<and> (\<exists>xs. gw_sent g4 = gw_sent g @ xs \<and> p \<notin> snd ` set xs)"
    using s2(1) xs(1) by auto
  then show ?thesis unfolding g4_def g3_def g2_def g1_def Let_def .
qed


theorem closed_connection_swallows_witness:
  "let g1 = (disconnect_client demo_env [9] demo_gateway)\<lparr>gw_alive := (gw_alive demo_gateway)(3 := False)\<rparr>;
      g2 = handle_p2p_event demo_env [] (MessageReceived [1] [9] [8]) g1;
      g3 = connect_client demo_env 0 [9] 4 g2;
      g4 = handle_p2p_event demo_env [] (MailboxRetrieved [9] [[8]]) g3
    in gw_sent g2 = [] \<and> [8] \<notin> snd ` set (gw_sent g4)"
proof -
  have g: "gw_mailbox demo_gateway" "gw_clients demo_gateway [9] = Some [3]" "gw_alive demo_gateway 3"
    "gw_alive demo_gateway 4" "gw_sent demo_gateway = []"
    by (simp_all add: demo_gateway_def)
  have "record_payload (ge_wire demo_env) [9] [8] = Some [8]" "w_unhex (ge_wire demo_env) [9] = Some [9]"
    by (simp_all add: demo_env_def record_payload_def toy_wire_def deserialize_envelope_def toy_unlist_def
        toy_unblock_def Let_def)
  with closed_connection_swallows[of demo_env demo_gateway "[9]" 3 4 "[9]" "[8]" "[8]" "[]" "[1]" 0 "[]"]
    g demo_env_wf
  show ?thesis by (auto simp: Let_def)
qed

end
