(* ===== verification/Swarm.thy ===== *)
theory Swarm
  imports Node_Props
begin

text \<open>
  \<open>server/src/p2p/node.rs\<close> at its edge to libp2p: how \<open>P2PNode::new\<close> configures the
  swarm, dials the saved peers and starts listening, and how the event loop takes the events apart
  that the behaviours of the swarm report. The handlers of \<open>Node\<close> start from events that are
  already classified; here every event libp2p reports has its constructor, and the handlers are
  those of the source. They agree with the classified ones as long as the event queue has room.
\<close>

section \<open>Construction\<close>

record swarm_config =
  sc_kad_server :: bool
  sc_query_timeout :: nat  \<comment> \<open>milliseconds, like all times of the node\<close>
  sc_max_transmit :: nat
  sc_heartbeat :: nat
  sc_protocol :: string
  sc_ping :: nat
  sc_max_reservations :: nat
  sc_reservation :: nat

definition vurn_swarm :: swarm_config where
  "vurn_swarm =
     \<lparr>sc_kad_server = True, sc_query_timeout = 5 * 1000, sc_max_transmit = 10 * 1024 * 1024,
      sc_heartbeat = 1 * 1000, sc_protocol = ''vurnchat/0.1.0'', sc_ping = 15 * 1000,
      sc_max_reservations = 256, sc_reservation = 3600 * 1000\<rparr>"

text \<open>Saved peers are dialled in groups of five with half a second after each group.\<close>

fun chunks :: "nat \<Rightarrow> 'a list \<Rightarrow> 'a list list" where
  "chunks n xs = (if xs = [] \<or> n = 0 then [] else take n xs # chunks n (drop n xs))"

declare chunks.simps [simp del]

definition dial_batches :: "bytes list \<Rightarrow> bytes list list" where
  "dial_batches addrs = chunks 5 addrs"

definition dialling_time :: "bytes list \<Rightarrow> nat" where
  "dialling_time addrs = 500 * length (dial_batches addrs)"

lemma chunks_Nil [simp]: "chunks n [] = []"
  by (simp add: chunks.simps)

lemma concat_chunks: "0 < n \<Longrightarrow> concat (chunks n xs) = xs"
proof (induction n xs rule: chunks.induct)
  case (1 n xs)
  then show ?case by (cases "xs = []") (simp_all add: chunks.simps[of n xs])
qed

lemma chunks_size: "c \<in> set (chunks n xs) \<Longrightarrow> length c \<le> n"
proof (induction n xs rule: chunks.induct)
  case (1 n xs)
  then show ?case by (cases "xs = [] \<or> n = 0") (auto simp: chunks.simps[of n xs])
qed

lemma ceil_div_step:
  assumes "0 < n" "0 < (l :: nat)"
  shows "(l + n - 1) div n = Suc ((l - n + n - 1) div n)"
proof (cases "n \<le> l")
  case True
  then have "l + n - 1 = (l - 1) + n" "l - n + n = l" using assms by simp_all
  then show ?thesis using assms(1) by (metis Suc_eq_plus1 div_add_self2 neq0_conv)
next
  case False
  then have "l + n - 1 = (l - 1) + n" "(l - 1) div n = 0" "(n - 1) div n = 0" "l - n = 0" using assms by auto
  then show ?thesis using assms(1) by (metis Suc_eq_plus1 add_0 div_add_self2 neq0_conv)
qed

lemma length_chunks: "0 < n \<Longrightarrow> length (chunks n xs) = (length xs + n - 1) div n"
proof (induction n xs rule: chunks.induct)
  case (1 n xs)
  show ?case
  proof (cases "xs = []")
    case True
    then show ?thesis using 1(2) by simp
  next
    case False
    then have "length (chunks n xs) = Suc ((length xs - n + n - 1) div n)"
      using 1 by (simp add: chunks.simps[of n xs])
    also have "\<dots> = (length xs + n - 1) div n"
      by (rule ceil_div_step[symmetric]) (use False 1(2) in simp_all)
    finally show ?thesis .
  qed
qed

text \<open>What building the swarm may fail with, in the order of the question marks.\<close>

record build_env =
  be_tcp :: "string option"
  be_dns :: "string option"
  be_behaviour :: "swarm_config \<Rightarrow> string option"
  be_parse :: "string \<Rightarrow> string + bytes"
  be_listen :: "bytes \<Rightarrow> string option"

definition try_step :: "string option \<Rightarrow> string + 'a \<Rightarrow> string + 'a" where
  "try_step failure r = (case failure of Some e \<Rightarrow> Inl e | None \<Rightarrow> r)"

definition p2p_node_new ::
    "('db, 'q) node_env \<Rightarrow> build_env \<Rightarrow> string \<Rightarrow> 'db \<Rightarrow> string + ('db, 'q) node" where
  "p2p_node_new E B listen_addr db =
     try_step (be_tcp B) (try_step (be_dns B) (try_step (be_behaviour B vurn_swarm)
       (let batches = dial_batches (persisted_addrs (ne_wire E) (ne_sled E) db);
            nd = fold (fold (\<lambda>addr. call (DialPeer addr))) batches (node_start db)
        in res_bind (be_parse B listen_addr) (\<lambda>addr. try_step (be_listen B addr) (Inr nd)))))"

lemma try_step_Inr [simp]: "try_step f r = Inr x \<longleftrightarrow> f = None \<and> r = Inr x"
  by (simp add: try_step_def split: option.split)

lemma fold_concat: "fold (fold f) xss s = fold f (concat xss) s"
  by (induction xss arbitrary: s) simp_all

text \<open>Batching does not change what is dialled.\<close>

lemma p2p_node_new_Inr:
  "p2p_node_new E B listen_addr db = Inr nd \<longleftrightarrow>
     be_tcp B = None \<and> be_dns B = None \<and> be_behaviour B vurn_swarm = None \<and>
     (\<exists>addr. be_parse B listen_addr = Inr addr \<and> be_listen B addr = None) \<and> nd = dial_persisted E (node_start db)"
  by (auto simp: p2p_node_new_def res_bind_Inr_iff fold_concat concat_chunks dial_batches_def dial_persisted_def
      node_start_def Let_def)


section \<open>Events of the behaviours\<close>

datatype query_result =
    FoundRecord bytes bytes
  | FinishedWithNoAdditionalRecord
  | GetRecordFailed "bytes option"  \<comment> \<open>the key when the error is \<open>NotFound\<close>\<close>
  | PutRecordDone bool
  | BootstrapDone bool
  | OtherResult

datatype 'q kad_event =
    OutboundQueryProgressed 'q query_result
  | RoutingUpdated bytes
  | OtherKad

datatype identify_event = IdentifyInfo bytes | IdentifyOther
datatype gossip_event = GossipIn bytes string bytes | GossipOther

datatype 'q behaviour_event =
    Kademlia "'q kad_event"
  | Gossipsub gossip_event
  | Identify identify_event
  | Ping bytes bool
  | Relay string
  | Dcutr string

datatype 'q raw_event =
    Behaviour "'q behaviour_event"
  | NewListen bytes
  | Established bytes bytes
  | Closed bytes
  | IncomingError string
  | OtherSwarm string

text \<open>\<open>handle_kad_event\<close>: results of queries other than \<open>get_record\<close> are only logged.\<close>

definition handle_kad_event ::
    "('db, 'q) node_env \<Rightarrow> nat \<Rightarrow> 'q kad_event \<Rightarrow> 'q mailbox_state \<Rightarrow> ('db, 'q) node \<Rightarrow>
     ('q mailbox_state \<times> ('db, 'q) node) option" where
  "handle_kad_event E now ev st nd =
     (case ev of
        OutboundQueryProgressed qid res \<Rightarrow>
          (case res of
             FoundRecord key val \<Rightarrow> handle_kad_found E now qid key val st nd
           | FinishedWithNoAdditionalRecord \<Rightarrow> handle_kad_finished E now qid st nd
           | GetRecordFailed key \<Rightarrow> handle_kad_failed E now qid key st nd
           | PutRecordDone ok \<Rightarrow> Some (st, nd)
           | BootstrapDone ok \<Rightarrow> Some (st, nd)
           | OtherResult \<Rightarrow> Some (st, nd))
      | RoutingUpdated peer \<Rightarrow> Some (st, emit (PeerDiscovered peer) nd)
      | OtherKad \<Rightarrow> Some (st, nd))"

definition handle_identify_event :: "identify_event \<Rightarrow> ('db, 'q) node \<Rightarrow> ('db, 'q) node" where
  "handle_identify_event ev nd =
     (case ev of IdentifyInfo peer \<Rightarrow> emit (PeerDiscovered peer) nd | IdentifyOther \<Rightarrow> nd)"

text \<open>Gossip is handed over with \<open>try_send\<close>: without room in the queue it is dropped.\<close>

definition handle_gossipsub_event :: "bool \<Rightarrow> gossip_event \<Rightarrow> ('db, 'q) node \<Rightarrow> ('db, 'q) node" where
  "handle_gossipsub_event room ev nd =
     (case ev of
        GossipIn source topic d \<Rightarrow>
          (if room then emit (MessageReceived source (ascii_bytes topic) d) nd else nd)
      | GossipOther \<Rightarrow> nd)"

definition handle_behaviour_event ::
    "('db, 'q) node_env \<Rightarrow> nat \<Rightarrow> bool \<Rightarrow> 'q behaviour_event \<Rightarrow> 'q mailbox_state \<Rightarrow> ('db, 'q) node \<Rightarrow>
     ('q mailbox_state \<times> ('db, 'q) node) option" where
  "handle_behaviour_event E now room ev st nd =
     (case ev of
        Kademlia k \<Rightarrow> handle_kad_event E now k st nd
      | Gossipsub g \<Rightarrow> Some (st, handle_gossipsub_event room g nd)
      | Identify i \<Rightarrow> Some (st, handle_identify_event i nd)
      | Ping peer ok \<Rightarrow> Some (st, nd)
      | Relay text \<Rightarrow> Some (st, nd)
      | Dcutr text \<Rightarrow> Some (st, nd))"

definition handle_raw_event ::
    "('db, 'q) node_env \<Rightarrow> nat \<Rightarrow> bool \<Rightarrow> 'q raw_event \<Rightarrow> 'q mailbox_state \<Rightarrow> ('db, 'q) node \<Rightarrow>
     ('q mailbox_state \<times> ('db, 'q) node) option" where
  "handle_raw_event E now room ev st nd =
     (case ev of
        Behaviour b \<Rightarrow> handle_behaviour_event E now room b st nd
      | NewListen addr \<Rightarrow> Some (st, emit (ListeningOn addr) nd)
      | Established peer addr \<Rightarrow> Some (st, handle_connection_established E now peer addr nd)
      | Closed peer \<Rightarrow> Some (st, handle_connection_closed now peer nd)
      | IncomingError text \<Rightarrow> Some (st, nd)
      | OtherSwarm text \<Rightarrow> Some (st, nd))"

text \<open>The classification the other theories start from.\<close>

fun classify_kad :: "'q kad_event \<Rightarrow> 'q swarm_event" where
  "classify_kad (OutboundQueryProgressed qid (FoundRecord key val)) = KadFound qid key val"
| "classify_kad (OutboundQueryProgressed qid FinishedWithNoAdditionalRecord) = KadFinished qid"
| "classify_kad (OutboundQueryProgressed qid (GetRecordFailed key)) = KadFailed qid key"
| "classify_kad (RoutingUpdated peer) = KadRoutingUpdated peer"
| "classify_kad _ = OtherEvent"

fun classify :: "bool \<Rightarrow> 'q raw_event \<Rightarrow> 'q swarm_event" where
  "classify room (Behaviour (Kademlia k)) = classify_kad k"
| "classify room (Behaviour (Gossipsub (GossipIn source topic d))) =
     (if room then GossipMessage source (ascii_bytes topic) d else OtherEvent)"
| "classify room (Behaviour (Identify (IdentifyInfo peer))) = IdentifyReceived peer"
| "classify room (NewListen addr) = NewListenAddr addr"
| "classify room (Established peer addr) = ConnectionEstablished peer addr"
| "classify room (Closed peer) = ConnectionClosed peer"
| "classify room _ = OtherEvent"

lemma kad_event_classified:
  "handle_kad_event E now k st nd = handle_swarm_event E now (classify_kad k) st nd"
proof (cases k)
  case (OutboundQueryProgressed qid res)
  then show ?thesis by (cases res) (simp_all add: handle_kad_event_def handle_swarm_event_def)
qed (simp_all add: handle_kad_event_def handle_swarm_event_def)

lemma raw_event_classified:
  "handle_raw_event E now room ev st nd = handle_swarm_event E now (classify room ev) st nd"
proof (cases ev)
  case (Behaviour b)
  then show ?thesis
    by (cases b)
      (auto simp: handle_raw_event_def handle_behaviour_event_def kad_event_classified handle_swarm_event_def
        handle_identify_event_def handle_gossipsub_event_def split: gossip_event.split identify_event.split)
qed (auto simp: handle_raw_event_def handle_swarm_event_def)

end
