(* ===== verification/Tls.thy ===== *)
theory Tls
  imports Text Machine
begin

text \<open>
  The TLS side of \<open>server/src/main.rs\<close>: loading a certificate chain and a key from disk
  (\<open>load_tls_config\<close>), reloading them every day (\<open>cert_reload_task\<close>) and the accept loop
  that serves each connection with the configuration current when its task starts
  (\<open>run_tls_server\<close>). The file system, the PEM parser and rustls are parameters; errors
  are the texts the code builds.
\<close>

section \<open>Loading a configuration\<close>

text \<open>
  Opening a file fails with a text or gives a reader; what reading yields is an error, for a
  directory say, or the content.
\<close>

type_synonym pem_file = "string + bytes"

record ('fs, 'c, 'k) tls_env =
  te_open :: "'fs \<Rightarrow> string \<Rightarrow> string + pem_file"
  te_certs :: "pem_file \<Rightarrow> (string + 'c) list"
  te_private_key :: "pem_file \<Rightarrow> string + 'k option"
  te_single_cert :: "'c list \<Rightarrow> 'k \<Rightarrow> string option"  \<comment> \<open>why rustls refuses the pair\<close>

record ('c, 'k) tls_config =
  tc_chain :: "'c list"
  tc_key :: 'k
  tc_alpn :: "bytes list"

text \<open>\<open>map_err\<close> with a prefix, and \<open>collect\<close> into a result: the first error wins.\<close>

definition with_prefix :: "string \<Rightarrow> string + 'a \<Rightarrow> string + 'a" where
  "with_prefix p r = (case r of Inl e \<Rightarrow> Inl (p @ e) | Inr x \<Rightarrow> Inr x)"

fun collect_results :: "('e + 'a) list \<Rightarrow> 'e + 'a list" where
  "collect_results [] = Inr []"
| "collect_results (r # rs) = res_bind r (\<lambda>x. res_bind (collect_results rs) (\<lambda>xs. Inr (x # xs)))"

definition read_certs :: "('fs, 'c, 'k) tls_env \<Rightarrow> 'fs \<Rightarrow> string \<Rightarrow> string + 'c list" where
  "read_certs T fs path =
     res_bind (with_prefix ''Failed to open cert file: '' (te_open T fs path)) (\<lambda>content.
       with_prefix ''Failed to parse cert file: '' (collect_results (te_certs T content)))"

definition read_key :: "('fs, 'c, 'k) tls_env \<Rightarrow> 'fs \<Rightarrow> string \<Rightarrow> string + 'k" where
  "read_key T fs path =
     res_bind (with_prefix ''Failed to open key file: '' (te_open T fs path)) (\<lambda>content.
       res_bind (with_prefix ''Failed to parse key file: '' (te_private_key T content)) (\<lambda>found.
         case found of None \<Rightarrow> Inl ''No private key found in key file'' | Some k \<Rightarrow> Inr k))"

text \<open>
  Each file is read in a blocking task of its own: the disk may change between the two, and tokio
  may fail to join a task. A snapshot of one is what it sees and how joining it failed, if it did.
\<close>

type_synonym 'fs snapshot = "'fs \<times> string option"

definition join_task :: "string option \<Rightarrow> string + 'a \<Rightarrow> string + 'a" where
  "join_task failure r = (case failure of Some e \<Rightarrow> Inl (''Task join failed: '' @ e) | None \<Rightarrow> r)"

definition load_tls_config ::
    "('fs, 'c, 'k) tls_env \<Rightarrow> 'fs snapshot \<Rightarrow> 'fs snapshot \<Rightarrow> string \<Rightarrow> string \<Rightarrow> string + ('c, 'k) tls_config" where
  "load_tls_config T s1 s2 cert_path key_path =
     res_bind (join_task (snd s1) (read_certs T (fst s1) cert_path)) (\<lambda>certs.
       if certs = [] then Inl ''No certificates found in cert file''
       else res_bind (join_task (snd s2) (read_key T (fst s2) key_path)) (\<lambda>key.
         case te_single_cert T certs key of
           Some e \<Rightarrow> Inl (''TLS config build failed: '' @ e)
         | None \<Rightarrow> Inr \<lparr>tc_chain = certs, tc_key = key, tc_alpn = [ascii_bytes ''http/1.1'']\<rparr>))"

text \<open>What every loaded configuration is.\<close>

definition config_ok :: "('fs, 'c, 'k) tls_env \<Rightarrow> ('c, 'k) tls_config \<Rightarrow> bool" where
  "config_ok T cfg \<longleftrightarrow> tc_chain cfg \<noteq> [] \<and> te_single_cert T (tc_chain cfg) (tc_key cfg) = None \<and>
     tc_alpn cfg = [ascii_bytes ''http/1.1'']"

lemma with_prefix_Inr [simp]: "with_prefix p r = Inr x \<longleftrightarrow> r = Inr x"
  by (cases r) (simp_all add: with_prefix_def)

lemma join_task_Inr [simp]: "join_task f r = Inr x \<longleftrightarrow> f = None \<and> r = Inr x"
  by (simp add: join_task_def split: option.split)

lemma collect_results_Inr: "collect_results rs = Inr xs \<longleftrightarrow> rs = map Inr xs"
proof (induction rs arbitrary: xs)
  case Nil
  then show ?case by auto
next
  case (Cons r rs)
  then show ?case by (cases xs) (auto simp: res_bind_Inr_iff)
qed

lemma read_certs_Inr:
  "read_certs T fs path = Inr certs \<longleftrightarrow> (\<exists>cs. te_open T fs path = Inr cs \<and> te_certs T cs = map Inr certs)"
  by (auto simp: read_certs_def res_bind_Inr_iff collect_results_Inr)

lemma read_key_Inr:
  "read_key T fs path = Inr key \<longleftrightarrow> (\<exists>ks. te_open T fs path = Inr ks \<and> te_private_key T ks = Inr (Some key))"
  by (auto simp: read_key_def res_bind_Inr_iff split: option.splits)

text \<open>Exactly when loading succeeds, and with which configuration.\<close>

lemma load_Inr_iff:
  "load_tls_config T s1 s2 cert_path key_path = Inr cfg \<longleftrightarrow>
     snd s1 = None \<and> snd s2 = None \<and> config_ok T cfg \<and>
     read_certs T (fst s1) cert_path = Inr (tc_chain cfg) \<and> read_key T (fst s2) key_path = Inr (tc_key cfg)"
  by (cases cfg) (auto simp: load_tls_config_def config_ok_def res_bind_Inr_iff split: if_splits option.splits)

lemma load_config_ok: "load_tls_config T s1 s2 cert_path key_path = Inr cfg \<Longrightarrow> config_ok T cfg"
  by (simp add: load_Inr_iff)


section \<open>The accept loop and the reload task\<close>

text \<open>
  A connection is accepted, takes a copy of the shared configuration, shakes hands and is served.
  Connections are numbered; an ended one stays in the map.
\<close>

datatype ('c, 'k) tls_conn =
    Accepted
  | Handshaking "('c, 'k) tls_config"
  | Serving "('c, 'k) tls_config"
  | Finished

record ('c, 'k) tls_server =
  ts_shared :: "('c, 'k) tls_config"
  ts_reload_due :: nat  \<comment> \<open>when the sleep of the reload task ends, in seconds\<close>
  ts_running :: bool
  ts_conns :: "nat \<rightharpoonup> ('c, 'k) tls_conn"

definition RELOAD_SECS :: nat where "RELOAD_SECS = 24 * 3600"

datatype 'fs tls_input =
    ReloadWakes nat "'fs snapshot" "'fs snapshot"
  | Accepts nat
  | AcceptFails
  | ReadsConfig nat
  | Handshakes nat bool
  | ConnectionEnds nat
  | ShutdownSignal

text \<open>One turn of the reload task: a failed load leaves the configuration as it is.\<close>

definition cert_reload ::
    "('fs, 'c, 'k) tls_env \<Rightarrow> string \<Rightarrow> string \<Rightarrow> nat \<Rightarrow> 'fs snapshot \<Rightarrow> 'fs snapshot \<Rightarrow>
     ('c, 'k) tls_server \<Rightarrow> ('c, 'k) tls_server" where
  "cert_reload T cert_path key_path now s1 s2 s =
     (case load_tls_config T s1 s2 cert_path key_path of
        Inr cfg \<Rightarrow> s\<lparr>ts_shared := cfg, ts_reload_due := now + RELOAD_SECS\<rparr>
      | Inl e \<Rightarrow> s\<lparr>ts_reload_due := now + RELOAD_SECS\<rparr>)"

definition connection_task :: "'fs tls_input \<Rightarrow> ('c, 'k) tls_server \<Rightarrow> ('c, 'k) tls_server" where
  "connection_task inp s =
     (case inp of
        ReadsConfig c \<Rightarrow>
          (case ts_conns s c of
             Some Accepted \<Rightarrow> s\<lparr>ts_conns := (ts_conns s)(c \<mapsto> Handshaking (ts_shared s))\<rparr>
           | _ \<Rightarrow> s)
      | Handshakes c ok \<Rightarrow>
          (case ts_conns s c of
             Some (Handshaking cfg) \<Rightarrow> s\<lparr>ts_conns := (ts_conns s)(c \<mapsto> (if ok then Serving cfg else Finished))\<rparr>
           | _ \<Rightarrow> s)
      | ConnectionEnds c \<Rightarrow>
          (case ts_conns s c of
             Some (Serving cfg) \<Rightarrow> s\<lparr>ts_conns := (ts_conns s)(c \<mapsto> Finished)\<rparr>
           | _ \<Rightarrow> s)
      | _ \<Rightarrow> s)"

text \<open>
  The loop accepts, panics when accepting fails, or breaks at the shutdown signal; then \<open>main\<close>
  returns and the runtime drops every task. \<open>None\<close> is the panic.
\<close>

definition tls_step ::
    "('fs, 'c, 'k) tls_env \<Rightarrow> string \<Rightarrow> string \<Rightarrow> 'fs tls_input \<Rightarrow> ('c, 'k) tls_server \<Rightarrow>
     ('c, 'k) tls_server option" where
  "tls_step T cert_path key_path inp s =
     (if \<not> ts_running s then Some s
      else case inp of
             ReloadWakes now s1 s2 \<Rightarrow>
               Some (if ts_reload_due s \<le> now then cert_reload T cert_path key_path now s1 s2 s else s)
           | Accepts c \<Rightarrow>
               Some (if ts_conns s c = None then s\<lparr>ts_conns := (ts_conns s)(c \<mapsto> Accepted)\<rparr> else s)
           | AcceptFails \<Rightarrow> None
           | ShutdownSignal \<Rightarrow>
               Some (s\<lparr>ts_running := False, ts_conns := (\<lambda>c. map_option (\<lambda>_. Finished) (ts_conns s c))\<rparr>)
           | _ \<Rightarrow> Some (connection_task inp s))"

definition tls_start :: "('c, 'k) tls_config \<Rightarrow> nat \<Rightarrow> ('c, 'k) tls_server" where
  "tls_start cfg now =
     \<lparr>ts_shared = cfg, ts_reload_due = now + RELOAD_SECS, ts_running = True, ts_conns = Map.empty\<rparr>"

definition conn_config :: "('c, 'k) tls_conn \<Rightarrow> ('c, 'k) tls_config option" where
  "conn_config c = (case c of Handshaking cfg \<Rightarrow> Some cfg | Serving cfg \<Rightarrow> Some cfg | _ \<Rightarrow> None)"

text \<open>Every configuration in use was loaded.\<close>

definition tls_inv :: "('fs, 'c, 'k) tls_env \<Rightarrow> ('c, 'k) tls_server \<Rightarrow> bool" where
  "tls_inv T s \<longleftrightarrow> config_ok T (ts_shared s) \<and>
     (\<forall>c st cfg. ts_conns s c = Some st \<longrightarrow> conn_config st = Some cfg \<longrightarrow> config_ok T cfg)"

lemma conn_config_simps [simp]:
  "conn_config Accepted = None" "conn_config (Handshaking cfg) = Some cfg"
  "conn_config (Serving cfg) = Some cfg" "conn_config Finished = None"
  by (simp_all add: conn_config_def)

lemma tls_step_inv:
  assumes "tls_inv T s" "tls_step T cp kp inp s = Some s'"
  shows "tls_inv T s'"
  using assms
  by (cases inp) (auto simp: tls_step_def tls_inv_def connection_task_def cert_reload_def load_config_ok
      split: if_splits option.splits tls_conn.splits sum.splits)

interpretation tls: machine "tls_step T cert_path key_path" "tls_inv T"
  by unfold_locales (rule tls_step_inv)

lemma tls_start_inv: "config_ok T cfg \<Longrightarrow> tls_inv T (tls_start cfg now)"
  by (simp add: tls_inv_def tls_start_def)


section \<open>The last good configuration\<close>

text \<open>
  What the reloads alone make of the configuration: a reload that is due and loads replaces it,
  and the next is due a day later.
\<close>

fun last_good ::
    "('fs, 'c, 'k) tls_env \<Rightarrow> string \<Rightarrow> string \<Rightarrow> 'fs tls_input list \<Rightarrow> ('c, 'k) tls_config \<times> nat \<Rightarrow>
     ('c, 'k) tls_config \<times> nat" where
  "last_good T cp kp [] cur = cur"
| "last_good T cp kp (ReloadWakes now s1 s2 # is) (cfg, due) =
     last_good T cp kp is
       (if due \<le> now then
          (case load_tls_config T s1 s2 cp kp of Inr new \<Rightarrow> new | Inl e \<Rightarrow> cfg, now + RELOAD_SECS)
        else (cfg, due))"
| "last_good T cp kp (i # is) cur = last_good T cp kp is cur"

lemma shared_last_good:
  assumes "run_steps (tls_step T cp kp) ins s = Some s'" "ts_running s'"
  shows "(ts_shared s', ts_reload_due s') = last_good T cp kp ins (ts_shared s, ts_reload_due s)"
  using assms(1)
proof (induction ins arbitrary: s)
  case Nil
  then show ?case by simp
next
  case (Cons i ins)
  then obtain s1 where s1: "tls_step T cp kp i s = Some s1" "run_steps (tls_step T cp kp) ins s1 = Some s'"
    by (auto simp: bind_eq_Some_conv)
  have stopped: "\<not> ts_running t \<Longrightarrow> run_steps (tls_step T cp kp) is t = Some t' \<Longrightarrow> t' = t" for "is" t t'
    by (induction "is") (auto simp: tls_step_def)
  have run: "ts_running s" "ts_running s1"
    using stopped s1 assms(2) Cons.prems by blast+
  note IH = Cons.IH[OF s1(2)]
  show ?case
  proof (cases i)
    case (ReloadWakes now a b)
    then show ?thesis
      using s1(1) run(1) IH by (auto simp: tls_step_def cert_reload_def split: sum.split if_splits)
  next
    case ShutdownSignal
    then show ?thesis using s1(1) run by (auto simp: tls_step_def)
  qed (use s1(1) run(1) IH in \<open>auto simp: tls_step_def connection_task_def split: option.splits tls_conn.splits\<close>)
qed


section \<open>Connections keep the configuration they started with\<close>

definition ends_conn :: "nat \<Rightarrow> 'fs tls_input \<Rightarrow> bool" where
  "ends_conn c inp = (case inp of
      Handshakes c' ok \<Rightarrow> c' = c \<and> \<not> ok
    | ConnectionEnds c' \<Rightarrow> c' = c
    | ShutdownSignal \<Rightarrow> True
    | _ \<Rightarrow> False)"

lemma conn_kept:
  assumes "tls_step T cp kp inp s = Some s'" "ts_conns s c = Some st" "conn_config st = Some cfg" "\<not> ends_conn c inp"
  shows "\<exists>st'. ts_conns s' c = Some st' \<and> conn_config st' = Some cfg" "ts_running s' = ts_running s"
  using assms
  by (cases inp; auto simp: tls_step_def connection_task_def cert_reload_def ends_conn_def
      split: if_splits option.splits tls_conn.splits sum.splits)+

lemma conn_kept_run:
  assumes "run_steps (tls_step T cp kp) ins s = Some s'" "ts_conns s c = Some st" "conn_config st = Some cfg"
    and "\<forall>i \<in> set ins. \<not> ends_conn c i"
  shows "(\<exists>st'. ts_conns s' c = Some st' \<and> conn_config st' = Some cfg) \<and> ts_running s' = ts_running s"
  using assms
proof (induction ins arbitrary: s st)
  case Nil
  then show ?case by simp
next
  case (Cons i ins)
  then obtain s1 where s1: "tls_step T cp kp i s = Some s1" "run_steps (tls_step T cp kp) ins s1 = Some s'"
    by (auto simp: bind_eq_Some_conv)
  have "\<not> ends_conn c i" using Cons.prems(4) by simp
  from conn_kept[OF s1(1) Cons.prems(2,3) this] Cons.IH[OF s1(2)] Cons.prems(4) show ?case by auto
qed

text \<open>C21: A certificate reload never disturbs a connection, and a failed one changes nothing. Start with a
  loaded configuration and let any sequence of daily reloads, accepts, handshakes and ends happen. A
  connection that reads the shared configuration gets that of the last reload before it that was due
  and succeeded, and has it until it ends itself, whatever reloads come later; the shared
  configuration always is that of the last such reload, so a missing or broken file leaves the old
  one in place; and each configuration in use has a certificate chain and a key that fit and speaks
  HTTP/1.1 only.\<close>

theorem reload_keeps_connections:
  assumes load: "load_tls_config T a b cp kp = Inr cfg0"
    and run1: "run_steps (tls_step T cp kp) ins1 (tls_start cfg0 t0) = Some s1" "ts_running s1"
    and conn: "ts_conns s1 c = Some Accepted"
    and run2: "run_steps (tls_step T cp kp) (ReadsConfig c # ins2) s1 = Some s2"
    and quiet: "\<forall>i \<in> set ins2. \<not> ends_conn c i"
  shows "\<exists>st cfg. ts_conns s2 c = Some st \<and> conn_config st = Some cfg \<and>
    cfg = fst (last_good T cp kp ins1 (cfg0, t0 + RELOAD_SECS)) \<and>
    ts_shared s2 = fst (last_good T cp kp (ins1 @ ReadsConfig c # ins2) (cfg0, t0 + RELOAD_SECS)) \<and>
    config_ok T cfg \<and> config_ok T (ts_shared s2)"
proof -
  let ?s0 = "tls_start cfg0 t0" and ?m = "s1\<lparr>ts_conns := (ts_conns s1)(c \<mapsto> Handshaking (ts_shared s1))\<rparr>"
  have r2: "run_steps (tls_step T cp kp) ins2 ?m = Some s2"
    using run2 run1(2) conn by (simp add: tls_step_def connection_task_def)
  have r: "run_steps (tls_step T cp kp) (ins1 @ ReadsConfig c # ins2) ?s0 = Some s2"
    using run1(1) run2 by (simp add: run_steps_append)
  have start: "ts_shared ?s0 = cfg0" "ts_reload_due ?s0 = t0 + RELOAD_SECS" by (simp_all add: tls_start_def)
  have cfg1: "ts_shared s1 = fst (last_good T cp kp ins1 (cfg0, t0 + RELOAD_SECS))"
    using shared_last_good[OF run1] by (simp add: start) (metis fst_conv)
  obtain st where st: "ts_conns s2 c = Some st" "conn_config st = Some (ts_shared s1)" and on: "ts_running s2"
    using conn_kept_run[OF r2 _ _ quiet, of "Handshaking (ts_shared s1)"] run1(2) by auto
  have cfg2: "ts_shared s2 = fst (last_good T cp kp (ins1 @ ReadsConfig c # ins2) (cfg0, t0 + RELOAD_SECS))"
    using shared_last_good[OF r on] by (simp add: start) (metis fst_conv)
  have "tls_inv T s2" by (rule tls.run_inv[OF r tls_start_inv[OF load_config_ok[OF load]]])
  then show ?thesis using st cfg1 cfg2 by (auto simp: tls_inv_def)
qed

definition demo_tls :: "(bool, bytes, bytes) tls_env" where
  "demo_tls = \<lparr>te_open = (\<lambda>fs p. if fs then Inr (Inr (ascii_bytes p)) else Inl ''gone''),
     te_certs = (\<lambda>f. [f]), te_private_key = map_sum id Some, te_single_cert = (\<lambda>cs k. None)\<rparr>"

theorem reload_keeps_connections_witness:
  "\<exists>cfg s2. load_tls_config demo_tls (True, None) (True, None) ''c'' ''k'' = Inr cfg \<and>
     run_steps (tls_step demo_tls ''c'' ''k'')
       [Accepts 1, ReadsConfig 1, Handshakes 1 True, ReloadWakes 86400 (False, None) (True, None)]
       (tls_start cfg 0) = Some s2 \<and> ts_shared s2 = cfg \<and> ts_conns s2 1 = Some (Serving cfg)"
proof -
  define cfg where "cfg = \<lparr>tc_chain = [ascii_bytes ''c''], tc_key = ascii_bytes ''k'', tc_alpn = [ascii_bytes ''http/1.1'']\<rparr>"
  have load: "load_tls_config demo_tls (True, None) (True, None) ''c'' ''k'' = Inr cfg"
    by (simp add: load_tls_config_def read_certs_def read_key_def demo_tls_def with_prefix_def join_task_def cfg_def)
  have gone: "load_tls_config demo_tls (False, None) (True, None) ''c'' ''k'' = Inl ''Failed to open cert file: gone''"
    by (simp add: load_tls_config_def read_certs_def demo_tls_def with_prefix_def join_task_def)
  let ?step = "tls_step demo_tls ''c'' ''k''"
  let ?ins2 = "[Handshakes 1 True, ReloadWakes 86400 (False, None) (True, None)]"
  let ?s1 = "(tls_start cfg 0)\<lparr>ts_conns := [1 \<mapsto> Accepted]\<rparr>"
  have r1: "run_steps ?step [Accepts 1] (tls_start cfg 0) = Some ?s1"
    by (simp add: tls_step_def tls_start_def)
  obtain s2 where r2: "run_steps ?step (ReadsConfig 1 # ?ins2) ?s1 = Some s2" "ts_conns s2 1 = Some (Serving cfg)"
    by (simp add: tls_step_def tls_start_def connection_task_def RELOAD_SECS_def cert_reload_def gone)
  have "\<forall>i \<in> set ?ins2. \<not> ends_conn 1 i" by (simp add: ends_conn_def)
  from reload_keeps_connections[OF load r1 _ _ r2(1) this] have "ts_shared s2 = cfg"
    by (auto simp: tls_start_def gone RELOAD_SECS_def)
  moreover have "run_steps ?step ([Accepts 1] @ ReadsConfig 1 # ?ins2) (tls_start cfg 0) = Some s2"
    by (simp only: run_steps_append r1 r2(1) Option.bind.simps)
  ultimately show ?thesis using load r2(2) by (intro exI[of _ cfg] exI[of _ s2]) simp
qed

text \<open>An accept error, for example when the process has no file descriptors left, ends the process.\<close>

lemma accept_error_stops:
  assumes "run_steps (tls_step T cp kp) ins s = Some s'" "ts_running s'"
  shows "run_steps (tls_step T cp kp) (ins @ AcceptFails # ins') s = None"
  using assms by (simp add: run_steps_append tls_step_def)

end
