(* ===== verification/Server_Log.thy ===== *)
theory Server_Log
  imports Server
begin

text \<open>
  The two queues of the server grow at their ends only. What each operation of the gateway appends
  to the log of commands, and each step of the node to the log of events, with a bound on how much;
  and the flags of the gateway that no client can change.
\<close>

section \<open>Commands\<close>

definition gw_log :: "(node_command \<Rightarrow> bool) \<Rightarrow> 'db gateway \<Rightarrow> 'db gateway \<Rightarrow> bool" where
  "gw_log P g g' \<longleftrightarrow>
     (\<exists>cs. gw_cmds g' = gw_cmds g @ cs \<and> (\<forall>c \<in> set cs. P c)) \<and>
     gw_p2p_connected g' = gw_p2p_connected g \<and> gw_p2p_tx g' = gw_p2p_tx g"

lemma gw_log_same:
  "gw_cmds g' = gw_cmds g \<Longrightarrow> gw_p2p_connected g' = gw_p2p_connected g \<Longrightarrow> gw_p2p_tx g' = gw_p2p_tx g \<Longrightarrow> gw_log P g g'"
  by (simp add: gw_log_def)

lemma gw_log_trans: "gw_log P a b \<Longrightarrow> gw_log P b c \<Longrightarrow> gw_log P a c"
  by (fastforce simp: gw_log_def)

lemma gw_log_send: "P c \<Longrightarrow> gw_log P g (send_cmd c g)"
  by (simp add: gw_log_def send_cmd_def)

lemma gw_log_send_after: "gw_log P g g' \<Longrightarrow> P c \<Longrightarrow> gw_log P g (send_cmd c g')"
  using gw_log_trans gw_log_send by blast

lemma gw_log_fold:
  assumes "\<And>x a. gw_log P (sel a) (sel (f x a))"
  shows "gw_log P (sel a) (sel (fold f xs a))"
proof (induction xs arbitrary: a)
  case Nil
  show ?case by (simp add: gw_log_same)
next
  case (Cons x xs)
  show ?case using gw_log_trans[OF assms Cons] by simp
qed

lemma log_send_all: "gw_log P g (snd (send_all chans d g))"
  by (simp add: send_all_def gw_log_def Let_def)

lemma log_persist: "gw_log P g (persist_delivered_set E u g)"
  by (simp add: persist_delivered_set_def gw_log_def split: option.split)

lemma log_deliver: "gw_log P g (snd (deliver_local E r fwd g))"
  by (simp add: deliver_local_def send_all_def gw_log_def Let_def split: option.split)

lemma log_limit: "gw_log P g (snd (check_rate_limit_store fl clk client g))"
  by (auto simp: check_rate_limit_store_def gw_log_def case_prod_beta Let_def split: option.split)

text \<open>A relay queues a publication and a store for the recipient of the frame.\<close>

lemma log_relay:
  assumes "\<And>r p. parse_relay d = Some (r, p) \<Longrightarrow> P (MailboxStore r sender p)"
    and "\<And>r p. parse_relay d = Some (r, p) \<Longrightarrow> P (Publish (w_hex (ge_wire E) r) (forward_frame sender p))"
  shows "gw_log P g (relay_or_p2p E clk sender d g)"
proof (cases "parse_relay d")
  case None
  then show ?thesis by (simp add: relay_or_p2p_def gw_log_same)
next
  case (Some rp)
  obtain r p where rp: "rp = (r, p)" by (cases rp)
  obtain ok g1 where g1: "check_rate_limit_store (ge_round E) clk sender g = (ok, g1)" by fastforce
  obtain dl du g2 where g2: "deliver_local E r (forward_frame sender p) g1 = ((dl, du), g2)" by (metis prod.collapse)
  have a: "gw_log P g g1" using log_limit[of P g "ge_round E" clk sender] g1 by simp
  have b: "gw_log P g g2" using gw_log_trans[OF a] log_deliver[of P g1 E r "forward_frame sender p"] g2 by simp
  have c: "gw_log P g (persist_delivered_set E r g2)" by (rule gw_log_trans[OF b log_persist])
  have e: "gw_log P g (send_cmd (MailboxStore r sender p)
      (send_cmd (Publish (w_hex (ge_wire E) r) (forward_frame sender p)) g2))"
    using assms[of r p] Some rp by (intro gw_log_send_after[OF gw_log_send_after[OF b]]) simp_all
  show ?thesis using a b c e by (simp add: relay_or_p2p_def Some rp g1 g2)
qed

lemma log_drain_record: "gw_log P (snd st) (snd (drain_record E session rec st))"
  by (auto simp: drain_record_def case_prod_beta Let_def send_all_def gw_log_def split: option.split)

lemma log_drain: "gw_log P g (drain_local E session g)"
proof -
  obtain db1 pend where r: "read_sled_backup (ge_wire E) (ge_sled E) (gw_db g) session = (db1, pend)" by fastforce
  obtain rm n g1 where f: "fold (drain_record E session) pend (([], 0), g\<lparr>gw_db := db1\<rparr>) = ((rm, n), g1)"
    by (metis prod.collapse)
  have "gw_log P g (g\<lparr>gw_db := db1\<rparr>)" by (simp add: gw_log_same)
  then have a: "gw_log P g g1"
    using gw_log_trans[OF _ gw_log_fold[of P snd "drain_record E session", OF log_drain_record]] f
    by (metis snd_conv)
  have b: "gw_log P g (persist_delivered_set E session g1)" by (rule gw_log_trans[OF a log_persist])
  have "gw_log P g (h\<lparr>gw_db := db\<rparr>)" if "gw_log P g h" for h db
    using that by (simp add: gw_log_def)
  then show ?thesis using a b by (simp add: drain_local_def r f gw_log_same Let_def)
qed

lemma log_connect:
  assumes "P (Subscribe (w_hex (ge_wire E) session))" "P (MailboxRetrieve session)"
  shows "gw_log P g (connect_client E now session ch g)"
proof -
  have "gw_log P g (send_cmd (Subscribe (w_hex (ge_wire E) session)) g)" using assms(1) by (rule gw_log_send)
  then have "gw_log P g (register_client E now session ch g)" by (simp add: register_client_def Let_def gw_log_def)
  then have "gw_log P g (send_cmd (MailboxRetrieve session) (drain_local E session (register_client E now session ch g)))"
    using assms(2) gw_log_send_after gw_log_trans log_drain by metis
  then show ?thesis by (simp add: connect_client_def gw_log_same)
qed

lemma log_prune: "gw_log P g (prune_client session g)"
  by (simp add: prune_client_def gw_log_def Let_def split: option.split)

lemma log_disconnect: "gw_log P g (disconnect_client E session g)"
proof -
  have "gw_log P g (persist_delivered_set E session g)" by (rule log_persist)
  then have "gw_log P g ((persist_delivered_set E session g)
      \<lparr>gw_limiters := (gw_limiters (persist_delivered_set E session g))(session := None),
       gw_delivered := (gw_delivered (persist_delivered_set E session g))(session := None)\<rparr>)"
    by (simp add: gw_log_def)
  from gw_log_trans[OF this log_prune] show ?thesis by (simp add: disconnect_client_def Let_def)
qed

lemma log_profile: "gw_log P g (snd (handle_profile_operation Q token client opcode payload n g))"
  using log_send_all by (auto simp: handle_profile_operation_def gw_log_same split: prod.split option.split)

lemma log_client_message:
  assumes "\<And>d r p. msg = Binary d \<Longrightarrow> parse_relay d = Some (r, p) \<Longrightarrow> P (MailboxStore r session p)"
    and "\<And>d r p. msg = Binary d \<Longrightarrow> parse_relay d = Some (r, p) \<Longrightarrow>
      P (Publish (w_hex (ge_wire E) r) (forward_frame session p))"
  shows "gw_log P g (snd (client_message E Q clk token session msg n g))"
proof (cases msg)
  case (Binary d)
  then show ?thesis
    using log_profile[of P g Q token session "d ! 1" "drop 2 d" n] log_relay[of d P session E g clk] assms
    by (simp add: client_message_def handle_client_message_def)
qed (simp_all add: client_message_def gw_log_same log_disconnect)

lemma log_message_received: "gw_log P g (on_message_received E topic d g)"
proof -
  have "gw_log P g (persist_delivered_set E r (snd (send_all senders d (g\<lparr>gw_delivered := m\<rparr>))))" for r senders m
    by (rule gw_log_trans[OF _ log_persist]) (simp add: send_all_def gw_log_def Let_def)
  then show ?thesis
    by (auto simp: on_message_received_def gw_log_same Let_def split: option.split prod.split)
qed

lemma log_broadcast: "gw_log P g (on_broadcast users d g)"
  unfolding on_broadcast_def using gw_log_fold[of P id] log_send_all by fastforce

lemma log_deliver_backup: "gw_log P (snd st) (snd (deliver_backup E user senders rec st))"
  by (auto simp: deliver_backup_def case_prod_beta Let_def send_all_def gw_log_def)

lemma log_deliver_fetched: "gw_log P (snd st) (snd (deliver_fetched E user senders p st))"
  by (auto simp: deliver_fetched_def case_prod_beta Let_def send_all_def gw_log_def)

lemma log_retrieved: "gw_log P g (on_mailbox_retrieved E user messages g)"
proof -
  define ps where "ps = snd (handle_retrieval_result (ge_wire E) [] user messages)"
  obtain db1 recs where r: "(if ps = [] then read_sled_backup (ge_wire E) (ge_sled E) (gw_db g) user
      else (gw_db g, [])) = (db1, recs)" by fastforce
  let ?g0 = "g\<lparr>gw_db := db1\<rparr>"
  have g0: "gw_log P g ?g0" by (simp add: gw_log_same)
  have db: "gw_log P g (h\<lparr>gw_db := x\<rparr>)" if "gw_log P g h" for h x using that by (simp add: gw_log_def)
  show ?thesis
  proof (cases "gw_clients ?g0 user")
    case None
    then show ?thesis
      using g0 by (simp add: on_mailbox_retrieved_def ps_def[symmetric] r Let_def)
  next
    case (Some senders)
    obtain r1 g1 where f1: "fold (deliver_backup E user senders) recs
        (\<lparr>rv_remove = [], rv_delivered = 0, rv_dupes = 0\<rparr>, ?g0) = (r1, g1)" by fastforce
    obtain r2 g2 where f2: "fold (deliver_fetched E user senders) ps (r1, g1) = (r2, g2)" by fastforce
    have "gw_log P g g1"
      using gw_log_trans[OF g0] gw_log_fold[of P snd "deliver_backup E user senders", OF log_deliver_backup] f1
      by (metis snd_conv)
    then have g2: "gw_log P g g2"
      using gw_log_trans gw_log_fold[of P snd "deliver_fetched E user senders", OF log_deliver_fetched] f2
      by (metis snd_conv)
    define g3 where "g3 = (if 0 < rv_delivered r2 then
        (case gw_delivered g2 user of None \<Rightarrow> g2
         | Some hashes \<Rightarrow> g2\<lparr>gw_db := save_delivered_hashes (ge_wire E) (ge_sled E) (gw_db g2) user hashes\<rparr>)
        else g2)"
    have g3: "gw_log P g g3" using g2 db by (simp add: g3_def split: option.split)
    have "gw_clients g user = Some senders" using Some by simp
    then have "on_mailbox_retrieved E user messages g =
        (if ps = [] \<and> recs = [] then ?g0 else if rv_remove r2 = [] then g3
         else g3\<lparr>gw_db := remove_sled_records (ge_sled E) (gw_db g3) (rv_remove r2)\<rparr>)"
      by (simp add: on_mailbox_retrieved_def ps_def[symmetric] r f1 f2 Let_def g3_def[symmetric])
    then show ?thesis using g0 g3 db by simp
  qed
qed


section \<open>Events\<close>

definition ev_log :: "nat \<Rightarrow> ('db, 'q) node \<Rightarrow> ('db, 'q) node \<Rightarrow> bool" where
  "ev_log n nd nd' \<longleftrightarrow> (\<exists>es. nd_events nd' = nd_events nd @ es \<and> length es \<le> n)"

lemma ev_log_same: "nd_events nd' = nd_events nd \<Longrightarrow> ev_log n nd nd'"
  by (simp add: ev_log_def)

lemma ev_log_emit: "nd_events nd' = nd_events nd \<Longrightarrow> 0 < n \<Longrightarrow> ev_log n nd (emit e nd')"
  by (cases n) (simp_all add: ev_log_def emit_def)

lemma ev_log_from: "ev_log n nd0 nd' \<Longrightarrow> nd_events nd0 = nd_events nd \<Longrightarrow> ev_log n nd nd'"
  by (simp add: ev_log_def)

lemma ev_log_trans: "ev_log m a b \<Longrightarrow> ev_log n b c \<Longrightarrow> ev_log (m + n) a c"
  unfolding ev_log_def by (metis add_mono append.assoc length_append)

lemma get_record_events: "nd_events (fst (get_record E key nd)) = nd_events nd"
  by (simp add: get_record_def call_def)

lemma fire_seqs_events: "nd_events (fst (fire_seqs E user ss q nd)) = nd_events nd"
  by (induction ss arbitrary: q nd) (simp_all add: case_prod_beta Let_def get_record_events)

lemma fire_window_events: "nd_events (fst (fire_window E user start nd)) = nd_events nd"
  by (simp add: fire_window_def fire_seqs_events)

lemma start_collecting_events: "nd_events (snd (start_collecting_messages E now u i nd)) = nd_events nd"
  by (simp add: start_collecting_messages_def case_prod_beta Let_def get_record_events)

lemma start_fetch_events: "nd_events (snd (start_fetch E now cmd nd)) = nd_events nd"
  by (simp add: start_fetch_def case_prod_beta Let_def fire_window_events)

lemma log_emit_empty: "ev_log (Suc 0) nd (snd (emit_empty_mailbox u nd))"
  by (simp add: emit_empty_mailbox_def ev_log_emit)

lemma log_collect: "ev_log (Suc 0) nd (snd (collect_message E u rem val ms d nd))"
  by (auto simp: collect_message_def case_prod_beta Let_def ev_log_emit ev_log_same get_record_events
      split: list.split)

lemma log_store:
  "store_signed_envelope E r s p seq nd = Some nd' \<Longrightarrow> nd_events nd' = nd_events nd"
  by (auto simp: store_signed_envelope_def Let_def call_def split: option.splits if_splits)

lemma log_resume:
  assumes "resume_pending_command E now cmd i nd = Some (st, nd')"
  shows "ev_log (Suc 0) nd nd'"
proof (cases cmd)
  case (PendingStore r s p)
  then show ?thesis using assms log_store ev_log_same by (fastforce simp: resume_pending_command_def)
next
  case (PendingRetrieve u)
  then show ?thesis
    using assms log_emit_empty[of nd u] start_collecting_events[of E now u i nd]
    by (auto simp: resume_pending_command_def ev_log_same split: if_splits)
qed

lemma log_resolve:
  assumes "try_resolve_window E now cmd start mx pending found d nd = Some (st, nd')"
  shows "ev_log (Suc 0) nd nd'"
proof (cases "scan_window pending found (window_seqs start)")
  case (Gap s)
  then have "resume_pending_command E now cmd (s - 1)
      (nd\<lparr>nd_indices := (nd_indices nd)(pending_user cmd \<mapsto> s - 1)\<rparr>) = Some (st, nd')"
    using assms by (simp add: try_resolve_window_def Let_def)
  from ev_log_from[OF log_resume[OF this]] show ?thesis by simp
next
  case AllFound
  then show ?thesis
    using assms fire_window_events[of E "pending_user cmd" "start + word_of_nat WINDOW_SIZE" nd]
    by (auto simp: try_resolve_window_def Let_def ev_log_same split: prod.splits)
qed (use assms in \<open>auto simp: try_resolve_window_def ev_log_same\<close>)

lemma log_found:
  assumes "handle_found_record E now key val qid st nd = Some (st', nd')"
  shows "ev_log (Suc 0) nd nd'"
proof (cases st)
  case (FetchingIndex cmd start mx pending found d)
  then show ?thesis
    using assms by (auto simp: handle_found_record_def Let_def ev_log_same dest: log_resolve split: option.splits if_splits)
next
  case (CollectingMessages u ms rem d)
  then show ?thesis
    using assms log_collect[of nd E u rem val ms d] by (auto simp: handle_found_record_def)
qed (use assms in \<open>auto simp: handle_found_record_def Let_def ev_log_emit\<close>)

lemma log_not_found:
  assumes "handle_not_found E now qid st nd = Some (st', nd')"
  shows "ev_log (Suc 0) nd nd'"
proof (cases st)
  case (FetchingIndex cmd start mx pending found d)
  then show ?thesis
    using assms by (auto simp: handle_not_found_def ev_log_same dest: log_resolve split: option.splits)
next
  case (CollectingMessages u ms rem d)
  then show ?thesis
    using assms log_collect[of nd E u rem None ms d] by (auto simp: handle_not_found_def)
qed (use assms in \<open>auto simp: handle_not_found_def ev_log_same\<close>)

lemma log_failed:
  assumes "handle_kad_failed E now qid key st nd = Some (st', nd')"
  shows "ev_log (Suc 0) nd nd'"
proof -
  define nd1 where "nd1 = (case map_of (nd_profile_queries nd) qid of
      Some ch \<Rightarrow> reply ch None (nd\<lparr>nd_profile_queries := am_remove qid (nd_profile_queries nd)\<rparr>) | None \<Rightarrow> nd)"
  have ev: "nd_events nd1 = nd_events nd" by (simp add: nd1_def reply_def split: option.split)
  note r = assms[unfolded handle_kad_failed_def nd1_def[symmetric] Let_def]
  show ?thesis
  proof (cases st)
    case (FetchingIndex cmd start mx pending found d)
    then obtain st2 where "resume_pending_command E now cmd 0
        (nd1\<lparr>nd_indices := (nd_indices nd1)(pending_user cmd \<mapsto> 0)\<rparr>) = Some (st2, nd')"
      using r by auto
    from ev_log_from[OF log_resume[OF this]] show ?thesis by (simp add: ev)
  qed (use r ev in \<open>auto simp: ev_log_emit\<close>)
qed

lemma log_swarm:
  assumes "handle_swarm_event E now ev st nd = Some (st', nd')"
  shows "ev_log (Suc 0) nd nd'"
proof (cases ev)
  case (KadFound qid key val)
  then show ?thesis
    using assms log_found
    by (auto simp: handle_swarm_event_def handle_kad_found_def reply_def ev_log_same split: if_splits option.splits)
next
  case (KadFinished qid)
  then show ?thesis
    using assms log_not_found
    by (auto simp: handle_swarm_event_def handle_kad_finished_def reply_def ev_log_same split: option.splits)
next
  case (KadFailed qid key)
  then show ?thesis using assms log_failed by (simp add: handle_swarm_event_def)
next
  case (ConnectionEstablished peer addr)
  then show ?thesis
    using assms by (auto simp: handle_swarm_event_def handle_connection_established_def Let_def intro!: ev_log_emit)
next
  case (ConnectionClosed peer)
  then show ?thesis using assms by (auto simp: handle_swarm_event_def handle_connection_closed_def ev_log_same)
qed (use assms in \<open>auto simp: handle_swarm_event_def ev_log_emit ev_log_same\<close>)

lemma log_command:
  assumes "handle_command E now peers cmd st nd = Some (st', nd')"
  shows "ev_log (Suc 0) nd nd'"
proof (cases cmd)
  case (MailboxStore r s p)
  then show ?thesis
    using assms start_fetch_events[of E now "PendingStore r s p" nd]
    by (auto simp: handle_command_def cmd_mailbox_store_def intro!: ev_log_same dest: log_store
        split: if_splits option.splits)
next
  case (MailboxRetrieve u)
  then show ?thesis
    using assms log_emit_empty[of nd u] ev_log_same[OF start_collecting_events[of E now u _ nd]]
      ev_log_same[OF start_fetch_events[of E now "PendingRetrieve u" nd]]
    by (auto simp: handle_command_def cmd_mailbox_retrieve_def ev_log_same split: if_splits option.splits)
      (metis snd_conv)
qed (use assms in \<open>auto simp: handle_command_def profile_query_def get_record_def call_def ev_log_same\<close>)

lemma log_timeout: "ev_log (Suc 0) nd (snd (check_state_timeout now st nd))"
  by (simp add: check_state_timeout_def ev_log_same ev_log_emit split: mailbox_state.split)

lemma seed_index_events: "nd_events (seed_index E cmd st nd) = nd_events nd"
  by (simp add: seed_index_def split: option.split)

lemma reconnect_events: "nd_events (reconnect_tick now conn nd) = nd_events nd"
proof -
  have "nd_events (fold (redial_peer now) ts nd') = nd_events nd'" for ts and nd' :: "('a, 'b) node"
    by (induction ts arbitrary: nd') (simp_all add: redial_peer_def call_def case_prod_beta Let_def)
  then show ?thesis by (simp add: reconnect_tick_def case_prod_beta)
qed

text \<open>A turn of the loop appends at most two events, one of them by the deadline check.\<close>

lemma log_node_step:
  assumes "node_step E now conn inp st nd = Some (st', nd')"
  shows "ev_log 2 nd nd'"
proof -
  have two: "ev_log (Suc 0) nd nd1 \<Longrightarrow> check_state_timeout now st1 nd1 = (st', nd') \<Longrightarrow> ev_log 2 nd nd'" for st1 nd1
    using ev_log_trans[of "Suc 0" nd nd1 "Suc 0" nd'] log_timeout[of nd1 now st1] by (simp add: numeral_2_eq_2)
  show ?thesis
  proof (cases inp)
    case TimeoutTick
    then show ?thesis
      using assms two[of nd st] by (simp add: node_step_def ev_log_same)
  next
    case ReconnectTick
    then have "nd_events nd' = nd_events nd" using assms by (auto simp: node_step_def reconnect_events)
    then show ?thesis by (rule ev_log_same)
  next
    case (Swarm ev)
    then obtain st1 nd1 where c: "handle_swarm_event E now ev st nd = Some (st1, nd1)"
      "check_state_timeout now st1 nd1 = (st', nd')" using assms by (auto simp: node_step_def)
    from two[OF log_swarm[OF c(1)] c(2)] show ?thesis .
  next
    case (Command cmd)
    then obtain st1 nd1 where c: "handle_command E now (conn \<noteq> []) cmd st (seed_index E cmd st nd) = Some (st1, nd1)"
      "check_state_timeout now st1 nd1 = (st', nd')" using assms by (auto simp: node_step_def)
    from two[OF ev_log_from[OF log_command[OF c(1)] seed_index_events] c(2)] show ?thesis .
  qed
qed


text \<open>The counters only go up and the log of events only grows.\<close>

lemma node_turn_logs:
  assumes "node_turn E now conn inp s = Some s'"
  shows "sv_taken s' = sv_taken s" "sv_handled s' = sv_handled s"
    "\<exists>es. nd_events (sv_node s') = nd_events (sv_node s) @ es \<and> length es \<le> 2"
  using assms log_node_step by (fastforce simp: node_turn_def ev_log_def)+

lemma server_step_logs:
  assumes "server_step Z inp s = Some s'"
  shows "sv_taken s \<le> sv_taken s' \<and> sv_handled s \<le> sv_handled s' \<and>
    (\<exists>es. nd_events (sv_node s') = nd_events (sv_node s) @ es)"
proof (cases inp)
  case (Opens now ch msg)
  then show ?thesis using assms by (auto simp: server_step_def open_socket_def split: prod.split option.split)
next
  case (Loops now conn i)
  then show ?thesis using assms node_turn_logs[of "se_node Z" now conn i s s'] by (auto simp: server_step_def)
next
  case (Takes now conn)
  then show ?thesis
    using assms node_turn_logs[of "se_node Z" now conn _ "s\<lparr>sv_taken := Suc (sv_taken s)\<rparr>" s']
    by (fastforce simp: server_step_def split: if_splits)
next
  case (Reports users)
  then show ?thesis using assms by (auto simp: server_step_def split: if_splits)
qed (use assms in \<open>auto simp: server_step_def split: prod.splits\<close>)

end
