(* ===== verification/Startup.thy ===== *)
theory Startup
  imports Swarm Tls Server_Log Server_Theorems
begin

text \<open>
  How the server comes up (\<open>main\<close> in \<open>server/src/main.rs\<close>) and what its HTTP side answers
  (\<open>build_gateway_router\<close>, \<open>ws_handler\<close> and \<open>health_handler\<close> in \<open>server/src/ws.rs\<close>),
  with the text its log lines show of an id (\<open>hex_fmt\<close>).
\<close>

section \<open>Log lines\<close>

definition hex_char :: "nat \<Rightarrow> char" where
  "hex_char d = (if d < 10 then digit_char d else char_of (87 + d))"

definition hex_byte :: "u8 \<Rightarrow> string" where
  "hex_byte b = [hex_char (unat b div 16), hex_char (unat b mod 16)]"

text \<open>The ellipsis is the UTF-8 of U+2026.\<close>

definition ellipsis :: string where "ellipsis = [CHR 0xE2, CHR 0x80, CHR 0xA6]"

definition hex_fmt :: "bytes \<Rightarrow> nat \<Rightarrow> string" where
  "hex_fmt d limit =
     (let s = concat (map hex_byte (take (min (length d) limit) d)) in
      if limit < length d then s @ ellipsis @ ''('' @ dec_digits (length d) @ ''b)''
      else s @ ''('' @ dec_digits (length d) @ ''b)'')"

text \<open>A log line shows of an id its first bytes and its length, nothing else.\<close>

lemma hex_fmt_hides:
  assumes "take n d = take n d'" "length d = length d'"
  shows "hex_fmt d n = hex_fmt d' n"
proof -
  have "take (min (length d) n) d = take (min (length d') n) d'"
    using assms by (metis min.commute take_all_iff min_def order_refl)
  then show ?thesis using assms(2) by (simp add: hex_fmt_def Let_def)
qed


section \<open>HTTP\<close>

datatype http_handler = WsHandler | HealthHandler

datatype http_reply = Respond nat string | Upgrade

text \<open>
  The routing of axum and its check of upgrade requests are parameters: for a table of methods,
  paths and handlers the handler of a request or the status it is refused with; and the status a
  request is refused with that asks for no WebSocket.
\<close>

type_synonym routes = "((string \<times> string) \<times> http_handler) list"

record 'r axum =
  ax_method :: "'r \<Rightarrow> string"
  ax_path :: "'r \<Rightarrow> string"
  ax_route :: "routes \<Rightarrow> string \<Rightarrow> string \<Rightarrow> nat + http_handler"
  ax_upgrade :: "'r \<Rightarrow> nat option"

definition build_gateway_router :: routes where
  "build_gateway_router = [((''GET'', ''/ws''), WsHandler), ((''GET'', ''/health''), HealthHandler)]"

definition axum_ok :: "'r axum \<Rightarrow> bool" where
  "axum_ok A \<longleftrightarrow> (\<forall>rs m p h. map_of rs (m, p) = Some h \<longrightarrow> ax_route A rs m p = Inr h)"

definition health_handler :: "'db gateway \<Rightarrow> http_reply" where
  "health_handler g =
     (if gw_p2p_connected g then Respond 200 (''OK'' @ [CHR 0x0A])
      else Respond 503 (''P2P not connected'' @ [CHR 0x0A]))"

definition ws_handler :: "'r axum \<Rightarrow> 'r \<Rightarrow> http_reply" where
  "ws_handler A req = (case ax_upgrade A req of None \<Rightarrow> Upgrade | Some status \<Rightarrow> Respond status '''')"

definition serve_http :: "'r axum \<Rightarrow> 'r \<Rightarrow> 'db gateway \<Rightarrow> http_reply" where
  "serve_http A req g =
     (case ax_route A build_gateway_router (ax_method A req) (ax_path A req) of
        Inl status \<Rightarrow> Respond status ''''
      | Inr WsHandler \<Rightarrow> ws_handler A req
      | Inr HealthHandler \<Rightarrow> health_handler g)"


section \<open>Startup\<close>

text \<open>Why the process ends instead of serving.\<close>

datatype startup_failure =
    BadCommandLine cli_exit
  | NoDatabase
  | NodeFailed string
  | TlsFailed string
  | BindFailed

datatype ('c, 'k) front = PlainFront | TlsFront "('c, 'k) tls_server"

record ('db, 'fs, 'c, 'k) machine_env =
  me_cli :: cli_env
  me_sled_open :: "string \<Rightarrow> 'db option"
  me_sled_memory :: "'db option"
  me_build :: build_env
  me_multiaddr :: "string \<Rightarrow> bytes option"
  me_list :: "string list option"  \<comment> \<open>the downloaded bootstrap list\<close>
  me_pick :: "string list \<Rightarrow> string"
  me_tls :: "('fs, 'c, 'k) tls_env"
  me_cert_disk :: "'fs snapshot"
  me_key_disk :: "'fs snapshot"
  me_bind :: "nat \<Rightarrow> bool"
  me_clock :: nat

definition db_path :: "nat \<Rightarrow> string" where
  "db_path port = ''vurn_mailbox_'' @ dec_digits port @ ''.db''"

text \<open>The database on disk, or a temporary one in memory.\<close>

definition open_database :: "('db, 'fs, 'c, 'k) machine_env \<Rightarrow> nat \<Rightarrow> startup_failure + 'db" where
  "open_database M port =
     (case me_sled_open M (db_path port) of
        Some db \<Rightarrow> Inr db
      | None \<Rightarrow> (case me_sled_memory M of Some db \<Rightarrow> Inr db | None \<Rightarrow> Inl NoDatabase))"

definition start_front ::
    "('db, 'fs, 'c, 'k) machine_env \<Rightarrow> cli_args \<Rightarrow> startup_failure + ('c, 'k) front" where
  "start_front M args =
     (case ca_mode args of
        Tls cert_path key_path \<Rightarrow>
          (case load_tls_config (me_tls M) (me_cert_disk M) (me_key_disk M) cert_path key_path of
             Inl e \<Rightarrow> Inl (TlsFailed e)
           | Inr cfg \<Rightarrow>
               if me_bind M (ca_ws_port args) then Inr (TlsFront (tls_start cfg (me_clock M))) else Inl BindFailed)
      | Plain \<Rightarrow> if me_bind M (ca_ws_port args) then Inr PlainFront else Inl BindFailed)"

definition server_main ::
    "('db, 'fs, 'c, 'k) machine_env \<Rightarrow> ('db, 'q) node_env \<Rightarrow> string list \<Rightarrow> 'n \<Rightarrow>
     startup_failure + ('db, 'q, 'n) server \<times> ('c, 'k) front" where
  "server_main M E argv n =
     (case cli_parse (me_cli M) argv of
        Inl e \<Rightarrow> Inl (BadCommandLine e)
      | Inr args \<Rightarrow>
          res_bind (open_database M (ca_ws_port args)) (\<lambda>db.
            case p2p_node_new E (me_build M) (ca_p2p_listen args) db of
              Inl e \<Rightarrow> Inl (NodeFailed e)
            | Inr nd \<Rightarrow>
                (let dials = bootstrap_dials (me_multiaddr M) args (me_list M) (me_pick M);
                     s = (server_start db (\<lambda>ch. True) dials n E)\<lparr>sv_node := nd\<rparr>
                 in res_bind (start_front M args) (\<lambda>front. Inr (s, front)))))"

text \<open>The server that comes up is one the theorems on runs start from.\<close>

lemma server_main_starts:
  assumes "server_main M E argv n = Inr (s, front)"
  shows "\<exists>args db dials. cli_parse (me_cli M) argv = Inr args \<and> start_front M args = Inr front \<and>
    s = server_start db (\<lambda>ch. True) dials n E \<and> (\<forall>c \<in> set dials. \<exists>a. c = Dial a)"
proof -
  obtain args where args: "cli_parse (me_cli M) argv = Inr args"
    using assms by (auto simp: server_main_def split: sum.splits)
  let ?dials = "bootstrap_dials (me_multiaddr M) args (me_list M) (me_pick M)"
  obtain db where db: "open_database M (ca_ws_port args) = Inr db"
    using assms args by (auto simp: server_main_def res_bind_Inr_iff)
  have "(case p2p_node_new E (me_build M) (ca_p2p_listen args) db of
        Inl e \<Rightarrow> Inl (NodeFailed e)
      | Inr nd \<Rightarrow> res_bind (start_front M args)
          (\<lambda>front. Inr ((server_start db (\<lambda>ch. True) ?dials n E)\<lparr>sv_node := nd\<rparr>, front))) = Inr (s, front)"
    using assms args db unfolding server_main_def Let_def by simp
  then obtain nd where nd: "p2p_node_new E (me_build M) (ca_p2p_listen args) db = Inr nd"
    "start_front M args = Inr front" "s = (server_start db (\<lambda>ch. True) ?dials n E)\<lparr>sv_node := nd\<rparr>"
    by (cases "p2p_node_new E (me_build M) (ca_p2p_listen args) db") (auto simp: res_bind_Inr_iff)
  have "nd = dial_persisted E (node_start db)" using nd(1) by (simp add: p2p_node_new_Inr)
  then have "s = server_start db (\<lambda>ch. True) ?dials n E" using nd(3) by (simp add: server_start_def)
  moreover have "\<forall>c \<in> set ?dials. \<exists>a. c = Dial a"
    by (auto simp: bootstrap_dials_def List.map_filter_def Let_def)
  ultimately show ?thesis using args nd(2) by blast
qed


section \<open>TLS is never silently dropped\<close>

text \<open>A flag is at an even position, as every option but the help takes a value.\<close>

definition has_flag :: "string \<Rightarrow> string list \<Rightarrow> bool" where
  "has_flag f argv \<longleftrightarrow> (\<exists>i < length argv. even i \<and> argv ! i = f)"

lemma has_flag_Nil [simp]: "\<not> has_flag f []"
  by (simp add: has_flag_def)

lemma has_flag_Cons2: "has_flag f (a # v # as) \<longleftrightarrow> a = f \<or> has_flag f as"
proof
  assume "has_flag f (a # v # as)"
  then obtain i where i: "i < Suc (Suc (length as))" "even i" "(a # v # as) ! i = f" by (auto simp: has_flag_def)
  show "a = f \<or> has_flag f as"
  proof (cases "i = 0")
    case False
    with i(2) obtain j where "i = Suc (Suc j)" by (metis even_Suc gr0_conv_Suc neq0_conv odd_Suc_minus_one even_zero)
    then show ?thesis using i by (auto simp: has_flag_def)
  qed (use i in simp)
next
  assume "a = f \<or> has_flag f as"
  then show "has_flag f (a # v # as)"
  proof
    assume "has_flag f as"
    then obtain i where "i < length as" "even i" "as ! i = f" by (auto simp: has_flag_def)
    then show ?thesis unfolding has_flag_def by (intro exI[of _ "Suc (Suc i)"]) simp
  qed (auto simp: has_flag_def)
qed

lemma flags_keep_tls:
  "cli_flags argv s = Inr s' \<Longrightarrow>
     (cs_cert s' \<noteq> None \<longleftrightarrow> cs_cert s \<noteq> None \<or> has_flag ''--cert'' argv) \<and>
     (cs_key s' \<noteq> None \<longleftrightarrow> cs_key s \<noteq> None \<or> has_flag ''--key'' argv)"
proof (induction argv s rule: cli_flags.induct)
  case (1 s)
  then show ?case by simp
next
  case (2 a as s)
  show ?case
  proof (cases as)
    case Nil
    then show ?thesis using "2.prems" by (auto split: if_splits)
  next
    case (Cons v rest)
    then show ?thesis
      using 2 by (auto simp: has_flag_Cons2 split: if_splits option.splits)
  qed
qed


text \<open>C30: TLS is never silently dropped. The server comes up serving TLS exactly when a certificate or a key
  was named, in the environment or by an option, and only when both were; the two files were loaded
  into a configuration whose chain and key fit. When one is missing or a file cannot be read or
  parsed, the process ends; it never falls back to plain connections.\<close>

theorem tls_never_downgrades:
  assumes "server_main M E argv n = Inr (s, front)"
  shows "((\<exists>srv. front = TlsFront srv) \<longleftrightarrow>
      ev_cert (me_cli M) \<noteq> None \<or> has_flag ''--cert'' argv \<or> ev_key (me_cli M) \<noteq> None \<or> has_flag ''--key'' argv) \<and>
    (\<forall>srv. front = TlsFront srv \<longrightarrow> config_ok (me_tls M) (ts_shared srv) \<and>
      (\<exists>c k. load_tls_config (me_tls M) (me_cert_disk M) (me_key_disk M) c k = Inr (ts_shared srv)))"
proof -
  obtain args where args: "cli_parse (me_cli M) argv = Inr args" "start_front M args = Inr front"
    using server_main_starts[OF assms] by blast
  then obtain cs where cs: "cli_flags argv (cli_defaults (me_cli M)) = Inr cs"
    "(case (cs_cert cs, cs_key cs) of
         (Some c, Some k) \<Rightarrow> Inr \<lparr>ca_ws_port = cs_port cs, ca_p2p_listen = cs_listen cs,
           ca_bootstrap = cs_bootstrap cs, ca_mode = Tls c k\<rparr>
       | (None, None) \<Rightarrow> Inr \<lparr>ca_ws_port = cs_port cs, ca_p2p_listen = cs_listen cs,
           ca_bootstrap = cs_bootstrap cs, ca_mode = Plain\<rparr>
       | _ \<Rightarrow> Inl ExitCertKey) = Inr args"
    by (auto simp: cli_parse_def res_bind_Inr_iff)
  have flags: "cs_cert cs \<noteq> None \<longleftrightarrow> ev_cert (me_cli M) \<noteq> None \<or> has_flag ''--cert'' argv"
    "cs_key cs \<noteq> None \<longleftrightarrow> ev_key (me_cli M) \<noteq> None \<or> has_flag ''--key'' argv"
    using flags_keep_tls[OF cs(1)] by (simp_all add: cli_defaults_def)
  have mode: "(\<exists>srv. front = TlsFront srv) \<longleftrightarrow> ca_mode args \<noteq> Plain"
    using args(2) by (cases "ca_mode args") (auto simp: start_front_def split: sum.splits if_splits)
  have "ca_mode args \<noteq> Plain \<longleftrightarrow> cs_cert cs \<noteq> None" "cs_cert cs \<noteq> None \<longleftrightarrow> cs_key cs \<noteq> None"
    using cs(2) by (auto split: option.splits)
  then have "(\<exists>srv. front = TlsFront srv) \<longleftrightarrow>
      ev_cert (me_cli M) \<noteq> None \<or> has_flag ''--cert'' argv \<or> ev_key (me_cli M) \<noteq> None \<or> has_flag ''--key'' argv"
    using flags mode by blast
  moreover have "\<exists>c k. load_tls_config (me_tls M) (me_cert_disk M) (me_key_disk M) c k = Inr (ts_shared srv)"
    if srv: "front = TlsFront srv" for srv
  proof (cases "ca_mode args")
    case (Tls c k)
    then show ?thesis
      using args(2) srv
      by (intro exI[of _ c] exI[of _ k]) (auto simp: start_front_def tls_start_def split: sum.splits if_splits)
  qed (use args(2) srv in \<open>simp add: start_front_def split: if_splits\<close>)
  ultimately show ?thesis using load_config_ok by metis
qed

definition demo_machine :: "(toy_db, bool, bytes, bytes) machine_env" where
  "demo_machine =
     \<lparr>me_cli = \<lparr>ev_port = None, ev_p2p_listen = None, ev_bootstrap = Some ''a'', ev_cert = Some ''c'', ev_key = None\<rparr>,
      me_sled_open = (\<lambda>p. None), me_sled_memory = Some (\<lambda>t. []),
      me_build = \<lparr>be_tcp = None, be_dns = None, be_behaviour = (\<lambda>cfg. None), be_parse = (\<lambda>s. Inr (ascii_bytes s)),
        be_listen = (\<lambda>a. None)\<rparr>,
      me_multiaddr = (\<lambda>s. None), me_list = None, me_pick = hd, me_tls = demo_tls, me_cert_disk = (True, None),
      me_key_disk = (True, None), me_bind = (\<lambda>p. True), me_clock = 0\<rparr>"

definition start_env :: "(toy_db, nat) node_env" where
  "start_env = \<lparr>ne_wire = toy_wire, ne_sled = toy_sled, ne_seed = [], ne_ids = id\<rparr>"

theorem tls_never_downgrades_witness:
  "\<exists>s srv. server_main demo_machine start_env [''--key'', ''k''] () = Inr (s, TlsFront srv) \<and>
     config_ok demo_tls (ts_shared srv)"
proof -
  have load: "load_tls_config demo_tls (True, None) (True, None) ''c'' ''k'' =
      Inr \<lparr>tc_chain = [ascii_bytes ''c''], tc_key = ascii_bytes ''k'', tc_alpn = [ascii_bytes ''http/1.1'']\<rparr>"
    by (simp add: load_tls_config_def read_certs_def read_key_def demo_tls_def with_prefix_def join_task_def)
  have cli: "cli_parse (me_cli demo_machine) [''--key'', ''k''] =
      Inr \<lparr>ca_ws_port = 9000, ca_p2p_listen = ''/ip4/0.0.0.0/tcp/0'', ca_bootstrap = [''a''], ca_mode = Tls ''c'' ''k''\<rparr>"
    by (simp add: demo_machine_def cli_parse_def cli_defaults_def is_space_def)
  have main: "open_database demo_machine 9000 = Inr (\<lambda>t. [])"
    by (simp add: demo_machine_def open_database_def)
  have node: "\<exists>nd. p2p_node_new start_env (me_build demo_machine) l (\<lambda>t. []) = Inr nd" for l
    by (simp add: demo_machine_def p2p_node_new_Inr)
  have front: "\<exists>srv. start_front demo_machine args = Inr (TlsFront srv)" if "ca_mode args = Tls ''c'' ''k''" for args
    using that load by (simp add: start_front_def demo_machine_def)
  let ?args = "\<lparr>ca_ws_port = 9000, ca_p2p_listen = ''/ip4/0.0.0.0/tcp/0'', ca_bootstrap = [''a''], ca_mode = Tls ''c'' ''k''\<rparr>"
  obtain nd where nd: "p2p_node_new start_env (me_build demo_machine) ''/ip4/0.0.0.0/tcp/0'' (\<lambda>t. []) = Inr nd"
    using node by blast
  obtain srv where "start_front demo_machine ?args = Inr (TlsFront srv)" using front[of ?args] by auto
  then obtain s where run: "server_main demo_machine start_env [''--key'', ''k''] () = Inr (s, TlsFront srv)"
    using nd by (simp add: server_main_def cli main Let_def)
  from tls_never_downgrades[OF run] have "config_ok demo_tls (ts_shared srv)"
    by (simp add: demo_machine_def)
  then show ?thesis using run by blast
qed


section \<open>Health\<close>

definition contact :: "node_event \<Rightarrow> bool" where
  "contact ev = (case ev of PeerDiscovered p \<Rightarrow> True | ListeningOn a \<Rightarrow> True | _ \<Rightarrow> False)"

text \<open>The flag says that an event of contact has been handled.\<close>

definition health_inv :: "('db, 'q, 'n) server \<Rightarrow> bool" where
  "health_inv s \<longleftrightarrow> sv_handled s \<le> length (nd_events (sv_node s)) \<and>
     (gw_p2p_connected (sv_gw s) \<longleftrightarrow> (\<exists>ev \<in> set (take (sv_handled s) (nd_events (sv_node s))). contact ev))"

lemma health_gateway:
  assumes "gw_log P (sv_gw s) (sv_gw s')" "sv_node s' = sv_node s" "sv_handled s' = sv_handled s" "health_inv s"
  shows "health_inv s'"
  using assms by (simp add: health_inv_def gw_log_def)

lemma health_node:
  assumes "node_turn E now conn inp s = Some s'" "health_inv s"
  shows "health_inv s'"
proof -
  obtain st nd where t: "node_step E now conn inp (sv_state s) ((sv_node s)\<lparr>nd_db := gw_db (sv_gw s)\<rparr>) = Some (st, nd)"
    "s' = s\<lparr>sv_state := st, sv_node := nd, sv_gw := (sv_gw s)\<lparr>gw_db := nd_db nd\<rparr>\<rparr>"
    using assms(1) by (auto simp: node_turn_def)
  obtain es where "nd_events nd = nd_events (sv_node s) @ es"
    using log_node_step[OF t(1)] by (auto simp: ev_log_def)
  then show ?thesis using assms(2) t(2) by (simp add: health_inv_def)
qed

lemma health_step:
  assumes "health_inv s" "server_step Z inp s = Some s'"
  shows "health_inv s'"
proof (cases inp)
  case (Opens now ch msg)
  have "gw_log (\<lambda>c. True) (sv_gw s) (connect_client (se_gw Z) now u ch (sv_gw s))" for u
    by (rule log_connect) simp_all
  then have "gw_log (\<lambda>c. True) (sv_gw s) (sv_gw (open_socket (se_gw Z) now ch msg s))"
    by (auto simp: open_socket_def register_message_def gw_log_same split: ws_message.split)
  moreover have "sv_node (open_socket (se_gw Z) now ch msg s) = sv_node s"
    "sv_handled (open_socket (se_gw Z) now ch msg s) = sv_handled s"
    by (auto simp: open_socket_def split: prod.split option.split)
  ultimately show ?thesis using health_gateway[OF _ _ _ assms(1)] assms(2) Opens by (simp add: server_step_def)
next
  case (Says clk token u msg)
  have "gw_log (\<lambda>c. True) (sv_gw s) (snd (client_message (se_gw Z) (se_ops Z) clk token u msg (sv_store s) (sv_gw s)))"
    by (rule log_client_message) simp_all
  moreover obtain n g where ng: "client_message (se_gw Z) (se_ops Z) clk token u msg (sv_store s) (sv_gw s) = (n, g)"
    by fastforce
  ultimately have "gw_log (\<lambda>c. True) (sv_gw s) g" by simp
  moreover have "s' = s\<lparr>sv_store := n, sv_gw := g\<rparr>" using assms(2) Says ng by (simp add: server_step_def)
  ultimately show ?thesis using health_gateway[OF _ _ _ assms(1), of "\<lambda>c. True" s'] by simp
next
  case (Closes ch)
  then show ?thesis using assms by (auto simp: server_step_def health_inv_def)
next
  case (ForwardEnds u)
  then have "s' = s\<lparr>sv_gw := prune_client u (sv_gw s)\<rparr>" using assms(2) by (simp add: server_step_def)
  then show ?thesis
    using health_gateway[OF _ _ _ assms(1), of "\<lambda>c. True" s'] log_prune[of "\<lambda>c. True" "sv_gw s" u] by simp
next
  case (Loops now conn i)
  then show ?thesis using assms health_node by (simp add: server_step_def)
next
  case (Takes now conn)
  have "health_inv (s\<lparr>sv_taken := Suc (sv_taken s)\<rparr>)" using assms(1) by (simp add: health_inv_def)
  then show ?thesis using Takes assms health_node by (auto simp: server_step_def split: if_splits)
next
  case (Reports users)
  show ?thesis
  proof (cases "sv_handled s < length (nd_events (sv_node s))")
    case True
    let ?ev = "nd_events (sv_node s) ! sv_handled s"
    have "gw_p2p_connected (handle_p2p_event (se_gw Z) users ?ev (sv_gw s)) \<longleftrightarrow>
        gw_p2p_connected (sv_gw s) \<or> contact ?ev"
      using log_message_received[of "\<lambda>c. True" "sv_gw s" "se_gw Z"] log_broadcast[of "\<lambda>c. True" "sv_gw s" users]
        log_retrieved[of "\<lambda>c. True" "sv_gw s" "se_gw Z"]
      by (cases ?ev) (auto simp: handle_p2p_event_def contact_def set_connected_bootstrap_def gw_log_def)
    then show ?thesis
      using assms Reports True by (auto simp: server_step_def health_inv_def take_Suc_conv_app_nth)
  qed (use assms Reports in \<open>simp add: server_step_def\<close>)
qed

interpretation health: machine "server_step Z" health_inv
  by unfold_locales (rule health_step)

lemma serve_health:
  assumes "axum_ok A" "ax_method A req = ''GET''" "ax_path A req = ''/health''"
  shows "serve_http A req g = health_handler g"
proof -
  have "ax_route A build_gateway_router ''GET'' ''/health'' = Inr HealthHandler"
    using assms(1) unfolding axum_ok_def by (simp add: build_gateway_router_def)
  then show ?thesis by (simp add: serve_http_def assms(2,3))
qed

text \<open>What the health check says. In every run of the server, a GET of the health path is answered with
  status 200 exactly when some event telling of a listen address or a peer has been handled since
  the start; before that the answer is 503. Nothing turns it back in any continuation of the run, not
  even the loss of every peer.\<close>

theorem health_latches:
  assumes A: "axum_ok A" "ax_method A req = ''GET''" "ax_path A req = ''/health''"
    and run: "run_steps (server_step Z) ins (server_start db alive dials st (se_node Z)) = Some s"
    and more: "run_steps (server_step Z) ins' s = Some s'"
  shows "serve_http A req (sv_gw s) =
      (if \<exists>ev \<in> set (take (sv_handled s) (nd_events (sv_node s))). contact ev then Respond 200 (''OK'' @ [CHR 0x0A])
       else Respond 503 (''P2P not connected'' @ [CHR 0x0A])) \<and>
    (serve_http A req (sv_gw s) = Respond 200 (''OK'' @ [CHR 0x0A]) \<longrightarrow>
     serve_http A req (sv_gw s') = Respond 200 (''OK'' @ [CHR 0x0A]))"
proof -
  have "health_inv (server_start db alive dials st (se_node Z))"
    by (simp add: health_inv_def server_start_def gateway_start_def)
  then have s: "health_inv s" by (rule health.run_inv[OF run])
  have keep: "gw_p2p_connected (sv_gw b)" if on: "gw_p2p_connected (sv_gw a)" and inv: "health_inv a" and step: "server_step Z i a = Some b"
    for a b i
  proof -
    obtain es where es: "sv_handled a \<le> sv_handled b" "nd_events (sv_node b) = nd_events (sv_node a) @ es"
      using server_step_logs[OF step] by blast
    have "take (sv_handled a) (nd_events (sv_node a)) = take (sv_handled a) (nd_events (sv_node b))"
      using inv es(2) by (simp add: health_inv_def)
    then have "set (take (sv_handled a) (nd_events (sv_node a))) \<subseteq> set (take (sv_handled b) (nd_events (sv_node b)))"
      using set_take_subset_set_take[OF es(1)] by metis
    moreover have "health_inv b" by (rule health_step[OF inv step])
    ultimately show ?thesis using on inv unfolding health_inv_def by blast
  qed
  have "gw_p2p_connected (sv_gw s) \<Longrightarrow> gw_p2p_connected (sv_gw s')"
    using more s
  proof (induction ins' arbitrary: s)
    case (Cons i ins')
    then obtain t where "server_step Z i s = Some t" "run_steps (server_step Z) ins' t = Some s'"
      by (auto simp: bind_eq_Some_conv)
    then show ?case using Cons keep health_step by blast
  qed simp
  then show ?thesis using s by (simp add: serve_health[OF A] health_handler_def health_inv_def)
qed

definition demo_axum :: "(string \<times> string) axum" where
  "demo_axum = \<lparr>ax_method = fst, ax_path = snd,
     ax_route = (\<lambda>rs m p. case map_of rs (m, p) of Some h \<Rightarrow> Inr h | None \<Rightarrow> Inl 404),
     ax_upgrade = (\<lambda>r. None)\<rparr>"

theorem health_latches_witness:
  "\<exists>s. run_steps (server_step demo_server_env) [Loops 0 [] (Swarm (NewListenAddr [1])), Reports []]
      (server_start (\<lambda>t. []) (\<lambda>ch. True) [] Map.empty (se_node demo_server_env)) = Some s \<and>
    serve_http demo_axum (''GET'', ''/health'') (sv_gw s) = Respond 200 (''OK'' @ [CHR 0x0A])"
proof -
  let ?ins = "[Loops 0 [] (Swarm (NewListenAddr [1])), Reports []] :: nat server_input list"
  let ?s0 = "server_start (\<lambda>t. []) (\<lambda>ch. True) [] Map.empty (se_node demo_server_env)"
  have A: "axum_ok demo_axum" "ax_method demo_axum (''GET'', ''/health'') = ''GET''"
    "ax_path demo_axum (''GET'', ''/health'') = ''/health''"
    by (simp_all add: axum_ok_def demo_axum_def)
  have ev: "nd_events (dial_persisted (se_node demo_server_env) (node_start (\<lambda>t. []))) = []"
    by (simp add: dial_persisted_fields node_start_def)
  obtain s where s: "run_steps (server_step demo_server_env) ?ins ?s0 = Some s" "sv_handled s = 1"
    "nd_events (sv_node s) = [ListeningOn [1]]"
    by (simp add: server_step_def node_turn_def node_step_def handle_swarm_event_def check_state_timeout_def
        server_start_def emit_def ev)
  from health_latches[OF A s(1), of "[]" s] s show ?thesis by (auto simp: contact_def)
qed

end
