(* ===== verification/Server_Alive.thy ===== *)
theory Server_Alive
  imports Server_Log Server_Theorems
begin

text \<open>
  The only panic of the server's tasks is the signing of an envelope for a short recipient id
  (\<open>dht.rs\<close>); the node signs for the recipients of relayed frames, of commands other tasks send
  it, and of the command a probe has set aside. So no sequence of actions stops the server as long
  as these ids have full length.
\<close>

section \<open>The node\<close>

definition signable :: "node_command \<Rightarrow> bool" where
  "signable c = (case c of MailboxStore recipient sender payload \<Rightarrow> 32 \<le> length recipient | _ \<Rightarrow> True)"

definition pending_signable :: "pending_command \<Rightarrow> bool" where
  "pending_signable c = (case c of PendingStore recipient sender payload \<Rightarrow> 32 \<le> length recipient | _ \<Rightarrow> True)"

definition state_signable :: "'q mailbox_state \<Rightarrow> bool" where
  "state_signable st = (case st of
      FetchingIndex cmd start mx pending found deadline \<Rightarrow> pending_signable cmd
    | _ \<Rightarrow> True)"

lemma state_signable_simps [simp]:
  "state_signable Idle" "state_signable (CollectingMessages u ms rem d)"
  "state_signable (FetchingIndex cmd start mx pending found d) = pending_signable cmd"
  by (simp_all add: state_signable_def)

text \<open>A step that yields a state from which the node can go on.\<close>

definition goes_on :: "('q mailbox_state \<times> ('db, 'q) node) option \<Rightarrow> bool" where
  "goes_on r = (case r of None \<Rightarrow> False | Some (st, nd) \<Rightarrow> state_signable st)"

lemma goes_on_Some [simp]: "goes_on (Some r) = state_signable (fst r)"
  by (simp add: goes_on_def split: prod.split)

lemma goes_onE: "goes_on r \<Longrightarrow> (\<And>st nd. r = Some (st, nd) \<Longrightarrow> state_signable st \<Longrightarrow> P) \<Longrightarrow> P"
  by (auto simp: goes_on_def split: option.splits)

lemma store_goes_on: "32 \<le> length r \<Longrightarrow> \<exists>nd'. store_signed_envelope E r s p seq nd = Some nd'"
  by (auto simp: store_signed_envelope_def sign_envelope_def build_verify_buffer_def Let_def split: option.split)

lemma collect_signable: "state_signable (fst (collect_message E u rem val ms d nd))"
  by (simp add: collect_message_def case_prod_beta Let_def split: list.split)

lemma start_collecting_signable: "state_signable (fst (start_collecting_messages E now u i nd))"
  by (simp add: start_collecting_messages_def case_prod_beta Let_def)

lemma start_fetch_signable: "pending_signable cmd \<Longrightarrow> state_signable (fst (start_fetch E now cmd nd))"
  by (simp add: start_fetch_def case_prod_beta Let_def)

lemma resume_goes_on: "pending_signable cmd \<Longrightarrow> goes_on (resume_pending_command E now cmd i nd)"
proof (cases cmd)
  case (PendingStore r s p)
  moreover assume "pending_signable cmd"
  ultimately obtain nd' where "store_signed_envelope E r s p (i + 1) nd = Some nd'"
    using store_goes_on by (fastforce simp: pending_signable_def)
  then show ?thesis using PendingStore by (simp add: resume_pending_command_def)
qed (simp add: resume_pending_command_def emit_empty_mailbox_def start_collecting_signable)

lemma resolve_goes_on: "pending_signable cmd \<Longrightarrow> goes_on (try_resolve_window E now cmd start mx pending found d nd)"
  by (simp add: try_resolve_window_def Let_def case_prod_beta resume_goes_on split: scan.split)

lemma swarm_goes_on:
  assumes "state_signable st"
  shows "goes_on (handle_swarm_event E now ev st nd)"
proof (cases ev)
  case (KadFound qid key val)
  then show ?thesis
    using assms resolve_goes_on collect_signable
    by (cases st) (auto simp: handle_swarm_event_def handle_kad_found_def handle_found_record_def Let_def
        split: option.split)
next
  case (KadFinished qid)
  then show ?thesis
    using assms resolve_goes_on collect_signable
    by (cases st) (auto simp: handle_swarm_event_def handle_kad_finished_def handle_not_found_def split: option.split)
next
  case (KadFailed qid key)
  show ?thesis
  proof (cases st)
    case (FetchingIndex cmd start mx pending found d)
    have "goes_on (map_option (\<lambda>(_, nd2). (Idle, nd2)) (resume_pending_command E now cmd 0 nd1))" for nd1
      using resume_goes_on[of cmd E now 0 nd1] assms FetchingIndex by (auto elim: goes_onE)
    then show ?thesis using FetchingIndex KadFailed by (simp add: handle_swarm_event_def handle_kad_failed_def Let_def)
  qed (use KadFailed in \<open>simp_all add: handle_swarm_event_def handle_kad_failed_def Let_def\<close>)
qed (use assms in \<open>simp_all add: handle_swarm_event_def\<close>)

lemma command_goes_on:
  assumes "state_signable st" "signable cmd"
  shows "goes_on (handle_command E now peers cmd st nd)"
proof (cases cmd)
  case (MailboxStore r s p)
  then have r: "32 \<le> length r" using assms(2) by (simp add: signable_def)
  then have "goes_on (map_option (Pair st) (store_signed_envelope E r s p seq nd'))" for seq nd'
    using store_goes_on[OF r, of E s p seq nd'] assms(1) by auto
  moreover have "state_signable (fst (start_fetch E now (PendingStore r s p) nd))"
    using r by (intro start_fetch_signable) (simp add: pending_signable_def)
  ultimately show ?thesis
    using assms(1) MailboxStore
    by (simp add: handle_command_def cmd_mailbox_store_def Let_def split: option.split)
next
  case (MailboxRetrieve u)
  have "state_signable (fst (start_fetch E now (PendingRetrieve u) nd))"
    by (intro start_fetch_signable) (simp add: pending_signable_def)
  then show ?thesis
    using assms(1) MailboxRetrieve start_collecting_signable
    by (auto simp: handle_command_def cmd_mailbox_retrieve_def emit_empty_mailbox_def split: option.split)
qed (use assms in \<open>simp_all add: handle_command_def\<close>)

lemma timeout_signable: "state_signable st \<Longrightarrow> state_signable (fst (check_state_timeout now st nd))"
  by (cases st) (simp_all add: check_state_timeout_def)

lemma check_goes_on: "goes_on r \<Longrightarrow> goes_on (map_option (\<lambda>(st, nd). check_state_timeout now st nd) r)"
  by (erule goes_onE) (simp add: timeout_signable)

lemma node_step_goes_on:
  assumes st: "state_signable st" and inp: "\<And>c. inp = Command c \<Longrightarrow> signable c"
  shows "goes_on (node_step E now conn inp st nd)"
  using st inp timeout_signable by (cases inp) (simp_all add: node_step_def check_goes_on swarm_goes_on command_goes_on)


section \<open>The server\<close>

text \<open>The actions that bring a recipient id to the node name one of full length.\<close>

definition full_recipients :: "'q server_input \<Rightarrow> bool" where
  "full_recipients inp = (case inp of
      Says clk token session msg \<Rightarrow>
        (case msg of Binary d \<Rightarrow> (case parse_relay d of Some (r, p) \<Rightarrow> 32 \<le> length r | None \<Rightarrow> True) | _ \<Rightarrow> True)
    | Loops now conn i \<Rightarrow> (case i of Command c \<Rightarrow> signable c | _ \<Rightarrow> True)
    | _ \<Rightarrow> True)"

definition server_ready :: "('db, 'q, 'n) server \<Rightarrow> bool" where
  "server_ready s \<longleftrightarrow> state_signable (sv_state s) \<and> (\<forall>c \<in> set (gw_cmds (sv_gw s)). signable c)"

lemma gw_log_signable:
  assumes "gw_log signable g g'" "\<forall>c \<in> set (gw_cmds g). signable c"
  shows "\<forall>c \<in> set (gw_cmds g'). signable c"
  using assms by (auto simp: gw_log_def)

lemma node_turn_goes_on:
  assumes "server_ready s" "\<And>c. inp = Command c \<Longrightarrow> signable c"
  shows "\<exists>s'. node_turn E now conn inp s = Some s' \<and> server_ready s'"
  using node_step_goes_on[of "sv_state s" inp E now conn "(sv_node s)\<lparr>nd_db := gw_db (sv_gw s)\<rparr>"] assms
  by (auto simp: node_turn_def server_ready_def elim!: goes_onE)

lemma server_step_goes_on:
  assumes s: "server_ready s" and i: "full_recipients i"
  shows "\<exists>s'. server_step Z i s = Some s' \<and> server_ready s'"
proof -
  have st: "state_signable (sv_state s)" and cmds: "\<forall>c \<in> set (gw_cmds (sv_gw s)). signable c"
    using s by (simp_all add: server_ready_def)
  note logged = gw_log_signable[OF _ cmds]
  show ?thesis
  proof (cases i)
    case (Opens now ch msg)
    have "gw_log signable (sv_gw s) (connect_client (se_gw Z) now u ch (sv_gw s))" for u
      by (rule log_connect) (simp_all add: signable_def)
    from logged[OF this] show ?thesis
      using Opens st cmds
      by (auto simp: server_step_def open_socket_def register_message_def server_ready_def split: ws_message.split)
  next
    case (Says clk token u msg)
    have "gw_log signable (sv_gw s) (snd (client_message (se_gw Z) (se_ops Z) clk token u msg (sv_store s) (sv_gw s)))"
      by (rule log_client_message) (use i Says in \<open>auto simp: full_recipients_def signable_def\<close>)
    from logged[OF this] show ?thesis
      using Says st by (auto simp: server_step_def server_ready_def case_prod_beta Let_def)
  next
    case (Closes ch)
    then show ?thesis using st cmds by (simp add: server_step_def server_ready_def)
  next
    case (ForwardEnds u)
    then show ?thesis using st logged[OF log_prune] by (simp add: server_step_def server_ready_def)
  next
    case (Loops now conn inp)
    then show ?thesis
      using node_turn_goes_on[OF s, of inp "se_node Z" now conn] i
      by (cases inp) (simp_all add: server_step_def full_recipients_def)
  next
    case (Takes now conn)
    have "server_ready (s\<lparr>sv_taken := Suc (sv_taken s)\<rparr>)" using s by (simp add: server_ready_def)
    from node_turn_goes_on[OF this, of "Command (gw_cmds (sv_gw s) ! sv_taken s)" "se_node Z" now conn]
    show ?thesis using Takes s cmds by (simp add: server_step_def)
  next
    case (Reports users)
    have "\<forall>c \<in> set (gw_cmds (handle_p2p_event (se_gw Z) users ev (sv_gw s))). signable c" for ev
    proof (cases ev)
      case (MessageReceived src topic d)
      then show ?thesis using logged[OF log_message_received] logged[OF log_broadcast] by (simp add: handle_p2p_event_def)
    next
      case (MailboxRetrieved u ms)
      then show ?thesis using logged[OF log_retrieved] by (simp add: handle_p2p_event_def)
    qed (use cmds in \<open>simp_all add: handle_p2p_event_def set_connected_bootstrap_def signable_def\<close>)
    then show ?thesis using Reports st cmds by (simp add: server_step_def server_ready_def)
  qed
qed

text \<open>C11: No sequence of actions stops the server while recipient ids have full length. Whatever connections
  open, send, die and close, whatever frames, profile requests, ticks, swarm events, commands and
  retrievals the tasks process in whatever order, no task panics, as long as every relayed frame and
  every store command of another task names a recipient of at least 32 bytes; the network may
  answer anything.\<close>

theorem server_never_stops:
  assumes "\<forall>i \<in> set ins. full_recipients i" "\<forall>c \<in> set dials. signable c"
  shows "\<exists>s. run_steps (server_step Z) ins (server_start db alive dials st (se_node Z)) = Some s \<and>
    (\<forall>i. full_recipients i \<longrightarrow> (\<exists>s'. server_step Z i s = Some s'))"
proof -
  have run: "\<exists>s'. run_steps (server_step Z) ins s = Some s' \<and> server_ready s'" if "server_ready s" for s
    using assms(1) that
  proof (induction ins arbitrary: s)
    case Nil
    then show ?case by simp
  next
    case (Cons i ins)
    then have "full_recipients i" by simp
    from server_step_goes_on[OF Cons.prems(2) this] obtain s1
      where s1: "server_step Z i s = Some s1" "server_ready s1" by blast
    then show ?case using Cons.IH[OF _ s1(2)] Cons.prems(1) by simp
  qed
  have "server_ready (server_start db alive dials st (se_node Z))"
    using assms(2) by (simp add: server_ready_def server_start_def gateway_start_def)
  from run[OF this] show ?thesis using server_step_goes_on by blast
qed

theorem server_never_stops_witness:
  "\<exists>s. run_steps (server_step demo_server_env)
     [Opens 0 3 (Binary demo_user), Says (1, 1) [] demo_user (Binary ([32, 0] @ demo_user @ [5])), Takes 7 [],
      Loops 8 [] (Swarm (KadFailed 0 None))] demo_server = Some s"
proof -
  have "parse_relay ([32, 0] @ demo_user @ [5]) = Some (demo_user, [5])"
    by (simp add: parse_relay_def demo_user_def le_u16_def slice_def)
  then have f: "\<forall>i \<in> set [Opens 0 3 (Binary demo_user), Says (1, 1) [] demo_user (Binary ([32, 0] @ demo_user @ [5])),
      Takes 7 [], Loops 8 [] (Swarm (KadFailed (0 :: nat) None))]. full_recipients i"
    by (simp add: full_recipients_def demo_node_ok(2))
  show ?thesis
    using server_never_stops[OF f, of "[]" demo_server_env demo_db "\<lambda>ch. True" Map.empty]
    by (auto simp: demo_server_def demo_server_env_def)
qed

end
