(* ===== verification/Bounded.thy ===== *)
theory Bounded
  imports Swarm Server_Log
begin

text \<open>
  The two queues have room for 256 entries (\<open>mpsc::channel(256)\<close> in \<open>main.rs\<close> and
  \<open>p2p/node.rs\<close>). A task that sends to a full queue waits; only gossip and partial retrievals
  are sent with \<open>try_send\<close> and dropped. The logs of \<open>Server\<close> hold the entries in the
  order in which the sends were started, which is the order in which tokio serves waiting senders, so
  what lies more than 256 entries behind the reader has not been accepted yet. Here the node's loop
  is split where it may wait, between a handler and the deadline check after it, and the event
  handler waits until its own command is accepted. Tasks of clients are not held up by the model.
\<close>

definition QUEUE :: nat where "QUEUE = 256"

record ('db, 'q, 'n) wired =
  wi_server :: "('db, 'q, 'n) server"
  wi_mid :: bool  \<comment> \<open>the node is between a handler and the deadline check\<close>
  wi_handler :: "nat option"  \<comment> \<open>the handler's last command is the one before this position\<close>

definition events_waiting :: "('db, 'q, 'n) server \<Rightarrow> nat" where
  "events_waiting s = length (nd_events (sv_node s)) - sv_handled s"

definition event_room :: "('db, 'q, 'n) server \<Rightarrow> bool" where
  "event_room s \<longleftrightarrow> events_waiting s < QUEUE"

definition node_blocked :: "('db, 'q, 'n) wired \<Rightarrow> bool" where
  "node_blocked w \<longleftrightarrow> wi_mid w \<and> QUEUE < events_waiting (wi_server w)"

definition handler_blocked :: "('db, 'q, 'n) wired \<Rightarrow> bool" where
  "handler_blocked w \<longleftrightarrow> (case wi_handler w of None \<Rightarrow> False | Some p \<Rightarrow> sv_taken (wi_server w) + QUEUE < p)"

text \<open>The deadline check, which does not wait for room.\<close>

definition check_timeout_try ::
    "bool \<Rightarrow> nat \<Rightarrow> 'q mailbox_state \<Rightarrow> ('db, 'q) node \<Rightarrow> 'q mailbox_state \<times> ('db, 'q) node" where
  "check_timeout_try room now st nd =
     (case st of
        CollectingMessages user messages remaining deadline \<Rightarrow>
          if deadline \<le> now then (Idle, if room then emit (MailboxRetrieved user messages) nd else nd) else (st, nd)
      | FetchingIndex cmd start max_found pending found deadline \<Rightarrow>
          if deadline \<le> now then (Idle, nd) else (st, nd)
      | Idle \<Rightarrow> (st, nd))"

lemma check_timeout_room: "check_timeout_try True = check_state_timeout"
  by (simp add: check_timeout_try_def check_state_timeout_def fun_eq_iff split: mailbox_state.split)

definition the_node :: "('db, 'q, 'n) server \<Rightarrow> ('db, 'q) node" where
  "the_node s = (sv_node s)\<lparr>nd_db := gw_db (sv_gw s)\<rparr>"

definition set_node :: "'q mailbox_state \<times> ('db, 'q) node \<Rightarrow> ('db, 'q, 'n) server \<Rightarrow> ('db, 'q, 'n) server" where
  "set_node r s = s\<lparr>sv_state := fst r, sv_node := snd r, sv_gw := (sv_gw s)\<lparr>gw_db := nd_db (snd r)\<rparr>\<rparr>"

datatype 'q wired_input =
    Client "'q server_input"
  | NodeReceives nat "'q raw_event"
  | NodeTakes nat "bytes list"
  | NodeTicks nat
  | NodeReconnects nat "bytes list"
  | NodeChecks nat
  | HandlerReceives "bytes list"

definition is_client :: "'q server_input \<Rightarrow> bool" where
  "is_client i = (case i of Opens now ch msg \<Rightarrow> True | Says clk token session msg \<Rightarrow> True
     | Closes ch \<Rightarrow> True | ForwardEnds session \<Rightarrow> True | _ \<Rightarrow> False)"

definition sends_bootstrap :: "node_event \<Rightarrow> bool" where
  "sends_bootstrap ev = (case ev of PeerDiscovered p \<Rightarrow> True | ListeningOn a \<Rightarrow> True | _ \<Rightarrow> False)"

text \<open>One action of one task; a task that waits, or has nothing to do, stays where it is.\<close>

definition wired_step ::
    "('db, 'q, 'n) server_env \<Rightarrow> 'q wired_input \<Rightarrow> ('db, 'q, 'n) wired \<Rightarrow> ('db, 'q, 'n) wired option" where
  "wired_step Z inp w =
     (let s = wi_server w; E = se_node Z; st = sv_state s; nd = the_node s in
      case inp of
        Client i \<Rightarrow>
          if is_client i then map_option (\<lambda>s'. w\<lparr>wi_server := s'\<rparr>) (server_step Z i s) else Some w
      | NodeReceives now ev \<Rightarrow>
          if wi_mid w then Some w
          else map_option (\<lambda>r. w\<lparr>wi_server := set_node r s, wi_mid := True\<rparr>)
                 (handle_raw_event E now (event_room s) ev st nd)
      | NodeTakes now conn \<Rightarrow>
          if wi_mid w \<or> length (gw_cmds (sv_gw s)) \<le> sv_taken s then Some w
          else let cmd = gw_cmds (sv_gw s) ! sv_taken s in
            map_option (\<lambda>r. w\<lparr>wi_server := set_node r (s\<lparr>sv_taken := Suc (sv_taken s)\<rparr>), wi_mid := True\<rparr>)
              (handle_command E now (conn \<noteq> []) cmd st (seed_index E cmd st nd))
      | NodeTicks now \<Rightarrow>
          if wi_mid w then Some w
          else Some (w\<lparr>wi_server := set_node (check_timeout_try (event_room s) now st nd) s\<rparr>)
      | NodeReconnects now conn \<Rightarrow>
          if wi_mid w then Some w else Some (w\<lparr>wi_server := set_node (st, reconnect_tick now conn nd) s\<rparr>)
      | NodeChecks now \<Rightarrow>
          if wi_mid w \<and> \<not> node_blocked w
          then Some (w\<lparr>wi_server := set_node (check_timeout_try (event_room s) now st nd) s, wi_mid := False\<rparr>)
          else Some w
      | HandlerReceives users \<Rightarrow>
          if handler_blocked w \<or> events_waiting s = 0 then Some w
          else let ev = nd_events (sv_node s) ! sv_handled s;
                   g = handle_p2p_event (se_gw Z) users ev (sv_gw s)
            in Some (w\<lparr>wi_server := s\<lparr>sv_gw := g, sv_handled := Suc (sv_handled s)\<rparr>,
                  wi_handler := (if sends_bootstrap ev then Some (length (gw_cmds g)) else None)\<rparr>))"

definition wired_start ::
    "'db \<Rightarrow> (nat \<Rightarrow> bool) \<Rightarrow> node_command list \<Rightarrow> 'n \<Rightarrow> ('db, 'q) node_env \<Rightarrow> ('db, 'q, 'n) wired" where
  "wired_start db alive dials n E =
     \<lparr>wi_server = server_start db alive dials n E, wi_mid = False, wi_handler = None\<rparr>"


section \<open>A cyclic wait is forever\<close>

definition deadlocked :: "('db, 'q, 'n) wired \<Rightarrow> bool" where
  "deadlocked w \<longleftrightarrow> node_blocked w \<and> handler_blocked w"

text \<open>What no action of a deadlocked server changes.\<close>

definition frozen :: "('db, 'q, 'n) wired \<Rightarrow> ('db, 'q, 'n) wired \<Rightarrow> bool" where
  "frozen w w' \<longleftrightarrow> wi_mid w' = wi_mid w \<and> wi_handler w' = wi_handler w \<and>
     sv_taken (wi_server w') = sv_taken (wi_server w) \<and> sv_handled (wi_server w') = sv_handled (wi_server w) \<and>
     sv_state (wi_server w') = sv_state (wi_server w) \<and> sv_node (wi_server w') = sv_node (wi_server w)"

lemma client_frozen:
  assumes "is_client i" "server_step Z i s = Some s'"
  shows "sv_taken s' = sv_taken s \<and> sv_handled s' = sv_handled s \<and> sv_state s' = sv_state s \<and> sv_node s' = sv_node s"
  using assms
  by (cases i) (auto simp: server_step_def is_client_def open_socket_def split: prod.splits option.splits if_splits)

lemma deadlock_step:
  assumes "deadlocked w" "wired_step Z inp w = Some w'"
  shows "frozen w w'"
proof -
  have b: "wi_mid w" "node_blocked w" "handler_blocked w"
    using assms(1) by (auto simp: deadlocked_def node_blocked_def)
  show ?thesis
  proof (cases inp)
    case (Client i)
    then show ?thesis
      using assms(2) client_frozen[of i Z "wi_server w"] by (auto simp: wired_step_def frozen_def Let_def split: if_splits)
  qed (use assms(2) b in \<open>auto simp: wired_step_def frozen_def Let_def\<close>)
qed

lemma frozen_deadlocked: "frozen w w' \<Longrightarrow> deadlocked w \<Longrightarrow> deadlocked w'"
  by (auto simp: frozen_def deadlocked_def node_blocked_def handler_blocked_def events_waiting_def split: option.splits)

lemma deadlock_run:
  assumes "deadlocked w" "run_steps (wired_step Z) ins w = Some w'"
  shows "frozen w w' \<and> deadlocked w'"
  using assms
proof (induction ins arbitrary: w)
  case Nil
  then show ?case by (simp add: frozen_def)
next
  case (Cons i ins)
  then obtain w1 where w1: "wired_step Z i w = Some w1" "run_steps (wired_step Z) ins w1 = Some w'"
    by (auto simp: bind_eq_Some_conv)
  have f: "frozen w w1" by (rule deadlock_step[OF Cons.prems(1) w1(1)])
  from Cons.IH[OF frozen_deadlocked[OF f Cons.prems(1)] w1(2)] f show ?case by (simp add: frozen_def)
qed


section \<open>Reaching it\<close>

lemma connect_two_commands:
  assumes "gw_p2p_tx g" "session \<noteq> []"
  shows "length (gw_cmds (connect_client E now session ch g)) = length (gw_cmds g) + 2"
    and "gw_p2p_tx (connect_client E now session ch g)"
proof -
  let ?r = "register_client E now session ch g"
  have r: "gw_cmds ?r = gw_cmds g @ [Subscribe (w_hex (ge_wire E) session)]" "gw_p2p_tx ?r"
    using assms(1) by (simp_all add: register_client_def send_cmd_def Let_def)
  have "gw_log (\<lambda>c. False) ?r (drain_local E session ?r)" by (rule log_drain)
  then have "gw_cmds (drain_local E session ?r) = gw_cmds ?r" "gw_p2p_tx (drain_local E session ?r)"
    using r(2) by (auto simp: gw_log_def)
  then show "length (gw_cmds (connect_client E now session ch g)) = length (gw_cmds g) + 2"
    "gw_p2p_tx (connect_client E now session ch g)"
    using r(1) assms(2) by (simp_all add: connect_client_def send_cmd_def)
qed

text \<open>Clients that connect, two commands each.\<close>

definition newcomers :: "nat \<Rightarrow> 'q wired_input list" where
  "newcomers n = map (\<lambda>ch. Client (Opens 0 ch (Binary [1]))) [0..<n]"

lemma newcomers_run:
  assumes "gw_p2p_tx (sv_gw (wi_server w))" "\<forall>ch. sv_owner (wi_server w) ch = None"
  shows "\<exists>w'. run_steps (wired_step Z) (newcomers n) w = Some w' \<and> frozen w w' \<and>
    length (gw_cmds (sv_gw (wi_server w'))) = length (gw_cmds (sv_gw (wi_server w))) + 2 * n \<and>
    gw_p2p_tx (sv_gw (wi_server w')) \<and> (\<forall>ch. n \<le> ch \<longrightarrow> sv_owner (wi_server w') ch = None)"
proof (induction n)
  case 0
  show ?case using assms by (simp add: newcomers_def frozen_def)
next
  case (Suc n)
  then obtain w1 where w1: "run_steps (wired_step Z) (newcomers n) w = Some w1" "frozen w w1"
    "length (gw_cmds (sv_gw (wi_server w1))) = length (gw_cmds (sv_gw (wi_server w))) + 2 * n"
    "gw_p2p_tx (sv_gw (wi_server w1))" "\<forall>ch. n \<le> ch \<longrightarrow> sv_owner (wi_server w1) ch = None" by blast
  let ?s = "wi_server w1"
  let ?s' = "?s\<lparr>sv_gw := connect_client (se_gw Z) 0 [1] n (sv_gw ?s), sv_owner := (sv_owner ?s)(n \<mapsto> [1])\<rparr>"
  have step: "wired_step Z (Client (Opens 0 n (Binary [1]))) w1 = Some (w1\<lparr>wi_server := ?s'\<rparr>)"
    using w1(5) by (simp add: wired_step_def is_client_def server_step_def open_socket_def register_message_def Let_def)
  have n: "newcomers (Suc n) = newcomers n @ [Client (Opens 0 n (Binary [1]))]" by (simp add: newcomers_def)
  have run: "run_steps (wired_step Z) (newcomers (Suc n)) w = Some (w1\<lparr>wi_server := ?s'\<rparr>)"
    by (simp add: n run_steps_append w1(1) step)
  show ?case
    unfolding run using w1 connect_two_commands[OF w1(4), of "[1]" "se_gw Z" 0 n] by (simp add: frozen_def)
qed

text \<open>Peers the node hears of, one event each.\<close>

definition arrivals :: "nat \<Rightarrow> 'q wired_input list" where
  "arrivals n = concat (replicate n [NodeReceives 0 (Behaviour (Kademlia (RoutingUpdated [1]))), NodeChecks 0])"

definition grown :: "nat \<Rightarrow> ('db, 'q, 'n) wired \<Rightarrow> ('db, 'q, 'n) wired \<Rightarrow> bool" where
  "grown n w w' \<longleftrightarrow> wi_handler w' = wi_handler w \<and> sv_taken (wi_server w') = sv_taken (wi_server w) \<and>
     sv_handled (wi_server w') = sv_handled (wi_server w) \<and> sv_state (wi_server w') = Idle \<and>
     gw_cmds (sv_gw (wi_server w')) = gw_cmds (sv_gw (wi_server w)) \<and>
     nd_events (sv_node (wi_server w')) = nd_events (sv_node (wi_server w)) @ replicate n (PeerDiscovered [1])"

lemma arrival_step:
  assumes "\<not> wi_mid w" "sv_state (wi_server w) = Idle"
  shows "\<exists>w'. wired_step Z (NodeReceives 0 (Behaviour (Kademlia (RoutingUpdated [1])))) w = Some w' \<and>
    wi_mid w' \<and> grown 1 w w'"
  using assms
  by (simp add: wired_step_def handle_raw_event_def handle_behaviour_event_def handle_kad_event_def set_node_def
      the_node_def emit_def grown_def Let_def)

lemma check_step:
  assumes "wi_mid w" "sv_state (wi_server w) = Idle" "events_waiting (wi_server w) \<le> QUEUE"
  shows "\<exists>w'. wired_step Z (NodeChecks 0) w = Some w' \<and> \<not> wi_mid w' \<and> grown 0 w w'"
  using assms
  by (simp add: wired_step_def node_blocked_def check_timeout_try_def set_node_def the_node_def grown_def Let_def)

lemma arrivals_run:
  assumes "\<not> wi_mid w" "sv_state (wi_server w) = Idle"
    and "length (nd_events (sv_node (wi_server w))) + n \<le> QUEUE + sv_handled (wi_server w)"
  shows "\<exists>w'. run_steps (wired_step Z) (arrivals n) w = Some w' \<and> \<not> wi_mid w' \<and> grown n w w'"
  using assms
proof (induction n arbitrary: w)
  case 0
  then show ?case by (simp add: arrivals_def grown_def)
next
  case (Suc n)
  obtain w1 where w1: "wired_step Z (NodeReceives 0 (Behaviour (Kademlia (RoutingUpdated [1])))) w = Some w1"
    "wi_mid w1" "grown 1 w w1" using arrival_step[OF Suc.prems(1,2)] by blast
  have "events_waiting (wi_server w1) \<le> QUEUE" "sv_state (wi_server w1) = Idle"
    using w1(3) Suc.prems(3) by (auto simp: grown_def events_waiting_def)
  then obtain w2 where w2: "wired_step Z (NodeChecks 0) w1 = Some w2" "\<not> wi_mid w2" "grown 0 w1 w2"
    using check_step[OF w1(2)] by blast
  have "sv_state (wi_server w2) = Idle"
    "length (nd_events (sv_node (wi_server w2))) + n \<le> QUEUE + sv_handled (wi_server w2)"
    using w1(3) w2(3) Suc.prems(3) by (auto simp: grown_def)
  from Suc.IH[OF w2(2) this] obtain w3 where w3: "run_steps (wired_step Z) (arrivals n) w2 = Some w3"
    "\<not> wi_mid w3" "grown n w2 w3" by blast
  have "run_steps (wired_step Z) (arrivals (Suc n)) w = Some w3"
    using w1(1) w2(1) w3(1) by (simp add: arrivals_def)
  moreover have "grown (Suc n) w w3" using w1(3) w2(3) w3(3) by (simp add: grown_def)
  ultimately show ?case using w3(2) by blast
qed

end
