(* ===== verification/Bounded_Theorems.thy ===== *)
theory Bounded_Theorems
  imports Bounded Server_Theorems
begin

text \<open>
  The two bounded queues: they can end in a cyclic wait of the node and the event handler, from
  which nothing ever leads away, and this is the only way in which the two can stop for good.
\<close>

section \<open>Bounds of the queues\<close>

definition wired_inv :: "('db, 'q, 'n) wired \<Rightarrow> bool" where
  "wired_inv w \<longleftrightarrow>
     (let s = wi_server w in
      sv_handled s \<le> length (nd_events (sv_node s)) \<and>
      events_waiting s \<le> QUEUE + (if wi_mid w then 1 else 0) \<and>
      (\<forall>p. wi_handler w = Some p \<longrightarrow> p \<le> length (gw_cmds (sv_gw s))))"

lemma wired_invI:
  assumes "wired_inv w" "sv_handled (wi_server w') = sv_handled (wi_server w)" "wi_handler w' = wi_handler w"
    and "nd_events (sv_node (wi_server w')) = nd_events (sv_node (wi_server w)) @ es"
    and "length es + events_waiting (wi_server w) \<le> QUEUE + (if wi_mid w' then 1 else 0)"
    and "length (gw_cmds (sv_gw (wi_server w))) \<le> length (gw_cmds (sv_gw (wi_server w')))"
  shows "wired_inv w'"
  using assms by (fastforce simp: wired_inv_def events_waiting_def Let_def)

lemma set_node_simps [simp]:
  "sv_handled (set_node r s) = sv_handled s" "sv_node (set_node r s) = snd r"
  "gw_cmds (sv_gw (set_node r s)) = gw_cmds (sv_gw s)" "sv_taken (set_node r s) = sv_taken s"
  by (simp_all add: set_node_def)

lemma the_node_events [simp]: "nd_events (the_node s) = nd_events (sv_node s)"
  by (simp add: the_node_def)

lemma check_try_log:
  "\<exists>es. nd_events (snd (check_timeout_try room now st nd)) = nd_events nd @ es \<and> length es \<le> (if room then 1 else 0)"
  by (simp add: check_timeout_try_def emit_def split: mailbox_state.split)

text \<open>Clients append commands and nothing else.\<close>

lemma client_cmds:
  assumes "is_client i" "server_step Z i s = Some s'"
  shows "length (gw_cmds (sv_gw s)) \<le> length (gw_cmds (sv_gw s'))"
proof -
  have "gw_log (\<lambda>c. True) (sv_gw s) (sv_gw s')"
  proof (cases i)
    case (Opens now ch msg)
    have "gw_log (\<lambda>c. True) (sv_gw s) (connect_client (se_gw Z) now u ch (sv_gw s))" for u
      by (rule log_connect) simp_all
    then show ?thesis
      using assms(2) Opens
      by (auto simp: server_step_def open_socket_def register_message_def gw_log_same split: ws_message.splits if_splits)
  next
    case (Says clk token u msg)
    have "gw_log (\<lambda>c. True) (sv_gw s) (snd (client_message (se_gw Z) (se_ops Z) clk token u msg (sv_store s) (sv_gw s)))"
      by (rule log_client_message) simp_all
    moreover obtain n g where "client_message (se_gw Z) (se_ops Z) clk token u msg (sv_store s) (sv_gw s) = (n, g)"
      by fastforce
    ultimately show ?thesis using assms(2) Says by (auto simp: server_step_def)
  next
    case (Closes ch)
    then show ?thesis using assms(2) by (auto simp: server_step_def gw_log_same)
  next
    case (ForwardEnds u)
    then show ?thesis using assms(2) log_prune[of "\<lambda>c. True" "sv_gw s" u] by (auto simp: server_step_def)
  qed (use assms(1) in \<open>simp_all add: is_client_def\<close>)
  then show ?thesis by (auto simp: gw_log_def)
qed

lemma event_cmds:
  "\<exists>cs. gw_cmds (handle_p2p_event G users ev g) = gw_cmds g @ cs"
proof (cases ev)
  case (MessageReceived src topic d)
  then show ?thesis
    using log_message_received[of "\<lambda>c. True" g G topic d] log_broadcast[of "\<lambda>c. True" g users d]
    by (auto simp: handle_p2p_event_def gw_log_def)
next
  case (MailboxRetrieved u ms)
  then show ?thesis using log_retrieved[of "\<lambda>c. True" g G u ms] by (auto simp: handle_p2p_event_def gw_log_def)
qed (simp_all add: handle_p2p_event_def set_connected_bootstrap_def)

lemma handler_turn_inv:
  assumes inv: "wired_inv w" and free: "\<not> wi_mid w"
    and r: "ev_log (Suc 0) (the_node (wi_server w)) nd" and h: "sv_handled s' = sv_handled (wi_server w)"
    and c: "gw_cmds (sv_gw s') = gw_cmds (sv_gw (wi_server w))"
  shows "wired_inv (w\<lparr>wi_server := set_node (st, nd) s', wi_mid := True\<rparr>)"
proof -
  obtain es where es: "nd_events nd = nd_events (sv_node (wi_server w)) @ es" "length es \<le> Suc 0"
    using r by (auto simp: ev_log_def)
  have "events_waiting (wi_server w) \<le> QUEUE" using inv free by (simp add: wired_inv_def Let_def)
  then show ?thesis by (intro wired_invI[OF inv, where es = es]) (use es h c in simp_all)
qed

lemma check_turn_inv:
  assumes inv: "wired_inv w" and full: "events_waiting (wi_server w) \<le> QUEUE"
  shows "wired_inv (w\<lparr>wi_server := set_node (check_timeout_try (event_room (wi_server w)) now st (the_node (wi_server w)))
      (wi_server w), wi_mid := False\<rparr>)"
proof -
  obtain es where es: "nd_events (snd (check_timeout_try (event_room (wi_server w)) now st (the_node (wi_server w)))) =
      nd_events (sv_node (wi_server w)) @ es" "length es \<le> (if event_room (wi_server w) then 1 else 0)"
    using check_try_log[of "event_room (wi_server w)" now st "the_node (wi_server w)"] by auto
  show ?thesis
    by (intro wired_invI[OF inv, where es = es]) (use es full in \<open>auto simp: event_room_def split: if_splits\<close>)
qed

lemma wired_step_inv:
  assumes inv: "wired_inv w" and r: "wired_step Z inp w = Some w'"
  shows "wired_inv w'"
proof -
  let ?s = "wi_server w"
  have free: "events_waiting ?s \<le> QUEUE" if "\<not> wi_mid w" using inv that by (simp add: wired_inv_def Let_def)
  have w0: "w\<lparr>wi_mid := False\<rparr> = w" if "\<not> wi_mid w" using that by (cases w) simp
  show ?thesis
  proof (cases inp)
    case (Client i)
    show ?thesis
    proof (cases "is_client i")
      case True
      then obtain s' where s': "server_step Z i ?s = Some s'" "w' = w\<lparr>wi_server := s'\<rparr>"
        using r Client by (auto simp: wired_step_def Let_def)
      show ?thesis
        using client_frozen[OF True s'(1)] client_cmds[OF True s'(1)] inv
        by (intro wired_invI[OF inv, where es = "[]"]) (simp_all add: s'(2) wired_inv_def Let_def)
    qed (use r Client inv in \<open>simp add: wired_step_def Let_def\<close>)
  next
    case (NodeReceives now ev)
    show ?thesis
    proof (cases "wi_mid w")
      case False
      then obtain st nd where t: "handle_raw_event (se_node Z) now (event_room ?s) ev (sv_state ?s) (the_node ?s) = Some (st, nd)"
        "w' = w\<lparr>wi_server := set_node (st, nd) ?s, wi_mid := True\<rparr>"
        using r NodeReceives by (auto simp: wired_step_def Let_def)
      show ?thesis
        unfolding t(2) using log_swarm t(1) by (intro handler_turn_inv[OF inv False]) (auto simp: raw_event_classified)
    qed (use r NodeReceives inv in \<open>simp add: wired_step_def Let_def\<close>)
  next
    case (NodeTakes now conn)
    show ?thesis
    proof (cases "wi_mid w \<or> length (gw_cmds (sv_gw ?s)) \<le> sv_taken ?s")
      case False
      let ?c = "gw_cmds (sv_gw ?s) ! sv_taken ?s"
      from False obtain st nd where t: "handle_command (se_node Z) now (conn \<noteq> []) ?c (sv_state ?s)
          (seed_index (se_node Z) ?c (sv_state ?s) (the_node ?s)) = Some (st, nd)"
        "w' = w\<lparr>wi_server := set_node (st, nd) (?s\<lparr>sv_taken := Suc (sv_taken ?s)\<rparr>), wi_mid := True\<rparr>"
        using r NodeTakes by (auto simp: wired_step_def Let_def)
      have "ev_log (Suc 0) (the_node ?s) nd" by (rule ev_log_from[OF log_command[OF t(1)] seed_index_events])
      then show ?thesis unfolding t(2) using False by (intro handler_turn_inv[OF inv]) simp_all
    qed (use r NodeTakes inv in \<open>auto simp: wired_step_def Let_def\<close>)
  next
    case (NodeTicks now)
    then show ?thesis
      using r inv check_turn_inv[OF inv free, of now "sv_state ?s"]
      by (cases w; cases "wi_mid w") (auto simp: wired_step_def Let_def)
  next
    case (NodeReconnects now conn)
    then show ?thesis
      using r inv by (auto simp: wired_step_def Let_def reconnect_events intro!: wired_invI[OF inv, where es = "[]"]
          split: if_splits) (simp_all add: wired_inv_def Let_def)
  next
    case (NodeChecks now)
    show ?thesis
    proof (cases "wi_mid w \<and> \<not> node_blocked w")
      case True
      then have "events_waiting ?s \<le> QUEUE" by (auto simp: node_blocked_def not_less)
      from check_turn_inv[OF inv this, of now "sv_state ?s"] show ?thesis
        using r NodeChecks True by (auto simp: wired_step_def Let_def)
    qed (use r NodeChecks inv in \<open>auto simp: wired_step_def Let_def\<close>)
  next
    case (HandlerReceives users)
    show ?thesis
    proof (cases "handler_blocked w \<or> events_waiting ?s = 0")
      case False
      obtain cs where "gw_cmds (handle_p2p_event (se_gw Z) users (nd_events (sv_node ?s) ! sv_handled ?s) (sv_gw ?s)) =
          gw_cmds (sv_gw ?s) @ cs" using event_cmds by blast
      then show ?thesis
        using r HandlerReceives False inv
        by (auto simp: wired_step_def Let_def wired_inv_def events_waiting_def split: if_splits)
    qed (use r HandlerReceives inv in \<open>auto simp: wired_step_def Let_def\<close>)
  qed
qed

interpretation wired: machine "wired_step Z" wired_inv
  by unfold_locales (rule wired_step_inv)

lemma wired_start_inv: "wired_inv (wired_start db alive dials st E)"
  by (simp add: wired_inv_def wired_start_def server_start_def dial_persisted_fields node_start_def events_waiting_def)


section \<open>Theorems\<close>

text \<open>Up to the first event: the 128 clients leave 256 commands that nobody has taken, and the node reports
  its first peer.\<close>

lemma commands_queued:
  obtains w where "run_steps (wired_step Z) (newcomers 128 @ arrivals 1) (wired_start db alive dials st (se_node Z)) = Some w"
    "\<not> wi_mid w" "sv_state (wi_server w) = Idle" "\<not> handler_blocked w" "sv_taken (wi_server w) = 0"
    "nd_events (sv_node (wi_server w)) = [PeerDiscovered [1]]" "sv_handled (wi_server w) = 0"
    "length (gw_cmds (sv_gw (wi_server w))) = length dials + 256"
proof -
  let ?w0 = "wired_start db alive dials st (se_node Z)"
  have start: "gw_p2p_tx (sv_gw (wi_server ?w0))" "\<forall>ch. sv_owner (wi_server ?w0) ch = None" "\<not> wi_mid ?w0"
    "sv_state (wi_server ?w0) = Idle" "nd_events (sv_node (wi_server ?w0)) = []" "sv_handled (wi_server ?w0) = 0"
    "sv_taken (wi_server ?w0) = 0" "gw_cmds (sv_gw (wi_server ?w0)) = dials"
    by (simp_all add: wired_start_def server_start_def gateway_start_def dial_persisted_fields node_start_def)
  obtain w1 where w1: "run_steps (wired_step Z) (newcomers 128) ?w0 = Some w1" "frozen ?w0 w1"
    "length (gw_cmds (sv_gw (wi_server w1))) = length dials + 256"
    using newcomers_run[OF start(1,2), of Z 128] start(8) by auto
  have i1: "\<not> wi_mid w1" "sv_state (wi_server w1) = Idle" "nd_events (sv_node (wi_server w1)) = []"
    "sv_handled (wi_server w1) = 0" "sv_taken (wi_server w1) = 0"
    using w1(2) start by (simp_all add: frozen_def)
  obtain w2 where w2: "run_steps (wired_step Z) (arrivals 1) w1 = Some w2" "\<not> wi_mid w2" "grown 1 w1 w2"
    using arrivals_run[OF i1(1,2), of 1 Z] i1(3,4) by (auto simp: QUEUE_def)
  have "run_steps (wired_step Z) (newcomers 128 @ arrivals 1) ?w0 = Some w2"
    by (simp only: run_steps_append w1(1) w2(1) Option.bind.simps)
  then show ?thesis
    by (rule that)
      (use w2(2,3) w1(2,3) i1 in \<open>simp_all add: handler_blocked_def grown_def frozen_def wired_start_def\<close>)
qed

text \<open>The event handler takes the event up: it has one command to send and waits until there is room.\<close>

lemma handler_takes_up:
  assumes "\<not> handler_blocked w" "nd_events (sv_node (wi_server w)) = [PeerDiscovered [1]]" "sv_handled (wi_server w) = 0"
  shows "wired_step Z (HandlerReceives []) w = Some (w\<lparr>wi_server := (wi_server w)
      \<lparr>sv_gw := set_connected_bootstrap (sv_gw (wi_server w)), sv_handled := 1\<rparr>,
      wi_handler := Some (Suc (length (gw_cmds (sv_gw (wi_server w)))))\<rparr>)"
  using assms
  by (simp add: wired_step_def events_waiting_def handle_p2p_event_def sends_bootstrap_def Let_def set_connected_bootstrap_def)

text \<open>C13: The two queues can wait for each other forever. From the start of any server there is a run, in
  which 128 clients connect while the node hears of 258 peers, after which the node waits for room
  in the full event queue and the event handler waits for room in the full command queue. Whatever
  happens then, with whatever the clients and the network do, the node takes no command and the
  handler no event any more: the node's state, its database writes included, stays as it is while
  commands and events wait.\<close>

theorem queues_deadlock:
  "\<exists>ins w. run_steps (wired_step Z) ins (wired_start db alive dials st (se_node Z)) = Some w \<and>
     sv_taken (wi_server w) < length (gw_cmds (sv_gw (wi_server w))) \<and>
     sv_handled (wi_server w) < length (nd_events (sv_node (wi_server w))) \<and>
     (\<forall>ins' w'. run_steps (wired_step Z) ins' w = Some w' \<longrightarrow>
        sv_taken (wi_server w') = sv_taken (wi_server w) \<and> sv_handled (wi_server w') = sv_handled (wi_server w) \<and>
        sv_state (wi_server w') = sv_state (wi_server w) \<and> sv_node (wi_server w') = sv_node (wi_server w))"
proof -
  let ?w0 = "wired_start db alive dials st (se_node Z)"
  let ?peer = "NodeReceives 0 (Behaviour (Kademlia (RoutingUpdated [1])))"
  obtain w2 where w2: "run_steps (wired_step Z) (newcomers 128 @ arrivals 1) ?w0 = Some w2"
    "\<not> wi_mid w2" "sv_state (wi_server w2) = Idle" "\<not> handler_blocked w2" "sv_taken (wi_server w2) = 0"
    and ev2: "nd_events (sv_node (wi_server w2)) = [PeerDiscovered [1]]" "sv_handled (wi_server w2) = 0"
    "length (gw_cmds (sv_gw (wi_server w2))) = length dials + 256"
    by (rule commands_queued)
  let ?w3 = "w2\<lparr>wi_server := (wi_server w2)\<lparr>sv_gw := set_connected_bootstrap (sv_gw (wi_server w2)), sv_handled := 1\<rparr>,
      wi_handler := Some (Suc (length dials + 256))\<rparr>"
  have w3: "wired_step Z (HandlerReceives []) w2 = Some ?w3"
    using handler_takes_up[OF w2(4) ev2(1,2)] unfolding ev2(3) .
  have i3: "\<not> wi_mid ?w3" "sv_state (wi_server ?w3) = Idle"
    "length (nd_events (sv_node (wi_server ?w3))) + 256 \<le> QUEUE + sv_handled (wi_server ?w3)"
    using w2 ev2 by (simp_all add: QUEUE_def)
  obtain w4 where w4: "run_steps (wired_step Z) (arrivals 256) ?w3 = Some w4" "\<not> wi_mid w4" "grown 256 ?w3 w4"
    using arrivals_run[OF i3] by blast
  have s4: "sv_state (wi_server w4) = Idle" using w4(3) by (simp add: grown_def)
  obtain w5 where w5: "wired_step Z ?peer w4 = Some w5" "wi_mid w5" "grown 1 w4 w5"
    using arrival_step[OF w4(2) s4] by blast
  have "run_steps (wired_step Z) [HandlerReceives []] w2 = Some ?w3" "run_steps (wired_step Z) [?peer] w4 = Some w5"
    using w3 w5(1) by simp_all
  then have run: "run_steps (wired_step Z) ((newcomers 128 @ arrivals 1) @ [HandlerReceives []] @ arrivals 256 @ [?peer]) ?w0 = Some w5"
    unfolding run_steps_append[of _ "newcomers _ @ _"] w2(1) by (simp only: run_steps_append w4(1) Option.bind.simps)
  have f5: "wi_handler w5 = Some (Suc (length dials + 256))" "sv_taken (wi_server w5) = 0" "sv_handled (wi_server w5) = 1"
    "length (nd_events (sv_node (wi_server w5))) = 258" "length (gw_cmds (sv_gw (wi_server w5))) = length dials + 257"
    using w5(3) w4(3) w2(5) ev2 by (simp_all add: grown_def set_connected_bootstrap_def)
  then have "deadlocked w5"
    using w5(2) by (simp add: deadlocked_def node_blocked_def handler_blocked_def events_waiting_def QUEUE_def)
  then have "frozen w5 w'" if "run_steps (wired_step Z) ins' w5 = Some w'" for ins' w'
    using deadlock_run that by blast
  then show ?thesis using run f5 by (intro exI conjI) (auto simp: frozen_def)
qed

theorem queues_deadlock_witness:
  "\<exists>ins w. run_steps (wired_step demo_server_env) ins (wired_start demo_db (\<lambda>ch. True) [] Map.empty demo_node_env) = Some w \<and>
     (\<forall>w'. run_steps (wired_step demo_server_env) [HandlerReceives [], NodeChecks 9, NodeTakes 9 []] w = Some w' \<longrightarrow>
        sv_taken (wi_server w') = sv_taken (wi_server w) \<and> sv_handled (wi_server w') = sv_handled (wi_server w))"
proof -
  have "se_node demo_server_env = demo_node_env" by (simp add: demo_server_env_def)
  then show ?thesis
    using queues_deadlock[of demo_server_env demo_db "\<lambda>ch. True" "[]" Map.empty] by metis
qed

text \<open>Nothing else makes the node or the event handler wait for good. At every moment of every run, a node
  that waits for room in the event queue, while the handler does not wait, goes on as soon as the
  handler takes one event, and there is one to take; and a handler that waits for room in the
  command queue, while the node does not wait, has the node take a command next.\<close>

theorem waits_end_unless_cyclic:
  assumes run: "run_steps (wired_step Z) ins (wired_start db alive dials st (se_node Z)) = Some w"
  shows "(node_blocked w \<and> \<not> handler_blocked w \<longrightarrow>
      (\<exists>w'. wired_step Z (HandlerReceives users) w = Some w' \<and> \<not> node_blocked w' \<and>
         sv_handled (wi_server w') = Suc (sv_handled (wi_server w)))) \<and>
    (handler_blocked w \<and> \<not> node_blocked w \<longrightarrow>
      (\<forall>w'. run_steps (wired_step Z) [NodeChecks t, NodeTakes t' conn] w = Some w' \<longrightarrow>
         sv_taken (wi_server w') = Suc (sv_taken (wi_server w))))"
proof (intro conjI impI allI)
  have inv: "wired_inv w" by (rule wired.run_inv[OF run wired_start_inv])
  show "\<exists>w'. wired_step Z (HandlerReceives users) w = Some w' \<and> \<not> node_blocked w' \<and>
      sv_handled (wi_server w') = Suc (sv_handled (wi_server w))" if "node_blocked w \<and> \<not> handler_blocked w"
    using that inv
    by (auto simp: wired_step_def node_blocked_def wired_inv_def events_waiting_def Let_def split: if_splits)
  show "sv_taken (wi_server w') = Suc (sv_taken (wi_server w))"
    if b: "handler_blocked w \<and> \<not> node_blocked w"
      and r: "run_steps (wired_step Z) [NodeChecks t, NodeTakes t' conn] w = Some w'" for w'
  proof -
    obtain w1 where w1: "wired_step Z (NodeChecks t) w = Some w1" "wired_step Z (NodeTakes t' conn) w1 = Some w'"
      using r by (auto simp: bind_eq_Some_conv)
    have "\<not> wi_mid w1 \<and> sv_taken (wi_server w1) = sv_taken (wi_server w) \<and>
        gw_cmds (sv_gw (wi_server w1)) = gw_cmds (sv_gw (wi_server w))"
      using w1(1) b by (auto simp: wired_step_def Let_def split: if_splits)
    moreover have "sv_taken (wi_server w) < length (gw_cmds (sv_gw (wi_server w)))"
      using b inv by (auto simp: handler_blocked_def wired_inv_def Let_def split: option.splits)
    ultimately show ?thesis using w1(2) by (auto simp: wired_step_def Let_def)
  qed
qed

theorem waits_end_unless_cyclic_witness:
  "\<exists>ins w w'. run_steps (wired_step demo_server_env) ins (wired_start demo_db (\<lambda>ch. True) [] Map.empty demo_node_env) = Some w \<and>
     node_blocked w \<and> wired_step demo_server_env (HandlerReceives []) w = Some w' \<and> \<not> node_blocked w'"
proof -
  let ?w0 = "wired_start demo_db (\<lambda>ch. True) [] Map.empty demo_node_env :: (toy_db, nat, bytes \<rightharpoonup> bytes) wired"
  let ?peer = "NodeReceives 0 (Behaviour (Kademlia (RoutingUpdated [1])))"
  have Z: "se_node demo_server_env = demo_node_env" by (simp add: demo_server_env_def)
  have i0: "\<not> wi_mid ?w0" "sv_state (wi_server ?w0) = Idle" "nd_events (sv_node (wi_server ?w0)) = []"
    "sv_handled (wi_server ?w0) = 0" "wi_handler ?w0 = None"
    by (simp_all add: wired_start_def server_start_def dial_persisted_fields node_start_def)
  obtain w1 where w1: "run_steps (wired_step demo_server_env) (arrivals 256) ?w0 = Some w1" "\<not> wi_mid w1" "grown 256 ?w0 w1"
    using arrivals_run[OF i0(1,2), of 256 demo_server_env] i0(3,4) by (auto simp: QUEUE_def)
  have s1: "sv_state (wi_server w1) = Idle" using w1(3) by (simp add: grown_def)
  obtain w2 where w2: "wired_step demo_server_env ?peer w1 = Some w2" "wi_mid w2" "grown 1 w1 w2"
    using arrival_step[OF w1(2) s1] by blast
  have run: "run_steps (wired_step demo_server_env) (arrivals 256 @ [?peer]) ?w0 = Some w2"
    using w2(1) by (simp add: run_steps_append w1(1))
  have "node_blocked w2" "\<not> handler_blocked w2"
    using w1(3) w2(2,3) i0 by (simp_all add: node_blocked_def handler_blocked_def grown_def events_waiting_def QUEUE_def)
  with waits_end_unless_cyclic[of demo_server_env "arrivals 256 @ [?peer]" demo_db "\<lambda>ch. True" "[]" Map.empty w2 "[]"] run
  show ?thesis unfolding Z by blast
qed

end
