(* ===== verification/Profile_Tasks.thy ===== *)
theory Profile_Tasks
  imports Profile_Store
begin

text \<open>
  The profile handlers of \<open>server/src/ws.rs\<close> as the tasks they are. A handler sends a lookup to
  the node, waits for the answer on a oneshot channel for at most ten seconds, and goes on with what
  it got; meanwhile the handlers of other connections run. A step of a task is what it does between
  two waits or two sends. \<open>Gateway\<close> has the handlers in one piece; here they are related to that
  when nothing intervenes, and what interleavings and expired waits do to the token's protection.
\<close>

section \<open>Tasks\<close>

text \<open>Each waiting task knows the channel its answer comes on.\<close>

datatype profile_task =
    RegLooksUp bytes bytes nat  \<comment> \<open>index, blob\<close>
  | RegChecksToken bytes bytes nat
  | RegStoresToken bytes bytes  \<comment> \<open>index, minted token; the blob has been sent\<close>
  | Looking bytes nat
  | UpdChecksToken bytes bytes bytes nat  \<comment> \<open>index, presented token, new blob\<close>
  | Answered "bytes option"

text \<open>
  What a request starts with: \<open>installed\<close> says that the gateway has a command channel, \<open>live\<close>
  that it is open. A token lookup that cannot be sent counts as no token.
\<close>

definition begin_profile ::
    "bool \<Rightarrow> bool \<Rightarrow> u8 \<Rightarrow> bytes \<Rightarrow> nat \<Rightarrow> profile_task \<times> node_command list" where
  "begin_profile installed live opcode payload ch =
     (if opcode = 0x01 then
        (if length payload < 32 \<or> \<not> installed \<or> \<not> live then (Answered None, [])
         else (RegLooksUp (take 32 payload) (drop 32 payload) ch, [ProfileLookup (take 32 payload) ch]))
      else if opcode = 0x02 then
        (if length payload < 32 \<or> \<not> installed \<or> \<not> live then (Answered None, [])
         else (Looking (take 32 payload) ch, [ProfileLookup (take 32 payload) ch]))
      else if opcode = 0x03 then (Answered (Some [0xFF, 0x02, 0x00]), [])
      else if opcode = 0x04 then
        (if length payload < 32 + 32 \<or> drop 64 payload = [] \<or> \<not> installed then (Answered None, [])
         else if \<not> live then (Answered (Some [0xFF, 0x03, 0x02]), [])
         else (UpdChecksToken (take 32 payload) (slice 32 64 payload) (drop 64 payload) ch,
               [ProfileTokenLookup (take 32 payload) ch]))
      else (Answered None, []))"

text \<open>The channel a task waits on.\<close>

definition waits_on :: "profile_task \<Rightarrow> nat option" where
  "waits_on t = (case t of
      RegLooksUp i b ch \<Rightarrow> Some ch | RegChecksToken i b ch \<Rightarrow> Some ch | Looking i ch \<Rightarrow> Some ch
    | UpdChecksToken i p b ch \<Rightarrow> Some ch | _ \<Rightarrow> None)"

text \<open>Going on with an answer; \<open>token\<close> is the random value minted if a registration gets that far.\<close>

definition resume_profile ::
    "bytes \<Rightarrow> nat \<Rightarrow> bytes option \<Rightarrow> profile_task \<Rightarrow> profile_task \<times> node_command list" where
  "resume_profile token ch answer t =
     (case t of
        RegLooksUp i b _ \<Rightarrow>
          (case answer of
             Some _ \<Rightarrow> (RegChecksToken i b ch, [ProfileTokenLookup i ch])
           | None \<Rightarrow> (RegStoresToken i token, [ProfileStore i b]))
      | RegChecksToken i b _ \<Rightarrow>
          (case answer of
             Some _ \<Rightarrow> (Answered (Some PROFILE_OCCUPIED), [])
           | None \<Rightarrow> (RegStoresToken i token, [ProfileStore i b]))
      | RegStoresToken i tok \<Rightarrow> (Answered (Some (PROFILE_SUCCESS @ tok)), [ProfileTokenStore i tok])
      | Looking i _ \<Rightarrow>
          (case answer of
             Some d \<Rightarrow> (Answered (Some ([0xFE, 0x01] @ u16_le (word_of_nat (length d)) @ d)), [])
           | None \<Rightarrow> (Answered (Some [0xFF, 0x01, 0x00]), []))
      | UpdChecksToken i presented b _ \<Rightarrow>
          (case answer of
             None \<Rightarrow> (Answered (Some [0xFF, 0x03, 0x02]), [])
           | Some tok \<Rightarrow>
               if tok \<noteq> presented then (Answered (Some [0xFF, 0x03, 0x01]), [])
               else (Answered (Some [0xFE, 0x03, 0x00]), [ProfileStore i b]))
      | Answered r \<Rightarrow> (t, []))"

text \<open>A command that cannot be sent any more ends the handler without an answer.\<close>

definition send_or_stop :: "bool \<Rightarrow> profile_task \<times> node_command list \<Rightarrow> profile_task \<times> node_command list" where
  "send_or_stop live r = (if snd r \<noteq> [] \<and> \<not> live then (Answered None, []) else r)"


section \<open>Many tasks over one record store\<close>

text \<open>
  The command channel, which \<open>main\<close> installs, is open or not. The records as the network holds them, the tasks, the key asked on each channel, the answers that
  have come, and the next channel. Commands take effect in the order they are sent; a query is
  answered any time later, from the records at that time.
\<close>

record profile_world =
  pw_live :: bool
  pw_dht :: "bytes \<rightharpoonup> bytes"
  pw_tasks :: "nat \<rightharpoonup> profile_task"
  pw_asked :: "nat \<rightharpoonup> bytes"
  pw_answers :: "nat \<rightharpoonup> bytes option"
  pw_next :: nat

definition apply_command :: "node_command \<Rightarrow> profile_world \<Rightarrow> profile_world" where
  "apply_command c w = (case c of
      ProfileLookup i ch \<Rightarrow> w\<lparr>pw_asked := (pw_asked w)(ch \<mapsto> profile_key i)\<rparr>
    | ProfileTokenLookup i ch \<Rightarrow> w\<lparr>pw_asked := (pw_asked w)(ch \<mapsto> update_key i)\<rparr>
    | ProfileStore i b \<Rightarrow> w\<lparr>pw_dht := put_call (PutRecord (profile_key i) b) (pw_dht w)\<rparr>
    | ProfileTokenStore i t \<Rightarrow> w\<lparr>pw_dht := put_call (PutRecord (update_key i) t) (pw_dht w)\<rparr>
    | _ \<Rightarrow> w)"

definition put_task :: "nat \<Rightarrow> profile_task \<times> node_command list \<Rightarrow> profile_world \<Rightarrow> profile_world" where
  "put_task n r w = fold apply_command (snd r)
     (w\<lparr>pw_tasks := (pw_tasks w)(n \<mapsto> fst r), pw_next := Suc (pw_next w)\<rparr>)"

datatype profile_input =
    Begins nat u8 bytes
  | Replies nat
  | Proceeds nat bytes
  | Expires nat bytes

definition profile_step :: "profile_input \<Rightarrow> profile_world \<Rightarrow> profile_world option" where
  "profile_step inp w =
     (case inp of
        Begins n opcode payload \<Rightarrow>
          Some (if pw_tasks w n \<noteq> None then w
                else put_task n (begin_profile True (pw_live w) opcode payload (pw_next w)) w)
      | Replies ch \<Rightarrow>
          Some (case (pw_asked w ch, pw_answers w ch) of
                  (Some key, None) \<Rightarrow> w\<lparr>pw_answers := (pw_answers w)(ch \<mapsto> pw_dht w key)\<rparr>
                | _ \<Rightarrow> w)
      | Proceeds n token \<Rightarrow>
          Some (case pw_tasks w n of
                  None \<Rightarrow> w
                | Some t \<Rightarrow>
                    (case waits_on t of
                       None \<Rightarrow> put_task n (send_or_stop (pw_live w) (resume_profile token (pw_next w) None t)) w
                     | Some ch \<Rightarrow>
                         (case pw_answers w ch of
                            None \<Rightarrow> w
                          | Some answer \<Rightarrow>
                              put_task n (send_or_stop (pw_live w) (resume_profile token (pw_next w) answer t)) w)))
      | Expires n token \<Rightarrow>
          Some (case pw_tasks w n of
                  None \<Rightarrow> w
                | Some t \<Rightarrow>
                    (if waits_on t = None then w
                     else put_task n (send_or_stop (pw_live w) (resume_profile token (pw_next w) None t)) w)))"

definition profile_world_start :: "(bytes \<rightharpoonup> bytes) \<Rightarrow> profile_world" where
  "profile_world_start m =
     \<lparr>pw_live = True, pw_dht = m, pw_tasks = Map.empty, pw_asked = Map.empty, pw_answers = Map.empty, pw_next = 0\<rparr>"

lemma apply_command_simps [simp]:
  "pw_live (apply_command c w) = pw_live w" "pw_tasks (apply_command c w) = pw_tasks w"
  "pw_answers (apply_command c w) = pw_answers w" "pw_next (apply_command c w) = pw_next w"
  by (simp_all add: apply_command_def split: node_command.split)

lemma apply_commands_simps [simp]:
  "pw_live (fold apply_command cs w) = pw_live w" "pw_tasks (fold apply_command cs w) = pw_tasks w"
  "pw_answers (fold apply_command cs w) = pw_answers w" "pw_next (fold apply_command cs w) = pw_next w"
  by (induction cs arbitrary: w) simp_all

lemma put_task_simps [simp]:
  "pw_live (put_task n r w) = pw_live w" "pw_tasks (put_task n r w) = (pw_tasks w)(n \<mapsto> fst r)"
  "pw_answers (put_task n r w) = pw_answers w" "pw_next (put_task n r w) = Suc (pw_next w)"
  by (simp_all add: put_task_def)

lemma put_task_dht: "pw_dht (put_task n (t, []) w) = pw_dht w"
  "pw_dht (put_task n (t, [ProfileLookup i ch]) w) = pw_dht w"
  "pw_dht (put_task n (t, [ProfileTokenLookup i ch]) w) = pw_dht w"
  "pw_dht (put_task n (t, [ProfileStore i b]) w) = (pw_dht w)(profile_key i \<mapsto> b)"
  "pw_dht (put_task n (t, [ProfileTokenStore i b]) w) = (pw_dht w)(update_key i \<mapsto> b)"
  by (simp_all add: put_task_def apply_command_def put_call_def)

lemma put_task_asked: "pw_asked (put_task n (t, []) w) = pw_asked w"
  "pw_asked (put_task n (t, [ProfileLookup i ch]) w) = (pw_asked w)(ch \<mapsto> profile_key i)"
  "pw_asked (put_task n (t, [ProfileTokenLookup i ch]) w) = (pw_asked w)(ch \<mapsto> update_key i)"
  "pw_asked (put_task n (t, [ProfileStore i b]) w) = pw_asked w"
  "pw_asked (put_task n (t, [ProfileTokenStore i b]) w) = pw_asked w"
  by (simp_all add: put_task_def apply_command_def)

lemmas put_task_effects = put_task_dht put_task_asked


section \<open>Channels\<close>

definition task_key :: "profile_task \<Rightarrow> bytes" where
  "task_key t = (case t of
      RegLooksUp i b ch \<Rightarrow> profile_key i | RegChecksToken i b ch \<Rightarrow> update_key i
    | Looking i ch \<Rightarrow> profile_key i | UpdChecksToken i p b ch \<Rightarrow> update_key i | _ \<Rightarrow> [])"

text \<open>
  A task waits on a channel of its own, on which the key it needs was asked; later channels are
  unused.
\<close>

definition world_wf :: "profile_world \<Rightarrow> bool" where
  "world_wf w \<longleftrightarrow>
     (\<forall>ch \<ge> pw_next w. pw_asked w ch = None \<and> pw_answers w ch = None) \<and>
     (\<forall>n t ch. pw_tasks w n = Some t \<and> waits_on t = Some ch \<longrightarrow> ch < pw_next w \<and> pw_asked w ch = Some (task_key t)) \<and>
     (\<forall>n n' t t' ch. pw_tasks w n = Some t \<and> pw_tasks w n' = Some t' \<and> waits_on t = Some ch \<and>
        waits_on t' = Some ch \<longrightarrow> n = n')"

lemma world_wfD:
  assumes "world_wf w"
  shows "pw_next w \<le> ch \<Longrightarrow> pw_asked w ch = None" "pw_next w \<le> ch \<Longrightarrow> pw_answers w ch = None"
    and "pw_tasks w n = Some t \<Longrightarrow> waits_on t = Some ch \<Longrightarrow> ch < pw_next w \<and> pw_asked w ch = Some (task_key t)"
    and "pw_tasks w n = Some t \<Longrightarrow> pw_tasks w n' = Some t' \<Longrightarrow> waits_on t = Some ch \<Longrightarrow> waits_on t' = Some ch \<Longrightarrow> n = n'"
  using assms unfolding world_wf_def by blast+

text \<open>A move of a task either waits for nothing, or asks on the channel it is given and waits there.\<close>

definition asks_on :: "nat \<Rightarrow> profile_task \<times> node_command list \<Rightarrow> bool" where
  "asks_on ch r \<longleftrightarrow>
     (waits_on (fst r) = None \<and> (\<forall>n w. pw_asked (put_task n r w) = pw_asked w)) \<or>
     (waits_on (fst r) = Some ch \<and> (\<forall>n w. pw_asked (put_task n r w) = (pw_asked w)(ch \<mapsto> task_key (fst r))))"

lemma begin_asks: "asks_on ch (begin_profile tx live opcode payload ch)"
  by (auto simp: begin_profile_def asks_on_def waits_on_def task_key_def put_task_effects)

lemma resume_asks: "asks_on ch (send_or_stop live (resume_profile token ch answer t))"
  by (cases t)
    (auto simp: resume_profile_def send_or_stop_def asks_on_def waits_on_def task_key_def put_task_effects
      split: option.split)

lemma put_task_wf:
  assumes wf: "world_wf w" and r: "asks_on (pw_next w) r"
  shows "world_wf (put_task n r w)"
  using r unfolding asks_on_def
proof (elim disjE conjE)
  assume "waits_on (fst r) = None" "\<forall>n w. pw_asked (put_task n r w) = pw_asked w"
  then show ?thesis using wf unfolding world_wf_def by (simp add: less_SucI Suc_le_eq less_imp_le)
next
  assume w: "waits_on (fst r) = Some (pw_next w)"
    and a: "\<forall>n v. pw_asked (put_task n r v) = (pw_asked v)(pw_next w \<mapsto> task_key (fst r))"
  note D = world_wfD[OF wf]
  have old: "ch < pw_next w \<and> pw_asked w ch = Some (task_key t)" if "pw_tasks w m = Some t" "waits_on t = Some ch" for m t ch
    using D(3) that by blast
  show ?thesis
    unfolding world_wf_def put_task_simps a[rule_format, of n w]
  proof (intro conjI)
    show "\<forall>ch \<ge> Suc (pw_next w). ((pw_asked w)(pw_next w \<mapsto> task_key (fst r))) ch = None \<and> pw_answers w ch = None"
      using D(1,2) by auto
    show "\<forall>m t ch. ((pw_tasks w)(n \<mapsto> fst r)) m = Some t \<and> waits_on t = Some ch \<longrightarrow>
        ch < Suc (pw_next w) \<and> ((pw_asked w)(pw_next w \<mapsto> task_key (fst r))) ch = Some (task_key t)"
    proof (intro allI impI)
      fix m t ch
      assume t: "((pw_tasks w)(n \<mapsto> fst r)) m = Some t \<and> waits_on t = Some ch"
      show "ch < Suc (pw_next w) \<and> ((pw_asked w)(pw_next w \<mapsto> task_key (fst r))) ch = Some (task_key t)"
      proof (cases "m = n")
        case True
        then show ?thesis using t w by auto
      next
        case False
        then have "ch < pw_next w \<and> pw_asked w ch = Some (task_key t)" using t old[of m t ch] by simp
        then show ?thesis by auto
      qed
    qed
    show "\<forall>m m' t t' ch. ((pw_tasks w)(n \<mapsto> fst r)) m = Some t \<and> ((pw_tasks w)(n \<mapsto> fst r)) m' = Some t' \<and>
        waits_on t = Some ch \<and> waits_on t' = Some ch \<longrightarrow> m = m'"
      using w old D(4) by (auto split: if_splits)
  qed
qed

lemma profile_step_wf:
  assumes wf: "world_wf w" and r: "profile_step inp w = Some w'"
  shows "world_wf w'"
proof (cases inp)
  case (Begins n opcode payload)
  then show ?thesis using r wf put_task_wf[OF wf begin_asks] by (auto simp: profile_step_def split: if_splits)
next
  case (Replies ch)
  show ?thesis
  proof (cases "\<exists>key. pw_asked w ch = Some key \<and> pw_answers w ch = None")
    case True
    then obtain key where k: "pw_asked w ch = Some key" "pw_answers w ch = None" by blast
    then have "ch < pw_next w" using world_wfD(1)[OF wf, of ch] by (metis not_le option.distinct(1))
    then show ?thesis using r Replies wf k by (auto simp: profile_step_def world_wf_def)
  next
    case False
    then have "w' = w" using r Replies by (auto simp: profile_step_def split: option.splits)
    then show ?thesis using wf by simp
  qed
next
  case (Proceeds n token)
  then show ?thesis
    using r wf put_task_wf[OF wf resume_asks] by (auto simp: profile_step_def split: option.splits)
next
  case (Expires n token)
  then show ?thesis
    using r wf put_task_wf[OF wf resume_asks] by (auto simp: profile_step_def split: option.splits if_splits)
qed

interpretation profile_tasks: machine profile_step world_wf
  by unfold_locales (rule profile_step_wf)

lemma profile_start_wf: "world_wf (profile_world_start m)"
  by (simp add: world_wf_def profile_world_start_def)

end
