(* ===== verification/Profile_Races.thy ===== *)
theory Profile_Races
  imports Profile_Tasks
begin

text \<open>
  What interleavings do to the profile handlers. A task whose index nobody else works on behaves as
  the handler in one piece; the token of a registered profile withstands every interleaving in which
  no wait expires; two registrations of a free name both succeed, and one that waits in vain takes
  over a registered name.
\<close>

section \<open>A task and the others\<close>

definition task_index :: "profile_task \<Rightarrow> bytes option" where
  "task_index t = (case t of
      RegLooksUp i b ch \<Rightarrow> Some i | RegChecksToken i b ch \<Rightarrow> Some i | RegStoresToken i tok \<Rightarrow> Some i
    | Looking i ch \<Rightarrow> Some i | UpdChecksToken i p b ch \<Rightarrow> Some i | Answered r \<Rightarrow> None)"

lemma task_index_simps [simp]:
  "task_index (RegLooksUp i b ch) = Some i" "task_index (RegChecksToken i b ch) = Some i"
  "task_index (RegStoresToken i tok) = Some i" "task_index (Looking i ch) = Some i"
  "task_index (UpdChecksToken i p b ch) = Some i" "task_index (Answered r) = None"
  by (simp_all add: task_index_def)

lemma waits_on_simps [simp]:
  "waits_on (RegLooksUp i b ch) = Some ch" "waits_on (RegChecksToken i b ch) = Some ch"
  "waits_on (RegStoresToken i tok) = None" "waits_on (Looking i ch) = Some ch"
  "waits_on (UpdChecksToken i p b ch) = Some ch" "waits_on (Answered r) = None"
  by (simp_all add: waits_on_def)

lemma task_key_simps [simp]:
  "task_key (RegLooksUp i b ch) = profile_key i" "task_key (RegChecksToken i b ch) = update_key i"
  "task_key (Looking i ch) = profile_key i" "task_key (UpdChecksToken i p b ch) = update_key i"
  by (simp_all add: task_key_def)

text \<open>The two records of a name.\<close>

type_synonym name_view = "bytes option \<times> bytes option"

definition view_of :: "bytes \<Rightarrow> (bytes \<rightharpoonup> bytes) \<Rightarrow> name_view" where
  "view_of i m = (m (profile_key i), m (update_key i))"

lemma view_of_simps [simp]:
  "view_of i (m(profile_key i \<mapsto> b)) = (Some b, snd (view_of i m))"
  "view_of i (m(update_key i \<mapsto> t)) = (fst (view_of i m), Some t)"
  "j \<noteq> i \<Longrightarrow> view_of i (m(profile_key j \<mapsto> b)) = view_of i m"
  "j \<noteq> i \<Longrightarrow> view_of i (m(update_key j \<mapsto> b)) = view_of i m"
  by (simp_all add: view_of_def)

definition seen :: "(nat \<rightharpoonup> bytes option) \<Rightarrow> nat \<Rightarrow> bytes option \<Rightarrow> bytes option" where
  "seen answers ch now = (case answers ch of None \<Rightarrow> now | Some a \<Rightarrow> a)"

text \<open>What a task will answer, and leave as the records of its name, if nobody else touches them.\<close>

definition outcome ::
    "name_view \<Rightarrow> (nat \<rightharpoonup> bytes option) \<Rightarrow> bytes \<Rightarrow> profile_task \<Rightarrow> bytes option \<times> name_view" where
  "outcome v answers token t =
     (let registered = \<lambda>b. (Some (PROFILE_SUCCESS @ token), (Some b, Some token));
          occupied = (Some PROFILE_OCCUPIED, v) in
      case t of
        RegLooksUp i b ch \<Rightarrow>
          if seen answers ch (fst v) = None \<or> snd v = None then registered b else occupied
      | RegChecksToken i b ch \<Rightarrow> if seen answers ch (snd v) = None then registered b else occupied
      | RegStoresToken i tok \<Rightarrow> (Some (PROFILE_SUCCESS @ tok), (fst v, Some tok))
      | Looking i ch \<Rightarrow>
          (case seen answers ch (fst v) of
             Some d \<Rightarrow> (Some ([0xFE, 0x01] @ u16_le (word_of_nat (length d)) @ d), v)
           | None \<Rightarrow> (Some [0xFF, 0x01, 0x00], v))
      | UpdChecksToken i p b ch \<Rightarrow>
          (case seen answers ch (snd v) of
             None \<Rightarrow> (Some [0xFF, 0x03, 0x02], v)
           | Some tok \<Rightarrow>
               if tok \<noteq> p then (Some [0xFF, 0x03, 0x01], v) else (Some [0xFE, 0x03, 0x00], (Some b, snd v)))
      | Answered r \<Rightarrow> (r, v))"

definition prospect :: "bytes \<Rightarrow> bytes \<Rightarrow> nat \<Rightarrow> profile_world \<Rightarrow> (bytes option \<times> name_view) option" where
  "prospect i token n w =
     map_option (outcome (view_of i (pw_dht w)) (pw_answers w) token) (pw_tasks w n)"

definition elsewhere :: "nat \<Rightarrow> bytes \<Rightarrow> profile_world \<Rightarrow> bool" where
  "elsewhere n i w \<longleftrightarrow> (\<forall>m t. pw_tasks w m = Some t \<longrightarrow>
     (if m = n then task_index t = None \<or> task_index t = Some i else task_index t \<noteq> Some i))"

text \<open>The request before any step of it foresees the result of the handler.\<close>

lemma begin_outcome:
  assumes "answers ch = None"
  shows "outcome (view_of (take 32 payload) m) answers token (fst (begin_profile True True opcode payload ch)) =
    (let (r, m') = profile_response dht_ops token opcode payload m in (r, view_of (take 32 payload) m'))"
  using assms
  by (auto simp: begin_profile_def profile_response_def handle_register_profile_def handle_lookup_profile_def
      handle_unregister_profile_def handle_update_profile_def dht_ops_def put_call_def outcome_def seen_def Let_def
      view_of_def split: option.split)

lemma begin_index:
  "task_index (fst (begin_profile tx live opcode payload ch)) = None \<or>
   task_index (fst (begin_profile tx live opcode payload ch)) = Some (take 32 payload)"
  by (simp add: begin_profile_def)

lemma resume_index:
  "task_index (fst (send_or_stop live (resume_profile token ch answer t))) = None \<or>
   task_index (fst (send_or_stop live (resume_profile token ch answer t))) = task_index t"
  by (cases t) (auto simp: resume_profile_def send_or_stop_def split: option.split)

lemma begin_dht: "pw_dht (put_task m (begin_profile tx live opcode payload ch) w) = pw_dht w"
  by (simp add: begin_profile_def put_task_effects)

lemma resume_dht_other:
  "task_index t \<noteq> Some i \<Longrightarrow>
     view_of i (pw_dht (put_task m (send_or_stop live (resume_profile token ch answer t)) w)) = view_of i (pw_dht w)"
  by (cases t) (auto simp: resume_profile_def send_or_stop_def put_task_effects split: option.split)

text \<open>A move of the task itself keeps what it is heading for.\<close>

lemma resume_outcome:
  assumes "task_index t = None \<or> task_index t = Some i" "pw_answers w ch = None"
    and "case waits_on t of None \<Rightarrow> answer = None | Some c \<Rightarrow> pw_answers w c = Some answer"
  shows "outcome (view_of i (pw_dht (put_task n (send_or_stop True (resume_profile token ch answer t)) w)))
      (pw_answers w) token (fst (send_or_stop True (resume_profile token ch answer t))) =
    outcome (view_of i (pw_dht w)) (pw_answers w) token t"
  using assms
  by (cases t) (auto simp: resume_profile_def send_or_stop_def put_task_effects outcome_def seen_def Let_def
      split: option.splits)


lemma outcome_reply:
  assumes "waits_on t = Some ch \<Longrightarrow> key = task_key t" "answers ch = None" "task_index t = None \<or> task_index t = Some i"
  shows "outcome (view_of i m) (answers(ch \<mapsto> m key)) token t = outcome (view_of i m) answers token t"
  using assms by (cases t) (auto simp: outcome_def seen_def view_of_def Let_def)

lemma elsewhere_put:
  assumes "elsewhere n i w" "if m = n then task_index (fst r) = None \<or> task_index (fst r) = Some i
    else task_index (fst r) \<noteq> Some i"
  shows "elsewhere n i (put_task m r w)"
  using assms by (simp add: elsewhere_def)

lemma elsewhereD:
  assumes "elsewhere n i w" "pw_tasks w m = Some t"
  shows "m = n \<Longrightarrow> task_index t = None \<or> task_index t = Some i" "m \<noteq> n \<Longrightarrow> task_index t \<noteq> Some i"
  using assms by (auto simp: elsewhere_def)

text \<open>The inputs that leave the name to one task, which never runs out of time.\<close>

definition leaves_alone :: "nat \<Rightarrow> bytes \<Rightarrow> bytes \<Rightarrow> profile_input \<Rightarrow> bool" where
  "leaves_alone n i token inp = (case inp of
      Begins m opcode payload \<Rightarrow> take 32 payload \<noteq> i
    | Replies ch \<Rightarrow> True
    | Proceeds m tok \<Rightarrow> m = n \<longrightarrow> tok = token
    | Expires m tok \<Rightarrow> m \<noteq> n)"

definition alone_inv :: "nat \<Rightarrow> bytes \<Rightarrow> profile_world \<Rightarrow> bool" where
  "alone_inv n i w \<longleftrightarrow> world_wf w \<and> pw_live w \<and> elsewhere n i w \<and> pw_tasks w n \<noteq> None"

text \<open>A move of another task.\<close>

lemma other_move:
  assumes inv: "alone_inv n i w" and m: "m \<noteq> n" and t: "pw_tasks w m = Some t"
    and w': "w' = put_task m (send_or_stop (pw_live w) (resume_profile tok (pw_next w) answer t)) w"
  shows "elsewhere n i w' \<and> prospect i token n w' = prospect i token n w"
proof -
  have t': "task_index t \<noteq> Some i" using elsewhereD(2)[OF _ t m] inv by (simp add: alone_inv_def)
  let ?r = "send_or_stop (pw_live w) (resume_profile tok (pw_next w) answer t)"
  have "task_index (fst ?r) \<noteq> Some i" using resume_index[of "pw_live w" tok "pw_next w" answer t] t' by auto
  then have "elsewhere n i w'" using elsewhere_put[of n i w m ?r] inv m by (simp add: w' alone_inv_def)
  then show ?thesis using m resume_dht_other[OF t'] by (simp add: prospect_def w')
qed

lemma own_move:
  assumes inv: "alone_inv n i w" and t: "pw_tasks w n = Some t"
    and answer: "case waits_on t of None \<Rightarrow> answer = None | Some c \<Rightarrow> pw_answers w c = Some answer"
    and w': "w' = put_task n (send_or_stop (pw_live w) (resume_profile token (pw_next w) answer t)) w"
  shows "elsewhere n i w' \<and> prospect i token n w' = prospect i token n w"
proof -
  have live: "pw_live w" and t': "task_index t = None \<or> task_index t = Some i"
    using elsewhereD(1)[OF _ t refl] inv by (simp_all add: alone_inv_def)
  let ?r = "send_or_stop (pw_live w) (resume_profile token (pw_next w) answer t)"
  have "task_index (fst ?r) = None \<or> task_index (fst ?r) = Some i"
    using resume_index[of "pw_live w" token "pw_next w" answer t] t' by auto
  then have e: "elsewhere n i w'" using elsewhere_put[of n i w n ?r] inv by (simp add: w' alone_inv_def)
  have "pw_answers w (pw_next w) = None" using inv world_wfD(2)[of w "pw_next w"] by (simp add: alone_inv_def)
  from resume_outcome[OF t' this answer] show ?thesis using e live t by (simp add: prospect_def w')
qed

lemma alone_step:
  assumes inv: "alone_inv n i w" and ok: "leaves_alone n i token inp" and r: "profile_step inp w = Some w'"
  shows "alone_inv n i w' \<and> prospect i token n w' = prospect i token n w"
proof -
  have wf: "world_wf w" and live: "pw_live w" and el: "elsewhere n i w" and has: "pw_tasks w n \<noteq> None"
    using inv by (simp_all add: alone_inv_def)
  have wf': "world_wf w'" by (rule profile_step_wf[OF wf r])
  have put: "alone_inv n i w' \<and> prospect i token n w' = prospect i token n w"
    if "w' = put_task m x w" "elsewhere n i w' \<and> prospect i token n w' = prospect i token n w" for m x
    using that wf' live has by (auto simp: alone_inv_def)
  have same: ?thesis if "w' = w" using that inv by simp
  show ?thesis
  proof (cases inp)
    case (Begins m opcode payload)
    show ?thesis
    proof (cases "pw_tasks w m")
      case None
      let ?r = "begin_profile True (pw_live w) opcode payload (pw_next w)"
      have w': "w' = put_task m ?r w" using r Begins None by (simp add: profile_step_def)
      have m: "m \<noteq> n" "take 32 payload \<noteq> i" using has None ok Begins by (auto simp: leaves_alone_def)
      then have "elsewhere n i w'"
        using elsewhere_put[OF el, of m ?r] begin_index[of True "pw_live w" opcode payload "pw_next w"] by (auto simp: w')
      moreover have "prospect i token n w' = prospect i token n w"
        using m by (simp add: prospect_def w' begin_dht)
      ultimately show ?thesis using put[OF w'] by blast
    qed (use same r Begins in \<open>simp add: profile_step_def\<close>)
  next
    case (Replies ch)
    show ?thesis
    proof (cases "\<exists>key. pw_asked w ch = Some key \<and> pw_answers w ch = None")
      case True
      then obtain key where k: "pw_asked w ch = Some key" "pw_answers w ch = None" by blast
      then have w': "w' = w\<lparr>pw_answers := (pw_answers w)(ch \<mapsto> pw_dht w key)\<rparr>"
        using r Replies by (simp add: profile_step_def)
      obtain t where t: "pw_tasks w n = Some t" using has by blast
      have "waits_on t = Some ch \<Longrightarrow> key = task_key t" using world_wfD(3)[OF wf t] k(1) by auto
      from outcome_reply[of t ch key "pw_answers w" i "pw_dht w" token, OF this k(2) elsewhereD(1)[OF el t refl]]
      have "prospect i token n w' = prospect i token n w" using t by (simp add: prospect_def w')
      then show ?thesis using wf' live el has by (simp add: alone_inv_def elsewhere_def w')
    next
      case False
      then have "w' = w" using r Replies by (auto simp: profile_step_def split: option.splits)
      then show ?thesis by (rule same)
    qed
  next
    case (Proceeds m tok)
    show ?thesis
    proof (cases "pw_tasks w m")
      case (Some t)
      define answer where "answer = (case waits_on t of None \<Rightarrow> None | Some c \<Rightarrow> Option.bind (pw_answers w c) id)"
      show ?thesis
      proof (cases "\<exists>c. waits_on t = Some c \<and> pw_answers w c = None")
        case True
        then show ?thesis using same r Proceeds Some by (auto simp: profile_step_def)
      next
        case False
        then have w': "w' = put_task m (send_or_stop (pw_live w) (resume_profile tok (pw_next w) answer t)) w"
          and a: "case waits_on t of None \<Rightarrow> answer = None | Some c \<Rightarrow> pw_answers w c = Some answer"
          using r Proceeds Some by (auto simp: profile_step_def answer_def split: option.splits)
        have "m = n \<Longrightarrow> tok = token" using ok Proceeds by (simp add: leaves_alone_def)
        then show ?thesis using put[OF w'] own_move[OF inv _ a] other_move[OF inv _ Some w'] Some w' by blast
      qed
    qed (use same r Proceeds in \<open>simp add: profile_step_def\<close>)
  next
    case (Expires m tok)
    have m: "m \<noteq> n" using ok Expires by (simp add: leaves_alone_def)
    show ?thesis
    proof (cases "\<exists>t. pw_tasks w m = Some t \<and> waits_on t \<noteq> None")
      case True
      then obtain t where t: "pw_tasks w m = Some t" "waits_on t \<noteq> None" by blast
      then have w': "w' = put_task m (send_or_stop (pw_live w) (resume_profile tok (pw_next w) None t)) w"
        using r Expires by (auto simp: profile_step_def)
      show ?thesis by (rule put[OF w' other_move[OF inv m t(1) w']])
    next
      case False
      then have "w' = w" using r Expires by (auto simp: profile_step_def split: option.splits)
      then show ?thesis by (rule same)
    qed
  qed
qed

lemma alone_run:
  assumes "alone_inv n i w" "\<forall>inp \<in> set ins. leaves_alone n i token inp" "run_steps profile_step ins w = Some w'"
  shows "alone_inv n i w' \<and> prospect i token n w' = prospect i token n w"
  using assms
proof (induction ins arbitrary: w)
  case Nil
  then show ?case by simp
next
  case (Cons inp ins)
  then obtain w1 where w1: "profile_step inp w = Some w1" "run_steps profile_step ins w1 = Some w'"
    by (auto simp: bind_eq_Some_conv)
  have "alone_inv n i w1 \<and> prospect i token n w1 = prospect i token n w"
    using alone_step[OF Cons.prems(1) _ w1(1), of token] Cons.prems(2) by simp
  moreover have "\<forall>x \<in> set ins. leaves_alone n i token x" using Cons.prems(2) by simp
  ultimately show ?case using Cons.IH[OF _ _ w1(2)] by simp
qed

text \<open>C17: Requests for different names do not disturb each other, as long as answers come in time. Take
  any set of profile requests under way, while the channel to the node is open, and start one more. If
  nobody else works on its name until it is answered and none of its own waits expires, then, however its
  steps and lookups interleave with everybody else's, its answer and the two records it leaves for the
  name are those of the handler run in one piece on the records of the beginning. Without the
  condition on the waits \<open>expired_lookup_takes_over\<close> refutes it.\<close>

theorem profile_requests_isolated:
  assumes w: "world_wf w" "pw_live w" "pw_tasks w n = None"
    and others: "\<forall>m t. pw_tasks w m = Some t \<longrightarrow> task_index t \<noteq> Some (take 32 payload)"
    and run: "run_steps profile_step (Begins n opcode payload # ins) w = Some w'"
    and calm: "\<forall>inp \<in> set ins. leaves_alone n (take 32 payload) token inp"
    and ended: "pw_tasks w' n = Some (Answered r)"
  shows "\<exists>m'. profile_response dht_ops token opcode payload (pw_dht w) = (r, m') \<and>
    pw_dht w' (profile_key (take 32 payload)) = m' (profile_key (take 32 payload)) \<and>
    pw_dht w' (update_key (take 32 payload)) = m' (update_key (take 32 payload))"
proof -
  let ?i = "take 32 payload" and ?b = "begin_profile True True opcode payload (pw_next w)"
  let ?w1 = "put_task n ?b w"
  have r: "run_steps profile_step ins ?w1 = Some w'" using run w(2,3) by (simp add: profile_step_def)
  have "world_wf ?w1" using w(1) begin_asks by (rule put_task_wf)
  moreover have "elsewhere n ?i ?w1"
    using others begin_index[of True True opcode payload "pw_next w"] by (auto simp: elsewhere_def)
  ultimately have "alone_inv n ?i ?w1" using w(2) by (simp add: alone_inv_def)
  from alone_run[OF this calm r] have p: "prospect ?i token n w' = prospect ?i token n ?w1" by blast
  have "pw_answers w (pw_next w) = None" using world_wfD(2)[OF w(1)] by blast
  from begin_outcome[of "pw_answers w" "pw_next w", OF this, of payload "pw_dht w" token opcode] p ended
  show ?thesis by (auto simp: prospect_def begin_dht outcome_def view_of_def split: prod.splits)
qed

theorem profile_requests_isolated_witness:
  "let i = replicate 32 1; w0 = profile_world_start (Map.empty :: bytes \<rightharpoonup> bytes);
      ins = [Begins 2 0x02 (replicate 32 2), Replies 0, Replies 1, Proceeds 2 [], Proceeds 1 [7], Proceeds 1 [7]]
   in \<exists>w' m'. run_steps profile_step (Begins 1 0x01 (i @ [5]) # ins) w0 = Some w' \<and>
     pw_tasks w' 1 = Some (Answered (Some (PROFILE_SUCCESS @ [7]))) \<and>
     profile_response dht_ops [7] 0x01 (i @ [5]) Map.empty = (Some (PROFILE_SUCCESS @ [7]), m')"
proof -
  let ?i = "replicate 32 1 :: bytes" and ?w0 = "profile_world_start (Map.empty :: bytes \<rightharpoonup> bytes)"
  let ?ins = "[Begins 2 0x02 (replicate 32 2), Replies 0, Replies 1, Proceeds 2 [], Proceeds 1 [7], Proceeds 1 [7]]"
  obtain w' where w': "run_steps profile_step (Begins 1 0x01 (?i @ [5]) # ?ins) ?w0 = Some w'"
    "pw_tasks w' 1 = Some (Answered (Some (PROFILE_SUCCESS @ [7])))"
    by (simp add: profile_step_def profile_world_start_def begin_profile_def put_task_def apply_command_def
        resume_profile_def send_or_stop_def put_call_def)
  have "\<forall>inp \<in> set ?ins. leaves_alone 1 (take 32 (?i @ [5])) [7] inp"
    by (simp add: leaves_alone_def replicate_eq_replicate)
  from profile_requests_isolated[OF profile_start_wf _ _ _ w'(1) this w'(2)] w'
  show ?thesis by (auto simp: Let_def profile_world_start_def)
qed



section \<open>The token under interleaving\<close>

text \<open>
  A task that cannot hurt a registered name: it has not been told that the name is free or without
  token, is not about to store a token, and presents another token than the one it may have been told.
\<close>

definition harmless :: "bytes \<Rightarrow> bytes \<Rightarrow> (nat \<rightharpoonup> bytes option) \<Rightarrow> profile_task \<Rightarrow> bool" where
  "harmless i tok answers t = (case t of
      RegLooksUp j b ch \<Rightarrow> j = i \<longrightarrow> answers ch \<noteq> Some None
    | RegChecksToken j b ch \<Rightarrow> j = i \<longrightarrow> answers ch \<noteq> Some None
    | RegStoresToken j t \<Rightarrow> j \<noteq> i
    | UpdChecksToken j p b ch \<Rightarrow> j = i \<longrightarrow> p \<noteq> tok \<and> answers ch \<noteq> Some (Some p)
    | _ \<Rightarrow> True)"

definition guarded :: "bytes \<Rightarrow> bytes \<Rightarrow> bytes \<Rightarrow> profile_world \<Rightarrow> bool" where
  "guarded i b tok w \<longleftrightarrow> world_wf w \<and> view_of i (pw_dht w) = (Some b, Some tok) \<and>
     (\<forall>m t. pw_tasks w m = Some t \<longrightarrow> harmless i tok (pw_answers w) t)"

definition no_theft :: "bytes \<Rightarrow> bytes \<Rightarrow> profile_input \<Rightarrow> bool" where
  "no_theft i tok inp = (case inp of
      Begins m opcode payload \<Rightarrow> \<not> presents i tok ([], opcode, payload)
    | Expires m token \<Rightarrow> False
    | _ \<Rightarrow> True)"

lemma begin_harmless:
  assumes "\<not> presents i tok ([], opcode, payload)" "answers ch = None"
  shows "harmless i tok answers (fst (begin_profile tx live opcode payload ch))"
  using assms by (auto simp: begin_profile_def harmless_def presents_def)

lemma resume_harmless:
  assumes "harmless i tok (pw_answers w) t" "pw_answers w ch = None"
    and "case waits_on t of None \<Rightarrow> answer = None | Some c \<Rightarrow> pw_answers w c = Some answer"
  shows "harmless i tok (pw_answers w) (fst (send_or_stop live (resume_profile token ch answer t)))"
    and "view_of i (pw_dht (put_task m (send_or_stop live (resume_profile token ch answer t)) w)) = view_of i (pw_dht w)"
  using assms
  by (cases t; auto simp: resume_profile_def send_or_stop_def harmless_def put_task_effects view_of_def
      split: option.splits)+

lemma reply_harmless:
  assumes "harmless i tok answers t" "waits_on t = Some ch \<Longrightarrow> key = task_key t" "view_of i m = (Some b, Some tok)"
  shows "harmless i tok (answers(ch \<mapsto> m key)) t"
  using assms by (cases t) (auto simp: harmless_def view_of_def)

lemma guarded_step:
  assumes inv: "guarded i b tok w" and ok: "no_theft i tok inp" and r: "profile_step inp w = Some w'"
  shows "guarded i b tok w'"
proof -
  have wf: "world_wf w" and v: "view_of i (pw_dht w) = (Some b, Some tok)"
    and h: "\<And>m t. pw_tasks w m = Some t \<Longrightarrow> harmless i tok (pw_answers w) t"
    using inv by (simp_all add: guarded_def)
  have wf': "world_wf w'" by (rule profile_step_wf[OF wf r])
  have fresh: "pw_answers w (pw_next w) = None" using world_wfD(2)[OF wf] by blast
  have put: ?thesis if "w' = put_task m x w" "harmless i tok (pw_answers w) (fst x)"
    "view_of i (pw_dht (put_task m x w)) = view_of i (pw_dht w)" for m x
    using that wf' v h by (auto simp: guarded_def)
  have same: ?thesis if "w' = w" using that inv by simp
  show ?thesis
  proof (cases inp)
    case (Begins m opcode payload)
    show ?thesis
    proof (cases "pw_tasks w m")
      case None
      let ?r = "begin_profile True (pw_live w) opcode payload (pw_next w)"
      have w': "w' = put_task m ?r w" using r Begins None by (simp add: profile_step_def)
      have "harmless i tok (pw_answers w) (fst ?r)"
        using begin_harmless ok Begins fresh by (simp add: no_theft_def)
      then show ?thesis using put[OF w'] by (simp add: begin_dht)
    qed (use same r Begins in \<open>simp add: profile_step_def\<close>)
  next
    case (Replies ch)
    show ?thesis
    proof (cases "\<exists>key. pw_asked w ch = Some key \<and> pw_answers w ch = None")
      case True
      then obtain key where k: "pw_asked w ch = Some key" "pw_answers w ch = None" by blast
      then have w': "w' = w\<lparr>pw_answers := (pw_answers w)(ch \<mapsto> pw_dht w key)\<rparr>"
        using r Replies by (simp add: profile_step_def)
      have "harmless i tok ((pw_answers w)(ch \<mapsto> pw_dht w key)) t" if t: "pw_tasks w m = Some t" for m t
      proof -
        have "key = task_key t" if "waits_on t = Some ch" using world_wfD(3)[OF wf t that] k(1) by simp
        from reply_harmless[OF h[OF t] this v] show ?thesis .
      qed
      then show ?thesis using wf' v by (simp add: guarded_def w')
    next
      case False
      then have "w' = w" using r Replies by (auto simp: profile_step_def split: option.splits)
      then show ?thesis by (rule same)
    qed
  next
    case (Proceeds m token)
    show ?thesis
    proof (cases "\<exists>t. pw_tasks w m = Some t \<and> (\<forall>c. waits_on t = Some c \<longrightarrow> pw_answers w c \<noteq> None)")
      case True
      then obtain t where t: "pw_tasks w m = Some t" "\<forall>c. waits_on t = Some c \<longrightarrow> pw_answers w c \<noteq> None" by blast
      define answer where "answer = (case waits_on t of None \<Rightarrow> None | Some c \<Rightarrow> Option.bind (pw_answers w c) id)"
      have w': "w' = put_task m (send_or_stop (pw_live w) (resume_profile token (pw_next w) answer t)) w"
        and a: "case waits_on t of None \<Rightarrow> answer = None | Some c \<Rightarrow> pw_answers w c = Some answer"
        using r Proceeds t by (auto simp: profile_step_def answer_def split: option.splits)
      show ?thesis
        using put[OF w'] resume_harmless[OF h[OF t(1)] fresh a] by blast
    next
      case False
      then have "w' = w" using r Proceeds by (auto simp: profile_step_def split: option.splits)
      then show ?thesis by (rule same)
    qed
  next
    case (Expires m token)
    then show ?thesis using ok by (simp add: no_theft_def)
  qed
qed

text \<open>The token guards a registered name under every interleaving. Once a name has a blob and a token, and
  no request that was told otherwise is still under way, no interleaving of any requests changes
  either record, whatever they register, look up or update, as long as none presents the token and no
  wait for an answer runs out.\<close>

theorem token_survives_interleaving:
  assumes "world_wf w" "pw_dht w (profile_key i) = Some b" "pw_dht w (update_key i) = Some tok"
    and "\<forall>m t. pw_tasks w m = Some t \<longrightarrow> harmless i tok (pw_answers w) t"
    and "\<forall>inp \<in> set ins. no_theft i tok inp" and "run_steps profile_step ins w = Some w'"
  shows "pw_dht w' (profile_key i) = Some b \<and> pw_dht w' (update_key i) = Some tok"
proof -
  have "guarded i b tok w'" if "guarded i b tok w"
    using assms(5,6) that
  proof (induction ins arbitrary: w)
    case Nil
    then show ?case by simp
  next
    case (Cons inp ins)
    then obtain w1 where w1: "profile_step inp w = Some w1" "run_steps profile_step ins w1 = Some w'"
      by (auto simp: bind_eq_Some_conv)
    have "guarded i b tok w1" using guarded_step[OF Cons.prems(3) _ w1(1)] Cons.prems(1) by simp
    then show ?case using Cons.IH[OF _ w1(2)] Cons.prems(1) by simp
  qed
  then show ?thesis using assms(1-4) by (simp add: guarded_def view_of_def)
qed

theorem token_survives_interleaving_witness:
  "let i = replicate 32 1; m = [profile_key i \<mapsto> [5], update_key i \<mapsto> replicate 32 7]
   in \<exists>w'. run_steps profile_step [Begins 1 0x01 (i @ [6]), Begins 2 0x04 (i @ replicate 32 8 @ [6]), Replies 0,
        Replies 1, Proceeds 2 [], Proceeds 1 [9], Replies 3, Proceeds 1 [9]] (profile_world_start m) = Some w' \<and>
     pw_dht w' (profile_key i) = Some [5] \<and> pw_dht w' (update_key i) = Some (replicate 32 7)"
proof -
  let ?i = "replicate 32 1 :: bytes" and ?t = "replicate 32 7 :: bytes"
  let ?m = "[profile_key ?i \<mapsto> [5], update_key ?i \<mapsto> ?t]"
  let ?ins = "[Begins 1 0x01 (?i @ [6]), Begins 2 0x04 (?i @ replicate 32 8 @ [6]), Replies 0,
      Replies 1, Proceeds 2 [], Proceeds 1 [9], Replies 3, Proceeds 1 [9]]"
  have "\<exists>w'. run_steps profile_step ins w = Some w'" for ins w
    by (induction ins arbitrary: w) (auto simp: profile_step_def split: profile_input.split)
  then obtain w' where w': "run_steps profile_step ?ins (profile_world_start ?m) = Some w'" by blast
  have p: "\<not> presents ?i ?t ([], 0x01, ?i @ [6])" "\<not> presents ?i ?t ([], 0x04, ?i @ replicate 32 8 @ [6])"
    by (simp_all add: presents_def slice_def replicate_eq_replicate)
  then have n: "\<forall>inp \<in> set ?ins. no_theft ?i ?t inp" by (simp add: no_theft_def)
  have "pw_dht (profile_world_start ?m) (profile_key ?i) = Some [5]"
    "pw_dht (profile_world_start ?m) (update_key ?i) = Some ?t"
    "\<forall>k t. pw_tasks (profile_world_start ?m) k = Some t \<longrightarrow> harmless ?i ?t (pw_answers (profile_world_start ?m)) t"
    by (simp_all add: profile_world_start_def)
  from token_survives_interleaving[OF profile_start_wf this n w'] w' show ?thesis by (auto simp: Let_def)
qed


section \<open>Races\<close>

text \<open>The owner's attempt to update a name.\<close>

lemma update_refused:
  assumes "length i = 32" "length p = 32" "b \<noteq> []" "m (update_key i) = Some tok" "tok \<noteq> p"
  shows "fst (handle_update_profile dht_ops (i @ p @ b) m) = Some [0xFF, 0x03, 0x01]"
proof -
  have "slice 32 64 (i @ p @ b) = p" using assms(1,2) by (simp add: slice_def)
  then show ?thesis using assms by (simp add: handle_update_profile_def dht_ops_def Let_def)
qed

text \<open>C29: Two clients that register the same free name at the same time both get it. Both lookups are
  answered before either blob is stored, so both are answered with success and a token of their own;
  the records are those of the second, and the first, told to own the name, is refused every update.
  When their last steps come in the other order, the blob is that of the one client and the token that of
  the other, who can replace it, while the owner of the blob cannot.\<close>

theorem registration_race:
  assumes i: "length i = 32" "m (profile_key i) = None" and t: "t1 \<noteq> t2" "length t1 = 32" "length t2 = 32"
    and b: "b \<noteq> []"
  shows "\<exists>w w'. let begun = [Begins 1 0x01 (i @ b1), Begins 2 0x01 (i @ b2), Replies 0, Replies 1,
        Proceeds 1 t1, Proceeds 2 t2] in
      run_steps profile_step (begun @ [Proceeds 1 t1, Proceeds 2 t2]) (profile_world_start m) = Some w \<and>
      run_steps profile_step (begun @ [Proceeds 2 t2, Proceeds 1 t1]) (profile_world_start m) = Some w' \<and>
      pw_tasks w 1 = Some (Answered (Some (PROFILE_SUCCESS @ t1))) \<and>
      pw_tasks w 2 = Some (Answered (Some (PROFILE_SUCCESS @ t2))) \<and> pw_tasks w' = pw_tasks w \<and>
      view_of i (pw_dht w) = (Some b2, Some t2) \<and>
      fst (handle_update_profile dht_ops (i @ t1 @ b) (pw_dht w)) = Some [0xFF, 0x03, 0x01] \<and>
      view_of i (pw_dht w') = (Some b2, Some t1) \<and>
      fst (handle_update_profile dht_ops (i @ t2 @ b) (pw_dht w')) = Some [0xFF, 0x03, 0x01]"
proof -
  let ?begun = "[Begins 1 0x01 (i @ b1), Begins 2 0x01 (i @ b2), Replies 0, Replies 1, Proceeds 1 t1, Proceeds 2 t2]"
  obtain w0 where w0: "run_steps profile_step ?begun (profile_world_start m) = Some w0"
    "pw_tasks w0 = [1 \<mapsto> RegStoresToken i t1, 2 \<mapsto> RegStoresToken i t2]" "pw_live w0"
    "pw_dht w0 = m(profile_key i \<mapsto> b1, profile_key i \<mapsto> b2)"
    using i by (simp add: profile_step_def profile_world_start_def begin_profile_def put_task_def apply_command_def
        resume_profile_def send_or_stop_def put_call_def)
  obtain w where w: "run_steps profile_step [Proceeds 1 t1, Proceeds 2 t2] w0 = Some w"
    "pw_tasks w = [1 \<mapsto> Answered (Some (PROFILE_SUCCESS @ t1)), 2 \<mapsto> Answered (Some (PROFILE_SUCCESS @ t2))]"
    "pw_dht w = m(profile_key i \<mapsto> b2, update_key i \<mapsto> t2)"
    using w0(2-4) by (simp add: profile_step_def resume_profile_def send_or_stop_def put_task_def apply_command_def
        put_call_def fun_upd_twist)
  obtain w' where w': "run_steps profile_step [Proceeds 2 t2, Proceeds 1 t1] w0 = Some w'"
    "pw_tasks w' = [1 \<mapsto> Answered (Some (PROFILE_SUCCESS @ t1)), 2 \<mapsto> Answered (Some (PROFILE_SUCCESS @ t2))]"
    "pw_dht w' = m(profile_key i \<mapsto> b2, update_key i \<mapsto> t1)"
    using w0(2-4) by (simp add: profile_step_def resume_profile_def send_or_stop_def put_task_def apply_command_def
        put_call_def fun_upd_twist)
  have "run_steps profile_step (?begun @ [Proceeds 1 t1, Proceeds 2 t2]) (profile_world_start m) = Some w"
    "run_steps profile_step (?begun @ [Proceeds 2 t2, Proceeds 1 t1]) (profile_world_start m) = Some w'"
    by (simp_all only: run_steps_append w0(1) w(1) w'(1) Option.bind.simps)
  moreover have "fst (handle_update_profile dht_ops (i @ t1 @ b) (pw_dht w)) = Some [0xFF, 0x03, 0x01]"
    by (rule update_refused) (use i t b w(3) in auto)
  moreover have "fst (handle_update_profile dht_ops (i @ t2 @ b) (pw_dht w')) = Some [0xFF, 0x03, 0x01]"
    by (rule update_refused) (use i t b w'(3) in auto)
  ultimately show ?thesis
    unfolding Let_def using w(2,3) w'(2,3) by (intro exI[of _ w] exI[of _ w']) (simp add: view_of_def)
qed

theorem registration_race_witness:
  "\<exists>w. run_steps profile_step ([Begins 1 0x01 (replicate 32 1 @ [5]), Begins 2 0x01 (replicate 32 1 @ [6]), Replies 0,
      Replies 1, Proceeds 1 (replicate 32 7), Proceeds 2 (replicate 32 8)] @
      [Proceeds 1 (replicate 32 7), Proceeds 2 (replicate 32 8)]) (profile_world_start Map.empty) = Some w \<and>
    view_of (replicate 32 1) (pw_dht w) = (Some [6], Some (replicate 32 8))"
proof -
  have t: "replicate 32 7 \<noteq> (replicate 32 8 :: bytes)" by (simp add: replicate_eq_replicate)
  have "[4 :: u8] \<noteq> []" by simp
  from registration_race[OF _ _ t _ _ this, of "replicate 32 1" Map.empty "[5]" "[6]"] show ?thesis
    by (auto simp only: Let_def length_replicate)
qed

text \<open>A lookup that gets no answer in time counts as a free name. A registration of a name that has an
  owner and a token overwrites both records when its wait for the lookup expires; it is answered
  with success, and the owner is refused every update from then on.\<close>

theorem expired_lookup_takes_over:
  assumes i: "length i = 32" "m (profile_key i) = Some b" "m (update_key i) = Some tok"
    and t: "tok' \<noteq> tok" "length tok = 32" and b: "new \<noteq> []"
  shows "\<exists>w. run_steps profile_step [Begins 1 0x01 (i @ b'), Expires 1 tok', Proceeds 1 tok'] (profile_world_start m) =
      Some w \<and> pw_tasks w 1 = Some (Answered (Some (PROFILE_SUCCESS @ tok'))) \<and>
    view_of i (pw_dht w) = (Some b', Some tok') \<and>
    fst (handle_update_profile dht_ops (i @ tok @ new) (pw_dht w)) = Some [0xFF, 0x03, 0x01]"
proof -
  obtain w where w: "run_steps profile_step [Begins 1 0x01 (i @ b'), Expires 1 tok', Proceeds 1 tok'] (profile_world_start m) =
      Some w" "pw_tasks w 1 = Some (Answered (Some (PROFILE_SUCCESS @ tok')))"
    "pw_dht w = m(profile_key i \<mapsto> b', update_key i \<mapsto> tok')"
    using i by (simp add: profile_step_def profile_world_start_def begin_profile_def put_task_def apply_command_def
        resume_profile_def send_or_stop_def put_call_def)
  moreover have "fst (handle_update_profile dht_ops (i @ tok @ new) (pw_dht w)) = Some [0xFF, 0x03, 0x01]"
    by (rule update_refused) (use i t b w(3) in auto)
  ultimately show ?thesis by (intro exI[of _ w]) (simp add: view_of_def)
qed

theorem expired_lookup_takes_over_witness:
  "let i = replicate 32 1; m = [profile_key i \<mapsto> [5], update_key i \<mapsto> replicate 32 7]
   in \<exists>w. run_steps profile_step [Begins 1 0x01 (i @ [6]), Expires 1 (replicate 32 8), Proceeds 1 (replicate 32 8)]
        (profile_world_start m) = Some w \<and> view_of i (pw_dht w) = (Some [6], Some (replicate 32 8))"
proof -
  let ?i = "replicate 32 1 :: bytes" and ?t = "replicate 32 7 :: bytes"
  let ?m = "[profile_key ?i \<mapsto> [5], update_key ?i \<mapsto> ?t]"
  have d: "replicate 32 8 \<noteq> ?t" "[4 :: u8] \<noteq> []" "length ?i = 32" "length ?t = 32"
    by (simp_all add: replicate_eq_replicate)
  have m: "?m (profile_key ?i) = Some [5]" "?m (update_key ?i) = Some ?t" by simp_all
  from expired_lookup_takes_over[where b' = "[6]", OF d(3) m d(1) d(4) d(2)] show ?thesis
    unfolding Let_def by blast
qed

end
