(* ===== verification/Profile_Node.thy ===== *)
theory Profile_Node
  imports Profile_Tasks Node_Theorems
begin

text \<open>
  The node of \<open>server/src/p2p/node.rs\<close> as the record store behind the profile tasks. \<open>Profile_Tasks\<close>
  abstracts from the node: commands change a map of records, and a question on a channel is answered
  from it. Here the node's event loop, with its query ids, its mailbox state machine and its ticks,
  is shown to be such a store when the network answers truthfully.
\<close>

section \<open>Calls of the node\<close>

definition asked_keys :: "net_call list \<Rightarrow> bytes list" where
  "asked_keys cs = List.map_filter (\<lambda>c. case c of GetRecord k \<Rightarrow> Some k | _ \<Rightarrow> None) cs"

definition profile_record :: "bytes \<Rightarrow> bool" where
  "profile_record key \<longleftrightarrow> parse_profile_key key \<noteq> None \<or> parse_update_key key \<noteq> None"

lemma asked_keys_append [simp]: "asked_keys (cs @ ds) = asked_keys cs @ asked_keys ds"
  by (simp add: asked_keys_def List.map_filter_def)

lemma asked_keys_simps [simp]:
  "asked_keys [] = []" "asked_keys (GetRecord k # cs) = k # asked_keys cs"
  "asked_keys (PutRecord k v # cs) = asked_keys cs" "asked_keys (DialPeer a # cs) = asked_keys cs"
  "asked_keys (SubscribeTopic t # cs) = asked_keys cs" "asked_keys (PublishTopic t d # cs) = asked_keys cs"
  "asked_keys (KadBootstrap # cs) = asked_keys cs"
  by (simp_all add: asked_keys_def List.map_filter_simps)

lemma profile_record_keys [simp]:
  "profile_record (profile_key i)" "profile_record (update_key i)" "\<not> profile_record (mailbox_seq_key u s)"
  using mailbox_profile.cross_parse(2)[of "(u, s)"] mailbox_update.cross_parse(2)[of "(u, s)"]
  by (simp_all add: profile_record_def profile_keys.parse_mk update_keys.parse_mk)

text \<open>What everything but profile commands and answers does: it leaves the open queries, and puts no profile record.\<close>

definition no_profile :: "('db, 'q) node \<Rightarrow> ('db, 'q) node \<Rightarrow> bool" where
  "no_profile nd nd' \<longleftrightarrow>
     nd_profile_queries nd' = nd_profile_queries nd \<and> nd_replies nd' = nd_replies nd \<and>
     (\<exists>cs. nd_calls nd' = nd_calls nd @ cs \<and> nd_gets nd' = nd_gets nd + length (asked_keys cs) \<and>
        (\<forall>k v. PutRecord k v \<in> set cs \<longrightarrow> \<not> profile_record k))"

lemma no_profile_same:
  "nd_profile_queries nd' = nd_profile_queries nd \<Longrightarrow> nd_replies nd' = nd_replies nd \<Longrightarrow>
   nd_calls nd' = nd_calls nd \<Longrightarrow> nd_gets nd' = nd_gets nd \<Longrightarrow> no_profile nd nd'"
  by (simp add: no_profile_def)

lemma no_profile_refl [simp]: "no_profile nd nd"
  by (rule no_profile_same) simp_all

lemma no_profile_trans:
  assumes "no_profile a b" "no_profile b c"
  shows "no_profile a c"
proof -
  obtain cs ds where "nd_calls b = nd_calls a @ cs" "nd_gets b = nd_gets a + length (asked_keys cs)"
    "\<forall>k v. PutRecord k v \<in> set cs \<longrightarrow> \<not> profile_record k" "nd_calls c = nd_calls b @ ds"
    "nd_gets c = nd_gets b + length (asked_keys ds)" "\<forall>k v. PutRecord k v \<in> set ds \<longrightarrow> \<not> profile_record k"
    using assms unfolding no_profile_def by blast
  then have "nd_calls c = nd_calls a @ cs @ ds" "nd_gets c = nd_gets a + length (asked_keys (cs @ ds))"
    "\<forall>k v. PutRecord k v \<in> set (cs @ ds) \<longrightarrow> \<not> profile_record k" by (simp_all, blast)
  then show ?thesis using assms unfolding no_profile_def by metis
qed

lemma no_profile_call:
  "asked_keys [c] = [] \<Longrightarrow> (\<And>k v. c = PutRecord k v \<Longrightarrow> \<not> profile_record k) \<Longrightarrow> no_profile nd (call c nd)"
  unfolding no_profile_def call_def by (intro conjI exI[of _ "[c]"]) auto

lemma no_profile_get: "no_profile nd (fst (get_record E key nd))"
  by (auto simp: no_profile_def get_record_def call_def)

lemma no_profile_emit: "no_profile nd (emit e nd)"
  by (rule no_profile_same) (simp_all add: emit_def)

lemma no_profile_fire: "no_profile nd (fst (fire_seqs E user ss q nd))"
proof (induction ss arbitrary: q nd)
  case (Cons s ss)
  obtain nd1 qid where g: "get_record E (mailbox_seq_key user s) nd = (nd1, qid)" by fastforce
  show ?case using no_profile_trans[OF _ Cons.IH[of nd1]] no_profile_get[of nd E "mailbox_seq_key user s"] g by simp
qed simp

lemma no_profile_window: "no_profile nd (fst (fire_window E user start nd))"
  by (simp add: fire_window_def no_profile_fire)

lemma no_profile_collecting: "no_profile nd (snd (start_collecting_messages E now u i nd))"
  by (simp add: start_collecting_messages_def case_prod_beta Let_def no_profile_get)

lemma no_profile_fetch: "no_profile nd (snd (start_fetch E now cmd nd))"
  by (simp add: start_fetch_def case_prod_beta Let_def no_profile_window)

lemma no_profile_empty: "no_profile nd (snd (emit_empty_mailbox u nd))"
  by (simp add: emit_empty_mailbox_def no_profile_emit)

lemma no_profile_collect: "no_profile nd (snd (collect_message E u rem val ms d nd))"
  by (auto simp: collect_message_def case_prod_beta Let_def no_profile_emit no_profile_get split: list.split)

lemma no_profile_from:
  assumes "no_profile nd0 nd'" "nd_profile_queries nd0 = nd_profile_queries nd" "nd_replies nd0 = nd_replies nd"
    "nd_calls nd0 = nd_calls nd" "nd_gets nd0 = nd_gets nd"
  shows "no_profile nd nd'"
  using assms by (simp add: no_profile_def)

lemma no_profile_store:
  assumes "store_signed_envelope E r s p seq nd = Some nd'"
  shows "no_profile nd nd'"
proof -
  have "no_profile nd (call (PutRecord (mailbox_seq_key r seq) raw) nd)" for raw by (rule no_profile_call) simp_all
  then show ?thesis
    using assms by (auto simp: store_signed_envelope_def Let_def no_profile_def split: option.splits if_splits)
qed

lemma no_profile_resume:
  assumes "resume_pending_command E now cmd i nd = Some (st, nd')"
  shows "no_profile nd nd'"
proof (cases cmd)
  case (PendingStore r s p)
  then show ?thesis using assms no_profile_store by (fastforce simp: resume_pending_command_def)
next
  case (PendingRetrieve u)
  then show ?thesis
    using assms no_profile_empty[of nd u] no_profile_collecting[of nd E now u i]
    by (auto simp: resume_pending_command_def split: if_splits)
qed

lemma no_profile_resolve:
  assumes "try_resolve_window E now cmd start mx pending found d nd = Some (st, nd')"
  shows "no_profile nd nd'"
proof (cases "scan_window pending found (window_seqs start)")
  case (Gap s)
  then have "resume_pending_command E now cmd (s - 1)
      (nd\<lparr>nd_indices := (nd_indices nd)(pending_user cmd \<mapsto> s - 1)\<rparr>) = Some (st, nd')"
    using assms by (simp add: try_resolve_window_def Let_def)
  from no_profile_from[OF no_profile_resume[OF this]] show ?thesis by simp
next
  case AllFound
  then show ?thesis
    using assms no_profile_window[of nd E "pending_user cmd" "start + word_of_nat WINDOW_SIZE"]
    by (auto simp: try_resolve_window_def Let_def split: prod.splits)
qed (use assms in \<open>auto simp: try_resolve_window_def\<close>)

lemma no_profile_found:
  assumes "handle_found_record E now key val qid st nd = Some (st', nd')"
  shows "no_profile nd nd'"
proof (cases st)
  case (FetchingIndex cmd start mx pending found d)
  then show ?thesis
    using assms by (auto simp: handle_found_record_def Let_def dest: no_profile_resolve split: option.splits if_splits)
next
  case (CollectingMessages u ms rem d)
  then show ?thesis using assms no_profile_collect[of nd E u rem val ms d] by (auto simp: handle_found_record_def)
qed (use assms in \<open>auto simp: handle_found_record_def Let_def no_profile_emit\<close>)

lemma no_profile_not_found:
  assumes "handle_not_found E now qid st nd = Some (st', nd')"
  shows "no_profile nd nd'"
proof (cases st)
  case (FetchingIndex cmd start mx pending found d)
  then show ?thesis using assms by (auto simp: handle_not_found_def dest: no_profile_resolve split: option.splits)
next
  case (CollectingMessages u ms rem d)
  then show ?thesis using assms no_profile_collect[of nd E u rem None ms d] by (auto simp: handle_not_found_def)
qed (use assms in \<open>auto simp: handle_not_found_def\<close>)

lemma no_profile_timeout: "no_profile nd (snd (check_state_timeout now st nd))"
  by (simp add: check_state_timeout_def no_profile_emit split: mailbox_state.split)

lemma no_profile_seed: "no_profile nd (seed_index E cmd st nd)"
  by (simp add: seed_index_def no_profile_same split: option.split)

lemma no_profile_reconnect: "no_profile nd (reconnect_tick now conn nd)"
proof -
  have one: "no_profile nd (redial_peer now x nd)" for x and nd :: "('a, 'b) node"
    using no_profile_call[of "DialPeer (snd x)" nd] by (auto simp: redial_peer_def case_prod_beta Let_def no_profile_def)
  have "no_profile nd (fold (redial_peer now) ts nd)" for ts and nd :: "('a, 'b) node"
  proof (induction ts arbitrary: nd)
    case (Cons x ts)
    show ?case using no_profile_trans[OF one Cons.IH] by simp
  qed simp
  from no_profile_from[OF this] show ?thesis by (simp add: reconnect_tick_def case_prod_beta)
qed


section \<open>The node as a record store\<close>

text \<open>
  The world of the tasks, as far as the records go, against the node and a network that holds \<open>m\<close> and
  what the node has put since: channels that were asked and not answered are the open queries, each
  under the id of the call that asks for its key.
\<close>

definition network :: "(bytes \<rightharpoonup> bytes) \<Rightarrow> ('db, 'q) node \<Rightarrow> (bytes \<rightharpoonup> bytes)" where
  "network m nd = fold put_call (nd_calls nd) m"

definition open_query :: "('db, 'q) node_env \<Rightarrow> profile_world \<Rightarrow> ('db, 'q) node \<Rightarrow> 'q \<times> nat \<Rightarrow> bool" where
  "open_query E w nd q \<longleftrightarrow>
     (\<exists>j < nd_gets nd. fst q = ne_ids E j \<and> pw_asked w (snd q) = Some (asked_keys (nd_calls nd) ! j) \<and>
        profile_record (asked_keys (nd_calls nd) ! j) \<and> pw_answers w (snd q) = None)"

definition serves :: "('db, 'q) node_env \<Rightarrow> (bytes \<rightharpoonup> bytes) \<Rightarrow> profile_world \<Rightarrow> ('db, 'q) node \<Rightarrow> bool" where
  "serves E m w nd \<longleftrightarrow>
     nd_gets nd = length (asked_keys (nd_calls nd)) \<and>
     (\<forall>key. profile_record key \<longrightarrow> pw_dht w key = network m nd key) \<and>
     pw_answers w = map_of (nd_replies nd) \<and> distinct (map fst (nd_replies nd)) \<and>
     distinct (map fst (nd_profile_queries nd)) \<and> distinct (map snd (nd_profile_queries nd)) \<and>
     (\<forall>q \<in> set (nd_profile_queries nd). open_query E w nd q) \<and>
     (\<forall>ch. pw_asked w ch \<noteq> None \<and> pw_answers w ch = None \<longrightarrow> ch \<in> snd ` set (nd_profile_queries nd)) \<and>
     (\<forall>ch. pw_asked w ch = None \<longrightarrow> pw_answers w ch = None)"

lemma servesD:
  assumes "serves E m w nd"
  shows "nd_gets nd = length (asked_keys (nd_calls nd))"
    "profile_record key \<Longrightarrow> pw_dht w key = network m nd key"
    "pw_answers w = map_of (nd_replies nd)" "distinct (map fst (nd_replies nd))"
    "distinct (map fst (nd_profile_queries nd))" "distinct (map snd (nd_profile_queries nd))"
    "q \<in> set (nd_profile_queries nd) \<Longrightarrow> open_query E w nd q"
    "pw_asked w ch \<noteq> None \<Longrightarrow> pw_answers w ch = None \<Longrightarrow> ch \<in> snd ` set (nd_profile_queries nd)"
    "pw_asked w ch = None \<Longrightarrow> pw_answers w ch = None"
  using assms unfolding serves_def by blast+

lemma put_calls_other:
  "(\<And>k v. PutRecord k v \<in> set cs \<Longrightarrow> k \<noteq> key) \<Longrightarrow> fold put_call cs m key = m key"
proof (induction cs arbitrary: m)
  case (Cons c cs)
  have "put_call c m key = m key" using Cons.prems by (auto simp: put_call_def split: net_call.split)
  moreover have "fold put_call cs (put_call c m) key = put_call c m key"
    by (rule Cons.IH) (use Cons.prems in auto)
  ultimately show ?case by simp
qed simp

lemma open_query_later:
  assumes "open_query E w nd q" "nd_calls nd' = nd_calls nd @ cs" "nd_gets nd \<le> nd_gets nd'"
    "nd_gets nd = length (asked_keys (nd_calls nd))"
    and "pw_asked w' (snd q) = pw_asked w (snd q)" "pw_answers w' (snd q) = pw_answers w (snd q)"
  shows "open_query E w' nd' q"
proof -
  obtain j where j: "j < nd_gets nd" "fst q = ne_ids E j" "pw_asked w (snd q) = Some (asked_keys (nd_calls nd) ! j)"
    "profile_record (asked_keys (nd_calls nd) ! j)" "pw_answers w (snd q) = None"
    using assms(1) by (auto simp: open_query_def)
  moreover have "asked_keys (nd_calls nd') ! j = asked_keys (nd_calls nd) ! j"
    using assms(2,4) j(1) by (simp add: nth_append)
  ultimately show ?thesis
    unfolding open_query_def using assms(3,5,6) by (intro exI[of _ j]) simp
qed

lemma serves_no_profile:
  assumes s: "serves E m w nd" and n: "no_profile nd nd'"
  shows "serves E m w nd'"
proof -
  note D = servesD[OF s]
  obtain cs where cs: "nd_calls nd' = nd_calls nd @ cs" "nd_gets nd' = nd_gets nd + length (asked_keys cs)"
    "\<And>k v. PutRecord k v \<in> set cs \<Longrightarrow> \<not> profile_record k"
    and same: "nd_profile_queries nd' = nd_profile_queries nd" "nd_replies nd' = nd_replies nd"
    using n unfolding no_profile_def by blast
  have "network m nd' key = network m nd key" if "profile_record key" for key
    using put_calls_other[of cs key] cs(3) that by (auto simp: network_def cs(1))
  moreover have "open_query E w nd' q" if "q \<in> set (nd_profile_queries nd)" for q
    using open_query_later[OF D(7)[OF that] cs(1) _ D(1)] cs(2) by simp
  ultimately show ?thesis using D(1-6,8,9) by (simp add: serves_def same cs(1,2))
qed

lemma serves_put:
  assumes s: "serves E m w nd"
  shows "serves E m (w\<lparr>pw_dht := put_call (PutRecord key b) (pw_dht w)\<rparr>) (call (PutRecord key b) nd)"
proof -
  note D = servesD[OF s]
  have "open_query E (w\<lparr>pw_dht := x\<rparr>) (call (PutRecord key b) nd) q" if "q \<in> set (nd_profile_queries nd)" for q x
    using open_query_later[OF D(7)[OF that], of "call (PutRecord key b) nd" "[PutRecord key b]"] D(1)
    by (simp add: call_def)
  then show ?thesis using D(1-6,8,9) by (simp add: serves_def network_def call_def put_call_def)
qed

lemma serves_query:
  assumes s: "serves E m w nd" and inj: "inj (ne_ids E)" and key: "profile_record key"
    and new: "ch \<notin> fst ` set (nd_replies nd)" "ch \<notin> snd ` set (nd_profile_queries nd)"
  shows "serves E m (w\<lparr>pw_asked := (pw_asked w)(ch \<mapsto> key)\<rparr>) (profile_query E key ch nd)"
proof -
  note D = servesD[OF s]
  let ?w = "w\<lparr>pw_asked := (pw_asked w)(ch \<mapsto> key)\<rparr>" and ?nd = "profile_query E key ch nd"
  let ?qid = "ne_ids E (nd_gets nd)"
  have un: "pw_answers w ch = None" using new(1) D(3) by (auto simp: map_of_eq_None_iff)
  have late: "ne_ids E j \<noteq> ?qid" if "j < nd_gets nd" for j using that injD[OF inj, of j "nd_gets nd"] by auto
  have qs: "fst q \<noteq> ?qid \<and> snd q \<noteq> ch" if "q \<in> set (nd_profile_queries nd)" for q
  proof -
    obtain j where "j < nd_gets nd" "fst q = ne_ids E j" using D(7)[OF \<open>q \<in> _\<close>] by (auto simp: open_query_def)
    then show ?thesis using late[of j] new(2) that by force
  qed
  then have queries: "nd_profile_queries ?nd = (?qid, ch) # nd_profile_queries nd"
    by (auto simp: profile_query_def get_record_def call_def am_insert_def intro!: filter_True)
  have f: "nd_calls ?nd = nd_calls nd @ [GetRecord key]" "nd_gets ?nd = Suc (nd_gets nd)" "nd_replies ?nd = nd_replies nd"
    by (simp_all add: profile_query_def get_record_def call_def)
  have "open_query E ?w ?nd q" if "q \<in> set (nd_profile_queries nd)" for q
    using open_query_later[OF D(7)[OF that] f(1) _ D(1), of ?w] qs[OF that] f(2) by simp
  moreover have "open_query E ?w ?nd (?qid, ch)"
    unfolding open_query_def using key un D(1) by (intro exI[of _ "nd_gets nd"]) (simp add: f nth_append)
  moreover have "network m ?nd = network m nd" by (simp add: network_def f put_call_def)
  moreover have "?qid \<notin> fst ` set (nd_profile_queries nd)" using qs by force
  moreover have "c \<in> snd ` set ((?qid, ch) # nd_profile_queries nd)" if "pw_asked ?w c \<noteq> None" "pw_answers ?w c = None" for c
    using D(8)[of c] that by (cases "c = ch") simp_all
  moreover have "pw_answers ?w c = None" if "pw_asked ?w c = None" for c using D(9)[of c] that by (simp split: if_splits)
  ultimately show ?thesis
    unfolding serves_def queries using D(1-6) new(2) by (simp add: f)
qed

lemma serves_answer:
  assumes s: "serves E m w nd" and q: "map_of (nd_profile_queries nd) qid = Some ch"
    and v: "\<And>j. j < nd_gets nd \<Longrightarrow> ne_ids E j = qid \<Longrightarrow> network m nd (asked_keys (nd_calls nd) ! j) = v"
  shows "\<exists>w'. profile_step (Replies ch) w = Some w' \<and>
    serves E m w' (reply ch v (nd\<lparr>nd_profile_queries := am_remove qid (nd_profile_queries nd)\<rparr>))"
proof -
  note D = servesD[OF s]
  let ?qs = "am_remove qid (nd_profile_queries nd)"
  let ?nd = "reply ch v (nd\<lparr>nd_profile_queries := ?qs\<rparr>)"
  have mem: "(qid, ch) \<in> set (nd_profile_queries nd)" using q by (rule map_of_SomeD)
  obtain j where j: "j < nd_gets nd" "ne_ids E j = qid" "pw_asked w ch = Some (asked_keys (nd_calls nd) ! j)"
    "profile_record (asked_keys (nd_calls nd) ! j)" and un: "pw_answers w ch = None"
    using D(7)[OF mem] by (auto simp: open_query_def)
  have "pw_dht w (asked_keys (nd_calls nd) ! j) = v" using D(2)[OF j(4)] v[OF j(1,2)] by simp
  then have step: "profile_step (Replies ch) w = Some (w\<lparr>pw_answers := (pw_answers w)(ch \<mapsto> v)\<rparr>)"
    by (simp add: profile_step_def j(3) un)
  let ?w = "w\<lparr>pw_answers := (pw_answers w)(ch \<mapsto> v)\<rparr>"
  have no: "ch \<notin> fst ` set (nd_replies nd)" using un D(3) by (simp add: map_of_eq_None_iff)
  have ans: "pw_answers ?w = map_of (nd_replies ?nd)"
  proof
    show "pw_answers ?w c = map_of (nd_replies ?nd) c" for c
      using un by (simp add: reply_def D(3) map_add_def split: option.split)
  qed
  have rest: "snd ` set ?qs = snd ` set (nd_profile_queries nd) - {ch}"
  proof -
    have "fst e = qid \<longleftrightarrow> snd e = ch" if "e \<in> set (nd_profile_queries nd)" for e
    proof -
      have "inj_on fst (set (nd_profile_queries nd))" "inj_on snd (set (nd_profile_queries nd))"
        using D(5,6) by (simp_all add: distinct_map)
      from inj_onD[OF this(1) _ that mem, unfolded fst_conv] inj_onD[OF this(2) _ that mem, unfolded snd_conv]
      show ?thesis by (cases e) auto
    qed
    then show ?thesis by (auto simp: am_remove_def)
  qed
  have "open_query E ?w ?nd x" if "x \<in> set ?qs" for x
  proof -
    have x: "x \<in> set (nd_profile_queries nd)" "snd x \<noteq> ch" using that rest by (auto simp: am_remove_def)
    show ?thesis using D(7)[OF x(1)] x(2) by (auto simp: open_query_def reply_def)
  qed
  moreover have "distinct (map snd ?qs)" using D(6) by (simp add: am_remove_def distinct_map_filter)
  moreover have "network m ?nd = network m nd" by (simp add: network_def reply_def)
  moreover have "distinct (map fst (nd_replies ?nd))" using D(4) no by (simp add: reply_def)
  moreover have "c \<in> snd ` set ?qs" if "pw_asked w c \<noteq> None" "pw_answers ?w c = None" for c
    using D(8)[OF that(1)] that(2) by (auto simp: rest split: if_splits)
  moreover have "pw_answers ?w c = None" if "pw_asked w c = None" for c using D(9)[OF that] that j(3) by auto
  ultimately have "serves E m ?w ?nd"
    unfolding serves_def using D(1,2) distinct_am_remove[OF D(5), of qid] ans by (simp add: reply_def)
  with step show ?thesis by blast
qed


section \<open>Steps and runs\<close>

text \<open>What a step of the node means to the tasks: a command takes effect, or a channel is answered.\<close>

datatype record_action = Applies node_command | Answers nat

definition record_step :: "record_action \<Rightarrow> profile_world \<Rightarrow> profile_world option" where
  "record_step act w = (case act of Applies c \<Rightarrow> Some (apply_command c w) | Answers ch \<Rightarrow> profile_step (Replies ch) w)"

definition record_actions :: "'q node_input \<Rightarrow> ('db, 'q) node \<Rightarrow> record_action list" where
  "record_actions inp nd =
     (let answer = (\<lambda>qid. case map_of (nd_profile_queries nd) qid of None \<Rightarrow> [] | Some ch \<Rightarrow> [Answers ch]) in
      case inp of
        Command c \<Rightarrow> [Applies c]
      | Swarm ev \<Rightarrow>
          (case ev of
             KadFound qid key val \<Rightarrow> if profile_record key then answer qid else []
           | KadFinished qid \<Rightarrow> answer qid
           | KadFailed qid key \<Rightarrow> answer qid
           | _ \<Rightarrow> [])
      | _ \<Rightarrow> [])"

text \<open>
  The network is truthful to the open profile queries: it finds the record the network holds, and
  fails or finishes without one only when there is none. A lookup comes on a new channel.
\<close>

definition honest_input ::
    "('db, 'q) node_env \<Rightarrow> (bytes \<rightharpoonup> bytes) \<Rightarrow> 'q node_input \<Rightarrow> ('db, 'q) node \<Rightarrow> bool" where
  "honest_input E m inp nd =
     (let told = (\<lambda>qid key v. map_of (nd_profile_queries nd) qid \<noteq> None \<longrightarrow>
            (\<forall>j < nd_gets nd. ne_ids E j = qid \<longrightarrow>
               (key = None \<or> key = Some (asked_keys (nd_calls nd) ! j)) \<and> network m nd (asked_keys (nd_calls nd) ! j) = v));
          new = (\<lambda>ch. ch \<notin> fst ` set (nd_replies nd) \<and> ch \<notin> snd ` set (nd_profile_queries nd)) in
      case inp of
        Swarm ev \<Rightarrow>
          (case ev of
             KadFound qid key val \<Rightarrow> told qid (Some key) (Some val)
           | KadFinished qid \<Rightarrow> told qid None None
           | KadFailed qid key \<Rightarrow> told qid None None
           | _ \<Rightarrow> True)
      | Command (ProfileLookup i ch) \<Rightarrow> new ch
      | Command (ProfileTokenLookup i ch) \<Rightarrow> new ch
      | _ \<Rightarrow> True)"

lemma serves_event:
  assumes s: "serves E m w nd" and h: "honest_input E m (Swarm ev) nd"
    and r: "handle_swarm_event E now ev st nd = Some (st', nd')"
  shows "\<exists>w'. run_steps record_step (record_actions (Swarm ev) nd) w = Some w' \<and> serves E m w' nd'"
proof -
  have quiet: ?thesis if "record_actions (Swarm ev) nd = []" "no_profile nd nd'"
    using that serves_no_profile[OF s that(2)] by simp
  have answered: ?thesis
    if q: "map_of (nd_profile_queries nd) qid = Some ch" and acts: "record_actions (Swarm ev) nd = [Answers ch]"
      and v: "\<And>j. j < nd_gets nd \<Longrightarrow> ne_ids E j = qid \<Longrightarrow> network m nd (asked_keys (nd_calls nd) ! j) = v"
      and n: "no_profile (reply ch v (nd\<lparr>nd_profile_queries := am_remove qid (nd_profile_queries nd)\<rparr>)) nd'" for qid ch v
  proof -
    obtain w' where w': "profile_step (Replies ch) w = Some w'"
      "serves E m w' (reply ch v (nd\<lparr>nd_profile_queries := am_remove qid (nd_profile_queries nd)\<rparr>))"
      using serves_answer[OF s q v] by blast
    then show ?thesis using serves_no_profile[OF w'(2) n] acts by (simp add: record_step_def)
  qed
  show ?thesis
  proof (cases ev)
    case (KadFound qid key val)
    show ?thesis
    proof (cases "map_of (nd_profile_queries nd) qid")
      case None
      then show ?thesis
        using r KadFound by (intro quiet) (auto simp: record_actions_def handle_swarm_event_def handle_kad_found_def
            dest: no_profile_found split: if_splits)
    next
      case (Some ch)
      obtain j where j: "j < nd_gets nd" "ne_ids E j = qid" "profile_record (asked_keys (nd_calls nd) ! j)"
        using servesD(7)[OF s map_of_SomeD[OF Some]] by (auto simp: open_query_def)
      have t: "asked_keys (nd_calls nd) ! i = key" "network m nd (asked_keys (nd_calls nd) ! i) = Some val"
        if "i < nd_gets nd" "ne_ids E i = qid" for i using h KadFound Some that by (auto simp: honest_input_def)
      have key: "profile_record key" using t(1)[OF j(1,2)] j(3) by simp
      show ?thesis
        by (rule answered[OF Some, where v = "Some val"])
          (use r KadFound Some key t(2) in \<open>auto simp: record_actions_def handle_swarm_event_def handle_kad_found_def profile_record_def\<close>)
    qed
  next
    case (KadFinished qid)
    show ?thesis
    proof (cases "map_of (nd_profile_queries nd) qid")
      case None
      then show ?thesis
        using r KadFinished by (intro quiet) (auto simp: record_actions_def handle_swarm_event_def
            handle_kad_finished_def dest: no_profile_not_found)
    next
      case (Some ch)
      show ?thesis
        by (rule answered[OF Some, where v = None])
          (use r h KadFinished Some in \<open>auto simp: record_actions_def handle_swarm_event_def handle_kad_finished_def honest_input_def\<close>)
    qed
  next
    case (KadFailed qid key)
    show ?thesis
    proof (cases "map_of (nd_profile_queries nd) qid")
      case None
      have "no_profile nd nd'"
        using r KadFailed None no_profile_from[OF no_profile_resume, of E now _ 0 "nd\<lparr>nd_indices := _\<rparr>" _ nd' nd]
        by (auto simp: handle_swarm_event_def handle_kad_failed_def no_profile_emit split: mailbox_state.splits)
      then show ?thesis using KadFailed None by (intro quiet) (simp_all add: record_actions_def)
    next
      case (Some ch)
      let ?nd = "reply ch None (nd\<lparr>nd_profile_queries := am_remove qid (nd_profile_queries nd)\<rparr>)"
      have "no_profile ?nd nd'"
        using r KadFailed Some no_profile_from[OF no_profile_resume, of E now _ 0 "?nd\<lparr>nd_indices := _\<rparr>" _ nd' ?nd]
        by (auto simp: handle_swarm_event_def handle_kad_failed_def no_profile_emit Let_def split: mailbox_state.splits)
      then show ?thesis
        by (intro answered[OF Some, where v = None])
          (use h KadFailed Some in \<open>auto simp: record_actions_def honest_input_def\<close>)
    qed
  next
    case (ConnectionEstablished peer addr)
    then show ?thesis using r
      by (intro quiet) (auto simp: record_actions_def handle_swarm_event_def handle_connection_established_def Let_def
          emit_def intro!: no_profile_same)
  next
    case (ConnectionClosed peer)
    then show ?thesis using r
      by (intro quiet) (auto simp: record_actions_def handle_swarm_event_def handle_connection_closed_def intro!: no_profile_same)
  qed (use r in \<open>auto simp: record_actions_def handle_swarm_event_def s
      intro!: serves_no_profile[OF s] no_profile_emit\<close>)
qed

lemma serves_command:
  assumes s: "serves E m w nd" and h: "honest_input E m (Command cmd) nd" and inj: "inj (ne_ids E)"
    and r: "handle_command E now peers cmd st (seed_index E cmd st nd) = Some (st', nd')"
  shows "serves E m (apply_command cmd w) nd'"
proof -
  let ?nd = "seed_index E cmd st nd"
  have same: "apply_command cmd w = w \<Longrightarrow> no_profile ?nd nd' \<Longrightarrow> ?thesis"
    using serves_no_profile[OF serves_no_profile[OF s no_profile_seed]] by simp
  have plain: "command_user cmd = None \<Longrightarrow> ?nd = nd" by (simp add: seed_index_def)
  show ?thesis
  proof (cases cmd)
    case (MailboxStore rc sd p)
    show ?thesis
      by (rule same) (use r MailboxStore no_profile_fetch[of ?nd E now "PendingStore rc sd p"] in
        \<open>auto simp: apply_command_def handle_command_def cmd_mailbox_store_def dest: no_profile_store
          split: if_splits option.splits\<close>)
  next
    case (MailboxRetrieve u)
    have "no_profile ?nd nd'"
      using r MailboxRetrieve no_profile_empty[of ?nd u] no_profile_collecting[of ?nd E now u]
        no_profile_fetch[of ?nd E now "PendingRetrieve u"]
      by (auto simp: handle_command_def cmd_mailbox_retrieve_def split: if_splits option.splits) (metis snd_conv)+
    then show ?thesis using MailboxRetrieve by (intro same) (simp_all add: apply_command_def)
  next
    case (ProfileStore i b)
    then have "nd' = call (PutRecord (profile_key i) b) nd" using r plain by (auto simp: handle_command_def command_user_def)
    then show ?thesis using serves_put[OF s] ProfileStore by (simp add: apply_command_def)
  next
    case (ProfileTokenStore i b)
    then have "nd' = call (PutRecord (update_key i) b) nd" using r plain by (auto simp: handle_command_def command_user_def)
    then show ?thesis using serves_put[OF s] ProfileTokenStore by (simp add: apply_command_def)
  next
    case (ProfileLookup i ch)
    then have "nd' = profile_query E (profile_key i) ch nd" using r plain by (auto simp: handle_command_def command_user_def)
    then show ?thesis using serves_query[OF s inj, of "profile_key i" ch] h ProfileLookup by (simp add: apply_command_def honest_input_def)
  next
    case (ProfileTokenLookup i ch)
    then have "nd' = profile_query E (update_key i) ch nd" using r plain by (auto simp: handle_command_def command_user_def)
    then show ?thesis using serves_query[OF s inj, of "update_key i" ch] h ProfileTokenLookup by (simp add: apply_command_def honest_input_def)
  qed (use r in \<open>auto simp: apply_command_def handle_command_def
      intro!: serves_no_profile[OF serves_no_profile[OF s no_profile_seed]] no_profile_call\<close>)
qed

lemma serves_step:
  assumes s: "serves E m w nd" and h: "honest_input E m inp nd" and inj: "inj (ne_ids E)"
    and r: "node_step E now conn inp st nd = Some (st', nd')"
  shows "\<exists>w'. run_steps record_step (record_actions inp nd) w = Some w' \<and> serves E m w' nd'"
proof (cases inp)
  case TimeoutTick
  then have "no_profile nd nd'" using r no_profile_timeout[of nd now st] by (simp add: node_step_def)
  from serves_no_profile[OF s this] show ?thesis by (simp add: TimeoutTick record_actions_def)
next
  case ReconnectTick
  then have "no_profile nd nd'" using r no_profile_reconnect[of nd now conn] by (auto simp: node_step_def)
  from serves_no_profile[OF s this] show ?thesis by (simp add: ReconnectTick record_actions_def)
next
  case (Swarm ev)
  then obtain st1 nd1 where c: "handle_swarm_event E now ev st nd = Some (st1, nd1)"
    "check_state_timeout now st1 nd1 = (st', nd')" using r by (auto simp: node_step_def)
  have "no_profile nd1 nd'" using no_profile_timeout[of nd1 now st1] c(2) by simp
  then show ?thesis using serves_event[OF s h[unfolded Swarm] c(1)] serves_no_profile Swarm by blast
next
  case (Command cmd)
  then obtain st1 nd1 where c: "handle_command E now (conn \<noteq> []) cmd st (seed_index E cmd st nd) = Some (st1, nd1)"
    "check_state_timeout now st1 nd1 = (st', nd')" using r by (auto simp: node_step_def)
  have "no_profile nd1 nd'" using no_profile_timeout[of nd1 now st1] c(2) by simp
  then have "serves E m (apply_command cmd w) nd'"
    using serves_no_profile serves_command[OF s h[unfolded Command] inj c(1)] by blast
  then show ?thesis by (simp add: Command record_actions_def record_step_def)
qed

text \<open>The event loop, and its record actions along a run.\<close>

definition node_loop ::
    "('db, 'q) node_env \<Rightarrow> nat \<times> bytes list \<times> 'q node_input \<Rightarrow>
     'q mailbox_state \<times> ('db, 'q) node \<Rightarrow> ('q mailbox_state \<times> ('db, 'q) node) option" where
  "node_loop E i s = node_step E (fst i) (fst (snd i)) (snd (snd i)) (fst s) (snd s)"

primrec record_trace ::
    "('db, 'q) node_env \<Rightarrow> (nat \<times> bytes list \<times> 'q node_input) list \<Rightarrow>
     'q mailbox_state \<times> ('db, 'q) node \<Rightarrow> record_action list" where
  "record_trace E [] s = []"
| "record_trace E (i # is) s = record_actions (snd (snd i)) (snd s) @
     (case node_loop E i s of None \<Rightarrow> [] | Some s' \<Rightarrow> record_trace E is s')"

primrec honest_run ::
    "('db, 'q) node_env \<Rightarrow> (bytes \<rightharpoonup> bytes) \<Rightarrow> (nat \<times> bytes list \<times> 'q node_input) list \<Rightarrow>
     'q mailbox_state \<times> ('db, 'q) node \<Rightarrow> bool" where
  "honest_run E m [] s = True"
| "honest_run E m (i # is) s = (honest_input E m (snd (snd i)) (snd s) \<and>
     (case node_loop E i s of None \<Rightarrow> True | Some s' \<Rightarrow> honest_run E m is s'))"

lemma serves_run:
  assumes inj: "inj (ne_ids E)"
  shows "serves E m w (snd s) \<Longrightarrow> honest_run E m is s \<Longrightarrow> run_steps (node_loop E) is s = Some s' \<Longrightarrow>
    \<exists>w'. run_steps record_step (record_trace E is s) w = Some w' \<and> serves E m w' (snd s')"
proof (induction "is" arbitrary: w s)
  case Nil
  then show ?case by simp
next
  case (Cons i "is")
  then obtain s1 where s1: "node_loop E i s = Some s1" "run_steps (node_loop E) is s1 = Some s'" by (auto simp: bind_eq_Some_conv)
  have "node_step E (fst i) (fst (snd i)) (snd (snd i)) (fst s) (snd s) = Some (fst s1, snd s1)"
    using s1(1) by (simp add: node_loop_def)
  from serves_step[OF Cons.prems(1) _ inj this] obtain w1 where
    w1: "run_steps record_step (record_actions (snd (snd i)) (snd s)) w = Some w1" "serves E m w1 (snd s1)"
    using Cons.prems(2) by auto
  obtain w' where "run_steps record_step (record_trace E is s1) w1 = Some w'" "serves E m w' (snd s')"
    using Cons.IH[OF w1(2)] Cons.prems(2) s1 by auto
  then show ?case using w1(1) s1(1) by (simp add: run_steps_append)
qed

lemma serves_start: "serves E m (profile_world_start m) (dial_persisted E (node_start db))"
proof -
  have "no_profile nd (fold (\<lambda>addr. call (DialPeer addr)) as nd)" for as and nd :: "('a, 'b) node"
  proof (induction as arbitrary: nd)
    case (Cons a as)
    have "no_profile nd (call (DialPeer a) nd)" by (rule no_profile_call) simp_all
    then show ?case using no_profile_trans[OF _ Cons.IH] by simp
  qed simp
  moreover have "serves E m (profile_world_start m) (node_start db)"
    by (simp add: serves_def profile_world_start_def node_start_def network_def)
  ultimately show ?thesis using serves_no_profile unfolding dial_persisted_def by blast
qed

definition applied :: "record_action list \<Rightarrow> node_command list" where
  "applied acts = List.map_filter (\<lambda>a. case a of Applies c \<Rightarrow> Some c | Answers ch \<Rightarrow> None) acts"

definition taken_commands :: "(nat \<times> bytes list \<times> 'q node_input) list \<Rightarrow> node_command list" where
  "taken_commands ins = List.map_filter (\<lambda>i. case snd (snd i) of Command c \<Rightarrow> Some c | _ \<Rightarrow> None) ins"

lemma applied_trace:
  "run_steps (node_loop E) is s = Some s' \<Longrightarrow> applied (record_trace E is s) = taken_commands is"
proof (induction "is" arbitrary: s)
  case (Cons i "is")
  then obtain s1 where s1: "node_loop E i s = Some s1" "run_steps (node_loop E) is s1 = Some s'" by (auto simp: bind_eq_Some_conv)
  have "applied (record_actions inp nd) = taken_commands [(a, b, inp)]" for inp and nd :: "('c, 'a) node" and a b
    by (auto simp: record_actions_def applied_def taken_commands_def List.map_filter_simps
        split: node_input.split swarm_event.split option.split)
  from this[of "snd (snd i)" "snd s" "fst i" "fst (snd i)"] Cons.IH[OF s1(2)] show ?case
    by (simp add: s1(1) applied_def taken_commands_def List.map_filter_def)
qed (simp add: applied_def taken_commands_def List.map_filter_simps)

text \<open>C18: With a truthful network the node is the record store the profile requests need. Whatever else
  the event loop does in the meantime, mailbox commands, probing and collecting, failed queries,
  ticks and reconnections, a run of it is a run of the abstract store: the profile commands take
  effect in the order they were taken from the queue, and a channel that was asked gets at most one
  answer, the record under its key at that moment or none; until then its query is open.\<close>

theorem node_serves_profiles:
  assumes inj: "inj (ne_ids E)" and honest: "honest_run E m ins (Idle, dial_persisted E (node_start db))"
    and run: "run_steps (node_loop E) ins (Idle, dial_persisted E (node_start db)) = Some (st, nd)"
  shows "\<exists>acts w. run_steps record_step acts (profile_world_start m) = Some w \<and> applied acts = taken_commands ins \<and>
    map_of (nd_replies nd) = pw_answers w \<and> distinct (map fst (nd_replies nd)) \<and>
    (\<forall>ch. pw_asked w ch \<noteq> None \<and> pw_answers w ch = None \<longrightarrow> ch \<in> snd ` set (nd_profile_queries nd)) \<and>
    (\<forall>key. profile_record key \<longrightarrow> network m nd key = pw_dht w key)"
proof -
  obtain w where "run_steps record_step (record_trace E ins (Idle, dial_persisted E (node_start db))) (profile_world_start m) = Some w"
    and w: "serves E m w nd"
    using serves_run[OF inj _ honest run, of "profile_world_start m"] serves_start[of E m db] by auto
  with servesD[OF w] applied_trace[OF run] show ?thesis
    by (intro exI[of _ "record_trace E ins (Idle, dial_persisted E (node_start db))"] exI[of _ w]) auto
qed

text \<open>A profile is stored, looked up and found.\<close>

theorem node_serves_profiles_witness:
  "\<exists>acts w st nd. run_steps (node_loop demo_node_env) [(0, [], Command (ProfileStore [1] [5])), (0, [], Command (ProfileLookup [1] 7)),
      (0, [], Swarm (KadFound 0 (profile_key [1]) [5]))] (Idle, dial_persisted demo_node_env (node_start demo_db)) = Some (st, nd) \<and>
    run_steps record_step acts (profile_world_start Map.empty) = Some w \<and>
    applied acts = [ProfileStore [1] [5], ProfileLookup [1] 7] \<and> pw_answers w 7 = Some (Some [5])"
proof -
  let ?ins = "[(0, [], Command (ProfileStore [1] [5])), (0, [], Command (ProfileLookup [1] 7)),
      (0, [], Swarm (KadFound 0 (profile_key [1]) [5]))] :: (nat \<times> bytes list \<times> nat node_input) list"
  have p: "persisted_addrs toy_wire toy_sled demo_db = []"
    by (simp add: persisted_addrs_def toy_sled_def demo_db_def toy_norm_def bt_wf_def SLED_PEER_TREE_def SLED_MAILBOX_TREE_def
        List.map_filter_simps)
  have start: "dial_persisted demo_node_env (node_start demo_db) = node_start demo_db"
    using p by (simp add: dial_persisted_def demo_node_env_def node_start_def)
  have key: "parse_profile_key (profile_key i) = Some i" for i by (simp add: profile_keys.parse_mk)
  have run: "\<exists>st nd. run_steps (node_loop demo_node_env) ?ins (Idle, node_start demo_db) = Some (st, nd) \<and>
      nd_replies nd = [(7, Some [5])]"
    by (simp add: node_loop_def node_step_def handle_command_def seed_index_def command_user_def check_state_timeout_def
        profile_query_def get_record_def call_def am_insert_def node_start_def handle_swarm_event_def handle_kad_found_def
        reply_def key demo_node_env_def)
  have h: "honest_run demo_node_env Map.empty ?ins (Idle, node_start demo_db)"
    by (simp add: honest_input_def node_loop_def node_step_def handle_command_def seed_index_def command_user_def
        check_state_timeout_def profile_query_def get_record_def call_def am_insert_def node_start_def network_def
        put_call_def demo_node_env_def split: option.split)
  have t: "taken_commands ?ins = [ProfileStore [1] [5], ProfileLookup [1] 7]"
    by (simp add: taken_commands_def List.map_filter_simps)
  obtain st nd where r: "run_steps (node_loop demo_node_env) ?ins (Idle, node_start demo_db) = Some (st, nd)"
    "nd_replies nd = [(7, Some [5])]" using run by blast
  obtain acts w where w: "run_steps record_step acts (profile_world_start Map.empty) = Some w" "applied acts = taken_commands ?ins"
    "map_of (nd_replies nd) = pw_answers w"
    using node_serves_profiles[OF demo_node_ok(3), of Map.empty ?ins demo_db st nd, unfolded start, OF h r(1)] by blast
  have "pw_answers w 7 = Some (Some [5])" unfolding w(3)[symmetric] r(2) by simp
  then show ?thesis unfolding start using r(1) w(1,2) t by metis
qed

end
