(* ===== verification/Profile_System.thy ===== *)
theory Profile_System
  imports Profile_Node Profile_Races
begin

text \<open>
  The profile handlers of \<open>ws.rs\<close>, the command queue and the event loop of \<open>p2p/node.rs\<close> together.
  Unlike in \<open>Profile_Tasks\<close>, a command takes effect when the node takes it from the queue, which other
  tasks fill as well, and an answer comes when the swarm event of its query does. The gateway has its
  command channel, and the channel is open as long as the node runs: a panic of the node ends the run.
\<close>

record ('db, 'q) profile_system =
  py_tasks :: "nat \<rightharpoonup> profile_task"
  py_queue :: "node_command list"
  py_loop :: "'q mailbox_state \<times> ('db, 'q) node"
  py_next :: nat  \<comment> \<open>the next oneshot channel\<close>

definition oneshot :: "('db, 'q) profile_system \<Rightarrow> nat \<rightharpoonup> bytes option" where
  "oneshot s = map_of (nd_replies (snd (py_loop s)))"

definition profile_command :: "node_command \<Rightarrow> bool" where
  "profile_command c = (case c of
      ProfileStore i b \<Rightarrow> True | ProfileTokenStore i t \<Rightarrow> True
    | ProfileLookup i ch \<Rightarrow> True | ProfileTokenLookup i ch \<Rightarrow> True | _ \<Rightarrow> False)"

definition hand_over :: "nat \<Rightarrow> profile_task \<times> node_command list \<Rightarrow> ('db, 'q) profile_system \<Rightarrow> ('db, 'q) profile_system" where
  "hand_over n r s =
     s\<lparr>py_tasks := (py_tasks s)(n \<mapsto> fst r), py_queue := py_queue s @ snd r, py_next := Suc (py_next s)\<rparr>"

text \<open>
  A request arrives; a handler goes on, with its answer if it waits for one; its ten seconds are
  over; another task sends a command that is not about profiles; the event loop has a tick or a
  swarm event; it takes the next command.
\<close>

datatype 'q system_input =
    Requests nat u8 bytes
  | GoesOn nat bytes
  | GivesUp nat bytes
  | OtherCommand node_command
  | LoopTurn nat "bytes list" "'q node_input"
  | LoopTakes nat "bytes list"

definition system_step ::
    "('db, 'q) node_env \<Rightarrow> 'q system_input \<Rightarrow> ('db, 'q) profile_system \<Rightarrow> ('db, 'q) profile_system option" where
  "system_step E inp s =
     (case inp of
        Requests n opcode payload \<Rightarrow>
          Some (if py_tasks s n \<noteq> None then s else hand_over n (begin_profile True True opcode payload (py_next s)) s)
      | GoesOn n token \<Rightarrow>
          Some (case py_tasks s n of
                  None \<Rightarrow> s
                | Some t \<Rightarrow>
                    (case waits_on t of
                       None \<Rightarrow> hand_over n (resume_profile token (py_next s) None t) s
                     | Some ch \<Rightarrow>
                         (case oneshot s ch of
                            None \<Rightarrow> s
                          | Some answer \<Rightarrow> hand_over n (resume_profile token (py_next s) answer t) s)))
      | GivesUp n token \<Rightarrow>
          Some (case py_tasks s n of
                  None \<Rightarrow> s
                | Some t \<Rightarrow> if waits_on t = None then s else hand_over n (resume_profile token (py_next s) None t) s)
      | OtherCommand c \<Rightarrow> Some (if profile_command c then s else s\<lparr>py_queue := py_queue s @ [c]\<rparr>)
      | LoopTurn now conn i \<Rightarrow>
          (case i of
             Command c \<Rightarrow> Some s
           | _ \<Rightarrow> map_option (\<lambda>l. s\<lparr>py_loop := l\<rparr>) (node_loop E (now, conn, i) (py_loop s)))
      | LoopTakes now conn \<Rightarrow>
          (case py_queue s of
             [] \<Rightarrow> Some s
           | c # cs \<Rightarrow> map_option (\<lambda>l. s\<lparr>py_loop := l, py_queue := cs\<rparr>) (node_loop E (now, conn, Command c) (py_loop s))))"

definition system_start :: "('db, 'q) node_env \<Rightarrow> 'db \<Rightarrow> ('db, 'q) profile_system" where
  "system_start E db =
     \<lparr>py_tasks = Map.empty, py_queue = [], py_loop = (Idle, dial_persisted E (node_start db)), py_next = 0\<rparr>"

text \<open>The network tells the truth about the queries of profile records.\<close>

definition honest_turn :: "('db, 'q) node_env \<Rightarrow> (bytes \<rightharpoonup> bytes) \<Rightarrow> 'q system_input \<Rightarrow> ('db, 'q) profile_system \<Rightarrow> bool" where
  "honest_turn E m inp s =
     (case inp of LoopTurn now conn i \<Rightarrow> honest_input E m i (snd (py_loop s)) | _ \<Rightarrow> True)"

primrec honest_turns ::
    "('db, 'q) node_env \<Rightarrow> (bytes \<rightharpoonup> bytes) \<Rightarrow> 'q system_input list \<Rightarrow> ('db, 'q) profile_system \<Rightarrow> bool" where
  "honest_turns E m [] s = True"
| "honest_turns E m (i # is) s =
     (honest_turn E m i s \<and> (case system_step E i s of None \<Rightarrow> True | Some s' \<Rightarrow> honest_turns E m is s'))"


section \<open>Channels\<close>

definition queued_asks :: "node_command list \<Rightarrow> (nat \<times> bytes) list" where
  "queued_asks cs = List.map_filter (\<lambda>c. case c of
      ProfileLookup i ch \<Rightarrow> Some (ch, profile_key i) | ProfileTokenLookup i ch \<Rightarrow> Some (ch, update_key i) | _ \<Rightarrow> None) cs"

lemma queued_asks_simps [simp]:
  "queued_asks [] = []" "queued_asks (cs @ ds) = queued_asks cs @ queued_asks ds"
  "queued_asks (ProfileLookup i ch # cs) = (ch, profile_key i) # queued_asks cs"
  "queued_asks (ProfileTokenLookup i ch # cs) = (ch, update_key i) # queued_asks cs"
  "queued_asks (ProfileStore i b # cs) = queued_asks cs" "queued_asks (ProfileTokenStore i b # cs) = queued_asks cs"
  by (simp_all add: queued_asks_def List.map_filter_def)

lemma queued_other: "\<not> profile_command c \<Longrightarrow> queued_asks (c # cs) = queued_asks cs"
  by (simp add: queued_asks_def List.map_filter_simps profile_command_def split: node_command.splits)

text \<open>
  The records and questions as the abstract world has them, and the channels: a waiting task's
  question is in the queue or has been asked, and a channel in the queue has not.
\<close>

definition system_serves ::
    "('db, 'q) node_env \<Rightarrow> (bytes \<rightharpoonup> bytes) \<Rightarrow> profile_world \<Rightarrow> ('db, 'q) profile_system \<Rightarrow> bool" where
  "system_serves E m w s \<longleftrightarrow>
     serves E m w (snd (py_loop s)) \<and>
     (\<forall>ch \<ge> py_next s. pw_asked w ch = None) \<and>
     (\<forall>ch key. (ch, key) \<in> set (queued_asks (py_queue s)) \<longrightarrow> ch < py_next s \<and> pw_asked w ch = None) \<and>
     distinct (map fst (queued_asks (py_queue s))) \<and>
     (\<forall>n t ch. py_tasks s n = Some t \<longrightarrow> waits_on t = Some ch \<longrightarrow>
        pw_asked w ch = Some (task_key t) \<or> (ch, task_key t) \<in> set (queued_asks (py_queue s)))"

lemma system_servesD:
  assumes "system_serves E m w s"
  shows "serves E m w (snd (py_loop s))" "py_next s \<le> ch \<Longrightarrow> pw_asked w ch = None"
    "(ch, key) \<in> set (queued_asks (py_queue s)) \<Longrightarrow> ch < py_next s"
    "(ch, key) \<in> set (queued_asks (py_queue s)) \<Longrightarrow> pw_asked w ch = None"
    "distinct (map fst (queued_asks (py_queue s)))"
    "py_tasks s n = Some t \<Longrightarrow> waits_on t = Some ch \<Longrightarrow>
       pw_asked w ch = Some (task_key t) \<or> (ch, task_key t) \<in> set (queued_asks (py_queue s))"
  using assms unfolding system_serves_def by blast+

lemma served_oneshot: "system_serves E m w s \<Longrightarrow> oneshot s = pw_answers w"
  using system_servesD(1) servesD(3) unfolding oneshot_def by metis

lemma next_unanswered: "system_serves E m w s \<Longrightarrow> oneshot s (py_next s) = None"
  using served_oneshot system_servesD(1,2) servesD(9) by (metis order_refl)

text \<open>What a handler sends asks on its own channel.\<close>

definition asks_own :: "nat \<Rightarrow> profile_task \<times> node_command list \<Rightarrow> bool" where
  "asks_own ch r \<longleftrightarrow> queued_asks (snd r) = (if waits_on (fst r) = None then [] else [(ch, task_key (fst r))]) \<and>
     (waits_on (fst r) = None \<or> waits_on (fst r) = Some ch)"

lemma begin_asks_own: "asks_own ch (begin_profile tx live opcode payload ch)"
  by (auto simp: begin_profile_def asks_own_def waits_on_def task_key_def)

lemma resume_asks_own: "asks_own ch (resume_profile token ch answer t)"
  by (cases t) (auto simp: resume_profile_def asks_own_def waits_on_def task_key_def split: option.split)

lemma hand_over_serves:
  assumes s: "system_serves E m w s" and r: "asks_own (py_next s) r"
  shows "system_serves E m w (hand_over n r s)"
  unfolding system_serves_def
proof (intro conjI allI impI)
  note D = system_servesD[OF s]
  let ?s = "hand_over n r s"
  have q: "queued_asks (py_queue ?s) = queued_asks (py_queue s) @
      (if waits_on (fst r) = None then [] else [(py_next s, task_key (fst r))])"
    using r by (simp add: hand_over_def asks_own_def)
  show "serves E m w (snd (py_loop ?s))" using D(1) by (simp add: hand_over_def)
  show "pw_asked w ch = None" if "py_next ?s \<le> ch" for ch using D(2) that by (simp add: hand_over_def)
  show "ch < py_next ?s" "pw_asked w ch = None" if "(ch, key) \<in> set (queued_asks (py_queue ?s))" for ch key
  proof -
    have "(ch, key) \<in> set (queued_asks (py_queue s)) \<or> ch = py_next s" using that unfolding q by (auto split: if_splits)
    then show "ch < py_next ?s" "pw_asked w ch = None"
      using D(3,4)[of ch key] D(2)[of ch] by (auto simp: hand_over_def)
  qed
  show "distinct (map fst (queued_asks (py_queue ?s)))"
    using D(3,5) by (force simp: q)
  show "pw_asked w ch = Some (task_key t) \<or> (ch, task_key t) \<in> set (queued_asks (py_queue ?s))"
    if "py_tasks ?s k = Some t" "waits_on t = Some ch" for k t ch
    using that D(6)[of k t ch] r by (auto simp: q asks_own_def hand_over_def split: if_splits)
qed

text \<open>Nothing changes for the tasks, the first command takes effect, or an open question is answered.\<close>

definition effect_of :: "('db, 'q) profile_system \<Rightarrow> profile_world \<Rightarrow> profile_world \<Rightarrow> bool" where
  "effect_of s w w' \<longleftrightarrow> w' = w \<or> (\<exists>c cs. py_queue s = c # cs \<and> w' = apply_command c w) \<or>
     (\<exists>ch key. pw_asked w ch = Some key \<and> w' = w\<lparr>pw_answers := (pw_answers w)(ch \<mapsto> pw_dht w key)\<rparr>)"

lemma turn_effect:
  assumes inj: "inj (ne_ids E)" and s: "system_serves E m w s" and h: "honest_input E m i (snd (py_loop s))"
    and i: "\<And>c. i \<noteq> Command c" and r: "node_loop E (now, conn, i) (py_loop s) = Some l"
  shows "\<exists>w'. system_serves E m w' (s\<lparr>py_loop := l\<rparr>) \<and> effect_of s w w'"
proof -
  note D = system_servesD[OF s]
  obtain w' where w': "run_steps record_step (record_actions i (snd (py_loop s))) w = Some w'" "serves E m w' (snd l)"
    using serves_step[OF D(1) h inj, of now conn "fst (py_loop s)" "fst l" "snd l"] r by (auto simp: node_loop_def)
  have acts: "record_actions i (snd (py_loop s)) = [] \<or> (\<exists>ch. record_actions i (snd (py_loop s)) = [Answers ch])"
    using i by (auto simp: record_actions_def split: node_input.split swarm_event.split option.split)
  have e: "w' = w \<or> (\<exists>ch key. pw_asked w ch = Some key \<and> w' = w\<lparr>pw_answers := (pw_answers w)(ch \<mapsto> pw_dht w key)\<rparr>)"
    using acts
  proof (elim disjE exE)
    fix ch
    assume "record_actions i (snd (py_loop s)) = [Answers ch]"
    then have "profile_step (Replies ch) w = Some w'" using w'(1) by (cases "profile_step (Replies ch) w") (simp_all add: record_step_def)
    then show ?thesis
      by (cases "pw_asked w ch"; cases "pw_answers w ch") (simp_all add: profile_step_def, blast)
  qed (use w'(1) in simp)
  then have "pw_asked w' = pw_asked w" by auto
  then have "system_serves E m w' (s\<lparr>py_loop := l\<rparr>)" using s w'(2) by (simp add: system_serves_def)
  then show ?thesis using e unfolding effect_of_def by blast
qed

text \<open>A command that is taken is asked on a channel the node has not seen.\<close>

lemma taken_new:
  assumes s: "system_serves E m w s" and q: "py_queue s = c # cs"
  shows "honest_input E m (Command c) (snd (py_loop s))"
proof -
  note D = servesD[OF system_servesD(1)[OF s]]
  have new: "ch \<notin> fst ` set (nd_replies (snd (py_loop s))) \<and> ch \<notin> snd ` set (nd_profile_queries (snd (py_loop s)))"
    if "(ch, key) \<in> set (queued_asks (py_queue s))" for ch key
  proof
    have none: "pw_asked w ch = None" by (rule system_servesD(4)[OF s that])
    then show "ch \<notin> fst ` set (nd_replies (snd (py_loop s)))"
      using D(9)[of ch] by (simp add: D(3) map_of_eq_None_iff)
    show "ch \<notin> snd ` set (nd_profile_queries (snd (py_loop s)))"
    proof
      assume "ch \<in> snd ` set (nd_profile_queries (snd (py_loop s)))"
      then obtain qid where "(qid, ch) \<in> set (nd_profile_queries (snd (py_loop s)))" by force
      from D(7)[OF this] none show False by (auto simp: open_query_def)
    qed
  qed
  show ?thesis
  proof (cases c)
    case (ProfileLookup i ch)
    then show ?thesis using new[of ch "profile_key i"] q by (simp add: honest_input_def)
  next
    case (ProfileTokenLookup i ch)
    then show ?thesis using new[of ch "update_key i"] q by (simp add: honest_input_def)
  qed (simp_all add: honest_input_def)
qed

lemma apply_asked:
  "pw_asked (apply_command c w) ch =
     (case map_of (queued_asks [c]) ch of None \<Rightarrow> pw_asked w ch | Some key \<Rightarrow> Some key)"
  by (cases c) (simp_all add: apply_command_def queued_asks_def List.map_filter_simps)

lemma queued_cons: "queued_asks (c # cs) = queued_asks [c] @ queued_asks cs"
  by (simp add: queued_asks_def List.map_filter_def)

lemma take_effect:
  assumes inj: "inj (ne_ids E)" and s: "system_serves E m w s" and q: "py_queue s = c # cs"
    and r: "node_loop E (now, conn, Command c) (py_loop s) = Some l"
  shows "\<exists>w'. system_serves E m w' (s\<lparr>py_loop := l, py_queue := cs\<rparr>) \<and> effect_of s w w'"
proof -
  note D = system_servesD[OF s]
  let ?w = "apply_command c w" and ?s = "s\<lparr>py_loop := l, py_queue := cs\<rparr>"
  have sv: "serves E m ?w (snd l)"
    using serves_step[OF D(1) taken_new[OF s q] inj, of now conn "fst (py_loop s)" "fst l" "snd l"] r
    by (simp add: node_loop_def record_actions_def record_step_def)
  have qs: "queued_asks (py_queue s) = queued_asks [c] @ queued_asks cs" by (simp add: q queued_cons[of c cs])
  have apart: "map_of (queued_asks [c]) ch = None" if "(ch, key) \<in> set (queued_asks cs)" for ch key
    using D(5) that unfolding qs by (force simp: map_of_eq_None_iff)
  have head: "map_of (queued_asks [c]) ch = None \<or> ch < py_next s" for ch
    using D(3)[of ch] unfolding qs by (cases "map_of (queued_asks [c]) ch") (auto dest: map_of_SomeD)
  have one: "(ch, key) \<in> set (queued_asks [c]) \<Longrightarrow> map_of (queued_asks [c]) ch = Some key" for ch key
    by (cases c) (simp_all add: queued_asks_def List.map_filter_simps)
  have other: "pw_asked w ch = Some key \<Longrightarrow> map_of (queued_asks [c]) ch = None" for ch key
    using D(4)[of ch] unfolding qs by (cases "map_of (queued_asks [c]) ch") (auto dest!: map_of_SomeD)
  have "system_serves E m ?w ?s"
    unfolding system_serves_def
  proof (intro conjI allI impI)
    show "serves E m ?w (snd (py_loop ?s))" using sv by simp
    show "pw_asked ?w ch = None" if "py_next ?s \<le> ch" for ch
      using head[of ch] D(2)[of ch] that by (auto simp: apply_asked)
    show "ch < py_next ?s" "pw_asked ?w ch = None" if "(ch, key) \<in> set (queued_asks (py_queue ?s))" for ch key
      using that D(3,4)[of ch key] apart[of ch key] by (simp_all add: qs apply_asked)
    show "distinct (map fst (queued_asks (py_queue ?s)))" using D(5) by (simp add: qs)
    show "pw_asked ?w ch = Some (task_key t) \<or> (ch, task_key t) \<in> set (queued_asks (py_queue ?s))"
      if "py_tasks ?s n = Some t" "waits_on t = Some ch" for n t ch
      using D(6)[of n t ch] that one other by (auto simp: qs apply_asked)
  qed
  then show ?thesis using q by (auto simp: effect_of_def)
qed

lemma system_step_effect:
  assumes inj: "inj (ne_ids E)" and s: "system_serves E m w s" and h: "honest_turn E m inp s"
    and r: "system_step E inp s = Some s'"
  shows "\<exists>w'. system_serves E m w' s' \<and> effect_of s w w'"
proof -
  have hand: ?thesis if "s' = hand_over n x s" "asks_own (py_next s) x" for n x
    using hand_over_serves[OF s that(2)] that(1) by (auto simp: effect_of_def)
  have same: ?thesis if "s' = s" using s that by (auto simp: effect_of_def)
  show ?thesis
  proof (cases inp)
    case (LoopTurn now conn i)
    then show ?thesis
      using r h same turn_effect[OF inj s, of i now conn]
      by (cases i) (auto simp: system_step_def honest_turn_def)
  next
    case (LoopTakes now conn)
    then show ?thesis
      using r same take_effect[OF inj s, of _ _ now conn] by (auto simp: system_step_def split: list.splits)
  next
    case (OtherCommand c)
    then have "s' = s \<or> s' = s\<lparr>py_queue := py_queue s @ [c]\<rparr> \<and> queued_asks [c] = []"
      using r queued_other[of c "[]"] by (cases "profile_command c") (simp_all add: system_step_def)
    then have "system_serves E m w s'" using s by (elim disjE) (simp_all add: system_serves_def)
    then show ?thesis by (auto simp: effect_of_def)
  next
    case (Requests n opcode payload)
    then show ?thesis using r hand[OF _ begin_asks_own] same by (auto simp: system_step_def split: if_splits)
  next
    case (GoesOn n token)
    then show ?thesis using r hand[OF _ resume_asks_own] same by (auto simp: system_step_def split: option.splits)
  next
    case (GivesUp n token)
    then show ?thesis using r hand[OF _ resume_asks_own] same by (auto simp: system_step_def split: option.splits if_splits)
  qed
qed

text \<open>From the start on, the node serves the system along every honest run.\<close>

lemma system_start_serves: "system_serves E m (profile_world_start m) (system_start E db)"
  using serves_start[of E m db] by (simp add: system_serves_def system_start_def profile_world_start_def)

lemma system_run_serves:
  assumes inj: "inj (ne_ids E)"
  shows "system_serves E m w s \<Longrightarrow> honest_turns E m is s \<Longrightarrow> run_steps (system_step E) is s = Some s' \<Longrightarrow>
    \<exists>w'. system_serves E m w' s'"
proof (induction "is" arbitrary: s w)
  case (Cons i "is")
  then obtain s1 where s1: "system_step E i s = Some s1" "run_steps (system_step E) is s1 = Some s'"
    by (auto simp: bind_eq_Some_conv)
  from system_step_effect[OF inj Cons.prems(1) _ s1(1)] Cons.prems(2) obtain w1 where "system_serves E m w1 s1" by auto
  then show ?case using Cons.IH[OF _ _ s1(2)] Cons.prems(2) s1(1) by simp
qed auto


section \<open>The token\<close>

definition stores_name :: "bytes \<Rightarrow> node_command \<Rightarrow> bool" where
  "stores_name i c = (case c of ProfileStore j b \<Rightarrow> j = i | ProfileTokenStore j t \<Rightarrow> j = i | _ \<Rightarrow> False)"

definition system_guarded :: "bytes \<Rightarrow> bytes \<Rightarrow> bytes \<Rightarrow> profile_world \<Rightarrow> ('db, 'q) profile_system \<Rightarrow> bool" where
  "system_guarded i b tok w s \<longleftrightarrow> view_of i (pw_dht w) = (Some b, Some tok) \<and>
     (\<forall>c \<in> set (py_queue s). \<not> stores_name i c) \<and>
     (\<forall>n t. py_tasks s n = Some t \<longrightarrow> harmless i tok (pw_answers w) t)"

definition no_system_theft :: "bytes \<Rightarrow> bytes \<Rightarrow> 'q system_input \<Rightarrow> bool" where
  "no_system_theft i tok inp = (case inp of
      Requests n opcode payload \<Rightarrow> \<not> presents i tok ([], opcode, payload)
    | GivesUp n token \<Rightarrow> False
    | _ \<Rightarrow> True)"

lemma begin_sends: "\<not> stores_name i c" if "c \<in> set (snd (begin_profile tx live opcode payload ch))"
  using that by (auto simp: begin_profile_def stores_name_def split: if_splits)

lemma resume_sends:
  assumes "harmless i tok answers t"
    and "case waits_on t of None \<Rightarrow> answer = None | Some c \<Rightarrow> answers c = Some answer"
    and "c \<in> set (snd (resume_profile token ch answer t))"
  shows "\<not> stores_name i c"
  using assms
  by (cases t) (auto simp: resume_profile_def harmless_def stores_name_def waits_on_def split: option.splits if_splits)

lemma resume_stays_harmless:
  assumes "harmless i tok answers t" "answers ch = None"
    and "case waits_on t of None \<Rightarrow> answer = None | Some c \<Rightarrow> answers c = Some answer"
  shows "harmless i tok answers (fst (resume_profile token ch answer t))"
  using assms
  by (cases t) (auto simp: resume_profile_def harmless_def waits_on_def split: option.splits)

lemma effect_guarded:
  assumes s: "system_serves E m w s" and g: "system_guarded i b tok w s" and e: "effect_of s w w'"
  shows "view_of i (pw_dht w') = (Some b, Some tok) \<and> (\<forall>n t. py_tasks s n = Some t \<longrightarrow> harmless i tok (pw_answers w') t)"
  using e unfolding effect_of_def
proof (elim disjE exE conjE)
  fix c cs
  assume c: "py_queue s = c # cs" "w' = apply_command c w"
  then have "\<not> stores_name i c" using g by (simp add: system_guarded_def)
  then have "view_of i (pw_dht w') = view_of i (pw_dht w)"
    by (cases c) (auto simp: c(2) apply_command_def stores_name_def put_call_def)
  then show ?thesis using g by (simp add: c(2) system_guarded_def)
next
  fix ch key
  assume k: "pw_asked w ch = Some key" "w' = w\<lparr>pw_answers := (pw_answers w)(ch \<mapsto> pw_dht w key)\<rparr>"
  have "harmless i tok ((pw_answers w)(ch \<mapsto> pw_dht w key)) t" if t: "py_tasks s n = Some t" for n t
  proof (rule reply_harmless)
    show "harmless i tok (pw_answers w) t" "view_of i (pw_dht w) = (Some b, Some tok)"
      using g t by (simp_all add: system_guarded_def)
    show "key = task_key t" if "waits_on t = Some ch"
      using system_servesD(6)[OF s t that] system_servesD(4)[OF s, of ch "task_key t"] k(1) by auto
  qed
  then show ?thesis using g by (simp add: k(2) system_guarded_def)
qed (use g in \<open>simp add: system_guarded_def\<close>)

lemma hand_over_guarded:
  assumes "system_guarded i b tok w s" "harmless i tok (pw_answers w) (fst r)" "\<And>c. c \<in> set (snd r) \<Longrightarrow> \<not> stores_name i c"
  shows "system_guarded i b tok w (hand_over n r s)"
  using assms by (auto simp: system_guarded_def hand_over_def)

lemma moved_guarded:
  assumes s: "system_serves E m w s" and g: "system_guarded i b tok w s" and t: "py_tasks s n = Some t"
    and a: "case waits_on t of None \<Rightarrow> answer = None | Some c \<Rightarrow> oneshot s c = Some answer"
    and s': "s' = hand_over n (resume_profile token (py_next s) answer t) s"
  shows "system_serves E m w s' \<and> system_guarded i b tok w s'"
proof -
  note o = served_oneshot[OF s]
  have h: "harmless i tok (pw_answers w) t" using g t by (simp add: system_guarded_def)
  have "harmless i tok (pw_answers w) (fst (resume_profile token (py_next s) answer t))"
    using resume_stays_harmless[OF h] next_unanswered[OF s] a unfolding o by blast
  then have "system_guarded i b tok w s'"
    unfolding s' using resume_sends[OF h] a unfolding o by (intro hand_over_guarded[OF g]) blast+
  then show ?thesis using hand_over_serves[OF s resume_asks_own] s' by blast
qed

lemma system_step_guarded:
  assumes inj: "inj (ne_ids E)" and s: "system_serves E m w s" and g: "system_guarded i b tok w s"
    and h: "honest_turn E m inp s" and t: "no_system_theft i tok inp" and r: "system_step E inp s = Some s'"
  shows "\<exists>w'. system_serves E m w' s' \<and> system_guarded i b tok w' s'"
proof -
  have same: ?thesis if "s' = s" using s g that by blast
  show ?thesis
  proof (cases inp)
    case (Requests n opcode payload)
    show ?thesis
    proof (cases "py_tasks s n")
      case None
      let ?r = "begin_profile True True opcode payload (py_next s)"
      have "pw_answers w (py_next s) = None" using next_unanswered[OF s] served_oneshot[OF s] by simp
      then have "harmless i tok (pw_answers w) (fst ?r)"
        using begin_harmless t Requests by (simp add: no_system_theft_def)
      then have "system_guarded i b tok w (hand_over n ?r s)" using hand_over_guarded[OF g] begin_sends by blast
      moreover have "s' = hand_over n ?r s" using r Requests None by (simp add: system_step_def)
      ultimately show ?thesis using hand_over_serves[OF s begin_asks_own] by blast
    qed (use same r Requests in \<open>simp add: system_step_def\<close>)
  next
    case (GoesOn n token)
    show ?thesis
    proof (cases "\<exists>t. py_tasks s n = Some t \<and> (\<forall>c. waits_on t = Some c \<longrightarrow> oneshot s c \<noteq> None)")
      case True
      then obtain t where t: "py_tasks s n = Some t" "\<forall>c. waits_on t = Some c \<longrightarrow> oneshot s c \<noteq> None" by blast
      define answer where "answer = (case waits_on t of None \<Rightarrow> None | Some c \<Rightarrow> Option.bind (oneshot s c) id)"
      have "s' = hand_over n (resume_profile token (py_next s) answer t) s"
        "case waits_on t of None \<Rightarrow> answer = None | Some c \<Rightarrow> oneshot s c = Some answer"
        using r GoesOn t by (auto simp: system_step_def answer_def split: option.splits)
      from moved_guarded[OF s g t(1) this(2,1)] show ?thesis by blast
    next
      case False
      then have "s' = s" using r GoesOn by (auto simp: system_step_def split: option.splits)
      then show ?thesis by (rule same)
    qed
  next
  case (OtherCommand c)
    then have "s' = s \<or> s' = s\<lparr>py_queue := py_queue s @ [c]\<rparr> \<and> queued_asks [c] = [] \<and> \<not> stores_name i c"
      using r queued_other[of c "[]"]
      by (cases c) (auto simp: system_step_def profile_command_def stores_name_def)
    then have "system_serves E m w s' \<and> system_guarded i b tok w s'"
      using s g by (elim disjE) (auto simp add: system_serves_def system_guarded_def)
    then show ?thesis by blast
  next
    case (LoopTurn now conn j)
    show ?thesis
    proof (cases "s' = s")
      case False
      then obtain l where l: "\<And>c. j \<noteq> Command c" "node_loop E (now, conn, j) (py_loop s) = Some l" "s' = s\<lparr>py_loop := l\<rparr>"
        using r LoopTurn by (cases j) (auto simp: system_step_def)
      have "honest_input E m j (snd (py_loop s))" using h LoopTurn by (simp add: honest_turn_def)
      from turn_effect[OF inj s this l(1,2)] obtain w' where w': "system_serves E m w' s'" "effect_of s w w'" using l(3) by blast
      then have "system_guarded i b tok w' s'"
        using effect_guarded[OF s g w'(2)] g by (simp add: system_guarded_def l(3))
      with w'(1) show ?thesis by blast
    qed (rule same)
  next
    case (LoopTakes now conn)
    show ?thesis
    proof (cases "py_queue s")
      case (Cons c cs)
      then obtain l where l: "node_loop E (now, conn, Command c) (py_loop s) = Some l" "s' = s\<lparr>py_loop := l, py_queue := cs\<rparr>"
        using r LoopTakes by (auto simp: system_step_def)
      from take_effect[OF inj s Cons l(1)] obtain w' where w': "system_serves E m w' s'" "effect_of s w w'" using l(2) by blast
      then have "system_guarded i b tok w' s'"
        using effect_guarded[OF s g w'(2)] g Cons by (simp add: system_guarded_def l(2))
      with w'(1) show ?thesis by blast
    qed (use same r LoopTakes in \<open>simp add: system_step_def\<close>)
  qed (use t in \<open>simp add: no_system_theft_def\<close>)
qed

lemma system_run_guarded:
  assumes inj: "inj (ne_ids E)"
  shows "system_serves E m w s \<Longrightarrow> system_guarded i b tok w s \<Longrightarrow> honest_turns E m is s \<Longrightarrow>
    \<forall>inp \<in> set is. no_system_theft i tok inp \<Longrightarrow> run_steps (system_step E) is s = Some s' \<Longrightarrow>
    \<exists>w'. system_serves E m w' s' \<and> system_guarded i b tok w' s'"
proof (induction "is" arbitrary: s w)
  case (Cons j "is")
  then obtain s1 where s1: "system_step E j s = Some s1" "run_steps (system_step E) is s1 = Some s'"
    by (auto simp: bind_eq_Some_conv)
  have "honest_turn E m j s" "no_system_theft i tok j" using Cons.prems(3,4) by simp_all
  from system_step_guarded[OF inj Cons.prems(1,2) this s1(1)]
  obtain w1 where "system_serves E m w1 s1" "system_guarded i b tok w1 s1" by blast
  from Cons.IH[OF this _ _ s1(2)] Cons.prems(3,4) s1(1) show ?case by simp
qed auto

lemma honest_turns_append:
  "run_steps (system_step E) is s = Some s' \<Longrightarrow>
    honest_turns E m (is @ js) s \<longleftrightarrow> honest_turns E m is s \<and> honest_turns E m js s'"
  by (induction "is" arbitrary: s) (auto simp: bind_eq_Some_conv)

text \<open>C16: The token guards a name in the whole system of profile handlers, command queue and node. Take any
  run from the start, with requests of any number of clients, commands of other tasks, and turns of
  the node in any order, over a network that is truthful about profile records. Once the network
  holds a blob and a token for a name, no command that stores under the name is on its way, and no
  handler was told that the name is free or without token, then no continuation changes either
  record, as long as no request presents the token and no handler gives up waiting; and no handler
  gets to storing under the name again.\<close>

theorem token_guards_system:
  assumes inj: "inj (ne_ids E)"
    and run: "run_steps (system_step E) ins1 (system_start E db) = Some s1" "run_steps (system_step E) ins2 s1 = Some s2"
    and honest: "honest_turns E m (ins1 @ ins2) (system_start E db)"
    and name: "network m (snd (py_loop s1)) (profile_key i) = Some b" "network m (snd (py_loop s1)) (update_key i) = Some tok"
    and quiet: "\<forall>c \<in> set (py_queue s1). \<not> stores_name i c" "\<forall>n t. py_tasks s1 n = Some t \<longrightarrow> harmless i tok (oneshot s1) t"
    and fair: "\<forall>inp \<in> set ins2. no_system_theft i tok inp"
  shows "network m (snd (py_loop s2)) (profile_key i) = Some b \<and> network m (snd (py_loop s2)) (update_key i) = Some tok \<and>
    (\<forall>c \<in> set (py_queue s2). \<not> stores_name i c) \<and> (\<forall>n t. py_tasks s2 n \<noteq> Some (RegStoresToken i t))"
proof -
  have h: "honest_turns E m ins1 (system_start E db)" "honest_turns E m ins2 s1"
    using honest honest_turns_append[OF run(1)] by blast+
  obtain w1 where w1: "system_serves E m w1 s1"
    using system_run_serves[OF inj system_start_serves h(1) run(1)] by blast
  have "system_guarded i b tok w1 s1"
    using quiet name served_oneshot[OF w1] servesD(2)[OF system_servesD(1)[OF w1]]
    by (simp add: system_guarded_def view_of_def)
  then obtain w2 where w2: "system_serves E m w2 s2" "system_guarded i b tok w2 s2"
    using system_run_guarded[OF inj w1 _ h(2) fair run(2)] by blast
  have "network m (snd (py_loop s2)) key = pw_dht w2 key" if "profile_record key" for key
    using servesD(2)[OF system_servesD(1)[OF w2(1)] that] by simp
  then show ?thesis using w2(2) by (fastforce simp: system_guarded_def view_of_def harmless_def)
qed

text \<open>An update with a wrong token is refused.\<close>

theorem token_guards_system_witness:
  "let i = replicate 32 1; m = [profile_key i \<mapsto> [5], update_key i \<mapsto> replicate 32 7]
   in \<exists>s. run_steps (system_step demo_node_env)
        [Requests 1 0x04 (i @ replicate 32 8 @ [6]), LoopTakes 0 [],
         LoopTurn 0 [] (Swarm (KadFound 0 (update_key i) (replicate 32 7))), GoesOn 1 []]
        (system_start demo_node_env demo_db) = Some s \<and>
     network m (snd (py_loop s)) (profile_key i) = Some [5]"
proof -
  let ?i = "replicate 32 1 :: bytes" and ?t = "replicate 32 7 :: bytes"
  let ?m = "[profile_key ?i \<mapsto> [5], update_key ?i \<mapsto> ?t]"
  let ?ins = "[Requests 1 0x04 (?i @ replicate 32 8 @ [6]), LoopTakes 0 [],
      LoopTurn 0 [] (Swarm (KadFound 0 (update_key ?i) ?t)), GoesOn 1 []] :: nat system_input list"
  let ?s = "system_start demo_node_env demo_db"
  have p: "persisted_addrs toy_wire toy_sled demo_db = []"
    by (simp add: persisted_addrs_def toy_sled_def demo_db_def toy_norm_def bt_wf_def SLED_PEER_TREE_def SLED_MAILBOX_TREE_def
        List.map_filter_simps)
  have start: "?s = \<lparr>py_tasks = Map.empty, py_queue = [], py_loop = (Idle, node_start demo_db), py_next = 0\<rparr>"
    using p by (simp add: system_start_def dial_persisted_def demo_node_env_def node_start_def)
  have key: "parse_update_key (update_key j) = Some j" "parse_profile_key (update_key j) = None" for j
    using profile_update.cross_parse(1) by (simp_all add: update_keys.parse_mk)
  have begin_: "begin_profile True True 0x04 (?i @ replicate 32 8 @ [6]) 0 =
      (UpdChecksToken ?i (replicate 32 8) [6] 0, [ProfileTokenLookup ?i 0])"
    by (simp add: begin_profile_def slice_def)
  have ids: "ne_ids demo_node_env = (\<lambda>n. n)" by (simp add: demo_node_env_def)
  have run: "\<exists>s. run_steps (system_step demo_node_env) ?ins ?s = Some s"
    unfolding start
    by (simp add: system_step_def begin_ hand_over_def node_loop_def node_step_def handle_command_def seed_index_def
        command_user_def check_state_timeout_def profile_query_def get_record_def call_def am_insert_def node_start_def
        handle_swarm_event_def handle_kad_found_def reply_def key ids resume_profile_def waits_on_def
        oneshot_def)
  have h: "honest_turns demo_node_env ?m ([] @ ?ins) ?s"
    unfolding start
    by (simp add: system_step_def begin_ hand_over_def node_loop_def node_step_def handle_command_def seed_index_def
        command_user_def check_state_timeout_def profile_query_def get_record_def call_def am_insert_def node_start_def
        honest_turn_def honest_input_def network_def put_call_def ids split: option.split)
  have n0: "network ?m (snd (py_loop ?s)) = ?m" by (simp add: start network_def node_start_def)
  have ne: "profile_key ?i \<noteq> update_key ?i" by simp
  obtain s where s: "run_steps (system_step demo_node_env) ?ins ?s = Some s" using run by blast
  have f: "\<forall>inp \<in> set ?ins. no_system_theft ?i ?t inp"
    by (simp add: no_system_theft_def presents_def slice_def replicate_eq_replicate)
  show ?thesis
    using token_guards_system[OF demo_node_ok(3), of "[]" demo_db ?s ?ins s ?m ?i "[5]" ?t] s h f n0 ne
    by (auto simp: start Let_def)
qed

end
