(* ===== verification/Node_Fresh.thy ===== *)
theory Node_Fresh
  imports Server_Run
begin

text \<open>
  The node writes new backup keys only: while it knows the index of a user in memory, every record
  it stores for that user has a higher number than the index, and the index never falls. So a key
  whose number the node remembers is never written again, whoever has removed the record since.
\<close>

definition mail_of :: "('db, 'q) node_env \<Rightarrow> ('db, 'q) node \<Rightarrow> bytes \<Rightarrow> bytes option" where
  "mail_of E nd k = sl_get (ne_sled E) (nd_db nd) SLED_MAILBOX_TREE k"

text \<open>The number of a key is at most the index in memory.\<close>

definition remembers :: "('db, 'q) node \<Rightarrow> bytes \<Rightarrow> bool" where
  "remembers nd k \<longleftrightarrow> (\<exists>u s i. k = seq_be_key u s \<and> nd_indices nd u = Some i \<and> s \<le> i)"

text \<open>The indices grow, and a changed record is new and remembered afterwards.\<close>

definition only_new :: "('db, 'q) node_env \<Rightarrow> ('db, 'q) node \<Rightarrow> ('db, 'q) node \<Rightarrow> bool" where
  "only_new E nd nd' \<longleftrightarrow>
     (\<forall>u i. nd_indices nd u = Some i \<longrightarrow> (\<exists>j. nd_indices nd' u = Some j \<and> i \<le> j)) \<and>
     (\<forall>k. mail_of E nd' k \<noteq> mail_of E nd k \<longrightarrow>
        (\<exists>u s j. k = seq_be_key u s \<and> nd_indices nd' u = Some j \<and> s \<le> j \<and>
           (\<forall>i. nd_indices nd u = Some i \<longrightarrow> i < s)))"

text \<open>An index is probed only while it is unknown.\<close>

definition probes_unknown :: "'q mailbox_state \<Rightarrow> ('db, 'q) node \<Rightarrow> bool" where
  "probes_unknown st nd \<longleftrightarrow>
     (case st of
        FetchingIndex cmd start max_found pending found deadline \<Rightarrow> nd_indices nd (pending_user cmd) = None
      | _ \<Rightarrow> True)"

lemma only_new_frame:
  assumes "nd_indices nd' = nd_indices nd" "\<And>k. mail_of E nd' k = mail_of E nd k"
  shows "only_new E nd nd'"
  using assms by (simp add: only_new_def)

lemma only_new_same: "nd_indices nd' = nd_indices nd \<Longrightarrow> nd_db nd' = nd_db nd \<Longrightarrow> only_new E nd nd'"
  by (rule only_new_frame) (simp_all add: mail_of_def)

lemma only_new_trans:
  assumes ab: "only_new E a b" and bc: "only_new E b c"
  shows "only_new E a c"
proof -
  have grow: "\<exists>j. nd_indices c u = Some j \<and> i \<le> j" if i: "nd_indices a u = Some i" for u i
  proof -
    obtain j where j: "nd_indices b u = Some j" "i \<le> j" using ab i unfolding only_new_def by blast
    then obtain l where "nd_indices c u = Some l" "j \<le> l" using bc unfolding only_new_def by blast
    with j(2) show ?thesis by (blast intro: order_trans)
  qed
  have "\<exists>u s j. k = seq_be_key u s \<and> nd_indices c u = Some j \<and> s \<le> j \<and> (\<forall>i. nd_indices a u = Some i \<longrightarrow> i < s)"
    if ch: "mail_of E c k \<noteq> mail_of E a k" for k
  proof (cases "mail_of E b k = mail_of E a k")
    case True
    then obtain u s j where s: "k = seq_be_key u s" "nd_indices c u = Some j" "s \<le> j"
      "\<forall>i. nd_indices b u = Some i \<longrightarrow> i < s" using bc ch unfolding only_new_def by metis
    have "i < s" if "nd_indices a u = Some i" for i
      using ab s(4) that unfolding only_new_def by (meson le_less_trans)
    with s show ?thesis by blast
  next
    case False
    then obtain u s j where s: "k = seq_be_key u s" "nd_indices b u = Some j" "s \<le> j"
      "\<forall>i. nd_indices a u = Some i \<longrightarrow> i < s" using ab unfolding only_new_def by metis
    then obtain l where "nd_indices c u = Some l" "j \<le> l" using bc unfolding only_new_def by blast
    with s show ?thesis by (blast intro: order_trans)
  qed
  with grow show ?thesis unfolding only_new_def by blast
qed

lemma only_new_index:
  assumes "nd_indices nd u = None"
  shows "only_new E nd (nd\<lparr>nd_indices := (nd_indices nd)(u \<mapsto> i)\<rparr>)"
  using assms by (auto simp: only_new_def mail_of_def)

text \<open>A remembered key is neither written nor forgotten.\<close>

lemma only_new_remembers:
  assumes o: "only_new E nd nd'" and r: "remembers nd k"
  shows "remembers nd' k" "mail_of E nd' k = mail_of E nd k"
proof -
  obtain u s i where k: "k = seq_be_key u s" "nd_indices nd u = Some i" "s \<le> i" using r by (auto simp: remembers_def)
  obtain j where "nd_indices nd' u = Some j" "i \<le> j" using o k(2) unfolding only_new_def by blast
  then show "remembers nd' k" using k unfolding remembers_def by (blast intro: order_trans)
  show "mail_of E nd' k = mail_of E nd k"
  proof (rule ccontr)
    assume "mail_of E nd' k \<noteq> mail_of E nd k"
    then obtain v t where "k = seq_be_key v t" "\<forall>i. nd_indices nd v = Some i \<longrightarrow> i < t"
      using o unfolding only_new_def by blast
    then show False using k by (auto simp: seq_be_key_inj)
  qed
qed

lemma only_new_written:
  "only_new E nd nd' \<Longrightarrow> mail_of E nd' k \<noteq> mail_of E nd k \<Longrightarrow> remembers nd' k"
  unfolding only_new_def remembers_def by blast


section \<open>The steps of the node\<close>

lemma store_new:
  assumes S: "sled_ok (ne_sled E)" and r: "store_signed_envelope E u sender p seq nd = Some nd'"
    and new: "\<forall>i. nd_indices nd u = Some i \<longrightarrow> i < seq"
  shows "only_new E nd nd'"
proof -
  obtain env where env: "sign_envelope (ne_wire E) \<lparr>en_payload = encode_mailbox_message sender p, en_seq = seq,
      en_sender_pubkey = w_ed_pk (ne_wire E) (ne_seed E), en_signature = []\<rparr> (ne_seed E) u = Some env"
    using r by (auto simp: store_signed_envelope_def Let_def split: option.splits)
  show ?thesis
  proof (cases "serialize_envelope (ne_wire E) env")
    case None
    then have "nd' = nd" using r env by (simp add: store_signed_envelope_def Let_def)
    then show ?thesis by (simp add: only_new_same)
  next
    case (Some raw)
    then have i: "nd_indices nd' = (nd_indices nd)(u \<mapsto> seq)"
      and m: "mail_of E nd' k = (if k = seq_be_key u seq then Some raw else mail_of E nd k)" for k
      using r env by (auto simp: store_signed_envelope_def Let_def sledD(1,2)[OF S] mail_of_def)
    have "\<exists>j. nd_indices nd' v = Some j \<and> l \<le> j" if "nd_indices nd v = Some l" for v l
      using that new i by (cases "v = u") (auto simp: less_imp_le)
    moreover have "k = seq_be_key u seq" if "mail_of E nd' k \<noteq> mail_of E nd k" for k
      using that m[of k] by (simp split: if_splits)
    ultimately show ?thesis unfolding only_new_def using new i by (metis fun_upd_same order_refl)
  qed
qed

text \<open>Answering the command that waits for the index, with an index that was unknown.\<close>

lemma resume_new:
  assumes S: "sled_ok (ne_sled E)" and none: "nd_indices nd (pending_user cmd) = None"
    and r: "resume_pending_command E now cmd index
      (nd\<lparr>nd_indices := (nd_indices nd)(pending_user cmd \<mapsto> index)\<rparr>) = Some (st', nd')"
  shows "only_new E nd nd' \<and> probes_unknown st' nd'"
proof (cases cmd)
  case (PendingStore u sender p)
  let ?nd = "nd\<lparr>nd_indices := (nd_indices nd)(u \<mapsto> index)\<rparr>"
  obtain nd1 where st: "store_signed_envelope E u sender p (index + 1) ?nd = Some nd1" "st' = Idle" "nd' = nd1"
    using r PendingStore by (auto simp: resume_pending_command_def)
  obtain env where env: "sign_envelope (ne_wire E) \<lparr>en_payload = encode_mailbox_message sender p, en_seq = index + 1,
      en_sender_pubkey = w_ed_pk (ne_wire E) (ne_seed E), en_signature = []\<rparr> (ne_seed E) u = Some env"
    using st(1) by (auto simp: store_signed_envelope_def Let_def split: option.splits)
  have u: "nd_indices nd u = None" using none PendingStore by simp
  have "only_new E nd nd1"
  proof (cases "serialize_envelope (ne_wire E) env")
    case None
    then have "nd1 = ?nd" using st(1) env by (simp add: store_signed_envelope_def Let_def)
    then show ?thesis using only_new_index[OF u] by simp
  next
    case (Some raw)
    then have i: "nd_indices nd1 = (nd_indices nd)(u \<mapsto> index + 1)"
      and m: "mail_of E nd1 k = (if k = seq_be_key u (index + 1) then Some raw else mail_of E nd k)" for k
      using st(1) env by (auto simp: store_signed_envelope_def Let_def sledD(1,2)[OF S] mail_of_def)
    have "k = seq_be_key u (index + 1)" if "mail_of E nd1 k \<noteq> mail_of E nd k" for k
      using that m[of k] by (simp split: if_splits)
    then show ?thesis
      unfolding only_new_def i using u by (auto intro!: exI[of _ u])
  qed
  then show ?thesis using st by (simp add: probes_unknown_def)
next
  case (PendingRetrieve u)
  let ?nd = "nd\<lparr>nd_indices := (nd_indices nd)(u \<mapsto> index)\<rparr>"
  have e: "(if index = 0 then emit_empty_mailbox u ?nd else start_collecting_messages E now u index ?nd) = (st', nd')"
    using r PendingRetrieve by (cases "index = 0") (simp_all add: resume_pending_command_def)
  then have "nd_indices nd' = nd_indices ?nd" "nd_db nd' = nd_db ?nd"
    by (cases "index = 0"; metis mailbox_helpers_frame(1-4) snd_conv)+
  then have "only_new E ?nd nd'" by (rule only_new_same)
  moreover have "only_new E nd ?nd" using only_new_index none PendingRetrieve by simp
  moreover have "probes_unknown st' nd'"
    using e by (cases "index = 0")
      (auto simp: probes_unknown_def emit_empty_mailbox_def start_collecting_messages_def case_prod_beta Let_def)
  ultimately show ?thesis using only_new_trans by blast
qed

lemma quiet_new:
  assumes "nd_indices nd' = nd_indices nd" "nd_db nd' = nd_db nd" "probes_unknown st nd"
    and "st' = st \<or> (\<forall>c a b p f d. st' \<noteq> FetchingIndex c a b p f d)"
  shows "only_new E nd nd' \<and> probes_unknown st' nd'"
  using assms only_new_same by (auto simp: probes_unknown_def split: mailbox_state.split)

lemma resolve_new:
  assumes S: "sled_ok (ne_sled E)" and none: "nd_indices nd (pending_user cmd) = None"
    and r: "try_resolve_window E now cmd start mx pending found d nd = Some (st', nd')"
  shows "only_new E nd nd' \<and> probes_unknown st' nd'"
proof (cases "scan_window pending found (window_seqs start)")
  case Waiting
  then show ?thesis using r none by (auto simp: try_resolve_window_def only_new_same probes_unknown_def)
next
  case (Gap s)
  then show ?thesis using r resume_new[OF S none] by (simp add: try_resolve_window_def Let_def)
next
  case AllFound
  obtain nd1 q where f: "fire_window E (pending_user cmd) (start + word_of_nat WINDOW_SIZE) nd = (nd1, q)" by fastforce
  have "nd_indices nd1 = nd_indices nd" "nd_db nd1 = nd_db nd" using fire_window_frame[of E] f by (metis fst_conv)+
  then show ?thesis
    using r none AllFound f by (auto simp: try_resolve_window_def Let_def only_new_same probes_unknown_def)
qed

lemma collect_new:
  assumes "collect_message E u rem val ms d nd = (st', nd')"
  shows "only_new E nd nd' \<and> probes_unknown st' nd'"
proof -
  have "nd_indices nd' = nd_indices nd" "nd_db nd' = nd_db nd"
    using mailbox_helpers_frame(5,6)[of E u rem val ms d nd] assms by simp_all
  moreover have "\<forall>c a b p f d. st' \<noteq> FetchingIndex c a b p f d"
    using assms by (auto simp: collect_message_def case_prod_beta Let_def split: list.splits)
  ultimately show ?thesis using quiet_new[of nd' nd Idle st' E] by (simp add: probes_unknown_def)
qed

lemma found_new:
  assumes S: "sled_ok (ne_sled E)" and p: "probes_unknown st nd"
    and r: "handle_found_record E now key val qid st nd = Some (st', nd')"
  shows "only_new E nd nd' \<and> probes_unknown st' nd'"
proof (cases st)
  case Idle
  then show ?thesis
    using r by (auto simp: handle_found_record_def Let_def probes_unknown_def intro: only_new_same)
next
  case (FetchingIndex cmd start mx pending found d)
  then have none: "nd_indices nd (pending_user cmd) = None" using p by (simp add: probes_unknown_def)
  show ?thesis
    using r FetchingIndex p
    by (auto simp: handle_found_record_def Let_def only_new_same dest!: resolve_new[OF S none]
        split: option.splits if_splits)
next
  case (CollectingMessages u ms rem d)
  then show ?thesis using r by (auto simp: handle_found_record_def dest!: collect_new)
qed

lemma not_found_new:
  assumes S: "sled_ok (ne_sled E)" and p: "probes_unknown st nd"
    and r: "handle_not_found E now qid st nd = Some (st', nd')"
  shows "only_new E nd nd' \<and> probes_unknown st' nd'"
proof (cases st)
  case Idle
  then show ?thesis using r p by (simp add: handle_not_found_def only_new_same)
next
  case (FetchingIndex cmd start mx pending found d)
  then have none: "nd_indices nd (pending_user cmd) = None" using p by (simp add: probes_unknown_def)
  show ?thesis
    using r FetchingIndex p
    by (auto simp: handle_not_found_def only_new_same dest!: resolve_new[OF S none] split: option.splits)
next
  case (CollectingMessages u ms rem d)
  then show ?thesis using r by (auto simp: handle_not_found_def dest!: collect_new)
qed

lemma failed_new:
  assumes S: "sled_ok (ne_sled E)" and p: "probes_unknown st nd"
    and r: "handle_kad_failed E now qid key st nd = Some (st', nd')"
  shows "only_new E nd nd' \<and> probes_unknown st' nd'"
proof -
  define nd1 where "nd1 = (case map_of (nd_profile_queries nd) qid of
      Some ch \<Rightarrow> reply ch None (nd\<lparr>nd_profile_queries := am_remove qid (nd_profile_queries nd)\<rparr>) | None \<Rightarrow> nd)"
  have nd1: "nd_indices nd1 = nd_indices nd" "nd_db nd1 = nd_db nd" by (simp_all add: nd1_def split: option.split)
  show ?thesis
  proof (cases st)
    case (FetchingIndex cmd start mx pending found d)
    then obtain st2 where rs: "resume_pending_command E now cmd 0
        (nd1\<lparr>nd_indices := (nd_indices nd1)(pending_user cmd \<mapsto> 0)\<rparr>) = Some (st2, nd')" "st' = Idle"
      using r by (auto simp: handle_kad_failed_def nd1_def[symmetric] Let_def)
    have "nd_indices nd1 (pending_user cmd) = None" using p FetchingIndex nd1 by (simp add: probes_unknown_def)
    from resume_new[OF S this rs(1)] only_new_trans[OF only_new_same[OF nd1]] rs(2) show ?thesis
      by (auto simp: probes_unknown_def)
  qed (use r nd1 in \<open>auto simp: handle_kad_failed_def nd1_def[symmetric] Let_def probes_unknown_def only_new_same\<close>)
qed

lemma swarm_new:
  assumes S: "sled_ok (ne_sled E)" and p: "probes_unknown st nd"
    and r: "handle_swarm_event E now ev st nd = Some (st', nd')"
  shows "only_new E nd nd' \<and> probes_unknown st' nd'"
proof -
  have quiet: ?thesis if "nd_indices nd' = nd_indices nd" "nd_db nd' = nd_db nd" "st' = st"
    using quiet_new[OF that(1,2) p, of st' E] that(3) by simp
  show ?thesis
  proof (cases ev)
    case (KadFound qid key val)
    show ?thesis
    proof (cases "parse_profile_key key \<noteq> None \<or> parse_update_key key \<noteq> None")
      case True
      then show ?thesis
        using r KadFound by (intro quiet) (auto simp: handle_swarm_event_def handle_kad_found_def split: option.splits)
    qed (use r KadFound found_new[OF S p] in \<open>simp add: handle_swarm_event_def handle_kad_found_def\<close>)
  next
    case (KadFinished qid)
    show ?thesis
    proof (cases "map_of (nd_profile_queries nd) qid")
      case (Some ch)
      then show ?thesis
        using r KadFinished by (intro quiet) (auto simp: handle_swarm_event_def handle_kad_finished_def)
    qed (use r KadFinished not_found_new[OF S p] in \<open>simp add: handle_swarm_event_def handle_kad_finished_def\<close>)
  next
    case (KadFailed qid key)
    then show ?thesis using r failed_new[OF S p] by (simp add: handle_swarm_event_def)
  next
    case (ConnectionEstablished peer addr)
    then have st: "st' = st" "nd_indices nd' = nd_indices nd"
      "nd_db nd' = persist_peer_addr (ne_wire E) (ne_sled E) peer addr (nd_db nd)"
      using r by (auto simp: handle_swarm_event_def handle_connection_established_def Let_def)
    have "mail_of E nd' k = mail_of E nd k" for k by (simp add: mail_of_def st(3) persist_keeps[OF S])
    then show ?thesis using only_new_frame[OF st(2)] st(1,2) p by (auto simp: probes_unknown_def split: mailbox_state.split)
  next
    case (ConnectionClosed peer)
    then show ?thesis using r by (intro quiet) (auto simp: handle_swarm_event_def handle_connection_closed_def)
  qed (rule quiet; use r in \<open>auto simp: handle_swarm_event_def\<close>)+
qed

lemma fetch_new:
  assumes "nd_indices nd (pending_user cmd) = None" "start_fetch E now cmd nd = (st', nd')"
  shows "only_new E nd nd' \<and> probes_unknown st' nd'"
  using assms by (auto simp: start_fetch_def case_prod_beta Let_def only_new_same probes_unknown_def)

lemma command_new:
  assumes S: "sled_ok (ne_sled E)" and p: "probes_unknown st nd"
    and small: "\<And>u i. nd_indices nd u = Some i \<Longrightarrow> i < i + 1"
    and r: "handle_command E now hp cmd st nd = Some (st', nd')"
  shows "only_new E nd nd' \<and> probes_unknown st' nd'"
proof (cases cmd)
  case (MailboxStore u sender q)
  then have c: "cmd_mailbox_store E now hp u sender q st nd = Some (st', nd')" using r by (simp add: handle_command_def)
  show ?thesis
  proof (cases "is_idle st")
    case False
    then show ?thesis using c p by (simp add: cmd_mailbox_store_def only_new_same)
  next
    case True
    then have st: "st = Idle" by (cases st) (simp_all add: is_idle_def)
    show ?thesis
    proof (cases "nd_indices nd u = None \<and> hp")
      case True
      then show ?thesis
        using c st by (auto simp: cmd_mailbox_store_def is_idle_def dest!: fetch_new[rotated])
    next
      case False
      then obtain seq where seq: "store_signed_envelope E u sender q seq nd = Some nd'" "st' = st"
        "\<forall>i. nd_indices nd u = Some i \<longrightarrow> i < seq"
        using c st small by (auto simp: cmd_mailbox_store_def is_idle_def split: option.splits)
      then show ?thesis using store_new[OF S] st by (auto simp: probes_unknown_def)
    qed
  qed
next
  case (MailboxRetrieve u)
  then have c: "cmd_mailbox_retrieve E now hp u st nd = (st', nd')" using r by (simp add: handle_command_def)
  show ?thesis
  proof (cases "is_idle st \<and> hp \<and> nd_indices nd u = None")
    case True
    then show ?thesis using c by (auto simp: cmd_mailbox_retrieve_def dest!: fetch_new[rotated])
  next
    case False
    have "nd_indices nd' = nd_indices nd" "nd_db nd' = nd_db nd"
      "st' = st \<or> (\<forall>c a b p f d. st' \<noteq> FetchingIndex c a b p f d)"
      using c False by (auto simp: cmd_mailbox_retrieve_def emit_empty_mailbox_def start_collecting_messages_def
          case_prod_beta Let_def split: if_splits option.splits)
    then show ?thesis by (rule quiet_new[OF _ _ p])
  qed
qed (rule quiet_new[OF _ _ p]; use r in \<open>auto simp: handle_command_def\<close>)+

lemma seed_new:
  assumes "probes_unknown st nd"
  shows "only_new E nd (seed_index E cmd st nd) \<and> probes_unknown st (seed_index E cmd st nd)"
proof (cases "seed_index E cmd st nd = nd")
  case False
  then obtain u m where u: "seed_index E cmd st nd = nd\<lparr>nd_indices := (nd_indices nd)(u \<mapsto> m)\<rparr>"
    "nd_indices nd u = None" "is_idle st"
    by (auto simp: seed_index_def split: option.splits if_splits)
  then show ?thesis using only_new_index[OF u(2)] by (cases st) (simp_all add: probes_unknown_def is_idle_def)
qed (use assms in \<open>simp add: only_new_same\<close>)

lemma timeout_new:
  assumes "probes_unknown st nd" "check_state_timeout now st nd = (st', nd')"
  shows "only_new E nd nd' \<and> probes_unknown st' nd'"
proof (rule quiet_new[OF _ _ assms(1)])
  show "nd_indices nd' = nd_indices nd" "nd_db nd' = nd_db nd"
    using mailbox_helpers_frame(7,8)[of now st nd] assms(2) by simp_all
  show "st' = st \<or> (\<forall>c a b p f d. st' \<noteq> FetchingIndex c a b p f d)"
    using assms(2) by (auto simp: check_state_timeout_def split: mailbox_state.splits if_splits)
qed

lemma small_index: "unat (i :: u64) + 1 < 2 ^ 64 \<Longrightarrow> i < i + 1"
  using unat_Suc_word[of i "2 ^ 64 - 1"] by (simp add: word_less_nat_alt)

lemma node_step_new:
  assumes S: "sled_ok (ne_sled E)" and inv: "node_inv E n st nd" and n: "n + 11 < 2 ^ 64" and p: "probes_unknown st nd"
    and r: "node_step E now conn inp st nd = Some (st', nd')"
  shows "only_new E nd nd' \<and> probes_unknown st' nd'"
proof (cases inp)
  case TimeoutTick
  then show ?thesis using r timeout_new[OF p] by (simp add: node_step_def)
next
  case ReconnectTick
  then have "nd_indices nd' = nd_indices nd" "nd_db nd' = nd_db nd" "st' = st"
    using r by (auto simp: node_step_def reconnect_tick_def case_prod_beta Let_def)
  then show ?thesis using quiet_new[OF _ _ p, of nd' st' E] by simp
next
  case (Swarm ev)
  then obtain st1 nd1 where e: "handle_swarm_event E now ev st nd = Some (st1, nd1)"
    "check_state_timeout now st1 nd1 = (st', nd')" using r by (auto simp: node_step_def)
  have "only_new E nd nd1 \<and> probes_unknown st1 nd1" by (rule swarm_new[OF S p e(1)])
  then show ?thesis using timeout_new[OF _ e(2)] only_new_trans by blast
next
  case (Command cmd)
  let ?nd = "seed_index E cmd st nd"
  obtain st1 nd1 where e: "handle_command E now (conn \<noteq> []) cmd st ?nd = Some (st1, nd1)"
    "check_state_timeout now st1 nd1 = (st', nd')" using r Command by (auto simp: node_step_def)
  have seed: "only_new E nd ?nd \<and> probes_unknown st ?nd" by (rule seed_new[OF p])
  have "i < i + 1" if i: "nd_indices ?nd u = Some i" for u i
  proof -
    have "unat i \<le> n" using node_invD(1)[OF seed_index_keeps(1)[OF S inv] i] .
    then show ?thesis using small_index[of i] n by simp
  qed
  then have "only_new E ?nd nd1 \<and> probes_unknown st1 nd1" using command_new[OF S _ _ e(1)] seed by blast
  then show ?thesis using timeout_new[OF _ e(2)] seed only_new_trans by blast
qed

end
