(* ===== verification/Locks.thy ===== *)
theory Locks
  imports Node_Fresh
begin

text \<open>
  The server at the grain of its lock. The handlers of \<open>ws.rs\<close> and \<open>main.rs\<close> take the lock of the
  shared state several times and touch the database without it; between two such sections any other
  task may run. Here the task of a connection and the event handler are programs of sections: a
  point says what a task does next and what it has read so far, and one step runs one section.
  Run without interruption the sections are the operations of \<open>Gateway\<close> and \<open>Events\<close>.
  Reading the backup, which takes no lock, is one section, as is a turn of the node.
\<close>

section \<open>Sections\<close>

text \<open>The points of a connection's task; the first argument is its session.\<close>

datatype task_point =
    Subscribing bytes
  | Limiting bytes
  | Seeding bytes
  | Registering bytes
  | Reading bytes
  | Draining bytes "(bytes \<times> bytes) list"
  | Removing bytes "bytes list"
  | Retrieving bytes
  | Ready bytes
  | Relaying bytes bytes bytes  \<comment> \<open>recipient, payload\<close>
  | Persisting bytes bytes
  | Publishing bytes bytes bytes
  | Storing bytes bytes bytes
  | Gone

text \<open>From the first message to the loop.\<close>

definition connect_section ::
    "'db gw_env \<Rightarrow> rat \<Rightarrow> nat \<Rightarrow> task_point \<Rightarrow> 'db gateway \<Rightarrow> task_point \<times> 'db gateway" where
  "connect_section E now ch t g =
     (case t of
        Subscribing u \<Rightarrow> (Limiting u, send_cmd (Subscribe (w_hex (ge_wire E) u)) g)
      | Limiting u \<Rightarrow>
          (Seeding u, g\<lparr>gw_limiters := (gw_limiters g)(u \<mapsto>
             (bucket_new now RATE_LIMIT_STORE_PER_SEC RATE_LIMIT_STORE_PER_SEC,
              bucket_new now RATE_LIMIT_LOOKUP_PER_SEC RATE_LIMIT_LOOKUP_PER_SEC))\<rparr>)
      | Seeding u \<Rightarrow>
          (Registering u, g\<lparr>gw_delivered := (gw_delivered g)(u \<mapsto>
             hs_collect (if gw_mailbox g then load_delivered_hashes (ge_wire E) (ge_sled E) (gw_db g) u else []))\<rparr>)
      | Registering u \<Rightarrow>
          (Reading u, g\<lparr>gw_clients := (gw_clients g)(u \<mapsto>
             (case gw_clients g u of None \<Rightarrow> [] | Some s \<Rightarrow> s) @ [ch])\<rparr>)
      | Reading u \<Rightarrow>
          (if \<not> gw_mailbox g then (Retrieving u, g)
           else let (db, pend) = read_sled_backup (ge_wire E) (ge_sled E) (gw_db g) u
             in (if pend = [] then Retrieving u else Draining u pend, g\<lparr>gw_db := db\<rparr>))
      | Draining u pend \<Rightarrow>
          (let ((to_remove, new_count), g1) = fold (drain_record E u) pend (([], 0), g)
           in (if to_remove = [] then Retrieving u else Removing u to_remove,
               if 0 < new_count then persist_delivered_set E u g1 else g1))
      | Removing u keys \<Rightarrow> (Retrieving u, g\<lparr>gw_db := remove_sled_records (ge_sled E) (gw_db g) keys\<rparr>)
      | Retrieving u \<Rightarrow> (Ready u, send_cmd (MailboxRetrieve u) g)
      | _ \<Rightarrow> (t, g))"

text \<open>What a relay does after the rate limit.\<close>

definition relay_section :: "'db gw_env \<Rightarrow> task_point \<Rightarrow> 'db gateway \<Rightarrow> task_point \<times> 'db gateway" where
  "relay_section E t g =
     (case t of
        Relaying u r p \<Rightarrow>
          (let ((delivered, duplicate), g1) = deliver_local E r (forward_frame u p) g
           in (if delivered then (if duplicate then Ready u else Persisting u r) else Publishing u r p, g1))
      | Persisting u r \<Rightarrow> (Ready u, persist_delivered_set E r g)
      | Publishing u r p \<Rightarrow> (Storing u r p, send_cmd (Publish (w_hex (ge_wire E) r) (forward_frame u p)) g)
      | Storing u r p \<Rightarrow> (Ready u, send_cmd (MailboxStore r u p) g)
      | _ \<Rightarrow> (t, g))"

text \<open>
  A message at the loop: a profile request is one section, as \<open>Profile_Tasks\<close> takes it apart; a
  relay frame is parsed and counted against the limit; the end of the stream is cleaned up.
\<close>

definition receive_message ::
    "'db gw_env \<Rightarrow> 'n profile_ops \<Rightarrow> rat \<times> rat \<Rightarrow> bytes \<Rightarrow> bytes \<Rightarrow> ws_message \<Rightarrow> 'n \<Rightarrow> 'db gateway \<Rightarrow>
     task_point \<times> 'n \<times> 'db gateway" where
  "receive_message E P clk token u msg n g =
     (case msg of
        Binary d \<Rightarrow>
          if 2 \<le> length d \<and> d ! 0 = 0x00
          then (Ready u, handle_profile_operation P token u (d ! 1) (drop 2 d) n g)
          else (case parse_relay d of
                  None \<Rightarrow> (Ready u, n, g)
                | Some (r, p) \<Rightarrow>
                    (let (allowed, g1) = check_rate_limit_store (ge_round E) clk u g
                     in (if allowed then Relaying u r p else Ready u, n, g1)))
      | IgnoredFrame \<Rightarrow> (Ready u, n, g)
      | StreamEnd \<Rightarrow> (Gone, n, disconnect_client E u g)
      | StreamError \<Rightarrow> (Gone, n, disconnect_client E u g))"

text \<open>The points of the event handler.\<close>

datatype handler_point =
    Waits
  | HPersists bytes
  | HReads bytes "bytes list"
  | HDelivers bytes "bytes list" "(bytes \<times> bytes) list"
  | HRemoves "bytes list"
  | HBootstraps

definition take_event ::
    "'db gw_env \<Rightarrow> bytes list \<Rightarrow> node_event \<Rightarrow> 'db gateway \<Rightarrow> handler_point \<times> 'db gateway" where
  "take_event E users ev g =
     (case ev of
        MessageReceived from topic d \<Rightarrow>
          (if topic = [] then (Waits, on_broadcast users d g)
           else case w_unhex (ge_wire E) topic of
                  None \<Rightarrow> (Waits, g)
                | Some r \<Rightarrow>
                    (case gw_clients g r of
                       None \<Rightarrow> (Waits, g)
                     | Some senders \<Rightarrow>
                         (let (new, delivered) = check_and_mark_delivered (ge_wire E) (gw_delivered g) r d;
                              g1 = g\<lparr>gw_delivered := delivered\<rparr>
                          in if new then (HPersists r, snd (send_all senders d g1)) else (Waits, g1))))
      | MailboxRetrieved u messages \<Rightarrow> (HReads u (snd (handle_retrieval_result (ge_wire E) [] u messages)), g)
      | PeerDiscovered peer \<Rightarrow> (HBootstraps, g\<lparr>gw_p2p_connected := True\<rparr>)
      | ListeningOn addr \<Rightarrow> (HBootstraps, g\<lparr>gw_p2p_connected := True\<rparr>))"

definition handler_section :: "'db gw_env \<Rightarrow> handler_point \<Rightarrow> 'db gateway \<Rightarrow> handler_point \<times> 'db gateway" where
  "handler_section E h g =
     (let W = ge_wire E; S = ge_sled E in
      case h of
        Waits \<Rightarrow> (Waits, g)
      | HPersists r \<Rightarrow> (Waits, persist_delivered_set E r g)
      | HReads u payloads \<Rightarrow>
          (if payloads = []
           then let (db, records) = read_sled_backup W S (gw_db g) u
             in (if records = [] then Waits else HDelivers u [] records, g\<lparr>gw_db := db\<rparr>)
           else (HDelivers u payloads [], g))
      | HDelivers u payloads records \<Rightarrow>
          (case gw_clients g u of
             None \<Rightarrow> (Waits, g)
           | Some senders \<Rightarrow>
               (let (r1, g1) = fold (deliver_backup E u senders) records
                                 (\<lparr>rv_remove = [], rv_delivered = 0, rv_dupes = 0\<rparr>, g);
                    (r2, g2) = fold (deliver_fetched E u senders) payloads (r1, g1)
                in (if rv_remove r2 = [] then Waits else HRemoves (rv_remove r2),
                    if 0 < rv_delivered r2 then
                      (case gw_delivered g2 u of
                         None \<Rightarrow> g2
                       | Some hashes \<Rightarrow> g2\<lparr>gw_db := save_delivered_hashes W S (gw_db g2) u hashes\<rparr>)
                    else g2)))
      | HRemoves keys \<Rightarrow> (Waits, g\<lparr>gw_db := remove_sled_records S (gw_db g) keys\<rparr>)
      | HBootstraps \<Rightarrow> (Waits, g\<lparr>gw_cmds := gw_cmds g @ [Bootstrap]\<rparr>))"


section \<open>The server\<close>

record ('db, 'q, 'n) locked =
  lk_server :: "('db, 'q, 'n) server"
  lk_tasks :: "nat \<rightharpoonup> task_point"
  lk_handler :: handler_point

text \<open>
  A socket opens with its first message; a task runs a section, or takes a message; the receiver of
  a channel is dropped; a forwarding task ends; the node takes a turn, or a command; the event
  handler runs a section, or takes an event.
\<close>

datatype 'q lock_input =
    Enters nat ws_message
  | Moves rat nat
  | Hears "rat \<times> rat" bytes nat ws_message
  | Drops nat
  | Forwards bytes
  | Turns nat "bytes list" "'q node_input"
  | Fetches nat "bytes list"
  | Handles "bytes list"

definition is_connecting :: "task_point \<Rightarrow> bool" where
  "is_connecting t = (case t of
      Subscribing u \<Rightarrow> True | Limiting u \<Rightarrow> True | Seeding u \<Rightarrow> True | Registering u \<Rightarrow> True | Reading u \<Rightarrow> True
    | Draining u ps \<Rightarrow> True | Removing u ks \<Rightarrow> True | Retrieving u \<Rightarrow> True | _ \<Rightarrow> False)"

definition task_section ::
    "'db gw_env \<Rightarrow> rat \<Rightarrow> nat \<Rightarrow> task_point \<Rightarrow> 'db gateway \<Rightarrow> task_point \<times> 'db gateway" where
  "task_section E now ch t g = (if is_connecting t then connect_section E now ch t g else relay_section E t g)"

definition lock_step ::
    "('db, 'q, 'n) server_env \<Rightarrow> 'q lock_input \<Rightarrow> ('db, 'q, 'n) locked \<Rightarrow> ('db, 'q, 'n) locked option" where
  "lock_step Z inp w =
     (let s = lk_server w; g = sv_gw s in
      case inp of
        Enters ch msg \<Rightarrow>
          (case msg of
             Binary u \<Rightarrow>
               if u = [] \<or> sv_owner s ch \<noteq> None then Some w
               else Some (w\<lparr>lk_server := s\<lparr>sv_owner := (sv_owner s)(ch \<mapsto> u)\<rparr>,
                            lk_tasks := (lk_tasks w)(ch \<mapsto> Subscribing u)\<rparr>)
           | _ \<Rightarrow> Some w)
      | Moves now ch \<Rightarrow>
          (case lk_tasks w ch of
             None \<Rightarrow> Some w
           | Some t \<Rightarrow>
               (let (t', g') = task_section (se_gw Z) now ch t g
                in Some (w\<lparr>lk_server := s\<lparr>sv_gw := g'\<rparr>, lk_tasks := (lk_tasks w)(ch \<mapsto> t')\<rparr>)))
      | Hears clk token ch msg \<Rightarrow>
          (case lk_tasks w ch of
             Some (Ready u) \<Rightarrow>
               (let (t', n', g') = receive_message (se_gw Z) (se_ops Z) clk token u msg (sv_store s) g
                in Some (w\<lparr>lk_server := s\<lparr>sv_gw := g', sv_store := n'\<rparr>, lk_tasks := (lk_tasks w)(ch \<mapsto> t')\<rparr>))
           | _ \<Rightarrow> Some w)
      | Drops ch \<Rightarrow> map_option (\<lambda>s'. w\<lparr>lk_server := s'\<rparr>) (server_step Z (Closes ch) s)
      | Forwards u \<Rightarrow> map_option (\<lambda>s'. w\<lparr>lk_server := s'\<rparr>) (server_step Z (ForwardEnds u) s)
      | Turns now conn i \<Rightarrow> map_option (\<lambda>s'. w\<lparr>lk_server := s'\<rparr>) (server_step Z (Loops now conn i) s)
      | Fetches now conn \<Rightarrow> map_option (\<lambda>s'. w\<lparr>lk_server := s'\<rparr>) (server_step Z (Takes now conn) s)
      | Handles users \<Rightarrow>
          (if lk_handler w \<noteq> Waits then
             (let (h, g') = handler_section (se_gw Z) (lk_handler w) g
              in Some (w\<lparr>lk_server := s\<lparr>sv_gw := g'\<rparr>, lk_handler := h\<rparr>))
           else if sv_handled s < length (nd_events (sv_node s)) then
             (let (h, g') = take_event (se_gw Z) users (nd_events (sv_node s) ! sv_handled s) g
              in Some (w\<lparr>lk_server := s\<lparr>sv_gw := g', sv_handled := Suc (sv_handled s)\<rparr>, lk_handler := h\<rparr>))
           else Some w))"

definition lock_start ::
    "'db \<Rightarrow> (nat \<Rightarrow> bool) \<Rightarrow> node_command list \<Rightarrow> 'n \<Rightarrow> ('db, 'q) node_env \<Rightarrow> ('db, 'q, 'n) locked" where
  "lock_start db alive dials n E =
     \<lparr>lk_server = server_start db alive dials n E, lk_tasks = Map.empty, lk_handler = Waits\<rparr>"

end
