(* ===== verification/Locks_Inv.thy ===== *)
theory Locks_Inv
  imports Locks
begin

text \<open>
  What the points of the tasks know about the database, and that no section of another task and no
  turn of the node takes it away: a record that was read is still the same or gone, and a record to
  be removed has been delivered. The knowledge is stable because the node never writes a key it
  remembers.
\<close>

section \<open>What a point knows\<close>

abbreviation letters :: "('db, 'q, 'n) server_env \<Rightarrow> ('db, 'q, 'n) server \<Rightarrow> bytes \<Rightarrow> bytes option" where
  "letters Z s k \<equiv> mail (se_gw Z) (sv_gw s) k"

text \<open>Records that were read for a session.\<close>

definition pending_ok ::
    "('db, 'q, 'n) server_env \<Rightarrow> ('db, 'q, 'n) server \<Rightarrow> bytes \<Rightarrow> (bytes \<times> bytes) list \<Rightarrow> bool" where
  "pending_ok Z s u recs \<longleftrightarrow>
     (\<forall>k p. (k, p) \<in> set recs \<longrightarrow> prefix u k \<and> remembers (sv_node s) k \<and>
        (\<forall>raw. letters Z s k = Some raw \<longrightarrow> record_payload (ge_wire (se_gw Z)) u raw = Some p))"

text \<open>Records about to be removed.\<close>

definition condemned_ok ::
    "('db, 'q, 'n) server_env \<Rightarrow> (bytes \<Rightarrow> u64 list) \<Rightarrow> ('db, 'q, 'n) server \<Rightarrow> bytes list \<Rightarrow> bool" where
  "condemned_ok Z old s ks \<longleftrightarrow>
     (\<forall>k \<in> set ks. remembers (sv_node s) k \<and>
        (\<forall>raw. letters Z s k = Some raw \<longrightarrow> accounted (se_gw Z) (sv_owner s) old (gw_sent (sv_gw s)) k raw))"

definition point_session :: "task_point \<Rightarrow> bytes option" where
  "point_session t = (case t of
      Subscribing u \<Rightarrow> Some u | Limiting u \<Rightarrow> Some u | Seeding u \<Rightarrow> Some u | Registering u \<Rightarrow> Some u
    | Reading u \<Rightarrow> Some u | Draining u recs \<Rightarrow> Some u | Removing u ks \<Rightarrow> Some u | Retrieving u \<Rightarrow> Some u
    | Ready u \<Rightarrow> Some u | Relaying u r p \<Rightarrow> Some u | Persisting u r \<Rightarrow> Some u | Publishing u r p \<Rightarrow> Some u
    | Storing u r p \<Rightarrow> Some u | Gone \<Rightarrow> None)"

definition point_ok ::
    "('db, 'q, 'n) server_env \<Rightarrow> (bytes \<Rightarrow> u64 list) \<Rightarrow> ('db, 'q, 'n) server \<Rightarrow> nat \<Rightarrow> task_point \<Rightarrow> bool" where
  "point_ok Z old s ch t \<longleftrightarrow>
     (\<forall>u. point_session t = Some u \<longrightarrow> sv_owner s ch = Some u \<and> 32 \<le> length u) \<and>
     (case t of Draining u recs \<Rightarrow> pending_ok Z s u recs | Removing u ks \<Rightarrow> condemned_ok Z old s ks | _ \<Rightarrow> True)"

definition handler_ok ::
    "('db, 'q, 'n) server_env \<Rightarrow> (bytes \<Rightarrow> u64 list) \<Rightarrow> ('db, 'q, 'n) server \<Rightarrow> handler_point \<Rightarrow> bool" where
  "handler_ok Z old s h \<longleftrightarrow>
     (case h of
        HReads u payloads \<Rightarrow> 32 \<le> length u
      | HDelivers u payloads recs \<Rightarrow> 32 \<le> length u \<and> pending_ok Z s u recs
      | HRemoves ks \<Rightarrow> condemned_ok Z old s ks
      | _ \<Rightarrow> True)"

text \<open>What every action of any task keeps.\<close>

definition steady ::
    "('db, 'q, 'n) server_env \<Rightarrow> ('db, 'q, 'n) server \<Rightarrow> ('db, 'q, 'n) server \<Rightarrow> bool" where
  "steady Z s s' \<longleftrightarrow>
     sv_owner s \<subseteq>\<^sub>m sv_owner s' \<and> set (gw_sent (sv_gw s)) \<subseteq> set (gw_sent (sv_gw s')) \<and>
     (\<forall>k. remembers (sv_node s) k \<longrightarrow>
        remembers (sv_node s') k \<and> (letters Z s' k = None \<or> letters Z s' k = letters Z s k))"

lemma pending_ok_steady: "steady Z s s' \<Longrightarrow> pending_ok Z s u recs \<Longrightarrow> pending_ok Z s' u recs"
  unfolding steady_def pending_ok_def by (metis option.distinct(1))

lemma condemned_ok_steady:
  assumes st: "steady Z s s'" and c: "condemned_ok Z old s ks"
  shows "condemned_ok Z old s' ks"
  unfolding condemned_ok_def
proof (intro ballI conjI allI impI)
  fix k
  assume k: "k \<in> set ks"
  then have m: "remembers (sv_node s) k" using c by (simp add: condemned_ok_def)
  then show "remembers (sv_node s') k" using st by (simp add: steady_def)
  fix raw
  assume "letters Z s' k = Some raw"
  then have "letters Z s k = Some raw" using st m by (fastforce simp: steady_def)
  then have "accounted (se_gw Z) (sv_owner s) old (gw_sent (sv_gw s)) k raw" using c k by (simp add: condemned_ok_def)
  then show "accounted (se_gw Z) (sv_owner s') old (gw_sent (sv_gw s')) k raw"
    by (rule accounted_mono) (use st in \<open>simp_all add: steady_def\<close>)
qed

lemma point_ok_steady:
  assumes "steady Z s s'" "point_ok Z old s ch t"
  shows "point_ok Z old s' ch t"
proof -
  have "sv_owner s' ch = Some u" if "sv_owner s ch = Some u" for u
    using assms(1) that by (force simp: steady_def map_le_def dom_def)
  then show ?thesis
    using assms pending_ok_steady[OF assms(1)] condemned_ok_steady[OF assms(1)]
    unfolding point_ok_def by (fastforce split: task_point.splits)
qed

lemma handler_ok_steady: "steady Z s s' \<Longrightarrow> handler_ok Z old s h \<Longrightarrow> handler_ok Z old s' h"
  unfolding handler_ok_def
  by (auto split: handler_point.splits dest: pending_ok_steady condemned_ok_steady)


section \<open>The sections of a connection\<close>

text \<open>The server after a section of the gateway, with the same node.\<close>

lemma read_pending:
  assumes E: "env_wf (se_gw Z)" and known: "\<And>k. letters Z s k \<noteq> None \<Longrightarrow> remembers (sv_node s) k"
    and r: "read_sled_backup (ge_wire (se_gw Z)) (ge_sled (se_gw Z)) (gw_db (sv_gw s)) u = (db, recs)"
  shows "pending_ok Z (s\<lparr>sv_gw := (sv_gw s)\<lparr>gw_db := db\<rparr>\<rparr>) u recs"
  unfolding pending_ok_def
proof (intro allI impI)
  fix k p
  assume "(k, p) \<in> set recs"
  have S: "sled_ok (ge_sled (se_gw Z))" using E by (simp add: env_wf_def)
  obtain raw where raw: "prefix u k" "letters Z s k = Some raw" "record_payload (ge_wire (se_gw Z)) u raw = Some p"
    using read_backup_spec(1)[OF S r] \<open>(k, p) \<in> set recs\<close> by blast
  then have "sl_get (ge_sled (se_gw Z)) db SLED_MAILBOX_TREE k = Some raw"
    using read_backup_spec(2)[OF S r, of SLED_MAILBOX_TREE k] by simp
  then show "prefix u k \<and> remembers (sv_node (s\<lparr>sv_gw := (sv_gw s)\<lparr>gw_db := db\<rparr>\<rparr>)) k \<and>
      (\<forall>raw. letters Z (s\<lparr>sv_gw := (sv_gw s)\<lparr>gw_db := db\<rparr>\<rparr>) k = Some raw \<longrightarrow>
         record_payload (ge_wire (se_gw Z)) u raw = Some p)"
    using raw known[of k] by simp
qed

text \<open>Records whose payload has been sent may be removed.\<close>

lemma pending_condemned:
  assumes p: "pending_ok Z s u recs" and u: "32 \<le> length u"
    and ev: "\<forall>k \<in> set ks. \<exists>p. (k, p) \<in> set recs \<and>
      evident (ge_wire (se_gw Z)) (sv_owner s) old (gw_sent g) u (payload_hash (ge_wire (se_gw Z)) p)"
    and same: "\<And>k. mail (se_gw Z) g k = letters Z s k"
  shows "condemned_ok Z old (s\<lparr>sv_gw := g\<rparr>) ks"
  unfolding condemned_ok_def
proof (intro ballI conjI allI impI)
  fix k
  assume "k \<in> set ks"
  then obtain q where q: "(k, q) \<in> set recs"
    "evident (ge_wire (se_gw Z)) (sv_owner s) old (gw_sent g) u (payload_hash (ge_wire (se_gw Z)) q)" using ev by blast
  note d = p[unfolded pending_ok_def, rule_format, OF q(1)]
  show "remembers (sv_node (s\<lparr>sv_gw := g\<rparr>)) k" using d by simp
  fix raw
  assume "letters Z (s\<lparr>sv_gw := g\<rparr>) k = Some raw"
  then have "record_payload (ge_wire (se_gw Z)) u raw = Some q" using d same by simp
  then show "accounted (se_gw Z) (sv_owner (s\<lparr>sv_gw := g\<rparr>)) old (gw_sent (sv_gw (s\<lparr>sv_gw := g\<rparr>))) k raw"
    using d q(2) record_payload_prefix[of u k "ge_wire (se_gw Z)" raw] u by (auto simp: accounted_def)
qed

lemma removes_condemned:
  assumes E: "env_wf (se_gw Z)" and c: "condemned_ok Z old s ks"
  shows "progress (se_gw Z) (sv_owner s) old (sv_gw s)
    ((sv_gw s)\<lparr>gw_db := remove_sled_records (ge_sled (se_gw Z)) (gw_db (sv_gw s)) ks\<rparr>)"
proof (rule progress_db)
  have S: "sled_ok (ge_sled (se_gw Z))" using E by (simp add: env_wf_def)
  let ?g = "(sv_gw s)\<lparr>gw_db := remove_sled_records (ge_sled (se_gw Z)) (gw_db (sv_gw s)) ks\<rparr>"
  show "persisted (se_gw Z) ?g v = persisted (se_gw Z) (sv_gw s) v" for v
    by (simp add: persisted_def load_remove_sled_records[OF S])
  show "mail (se_gw Z) ?g k = letters Z s k \<or> mail (se_gw Z) ?g k = None \<and>
      (\<forall>raw. gw_sound (se_gw Z) (sv_owner s) old (sv_gw s) \<longrightarrow> letters Z s k = Some raw \<longrightarrow>
         accounted (se_gw Z) (sv_owner s) old (gw_sent (sv_gw s)) k raw)" for k
    using c by (auto simp: get_remove_sled_records[OF S] condemned_ok_def)
qed

lemma point_ok_simple:
  "point_session t = Some u \<Longrightarrow> sv_owner s ch = Some u \<Longrightarrow> 32 \<le> length u \<Longrightarrow>
    (\<forall>v recs. t \<noteq> Draining v recs) \<Longrightarrow> (\<forall>v ks. t \<noteq> Removing v ks) \<Longrightarrow> point_ok Z old s ch t"
  by (auto simp: point_ok_def split: task_point.split)

lemma drain_section_ok:
  assumes E: "env_wf (se_gw Z)" and p: "pending_ok Z s u recs" and u: "32 \<le> length u"
    and f: "fold (drain_record (se_gw Z) u) recs (([], 0), sv_gw s) = ((rm, n), g1)"
    and g': "g' = (if 0 < n then persist_delivered_set (se_gw Z) u g1 else g1)"
  shows "progress (se_gw Z) (sv_owner s) old (sv_gw s) g' \<and>
    (gw_sound (se_gw Z) (sv_owner s) old (sv_gw s) \<longrightarrow> condemned_ok Z old (s\<lparr>sv_gw := g'\<rparr>) rm)"
proof -
  note d = drain_fold_progress[OF f, of "sv_owner s" old]
  have "progress (se_gw Z) (sv_owner s) old g1 g'" using progress_persist[OF E] by (simp add: g')
  then have pr: "progress (se_gw Z) (sv_owner s) old (sv_gw s) g'" using progress_trans d by blast
  have sent: "gw_sent g' = gw_sent g1" by (simp add: g')
  have same: "mail (se_gw Z) g' k = letters Z s k" for k
    using d mail_persist[OF E] by (simp add: g')
  have "condemned_ok Z old (s\<lparr>sv_gw := g'\<rparr>) rm" if "gw_sound (se_gw Z) (sv_owner s) old (sv_gw s)"
    by (rule pending_condemned[OF p u _ same]) (use d that in \<open>simp add: sent\<close>)
  with pr show ?thesis by blast
qed

lemma connect_section_ok:
  assumes E: "env_wf (se_gw Z)" and known: "\<And>k. letters Z s k \<noteq> None \<Longrightarrow> remembers (sv_node s) k"
    and ok: "point_ok Z old s ch t" and sound: "gw_sound (se_gw Z) (sv_owner s) old (sv_gw s)"
    and r: "connect_section (se_gw Z) now ch t (sv_gw s) = (t', g')" and c: "is_connecting t"
  shows "progress (se_gw Z) (sv_owner s) old (sv_gw s) g' \<and> point_ok Z old (s\<lparr>sv_gw := g'\<rparr>) ch t'"
proof -
  obtain u where u: "point_session t = Some u" "sv_owner s ch = Some u" "32 \<le> length u"
    using ok c by (auto simp: point_ok_def point_session_def is_connecting_def split: task_point.splits)
  have plain: ?thesis
    if "progress (se_gw Z) (sv_owner s) old (sv_gw s) g'" "point_session t' = Some u"
      "\<forall>v recs. t' \<noteq> Draining v recs" "\<forall>v ks. t' \<noteq> Removing v ks"
    using that u point_ok_simple[of t' u "s\<lparr>sv_gw := g'\<rparr>" ch Z old] by simp
  show ?thesis
  proof (cases t)
    case (Subscribing v)
    then show ?thesis using r u(1) by (intro plain) (auto simp: connect_section_def point_session_def)
  next
    case (Limiting v)
    then show ?thesis
      using r u(1) by (intro plain) (auto simp: connect_section_def point_session_def intro: progress_frame)
  next
    case (Seeding v)
    have "progress (se_gw Z) (sv_owner s) old (sv_gw s) g'"
      by (rule progress_clients)
        (use r Seeding in \<open>auto simp: connect_section_def persisted_def hashes_of_def hs_collect_spec split: if_splits\<close>)
    then show ?thesis using r u(1) Seeding by (intro plain) (auto simp: connect_section_def point_session_def)
  next
    case (Registering v)
    have "progress (se_gw Z) (sv_owner s) old (sv_gw s) g'"
      by (rule progress_clients)
        (use r u Registering in \<open>auto simp: connect_section_def point_session_def split: if_splits option.splits\<close>)
    then show ?thesis using r u(1) Registering by (intro plain) (auto simp: connect_section_def point_session_def)
  next
    case (Reading v)
    then have v: "v = u" using u(1) by (simp add: point_session_def)
    obtain db recs where rd: "read_sled_backup (ge_wire (se_gw Z)) (ge_sled (se_gw Z)) (gw_db (sv_gw s)) u = (db, recs)"
      by fastforce
    show ?thesis
    proof (cases "gw_mailbox (sv_gw s)")
      case False
      then show ?thesis using r Reading v by (intro plain) (auto simp: connect_section_def point_session_def)
    next
      case True
      then have eq: "t' = (if recs = [] then Retrieving u else Draining u recs)" "g' = (sv_gw s)\<lparr>gw_db := db\<rparr>"
        using r Reading v rd by (auto simp: connect_section_def)
      show ?thesis
        using progress_read[OF E u(3) rd] read_pending[OF E known rd] u
        by (auto simp: eq point_ok_def point_session_def)
    qed
  next
    case (Draining v recs)
    then have v: "v = u" using u(1) by (simp add: point_session_def)
    have p: "pending_ok Z s u recs" using ok Draining v by (simp add: point_ok_def)
    obtain rm n g1 where f: "fold (drain_record (se_gw Z) u) recs (([], 0), sv_gw s) = ((rm, n), g1)"
      by (metis prod.collapse)
    then have eq: "t' = (if rm = [] then Retrieving u else Removing u rm)"
      "g' = (if 0 < n then persist_delivered_set (se_gw Z) u g1 else g1)"
      using r Draining v by (auto simp: connect_section_def)
    have d: "progress (se_gw Z) (sv_owner s) old (sv_gw s) g' \<and> condemned_ok Z old (s\<lparr>sv_gw := g'\<rparr>) rm"
      using drain_section_ok[OF E p u(3) f eq(2)] sound by blast
    show ?thesis
    proof (cases "rm = []")
      case True
      then show ?thesis using d eq(1) by (intro plain) (auto simp: point_session_def)
    next
      case False
      then show ?thesis using d u eq(1) by (simp add: point_ok_def point_session_def)
    qed
  next
    case (Removing v ks)
    have c: "condemned_ok Z old s ks" using ok Removing by (simp add: point_ok_def)
    show ?thesis
      using r Removing u(1) removes_condemned[OF E c]
      by (intro plain) (auto simp: connect_section_def point_session_def)
  next
    case (Retrieving v)
    then show ?thesis using r u(1) by (intro plain) (auto simp: connect_section_def point_session_def)
  qed (use c in \<open>simp_all add: is_connecting_def\<close>)
qed

lemma relay_section_ok:
  assumes E: "env_wf (se_gw Z)" and ok: "point_ok Z old s ch t" and c: "\<not> is_connecting t"
    and r: "relay_section (se_gw Z) t (sv_gw s) = (t', g')"
  shows "progress (se_gw Z) (sv_owner s) old (sv_gw s) g' \<and> point_ok Z old (s\<lparr>sv_gw := g'\<rparr>) ch t'"
proof (cases "t = Gone")
  case True
  then show ?thesis using r by (simp add: relay_section_def point_ok_def point_session_def)
next
  case False
  then obtain u where u: "point_session t = Some u" "sv_owner s ch = Some u" "32 \<le> length u"
    using ok by (auto simp: point_ok_def point_session_def split: task_point.splits)
  have plain: ?thesis
    if "progress (se_gw Z) (sv_owner s) old (sv_gw s) g'" "point_session t' = Some u"
      "\<forall>v recs. t' \<noteq> Draining v recs" "\<forall>v ks. t' \<noteq> Removing v ks"
    using that u point_ok_simple[of t' u "s\<lparr>sv_gw := g'\<rparr>" ch Z old] by simp
  show ?thesis
  proof (cases t)
    case (Relaying v x p)
    obtain dl du g1 where d: "deliver_local (se_gw Z) x (forward_frame v p) (sv_gw s) = ((dl, du), g1)"
      by (metis prod.collapse)
    then show ?thesis
      using r u(1) Relaying progress_deliver_local[OF d]
      by (intro plain) (auto simp: relay_section_def point_session_def split: if_splits)
  next
    case (Persisting v x)
    then show ?thesis
      using r u(1) progress_persist[OF E] by (intro plain) (auto simp: relay_section_def point_session_def)
  qed (rule plain; use r u(1) c False in \<open>auto simp: relay_section_def point_session_def is_connecting_def\<close>)+
qed

lemma receive_message_ok:
  assumes E: "env_wf (se_gw Z)" and ok: "point_ok Z old s ch (Ready u)"
    and r: "receive_message (se_gw Z) P clk token u msg n (sv_gw s) = (t', n', g')"
  shows "progress (se_gw Z) (sv_owner s) old (sv_gw s) g' \<and> point_ok Z old (s\<lparr>sv_gw := g', sv_store := n'\<rparr>) ch t'"
proof -
  have u: "sv_owner s ch = Some u" "32 \<le> length u" using ok by (simp_all add: point_ok_def point_session_def)
  have plain: ?thesis
    if "progress (se_gw Z) (sv_owner s) old (sv_gw s) g'" "t' = Ready u \<or> (\<exists>x p. t' = Relaying u x p) \<or> t' = Gone"
    using that u by (auto simp: point_ok_def point_session_def)
  show ?thesis
  proof (cases msg)
    case (Binary d)
    consider "2 \<le> length d \<and> d ! 0 = 0x00" | "\<not> (2 \<le> length d \<and> d ! 0 = 0x00)" "parse_relay d = None"
      | x p where "\<not> (2 \<le> length d \<and> d ! 0 = 0x00)" "parse_relay d = Some (x, p)" by fastforce
    then show ?thesis
    proof cases
      case 1
      then have "g' = snd (handle_profile_operation P token u (d ! 1) (drop 2 d) n (sv_gw s))" "t' = Ready u"
        using r Binary by (simp_all add: receive_message_def)
      then show ?thesis using progress_profile by (intro plain) simp_all
    next
      case 2
      then show ?thesis using r Binary by (intro plain) (auto simp: receive_message_def)
    next
      case 3
      obtain a g1 where l: "check_rate_limit_store (ge_round (se_gw Z)) clk u (sv_gw s) = (a, g1)" by fastforce
      then have "g' = g1" "t' = (if a then Relaying u x p else Ready u)"
        using r Binary 3 by (auto simp: receive_message_def)
      then show ?thesis using progress_limiter[OF l] by (intro plain) simp_all
    qed
  qed (rule plain; use r in \<open>auto simp: receive_message_def progress_disconnect[OF E]\<close>)+
qed


section \<open>The sections of the event handler\<close>

lemma take_event_ok:
  assumes E: "env_wf (se_gw Z)" and att: "attended (sv_gw s)" and id: "full_id ev"
    and r: "take_event (se_gw Z) users ev (sv_gw s) = (h, g')"
  shows "progress (se_gw Z) (sv_owner s) old (sv_gw s) g' \<and>
    handler_ok Z old (s\<lparr>sv_gw := g', sv_handled := n\<rparr>) h"
proof (cases ev)
  case (MessageReceived source topic d)
  consider "topic = []" | "topic \<noteq> []" "w_unhex (ge_wire (se_gw Z)) topic = None"
    | u where "topic \<noteq> []" "w_unhex (ge_wire (se_gw Z)) topic = Some u" "gw_clients (sv_gw s) u = None"
    | u cs where "topic \<noteq> []" "w_unhex (ge_wire (se_gw Z)) topic = Some u" "gw_clients (sv_gw s) u = Some cs"
    by (metis option.exhaust)
  then show ?thesis
  proof cases
    case (4 u cs)
    have "g' = deliver_one (se_gw Z) u cs d (sv_gw s)" "h = HPersists u \<or> h = Waits"
      using r MessageReceived 4 by (auto simp: take_event_def deliver_one_def case_prod_beta Let_def split: if_splits)
    moreover have "filter (gw_alive (sv_gw s)) cs \<noteq> []" using att 4(3) by (simp add: attended_def)
    ultimately show ?thesis
      using deliver_one_progress[OF 4(3), of "se_gw Z" "sv_owner s" old d] by (auto simp: handler_ok_def)
  qed (use r MessageReceived in \<open>auto simp: take_event_def handler_ok_def progress_broadcast\<close>)
next
  case (MailboxRetrieved u ms)
  then show ?thesis using r id by (auto simp: take_event_def handler_ok_def full_id_def)
qed (use r in \<open>auto simp: take_event_def handler_ok_def intro: progress_frame\<close>)

lemma delivers_section_ok:
  assumes E: "env_wf (se_gw Z)" and p: "pending_ok Z s u recs" and u: "32 \<le> length u"
    and cl: "gw_clients (sv_gw s) u = Some cs" and live: "filter (gw_alive (sv_gw s)) cs \<noteq> []"
    and f1: "fold (deliver_backup (se_gw Z) u cs) recs (\<lparr>rv_remove = [], rv_delivered = 0, rv_dupes = 0\<rparr>, sv_gw s) = (r1, g1)"
    and f2: "fold (deliver_fetched (se_gw Z) u cs) payloads (r1, g1) = (r2, g2)"
    and g': "g' = (if 0 < rv_delivered r2 then (case gw_delivered g2 u of None \<Rightarrow> g2 | Some hashes \<Rightarrow>
      g2\<lparr>gw_db := save_delivered_hashes (ge_wire (se_gw Z)) (ge_sled (se_gw Z)) (gw_db g2) u hashes\<rparr>) else g2)"
    and sound: "gw_sound (se_gw Z) (sv_owner s) old (sv_gw s)"
  shows "progress (se_gw Z) (sv_owner s) old (sv_gw s) g' \<and> condemned_ok Z old (s\<lparr>sv_gw := g'\<rparr>) (rv_remove r2)"
proof -
  let ?E = "se_gw Z" and ?own = "sv_owner s" and ?g = "sv_gw s"
  let ?r0 = "\<lparr>rv_remove = [], rv_delivered = 0, rv_dupes = 0\<rparr> :: 'a retrieval"
  have g1: "g1 = fold (deliver_one ?E u cs) (map snd recs) ?g"
    using backup_state_fold[of ?E u cs recs ?r0 ?g] by (simp add: f1)
  have g2: "g2 = fold (deliver_one ?E u cs) payloads g1" using fetched_fold[of ?E u cs payloads r1 g1] by (simp add: f2)
  note d1 = deliver_fold_progress[OF cl live, of ?E ?own old "map snd recs", folded g1]
  have "gw_clients g1 u = Some cs" "filter (gw_alive g1) cs \<noteq> []" using cl live by (simp_all add: g1)
  note d2 = deliver_fold_progress[OF this, of ?E ?own old payloads, folded g2]
  have "progress ?E ?own old g2 g'" using progress_save[OF E] by (simp add: g' split: option.split)
  then have p12: "progress ?E ?own old g1 g'" using progress_trans d2 by blast
  have pr: "progress ?E ?own old ?g g'" using progress_trans d1 p12 by blast
  have same: "mail ?E g' k = letters Z s k" for k
    using E by (simp add: g' g1 g2 env_wf_def save_keeps_mailbox split: option.split)
  have rm: "set (rv_remove r2) \<subseteq> fst ` set recs"
    using backup_remove_subset[of ?E u cs recs ?r0 ?g] fetched_removes_nothing[of ?E u cs payloads r1 g1]
    by (simp add: f1 f2)
  have s1: "gw_sound ?E ?own old g1" using d1 sound by (simp add: progress_def)
  have sub: "set (gw_sent g1) \<subseteq> set (gw_sent g')" using p12 s1 by (simp add: progress_def)
  have "\<forall>k \<in> set (rv_remove r2). \<exists>q. (k, q) \<in> set recs \<and>
      evident (ge_wire ?E) ?own old (gw_sent g') u (payload_hash (ge_wire ?E) q)"
  proof
    fix k
    assume "k \<in> set (rv_remove r2)"
    then obtain q where q: "(k, q) \<in> set recs" using rm by auto
    then have "q \<in> set (map snd recs)" by force
    then have "evident (ge_wire ?E) ?own old (gw_sent g1) u (payload_hash (ge_wire ?E) q)" using d1 sound by blast
    with q show "\<exists>q. (k, q) \<in> set recs \<and> evident (ge_wire ?E) ?own old (gw_sent g') u (payload_hash (ge_wire ?E) q)"
      using evident_mono[OF _ sub map_le_refl] by blast
  qed
  then have "condemned_ok Z old (s\<lparr>sv_gw := g'\<rparr>) (rv_remove r2)" by (rule pending_condemned[OF p u _ same])
  with pr show ?thesis by blast
qed

lemma handler_section_ok:
  assumes E: "env_wf (se_gw Z)" and known: "\<And>k. letters Z s k \<noteq> None \<Longrightarrow> remembers (sv_node s) k"
    and ok: "handler_ok Z old s h" and sound: "gw_sound (se_gw Z) (sv_owner s) old (sv_gw s)"
    and att: "\<And>u ps recs. h = HDelivers u ps recs \<Longrightarrow> attended (sv_gw s)"
    and r: "handler_section (se_gw Z) h (sv_gw s) = (h', g')"
  shows "progress (se_gw Z) (sv_owner s) old (sv_gw s) g' \<and> handler_ok Z old (s\<lparr>sv_gw := g'\<rparr>) h'"
proof (cases h)
  case (HReads u payloads)
  then have u: "32 \<le> length u" using ok by (simp add: handler_ok_def)
  obtain db recs where rd: "read_sled_backup (ge_wire (se_gw Z)) (ge_sled (se_gw Z)) (gw_db (sv_gw s)) u = (db, recs)"
    by fastforce
  show ?thesis
  proof (cases "payloads = []")
    case True
    then have "h' = (if recs = [] then Waits else HDelivers u [] recs)" "g' = (sv_gw s)\<lparr>gw_db := db\<rparr>"
      using r HReads rd by (auto simp: handler_section_def)
    then show ?thesis
      using progress_read[OF E u rd] read_pending[OF E known rd] u by (auto simp: handler_ok_def)
  next
    case False
    then have "h' = HDelivers u payloads []" "g' = sv_gw s" using r HReads by (auto simp: handler_section_def)
    then show ?thesis using u by (simp add: handler_ok_def pending_ok_def)
  qed
next
  case (HDelivers u payloads recs)
  then have u: "32 \<le> length u" "pending_ok Z s u recs" using ok by (simp_all add: handler_ok_def)
  show ?thesis
  proof (cases "gw_clients (sv_gw s) u")
    case None
    then show ?thesis using r HDelivers by (auto simp: handler_section_def handler_ok_def)
  next
    case (Some cs)
    have live: "filter (gw_alive (sv_gw s)) cs \<noteq> []" using att[OF HDelivers] Some by (simp add: attended_def)
    obtain r1 g1 where f1: "fold (deliver_backup (se_gw Z) u cs) recs (\<lparr>rv_remove = [], rv_delivered = 0, rv_dupes = 0\<rparr>, sv_gw s) = (r1, g1)"
      by fastforce
    obtain r2 g2 where f2: "fold (deliver_fetched (se_gw Z) u cs) payloads (r1, g1) = (r2, g2)" by fastforce
    have eq: "h' = (if rv_remove r2 = [] then Waits else HRemoves (rv_remove r2))"
      "g' = (if 0 < rv_delivered r2 then (case gw_delivered g2 u of None \<Rightarrow> g2 | Some hashes \<Rightarrow>
        g2\<lparr>gw_db := save_delivered_hashes (ge_wire (se_gw Z)) (ge_sled (se_gw Z)) (gw_db g2) u hashes\<rparr>) else g2)"
      using r HDelivers Some f1 f2 by (simp_all add: handler_section_def)
    from delivers_section_ok[OF E u(2,1) Some live f1 f2 eq(2) sound] show ?thesis
      by (simp add: eq(1) handler_ok_def)
  qed
next
  case (HRemoves ks)
  then have "condemned_ok Z old s ks" using ok by (simp add: handler_ok_def)
  from removes_condemned[OF E this] show ?thesis using r HRemoves by (auto simp: handler_section_def handler_ok_def)
qed (use r progress_persist[OF E] in \<open>auto simp: handler_section_def handler_ok_def intro: progress_frame\<close>)

end
