(* ===== verification/Locks_Theorems.thy ===== *)
theory Locks_Theorems
  imports Locks_Inv Server_Theorems
begin

text \<open>
  The server at the grain of its lock: the invariant of all interleavings of sections, and that no
  stored message is lost when the database starts without mail. \<open>Locks_Race\<close> shows a race that loses
  one when it does not.
\<close>

section \<open>The invariant\<close>

definition lock_inv ::
    "('db, 'q, 'n) server_env \<Rightarrow> (bytes \<Rightarrow> u64 list) \<Rightarrow> nat \<Rightarrow> ('db, 'q, 'n) locked \<Rightarrow> bool" where
  "lock_inv Z old n w \<longleftrightarrow>
     (let s = lk_server w in
      server_inv Z old n s \<and> probes_unknown (sv_state s) (sv_node s) \<and>
      (\<forall>k. letters Z s k \<noteq> None \<longrightarrow> remembers (sv_node s) k) \<and>
      (\<forall>ch t. lk_tasks w ch = Some t \<longrightarrow> point_ok Z old s ch t) \<and> handler_ok Z old s (lk_handler w))"

lemma lock_invD:
  assumes "lock_inv Z old n w"
  shows "server_inv Z old n (lk_server w)" "probes_unknown (sv_state (lk_server w)) (sv_node (lk_server w))"
    "letters Z (lk_server w) k \<noteq> None \<Longrightarrow> remembers (sv_node (lk_server w)) k"
    "lk_tasks w ch = Some t \<Longrightarrow> point_ok Z old (lk_server w) ch t" "handler_ok Z old (lk_server w) (lk_handler w)"
    "gw_sound (se_gw Z) (sv_owner (lk_server w)) old (sv_gw (lk_server w))"
  using assms by (simp_all add: lock_inv_def Let_def server_inv_def)

lemma lock_inv_mono: "lock_inv Z old n w \<Longrightarrow> n \<le> m \<Longrightarrow> lock_inv Z old m w"
  using node_inv_mono by (fastforce simp: lock_inv_def Let_def server_inv_def)

text \<open>An action of the gateway: one task, or the handler, gets a new point.\<close>

lemma gateway_section:
  assumes Z: "server_env_ok Z" and inv: "lock_inv Z old n w"
    and own: "sv_owner (lk_server w) \<subseteq>\<^sub>m sv_owner (lk_server w')"
    and p: "progress (se_gw Z) (sv_owner (lk_server w')) old (sv_gw (lk_server w)) (sv_gw (lk_server w'))"
    and node: "sv_node (lk_server w') = sv_node (lk_server w)" "sv_state (lk_server w') = sv_state (lk_server w)"
    and tasks: "\<And>ch t. lk_tasks w' ch = Some t \<Longrightarrow> lk_tasks w ch = Some t \<or> point_ok Z old (lk_server w') ch t"
    and handler: "lk_handler w' = lk_handler w \<or> handler_ok Z old (lk_server w') (lk_handler w')"
  shows "lock_inv Z old n w' \<and> server_leads Z old (lk_server w) (lk_server w')"
proof -
  let ?s = "lk_server w" and ?s' = "lk_server w'"
  note D = lock_invD[OF inv]
  have a: "server_inv Z old n ?s' \<and> server_leads Z old ?s ?s'"
    by (rule gateway_action[OF Z D(1) own p node])
  have "gw_sound (se_gw Z) (sv_owner ?s') old (sv_gw ?s)" using gw_sound_mono[OF D(6) own] .
  then have m: "letters Z ?s' k = None \<or> letters Z ?s' k = letters Z ?s k" for k
    using p by (simp add: progress_def)
  then have st: "steady Z ?s ?s'" using a node by (simp add: steady_def server_leads_def)
  have "point_ok Z old ?s' ch t" if "lk_tasks w' ch = Some t" for ch t
    using tasks[OF that] D(4) point_ok_steady[OF st] by blast
  moreover have "handler_ok Z old ?s' (lk_handler w')" using handler D(5) handler_ok_steady[OF st] by metis
  moreover have "remembers (sv_node ?s') k" if "letters Z ?s' k \<noteq> None" for k
    using m[of k] D(3)[of k] that node by auto
  ultimately show ?thesis using a D(2) node by (simp add: lock_inv_def Let_def)
qed

text \<open>A turn of the node.\<close>

lemma node_section:
  assumes Z: "server_env_ok Z" and inv: "lock_inv Z old n w" and n: "n + 11 < 2 ^ 64"
    and r: "node_turn (se_node Z) now conn inp (s\<lparr>sv_taken := tk\<rparr>) = Some s'" and s: "s = lk_server w"
  shows "lock_inv Z old (n + 10) (w\<lparr>lk_server := s'\<rparr>) \<and> server_leads Z old (lk_server w) s'"
proof -
  let ?s = "s\<lparr>sv_taken := tk\<rparr>" and ?nd = "(sv_node s)\<lparr>nd_db := gw_db (sv_gw s)\<rparr>"
  note D = lock_invD[OF inv, folded s]
  have S: "ne_sled (se_node Z) = ge_sled (se_gw Z)" and ok: "sled_ok (ne_sled (se_node Z))"
    using Z by (simp_all add: server_env_ok_def env_wf_def)
  have inv1: "server_inv Z old n ?s" using D(1) by (simp add: server_inv_def)
  have a: "server_inv Z old (n + 10) s' \<and> server_leads Z old s s'"
    using node_action[OF Z inv1 n r] by (simp add: server_leads_def)
  obtain st nd where t: "node_step (se_node Z) now conn inp (sv_state s) ?nd = Some (st, nd)"
    and s': "s' = ?s\<lparr>sv_state := st, sv_node := nd, sv_gw := (sv_gw s)\<lparr>gw_db := nd_db nd\<rparr>\<rparr>"
    using r by (auto simp: node_turn_def)
  have "node_inv (se_node Z) n (sv_state s) ?nd" using D(1) by (simp add: server_inv_def)
  moreover have "probes_unknown (sv_state s) ?nd" using D(2) by (simp add: probes_unknown_def split: mailbox_state.splits)
  ultimately have o: "only_new (se_node Z) ?nd nd \<and> probes_unknown st nd"
    using node_step_new[OF ok _ n _ t] by blast
  have m: "mail_of (se_node Z) ?nd k = letters Z s k" "mail_of (se_node Z) nd k = letters Z s' k" for k
    by (simp_all add: mail_of_def S s')
  have rem: "remembers ?nd k = remembers (sv_node s) k" for k by (simp add: remembers_def)
  have st: "steady Z s s'"
    using o only_new_remembers[of "se_node Z" ?nd nd] a
    by (simp add: steady_def server_leads_def m rem) (simp add: s')
  have known: "remembers (sv_node s') k" if "letters Z s' k \<noteq> None" for k
  proof (cases "letters Z s' k = letters Z s k")
    case True
    then have "remembers ?nd k" using D(3)[of k] that by (simp add: rem)
    from only_new_remembers(1)[OF conjunct1[OF o] this] show ?thesis by (simp add: s')
  next
    case False
    then show ?thesis using only_new_written[OF conjunct1[OF o], of k] by (simp add: m) (simp add: s')
  qed
  have "probes_unknown (sv_state s') (sv_node s')" using o by (simp add: s')
  then show ?thesis
    using a known D(4,5) point_ok_steady[OF st] handler_ok_steady[OF st] s by (simp add: lock_inv_def Let_def)
qed

text \<open>As for \<open>calm\<close>, at the sections that deliver.\<close>

definition calm_lock :: "'q lock_input \<Rightarrow> ('db, 'q, 'n) locked \<Rightarrow> bool" where
  "calm_lock inp w =
     (let s = lk_server w in
      case inp of
        Enters ch msg \<Rightarrow> (case msg of Binary u \<Rightarrow> u = [] \<or> 32 \<le> length u | _ \<Rightarrow> True)
      | Handles users \<Rightarrow>
          (case lk_handler w of
             Waits \<Rightarrow> sv_handled s < length (nd_events (sv_node s)) \<longrightarrow>
               attended (sv_gw s) \<and> full_id (nd_events (sv_node s) ! sv_handled s)
           | HDelivers u payloads recs \<Rightarrow> attended (sv_gw s)
           | _ \<Rightarrow> True)
      | _ \<Rightarrow> True)"

primrec calm_locks :: "('db, 'q, 'n) server_env \<Rightarrow> 'q lock_input list \<Rightarrow> ('db, 'q, 'n) locked \<Rightarrow> bool" where
  "calm_locks Z [] w = True"
| "calm_locks Z (i # is) w =
     (calm_lock i w \<and> (case lock_step Z i w of None \<Rightarrow> True | Some w' \<Rightarrow> calm_locks Z is w'))"

text \<open>One lemma for each kind of section; \<open>lock_step_leads\<close> collects them. An input that finds nothing to
  do leaves everything as it is.\<close>

lemma idle_leads:
  "lock_inv Z old n w \<Longrightarrow> w' = w \<Longrightarrow> lock_inv Z old (n + 10) w' \<and> server_leads Z old (lk_server w) (lk_server w')"
  using lock_inv_mono[of Z old n w "n + 10"] server_leads_refl by simp

lemma gateway_section_leads:
  assumes "server_env_ok Z" "lock_inv Z old n w" "sv_owner (lk_server w) \<subseteq>\<^sub>m sv_owner (lk_server w')"
    "progress (se_gw Z) (sv_owner (lk_server w')) old (sv_gw (lk_server w)) (sv_gw (lk_server w'))"
    "sv_node (lk_server w') = sv_node (lk_server w)" "sv_state (lk_server w') = sv_state (lk_server w)"
    "\<And>ch t. lk_tasks w' ch = Some t \<Longrightarrow> lk_tasks w ch = Some t \<or> point_ok Z old (lk_server w') ch t"
    "lk_handler w' = lk_handler w \<or> handler_ok Z old (lk_server w') (lk_handler w')"
  shows "lock_inv Z old (n + 10) w' \<and> server_leads Z old (lk_server w) (lk_server w')"
  using gateway_section[OF assms] lock_inv_mono[of Z old n w' "n + 10"] by simp

lemma enters_leads:
  assumes Z: "server_env_ok Z" and inv: "lock_inv Z old n w"
    and c: "calm_lock (Enters ch msg) w" and r: "lock_step Z (Enters ch msg) w = Some w'"
  shows "lock_inv Z old (n + 10) w' \<and> server_leads Z old (lk_server w) (lk_server w')"
proof (cases "\<exists>u. msg = Binary u \<and> u \<noteq> [] \<and> sv_owner (lk_server w) ch = None")
  case False
  then have "w' = w" using r by (auto simp: lock_step_def Let_def split: ws_message.splits if_splits)
  then show ?thesis by (rule idle_leads[OF inv])
next
  case True
  let ?s = "lk_server w"
  obtain u where u: "msg = Binary u" "u \<noteq> []" "sv_owner ?s ch = None" using True by blast
  then have w': "w' = w\<lparr>lk_server := ?s\<lparr>sv_owner := (sv_owner ?s)(ch \<mapsto> u)\<rparr>,
      lk_tasks := (lk_tasks w)(ch \<mapsto> Subscribing u)\<rparr>" using r by (simp add: lock_step_def Let_def)
  have "32 \<le> length u" using c u by (simp add: calm_lock_def Let_def)
  then show ?thesis
    using u(3) by (intro gateway_section_leads[OF Z inv])
      (auto simp: w' map_le_def point_ok_def point_session_def split: if_splits)
qed

lemma moves_leads:
  assumes Z: "server_env_ok Z" and inv: "lock_inv Z old n w" and r: "lock_step Z (Moves now ch) w = Some w'"
  shows "lock_inv Z old (n + 10) w' \<and> server_leads Z old (lk_server w) (lk_server w')"
proof (cases "lk_tasks w ch")
  case None
  then show ?thesis using r by (intro idle_leads[OF inv]) (simp add: lock_step_def Let_def)
next
  case (Some t)
  let ?s = "lk_server w"
  have E: "env_wf (se_gw Z)" using Z by (simp add: server_env_ok_def)
  note D = lock_invD[OF inv]
  obtain t' g' where m: "task_section (se_gw Z) now ch t (sv_gw ?s) = (t', g')" by fastforce
  then have w': "w' = w\<lparr>lk_server := ?s\<lparr>sv_gw := g'\<rparr>, lk_tasks := (lk_tasks w)(ch \<mapsto> t')\<rparr>"
    using r Some by (simp add: lock_step_def Let_def)
  have "progress (se_gw Z) (sv_owner ?s) old (sv_gw ?s) g' \<and> point_ok Z old (?s\<lparr>sv_gw := g'\<rparr>) ch t'"
    using connect_section_ok[OF E D(3) D(4)[OF Some] D(6), of now t' g'] relay_section_ok[OF E D(4)[OF Some], of t' g'] m
    by (simp add: task_section_def split: if_splits)
  then show ?thesis
    by (intro gateway_section_leads[OF Z inv]) (auto simp: w' split: if_splits)
qed

lemma hears_leads:
  assumes Z: "server_env_ok Z" and inv: "lock_inv Z old n w" and r: "lock_step Z (Hears clk token ch msg) w = Some w'"
  shows "lock_inv Z old (n + 10) w' \<and> server_leads Z old (lk_server w) (lk_server w')"
proof (cases "\<exists>u. lk_tasks w ch = Some (Ready u)")
  case False
  then show ?thesis
    using r by (intro idle_leads[OF inv]) (auto simp: lock_step_def Let_def split: option.splits task_point.splits)
next
  case True
  let ?s = "lk_server w"
  have E: "env_wf (se_gw Z)" using Z by (simp add: server_env_ok_def)
  obtain u where u: "lk_tasks w ch = Some (Ready u)" using True by blast
  obtain t' n' g' where m: "receive_message (se_gw Z) (se_ops Z) clk token u msg (sv_store ?s) (sv_gw ?s) = (t', n', g')"
    by (metis prod.collapse)
  then have w': "w' = w\<lparr>lk_server := ?s\<lparr>sv_gw := g', sv_store := n'\<rparr>, lk_tasks := (lk_tasks w)(ch \<mapsto> t')\<rparr>"
    using r u by (simp add: lock_step_def Let_def)
  have "progress (se_gw Z) (sv_owner ?s) old (sv_gw ?s) g' \<and> point_ok Z old (?s\<lparr>sv_gw := g', sv_store := n'\<rparr>) ch t'"
    by (rule receive_message_ok[OF E lock_invD(4)[OF inv u] m])
  then show ?thesis
    by (intro gateway_section_leads[OF Z inv]) (auto simp: w' split: if_splits)
qed

lemma fetches_leads:
  assumes Z: "server_env_ok Z" and inv: "lock_inv Z old n w" and n: "n + 11 < 2 ^ 64"
    and r: "lock_step Z (Fetches now conn) w = Some w'"
  shows "lock_inv Z old (n + 10) w' \<and> server_leads Z old (lk_server w) (lk_server w')"
proof (cases "sv_taken (lk_server w) < length (gw_cmds (sv_gw (lk_server w)))")
  case False
  then show ?thesis using r by (intro idle_leads[OF inv]) (simp add: lock_step_def server_step_def Let_def)
next
  case True
  then obtain s' where s': "node_turn (se_node Z) now conn (Command (gw_cmds (sv_gw (lk_server w)) ! sv_taken (lk_server w)))
      ((lk_server w)\<lparr>sv_taken := Suc (sv_taken (lk_server w))\<rparr>) = Some s'" "w' = w\<lparr>lk_server := s'\<rparr>"
    using r by (auto simp: lock_step_def server_step_def Let_def)
  from node_section[OF Z inv n s'(1) refl] show ?thesis by (simp add: s'(2))
qed

lemma handles_leads:
  assumes Z: "server_env_ok Z" and inv: "lock_inv Z old n w"
    and c: "calm_lock (Handles users) w" and r: "lock_step Z (Handles users) w = Some w'"
  shows "lock_inv Z old (n + 10) w' \<and> server_leads Z old (lk_server w) (lk_server w')"
proof -
  let ?s = "lk_server w"
  have E: "env_wf (se_gw Z)" using Z by (simp add: server_env_ok_def)
  note D = lock_invD[OF inv]
  consider "lk_handler w \<noteq> Waits" | "lk_handler w = Waits" "sv_handled ?s < length (nd_events (sv_node ?s))"
    | "lk_handler w = Waits" "\<not> sv_handled ?s < length (nd_events (sv_node ?s))" by blast
  then show ?thesis
  proof cases
    case 1
    obtain h g' where m: "handler_section (se_gw Z) (lk_handler w) (sv_gw ?s) = (h, g')" by fastforce
    then have w': "w' = w\<lparr>lk_server := ?s\<lparr>sv_gw := g'\<rparr>, lk_handler := h\<rparr>"
      using r 1 by (simp add: lock_step_def Let_def)
    have "attended (sv_gw ?s)" if "lk_handler w = HDelivers u ps recs" for u ps recs
      using c that by (simp add: calm_lock_def Let_def)
    then have "progress (se_gw Z) (sv_owner ?s) old (sv_gw ?s) g' \<and> handler_ok Z old (?s\<lparr>sv_gw := g'\<rparr>) h"
      using handler_section_ok[OF E D(3,5,6) _ m] by blast
    then show ?thesis by (intro gateway_section_leads[OF Z inv]) (auto simp: w')
  next
    case 2
    obtain h g' where m: "take_event (se_gw Z) users (nd_events (sv_node ?s) ! sv_handled ?s) (sv_gw ?s) = (h, g')"
      by fastforce
    then have w': "w' = w\<lparr>lk_server := ?s\<lparr>sv_gw := g', sv_handled := Suc (sv_handled ?s)\<rparr>, lk_handler := h\<rparr>"
      using r 2 by (simp add: lock_step_def Let_def)
    have "attended (sv_gw ?s)" "full_id (nd_events (sv_node ?s) ! sv_handled ?s)"
      using c 2 by (simp_all add: calm_lock_def Let_def)
    from take_event_ok[OF E this m, of old "Suc (sv_handled ?s)"]
    show ?thesis by (intro gateway_section_leads[OF Z inv]) (auto simp: w')
  next
    case 3
    then show ?thesis using r by (intro idle_leads[OF inv]) (simp add: lock_step_def Let_def)
  qed
qed

lemma lock_step_leads:
  assumes Z: "server_env_ok Z" and inv: "lock_inv Z old n w" and n: "n + 11 < 2 ^ 64"
    and c: "calm_lock inp w" and r: "lock_step Z inp w = Some w'"
  shows "lock_inv Z old (n + 10) w' \<and> server_leads Z old (lk_server w) (lk_server w')"
proof (cases inp)
  case (Drops ch)
  then have "w' = w\<lparr>lk_server := (lk_server w)\<lparr>sv_gw := (sv_gw (lk_server w))
      \<lparr>gw_alive := (gw_alive (sv_gw (lk_server w)))(ch := False)\<rparr>\<rparr>\<rparr>"
    using r by (auto simp: lock_step_def server_step_def Let_def)
  then show ?thesis by (intro gateway_section_leads[OF Z inv]) (auto intro: progress_frame)
next
  case (Forwards u)
  then have "w' = w\<lparr>lk_server := (lk_server w)\<lparr>sv_gw := prune_client u (sv_gw (lk_server w))\<rparr>\<rparr>"
    using r by (auto simp: lock_step_def server_step_def Let_def)
  then show ?thesis using progress_prune by (intro gateway_section_leads[OF Z inv]) auto
next
  case (Turns now conn i)
  then obtain s' where s': "node_turn (se_node Z) now conn i ((lk_server w)\<lparr>sv_taken := sv_taken (lk_server w)\<rparr>) = Some s'"
    "w' = w\<lparr>lk_server := s'\<rparr>"
    using r by (auto simp: lock_step_def server_step_def Let_def)
  from node_section[OF Z inv n s'(1) refl] show ?thesis by (simp add: s'(2))
qed (use enters_leads[OF Z inv] moves_leads[OF Z inv] hears_leads[OF Z inv] fetches_leads[OF Z inv n]
    handles_leads[OF Z inv] c r in blast)+

lemma lock_run_leads:
  assumes Z: "server_env_ok Z" and inv: "lock_inv Z old n w" and n: "n + 10 * length ins + 11 < 2 ^ 64"
    and c: "calm_locks Z ins w" and r: "run_steps (lock_step Z) ins w = Some w'"
  shows "lock_inv Z old (n + 10 * length ins) w' \<and> server_leads Z old (lk_server w) (lk_server w')"
  using inv n c r
proof (induction ins arbitrary: n w)
  case Nil
  then show ?case by (simp add: server_leads_refl)
next
  case (Cons i ins)
  then obtain w1 where w1: "lock_step Z i w = Some w1" "run_steps (lock_step Z) ins w1 = Some w'"
    by (auto simp: bind_eq_Some_conv)
  have step: "lock_inv Z old (n + 10) w1 \<and> server_leads Z old (lk_server w) (lk_server w1)"
    using lock_step_leads[OF Z Cons.prems(1) _ _ w1(1)] Cons.prems(2,3) by simp
  have "lock_inv Z old (n + 10 + 10 * length ins) w' \<and> server_leads Z old (lk_server w1) (lk_server w')"
    using Cons.prems(2,3) w1 step by (intro Cons.IH) simp_all
  then show ?case using step server_leads_trans by (auto simp: algebra_simps)
qed

lemma calm_locks_append:
  "calm_locks Z (is @ js) w \<longleftrightarrow> calm_locks Z is w \<and>
     (case run_steps (lock_step Z) is w of None \<Rightarrow> True | Some w' \<Rightarrow> calm_locks Z js w')"
proof (induction "is" arbitrary: w)
  case Nil
  then show ?case by simp
next
  case (Cons i "is")
  then show ?case by (cases "lock_step Z i w") auto
qed

lemma lock_start_inv:
  assumes "\<And>k. sl_get (ne_sled (se_node Z)) db SLED_MAILBOX_TREE k = None" "server_env_ok Z"
  shows "lock_inv Z (\<lambda>v. load_delivered_hashes (ge_wire (se_gw Z)) (ge_sled (se_gw Z)) db v) 0
    (lock_start db alive dials st (se_node Z))"
proof -
  have "\<forall>u s. backup_has (se_node Z) db u s \<longrightarrow> unat s \<le> 0" using assms(1) by (simp add: backup_has_def)
  from server_start_inv[OF this] show ?thesis
    using assms by (simp add: lock_inv_def lock_start_def handler_ok_def)
      (simp add: server_start_def gateway_start_def probes_unknown_def server_env_ok_def)
qed


section \<open>No stored message is lost\<close>

text \<open>C4: No interleaving of the sections of the handlers loses a stored message, in a calm run of a server
  that started with an empty mailbox. Connections, relays, drains, removals, the event handler and the
  node run in any order, each giving way to any other whenever it does not hold the lock. The run is
  calm when clients connect with session ids of at least 32 bytes, a retrieval reports a user id of at
  least 32 bytes (a failed lookup reports an empty one), the sections that deliver an event run while
  each registered session has a live connection, and the numbers stay below \<open>2 ^ 64\<close>. In such a run a
  record of the mailbox backup that can be read is still there at any later moment, unchanged, or a
  payload with its hash was sent to a connection of a session its key belongs to (or was marked at
  the start).\<close>

theorem no_message_lost_between_locks:
  assumes Z: "server_env_ok Z" and empty: "\<forall>k. sl_get (ge_sled (se_gw Z)) db SLED_MAILBOX_TREE k = None"
    and run: "run_steps (lock_step Z) ins1 (lock_start db alive dials st (se_node Z)) = Some w1"
      "run_steps (lock_step Z) ins2 w1 = Some w2"
    and calm: "calm_locks Z (ins1 @ ins2) (lock_start db alive dials st (se_node Z))"
    and short: "10 * length (ins1 @ ins2) + 11 < 2 ^ 64"
    and rec: "sl_get (ge_sled (se_gw Z)) (gw_db (sv_gw (lk_server w1))) SLED_MAILBOX_TREE k = Some raw" "32 \<le> length k"
      "record_payload (ge_wire (se_gw Z)) (take 32 k) raw = Some p"
  shows "sl_get (ge_sled (se_gw Z)) (gw_db (sv_gw (lk_server w2))) SLED_MAILBOX_TREE k = Some raw \<or>
    (\<exists>v. prefix v k \<and>
       (payload_hash (ge_wire (se_gw Z)) p \<in> set (load_delivered_hashes (ge_wire (se_gw Z)) (ge_sled (se_gw Z)) db v) \<or>
        (\<exists>ch q. (ch, q) \<in> set (gw_sent (sv_gw (lk_server w2))) \<and> sv_owner (lk_server w2) ch = Some v \<and>
           payload_hash (ge_wire (se_gw Z)) q = payload_hash (ge_wire (se_gw Z)) p)))"
proof -
  let ?old = "\<lambda>v. load_delivered_hashes (ge_wire (se_gw Z)) (ge_sled (se_gw Z)) db v"
  let ?w = "lock_start db alive dials st (se_node Z)"
  have c: "calm_locks Z ins1 ?w" "calm_locks Z ins2 w1" using calm run(1) by (simp_all add: calm_locks_append)
  have "\<And>k. sl_get (ne_sled (se_node Z)) db SLED_MAILBOX_TREE k = None"
    using empty Z by (simp add: server_env_ok_def)
  then have start: "lock_inv Z ?old 0 ?w" by (rule lock_start_inv[OF _ Z])
  have "lock_inv Z ?old (0 + 10 * length ins1) w1"
    using lock_run_leads[OF Z start _ c(1) run(1)] short by simp
  then have "server_leads Z ?old (lk_server w1) (lk_server w2)"
    using lock_run_leads[OF Z _ _ c(2) run(2), of ?old "0 + 10 * length ins1"] short by simp
  then show ?thesis using rec by (auto simp: server_leads_def accounted_def evident_def)
qed

text \<open>A message is stored for a user, who then connects.\<close>

theorem no_message_lost_between_locks_witness:
  "\<exists>w1 w2 raw. run_steps (lock_step demo_server_env) [Turns 0 [] (Command (MailboxStore demo_user [1] [2]))]
      (lock_start (\<lambda>t. []) (\<lambda>ch. True) [] Map.empty demo_node_env) = Some w1 \<and>
    sl_get toy_sled (gw_db (sv_gw (lk_server w1))) SLED_MAILBOX_TREE (seq_be_key demo_user 1) = Some raw \<and>
    run_steps (lock_step demo_server_env) (Enters 3 (Binary demo_user) # replicate 8 (Moves 0 3)) w1 = Some w2 \<and>
    (sl_get toy_sled (gw_db (sv_gw (lk_server w2))) SLED_MAILBOX_TREE (seq_be_key demo_user 1) = Some raw \<or>
     (\<exists>v ch q. prefix v (seq_be_key demo_user 1) \<and> (ch, q) \<in> set (gw_sent (sv_gw (lk_server w2))) \<and>
        sv_owner (lk_server w2) ch = Some v \<and>
        payload_hash toy_wire q = payload_hash toy_wire (encode_mailbox_message [1] [2])))"
proof -
  let ?db = "\<lambda>t. []" and ?c = "Command (MailboxStore demo_user [1] [2])"
  let ?w = "lock_start ?db (\<lambda>ch. True) [] (Map.empty :: bytes \<rightharpoonup> bytes) demo_node_env :: (toy_db, nat, bytes \<rightharpoonup> bytes) locked"
  let ?i1 = "[Turns 0 [] ?c]" and ?i2 = "Enters 3 (Binary demo_user) # replicate 8 (Moves 0 3)"
  let ?k = "seq_be_key demo_user 1"
  have env: "ge_sled (se_gw demo_server_env) = toy_sled" "ge_wire (se_gw demo_server_env) = toy_wire"
    "se_node demo_server_env = demo_node_env" "ne_sled demo_node_env = toy_sled" "ne_wire demo_node_env = toy_wire"
    by (simp_all add: demo_server_env_def demo_env_def demo_node_env_def)
  have none: "sl_get toy_sled ?db t k = None" for t k by (simp add: toy_sled_def toy_norm_def bt_wf_def bt_get_def)
  have inv: "lock_inv demo_server_env (\<lambda>v. load_delivered_hashes toy_wire toy_sled ?db v) 0 ?w"
    using lock_start_inv[OF _ demo_server_env_ok, of ?db "\<lambda>ch. True" "[]" "Map.empty :: bytes \<rightharpoonup> bytes"]
    by (simp add: env none)
  define nd where "nd = (sv_node (lk_server ?w))\<lparr>nd_db := gw_db (sv_gw (lk_server ?w))\<rparr>"
  have st: "sv_state (lk_server ?w) = Idle" by (simp add: lock_start_def server_start_def)
  have nd: "node_inv demo_node_env 0 Idle nd" using inv st by (simp add: lock_inv_def Let_def server_inv_def env nd_def)
  have dbs: "gw_db (sv_gw (lk_server ?w)) = ?db" "nd_indices (sv_node (lk_server ?w)) = Map.empty"
    by (simp_all add: lock_start_def server_start_def gateway_start_def dial_persisted_fields node_start_def)
  have one: "solo_seq demo_node_env nd demo_user = 1"
  proof -
    have "get_sled_max_seq toy_sled ?db demo_user = None"
      using get_sled_max_seq_spec(1)[OF demo_node_sled(1), of ?db demo_user] none by (fastforce simp: backup_has_def env)
    then show ?thesis using dbs by (simp add: solo_seq_def seed_index_def nd_def command_user_def is_idle_def env)
  qed
  obtain nd' raw where s: "node_step demo_node_env 0 [] ?c Idle nd = Some (Idle, nd')"
    "sl_get toy_sled (nd_db nd') SLED_MAILBOX_TREE ?k = Some raw"
    "record_payload toy_wire demo_user raw = Some (encode_mailbox_message [1] [2])"
    using solo_store[OF demo_node_ok(1,2) nd, of 0 "[1]" "[2]"] by (auto simp: one env)
  obtain w1 where w1: "lock_step demo_server_env (Turns 0 [] ?c) ?w = Some w1"
    "sl_get toy_sled (gw_db (sv_gw (lk_server w1))) SLED_MAILBOX_TREE ?k = Some raw"
    using s st by (simp add: lock_step_def server_step_def node_turn_def env Let_def nd_def)
  have total: "\<exists>w'. lock_step demo_server_env (Moves 0 3) w = Some w'" for w :: "(toy_db, nat, bytes \<rightharpoonup> bytes) locked"
    by (simp add: lock_step_def Let_def split: option.split prod.split)
  have "\<exists>w'. run_steps (lock_step demo_server_env) (replicate m (Moves 0 3)) w = Some w'" for m and w :: "(toy_db, nat, bytes \<rightharpoonup> bytes) locked"
  proof (induction m arbitrary: w)
    case (Suc m)
    obtain w' where "lock_step demo_server_env (Moves 0 3) w = Some w'" using total by blast
    then show ?case using Suc.IH[of w'] by simp
  qed simp
  moreover obtain wm where "lock_step demo_server_env (Enters 3 (Binary demo_user)) w1 = Some wm"
    by (cases "demo_user = [] \<or> sv_owner (lk_server w1) 3 \<noteq> None") (simp_all add: lock_step_def Let_def)
  ultimately obtain w2 where w2: "run_steps (lock_step demo_server_env) ?i2 w1 = Some w2" by auto
  have r1: "run_steps (lock_step demo_server_env) ?i1 ?w = Some w1" using w1(1) by simp
  have calm: "calm_locks demo_server_env (?i1 @ ?i2) ?w"
  proof -
    have m: "calm_locks demo_server_env (replicate m (Moves 0 3)) w" for m and w :: "(toy_db, nat, bytes \<rightharpoonup> bytes) locked"
      by (induction m arbitrary: w) (simp_all add: calm_lock_def Let_def split: option.split)
    show ?thesis by (simp add: calm_lock_def Let_def demo_node_ok(2) m split: option.split)
  qed
  have k: "32 \<le> length ?k" "take 32 ?k = demo_user" by (simp_all add: seq_be_key_def demo_user_def)
  have old: "load_delivered_hashes toy_wire toy_sled ?db v = []" for v
    by (simp add: load_delivered_hashes_def toy_sled_def toy_norm_def bt_wf_def bt_get_def)
  have "10 * length (?i1 @ ?i2) + 11 < 2 ^ 64" by simp
  then show ?thesis
    using no_message_lost_between_locks[OF demo_server_env_ok _ _ w2, of ?db "?i1" "\<lambda>ch. True" "[]" Map.empty ?k raw
        "encode_mailbox_message [1] [2]", unfolded env] r1 w2 calm w1(2) s(3) k none old
    by auto
qed

end
