(* ===== verification/Locks_Sections.thy ===== *)
theory Locks_Sections
  imports Locks Server_Theorems
begin

text \<open>
  The sections of a task that is not interrupted are the operation of \<open>Gateway\<close> or \<open>Events\<close>: every
  step of \<open>Server\<close> is a run of steps of \<open>Locks\<close>, so what can happen between operations can happen
  between sections.
\<close>

section \<open>Tasks without interruption\<close>

primrec sections ::
    "'db gw_env \<Rightarrow> rat \<Rightarrow> nat \<Rightarrow> nat \<Rightarrow> task_point \<times> 'db gateway \<Rightarrow> task_point \<times> 'db gateway" where
  "sections E now ch 0 x = x"
| "sections E now ch (Suc n) x = sections E now ch n (task_section E now ch (fst x) (snd x))"

lemma sections_add: "sections E now ch (m + n) x = sections E now ch n (sections E now ch m x)"
  by (induction m arbitrary: x) simp_all

lemma sections_rest [simp]: "sections E now ch n (Ready u, g) = (Ready u, g)" "sections E now ch n (Gone, g) = (Gone, g)"
  by (induction n) (simp_all add: task_section_def is_connecting_def relay_section_def)

lemma moves_run:
  "lk_tasks w ch = Some t \<Longrightarrow>
    run_steps (lock_step Z) (replicate n (Moves now ch)) w =
      (let x = sections (se_gw Z) now ch n (t, sv_gw (lk_server w))
       in Some (w\<lparr>lk_server := (lk_server w)\<lparr>sv_gw := snd x\<rparr>, lk_tasks := (lk_tasks w)(ch \<mapsto> fst x)\<rparr>))"
proof (induction n arbitrary: w t)
  case 0
  then have "(lk_tasks w)(ch \<mapsto> t) = lk_tasks w" by (rule fun_upd_idem)
  then show ?case by (simp del: fun_upd_apply)
next
  case (Suc n)
  obtain t' g' where m: "task_section (se_gw Z) now ch t (sv_gw (lk_server w)) = (t', g')" by fastforce
  let ?w = "w\<lparr>lk_server := (lk_server w)\<lparr>sv_gw := g'\<rparr>, lk_tasks := (lk_tasks w)(ch \<mapsto> t')\<rparr>"
  have "lock_step Z (Moves now ch) w = Some ?w" using Suc.prems m by (simp add: lock_step_def Let_def)
  moreover have "lk_tasks ?w ch = Some t'" by simp
  from Suc.IH[OF this] have "run_steps (lock_step Z) (replicate n (Moves now ch)) ?w =
      (let x = sections (se_gw Z) now ch n (t', g')
       in Some (w\<lparr>lk_server := (lk_server w)\<lparr>sv_gw := snd x\<rparr>, lk_tasks := (lk_tasks w)(ch \<mapsto> fst x)\<rparr>))"
    by (simp add: Let_def del: fun_upd_apply)
  ultimately show ?case using m by (simp add: Let_def del: fun_upd_apply)
qed

lemma register_sections:
  "sections E now ch 4 (Subscribing u, g) = (Reading u, register_client E now u ch g)"
  by (simp add: eval_nat_numeral task_section_def is_connecting_def connect_section_def register_client_def Let_def)

lemma drain_sections:
  "sections E now ch 4 (Reading u, g) = (Ready u, send_cmd (MailboxRetrieve u) (drain_local E u g))"
proof (cases "gw_mailbox g")
  case False
  then show ?thesis
    by (simp add: eval_nat_numeral task_section_def is_connecting_def connect_section_def relay_section_def drain_local_def)
next
  case True
  obtain db recs where r: "read_sled_backup (ge_wire E) (ge_sled E) (gw_db g) u = (db, recs)" by fastforce
  obtain rm n g1 where f: "fold (drain_record E u) recs (([], 0), g\<lparr>gw_db := db\<rparr>) = ((rm, n), g1)"
    by (metis prod.collapse)
  show ?thesis
  proof (cases "recs = []")
    case True
    then show ?thesis
      using \<open>gw_mailbox g\<close> r by (simp add: eval_nat_numeral task_section_def is_connecting_def connect_section_def
          relay_section_def drain_local_def Let_def)
  next
    case False
    then show ?thesis
      using \<open>gw_mailbox g\<close> r f
      by (simp add: eval_nat_numeral task_section_def is_connecting_def connect_section_def relay_section_def
          drain_local_def Let_def)
  qed
qed

lemma connect_sections:
  assumes "u \<noteq> []"
  shows "sections E now ch 8 (Subscribing u, g) = (Ready u, connect_client E now u ch g)"
  using sections_add[of E now ch 4 4 "(Subscribing u, g)"] assms
  by (simp add: register_sections drain_sections connect_client_def)

lemma relay_sections:
  assumes l: "check_rate_limit_store (ge_round E) clk u g = (ok, g1)" and p: "parse_relay d = Some (r, p)"
  shows "sections E now ch 3 (if ok then Relaying u r p else Ready u, g1) = (Ready u, relay_or_p2p E clk u d g)"
proof -
  obtain dl du g2 where loc: "deliver_local E r (forward_frame u p) g1 = ((dl, du), g2)" by (metis prod.collapse)
  show ?thesis
    using l p loc
    by (simp add: eval_nat_numeral task_section_def is_connecting_def relay_section_def relay_or_p2p_def Let_def)
qed

text \<open>A message, from its receipt to the next one.\<close>

lemma message_sections:
  assumes r: "receive_message E P clk token u msg n g = (t, n', g')"
  shows "client_message E P clk token u msg n g = (n', snd (sections E now ch 3 (t, g')))"
    and "fst (sections E now ch 3 (t, g')) = (case msg of StreamEnd \<Rightarrow> Gone | StreamError \<Rightarrow> Gone | _ \<Rightarrow> Ready u)"
proof -
  have "client_message E P clk token u msg n g = (n', snd (sections E now ch 3 (t, g'))) \<and>
      fst (sections E now ch 3 (t, g')) = (case msg of StreamEnd \<Rightarrow> Gone | StreamError \<Rightarrow> Gone | _ \<Rightarrow> Ready u)"
  proof (cases msg)
    case (Binary d)
    consider "2 \<le> length d \<and> d ! 0 = 0x00" | "\<not> (2 \<le> length d \<and> d ! 0 = 0x00)" "parse_relay d = None"
      | x p where "\<not> (2 \<le> length d \<and> d ! 0 = 0x00)" "parse_relay d = Some (x, p)" by fastforce
    then show ?thesis
    proof cases
      case 1
      then show ?thesis
        using r Binary by (auto simp: receive_message_def client_message_def handle_client_message_def)
    next
      case 2
      then show ?thesis
        using r Binary by (auto simp: receive_message_def client_message_def handle_client_message_def relay_or_p2p_def)
    next
      case (3 x p)
      obtain ok g1 where l: "check_rate_limit_store (ge_round E) clk u g = (ok, g1)" by fastforce
      have "t = (if ok then Relaying u x p else Ready u)" "n' = n" "g' = g1"
        using r Binary 3 l by (auto simp: receive_message_def)
      then show ?thesis
        using relay_sections[OF l 3(2)] Binary 3(1)
        by (auto simp: client_message_def handle_client_message_def)
    qed
  qed (use r in \<open>auto simp: receive_message_def client_message_def\<close>)
  then show "client_message E P clk token u msg n g = (n', snd (sections E now ch 3 (t, g')))"
    "fst (sections E now ch 3 (t, g')) = (case msg of StreamEnd \<Rightarrow> Gone | StreamError \<Rightarrow> Gone | _ \<Rightarrow> Ready u)"
    by blast+
qed

lemma event_sections:
  assumes t: "take_event E users ev g = (h, g')"
  shows "\<exists>n \<le> 3. ((\<lambda>(h, g). handler_section E h g) ^^ n) (h, g') = (Waits, handle_p2p_event E users ev g) \<and>
    (\<forall>m < n. fst (((\<lambda>(h, g). handler_section E h g) ^^ m) (h, g')) \<noteq> Waits)"
proof -
  let ?f = "\<lambda>(h, g). handler_section E h g"
  have 0: ?thesis if "h = Waits" "g' = handle_p2p_event E users ev g" by (rule exI[of _ 0]) (use that in simp)
  have 1: ?thesis if "h \<noteq> Waits" "?f (h, g') = (Waits, handle_p2p_event E users ev g)"
    by (rule exI[of _ 1]) (use that in simp)
  have 2: ?thesis if "h \<noteq> Waits" "?f (h, g') = (h2, g2)" "h2 \<noteq> Waits" "?f (h2, g2) = (Waits, handle_p2p_event E users ev g)"
    for h2 g2
    by (rule exI[of _ 2]) (use that in \<open>auto simp: eval_nat_numeral less_Suc_eq\<close>)
  have 3: ?thesis
    if "h \<noteq> Waits" "?f (h, g') = (h2, g2)" "h2 \<noteq> Waits" "?f (h2, g2) = (h3, g3)" "h3 \<noteq> Waits"
      "?f (h3, g3) = (Waits, handle_p2p_event E users ev g)" for h2 g2 h3 g3
    by (rule exI[of _ 3]) (use that in \<open>auto simp: eval_nat_numeral less_Suc_eq\<close>)
  show ?thesis
  proof (cases ev)
    case (MessageReceived source topic d)
    show ?thesis
    proof (cases "h = Waits")
      case True
      then show ?thesis
        using t MessageReceived by (intro 0) (auto simp: take_event_def handle_p2p_event_def on_message_received_def
            case_prod_beta Let_def split: if_splits option.splits)
    next
      case False
      then show ?thesis
        using t MessageReceived by (intro 1) (auto simp: take_event_def handle_p2p_event_def on_message_received_def
            handler_section_def case_prod_beta Let_def split: if_splits option.splits)
    qed
  next
    case (MailboxRetrieved u ms)
    define ps where "ps = snd (handle_retrieval_result (ge_wire E) [] u ms)"
    have h: "h = HReads u ps" "g' = g" using t MailboxRetrieved by (auto simp: take_event_def ps_def)
    have op: "handle_p2p_event E users ev g = on_mailbox_retrieved E u ms g"
      by (simp add: MailboxRetrieved handle_p2p_event_def)
    obtain db recs where rd: "(if ps = [] then read_sled_backup (ge_wire E) (ge_sled E) (gw_db g) u else (gw_db g, [])) = (db, recs)"
      by fastforce
    let ?g = "g\<lparr>gw_db := db\<rparr>"
    have same: "?g = g" if "ps \<noteq> []" using rd that by simp
    have read: "?f (h, g') = (if ps = [] \<and> recs = [] then Waits else HDelivers u ps recs, ?g)"
      using rd h by (cases "ps = []") (auto simp: handler_section_def)
    show ?thesis
    proof (cases "ps = [] \<and> recs = []")
      case True
      then have "on_mailbox_retrieved E u ms g = ?g"
        unfolding on_mailbox_retrieved_def Let_def ps_def[symmetric] rd prod.case by simp
      then show ?thesis using True read h op by (intro 1) simp_all
    next
      case False
      show ?thesis
      proof (cases "gw_clients ?g u")
        case None
        then have "on_mailbox_retrieved E u ms g = ?g"
          unfolding on_mailbox_retrieved_def Let_def ps_def[symmetric] rd prod.case by simp
        then show ?thesis using False read h op None by (intro 2) (auto simp: handler_section_def)
      next
        case (Some cs)
        obtain r1 g1 where f1: "fold (deliver_backup E u cs) recs (\<lparr>rv_remove = [], rv_delivered = 0, rv_dupes = 0\<rparr>, ?g) = (r1, g1)"
          by fastforce
        obtain r2 g2 where f2: "fold (deliver_fetched E u cs) ps (r1, g1) = (r2, g2)" by fastforce
        define g3 where "g3 = (if 0 < rv_delivered r2 then (case gw_delivered g2 u of None \<Rightarrow> g2
          | Some hashes \<Rightarrow> g2\<lparr>gw_db := save_delivered_hashes (ge_wire E) (ge_sled E) (gw_db g2) u hashes\<rparr>) else g2)"
        have eq: "on_mailbox_retrieved E u ms g = (if rv_remove r2 = [] then g3
            else g3\<lparr>gw_db := remove_sled_records (ge_sled E) (gw_db g3) (rv_remove r2)\<rparr>)"
          unfolding on_mailbox_retrieved_def Let_def ps_def[symmetric] rd prod.case g3_def
          by (simp only: False if_False Some option.case f1 f2 prod.case)
        have del: "?f (HDelivers u ps recs, ?g) = (if rv_remove r2 = [] then Waits else HRemoves (rv_remove r2), g3)"
          using Some f1 f2 by (simp add: handler_section_def g3_def)
        show ?thesis
        proof (cases "rv_remove r2 = []")
          case True
          then show ?thesis using False read h op del eq by (intro 2[of "HDelivers u ps recs" ?g]) simp_all
        next
          case rm: False
          then have "?f (HRemoves (rv_remove r2), g3) = (Waits, on_mailbox_retrieved E u ms g)"
            by (simp add: handler_section_def eq)
          then show ?thesis
            using False rm read h op del by (intro 3[of "HDelivers u ps recs" ?g "HRemoves (rv_remove r2)" g3]) simp_all
        qed
      qed
    qed
  qed (rule 1; use t in \<open>auto simp: take_event_def handle_p2p_event_def set_connected_bootstrap_def handler_section_def\<close>)+
qed

lemma handles_run:
  assumes "\<forall>m < n. fst (((\<lambda>(h, g). handler_section (se_gw Z) h g) ^^ m) (lk_handler w, sv_gw (lk_server w))) \<noteq> Waits"
  shows "run_steps (lock_step Z) (replicate n (Handles users)) w =
    (let x = ((\<lambda>(h, g). handler_section (se_gw Z) h g) ^^ n) (lk_handler w, sv_gw (lk_server w))
     in Some (w\<lparr>lk_server := (lk_server w)\<lparr>sv_gw := snd x\<rparr>, lk_handler := fst x\<rparr>))"
  using assms
proof (induction n arbitrary: w)
  case 0
  then show ?case by simp
next
  case (Suc n)
  let ?f = "\<lambda>(h, g). handler_section (se_gw Z) h g"
  obtain h g where f: "?f (lk_handler w, sv_gw (lk_server w)) = (h, g)" by fastforce
  let ?w = "w\<lparr>lk_server := (lk_server w)\<lparr>sv_gw := g\<rparr>, lk_handler := h\<rparr>"
  have it: "(?f ^^ m) (h, g) = (?f ^^ Suc m) (lk_handler w, sv_gw (lk_server w))" for m
    by (simp only: funpow_Suc_right o_def f)
  have "lk_handler w \<noteq> Waits" using Suc.prems by force
  then have step: "lock_step Z (Handles users) w = Some ?w" using f by (simp add: lock_step_def Let_def)
  have "\<forall>m < n. fst ((?f ^^ m) (lk_handler ?w, sv_gw (lk_server ?w))) \<noteq> Waits"
    using Suc.prems by (simp add: it del: funpow.simps)
  from Suc.IH[OF this] show ?case by (simp add: step it Let_def del: funpow.simps)
qed


section \<open>Every operation is a run of sections\<close>

lemma opens_sections:
  assumes u: "sv_owner (lk_server w) c = None" "u \<noteq> []"
    and step: "server_step Z (Opens now c (Binary u)) (lk_server w) = Some s'"
  shows "run_steps (lock_step Z) (Enters c (Binary u) # replicate 8 (Moves now c)) w =
    Some (w\<lparr>lk_server := s', lk_tasks := (lk_tasks w)(c \<mapsto> Ready u)\<rparr>)"
proof -
  let ?s = "lk_server w" and ?G = "se_gw Z"
  let ?w = "w\<lparr>lk_server := ?s\<lparr>sv_owner := (sv_owner ?s)(c \<mapsto> u)\<rparr>, lk_tasks := (lk_tasks w)(c \<mapsto> Subscribing u)\<rparr>"
  have e: "lock_step Z (Enters c (Binary u)) w = Some ?w" using u by (simp add: lock_step_def Let_def)
  have s': "s' = ?s\<lparr>sv_owner := (sv_owner ?s)(c \<mapsto> u), sv_gw := connect_client ?G now u c (sv_gw ?s)\<rparr>"
    using step u by (intro server.equality) (auto simp: server_step_def open_socket_def register_message_def)
  have t: "lk_tasks ?w c = Some (Subscribing u)" by simp
  have "run_steps (lock_step Z) (replicate 8 (Moves now c)) ?w =
      Some (w\<lparr>lk_server := s', lk_tasks := (lk_tasks w)(c \<mapsto> Ready u)\<rparr>)"
    unfolding moves_run[OF t] s' by (simp add: connect_sections[OF u(2)] Let_def del: fun_upd_apply)
  then show ?thesis by (simp add: e)
qed

lemma says_sections:
  assumes t: "lk_tasks w ch = Some (Ready u)" and step: "server_step Z (Says clk token u msg) (lk_server w) = Some s'"
  shows "\<exists>t. run_steps (lock_step Z) (Hears clk token ch msg # replicate 3 (Moves 0 ch)) w =
      Some (w\<lparr>lk_server := s', lk_tasks := (lk_tasks w)(ch \<mapsto> t)\<rparr>) \<and> (t = Gone \<or> t = Ready u)"
proof -
  let ?s = "lk_server w" and ?G = "se_gw Z"
  obtain p n' g' where r: "receive_message ?G (se_ops Z) clk token u msg (sv_store ?s) (sv_gw ?s) = (p, n', g')"
    by (metis prod.collapse)
  let ?w = "w\<lparr>lk_server := ?s\<lparr>sv_gw := g', sv_store := n'\<rparr>, lk_tasks := (lk_tasks w)(ch \<mapsto> p)\<rparr>"
  let ?x = "sections ?G 0 ch 3 (p, g')"
  have h: "lock_step Z (Hears clk token ch msg) w = Some ?w" using t r by (simp add: lock_step_def)
  have "run_steps (lock_step Z) (replicate 3 (Moves 0 ch)) ?w =
      Some (?w\<lparr>lk_server := (lk_server ?w)\<lparr>sv_gw := snd ?x\<rparr>, lk_tasks := (lk_tasks w)(ch \<mapsto> fst ?x)\<rparr>)"
    using moves_run[of ?w ch p Z 3 0] by (simp add: Let_def)
  moreover have "s' = ?s\<lparr>sv_gw := snd ?x, sv_store := n'\<rparr>"
    using step message_sections(1)[OF r, of 0 ch] by (intro server.equality) (auto simp: server_step_def)
  ultimately have run: "run_steps (lock_step Z) (Hears clk token ch msg # replicate 3 (Moves 0 ch)) w =
      Some (w\<lparr>lk_server := s', lk_tasks := (lk_tasks w)(ch \<mapsto> fst ?x)\<rparr>)" by (simp add: h)
  have "fst ?x = Gone \<or> fst ?x = Ready u"
    using message_sections(2)[OF r, of 0 ch] by (simp split: ws_message.split)
  with run show ?thesis by blast
qed

lemma reports_sections:
  assumes rest: "lk_handler w = Waits" and more: "sv_handled (lk_server w) < length (nd_events (sv_node (lk_server w)))"
    and step: "server_step Z (Reports users) (lk_server w) = Some s'"
  shows "\<exists>n. run_steps (lock_step Z) (replicate n (Handles users)) w = Some (w\<lparr>lk_server := s'\<rparr>)"
proof -
  let ?s = "lk_server w" and ?G = "se_gw Z"
  let ?ev = "nd_events (sv_node ?s) ! sv_handled ?s" and ?f = "\<lambda>(h, g). handler_section (se_gw Z) h g"
  obtain h g' where t: "take_event ?G users ?ev (sv_gw ?s) = (h, g')" by fastforce
  let ?w = "w\<lparr>lk_server := ?s\<lparr>sv_gw := g', sv_handled := Suc (sv_handled ?s)\<rparr>, lk_handler := h\<rparr>"
  have e: "lock_step Z (Handles users) w = Some ?w" using rest more t by (simp add: lock_step_def Let_def)
  obtain n where n: "(?f ^^ n) (h, g') = (Waits, handle_p2p_event ?G users ?ev (sv_gw ?s))"
    "\<forall>m < n. fst ((?f ^^ m) (h, g')) \<noteq> Waits" using event_sections[OF t] by blast
  have s': "s' = ?s\<lparr>sv_handled := Suc (sv_handled ?s), sv_gw := handle_p2p_event ?G users ?ev (sv_gw ?s)\<rparr>"
    using step more by (intro server.equality) (auto simp: server_step_def)
  have "run_steps (lock_step Z) (replicate n (Handles users)) ?w = Some (w\<lparr>lk_server := s', lk_handler := Waits\<rparr>)"
    using handles_run[of n Z ?w users] n by (simp add: Let_def s')
  then have run: "run_steps (lock_step Z) (replicate (Suc n) (Handles users)) w =
      Some (w\<lparr>lk_server := s', lk_handler := Waits\<rparr>)" by (simp add: e)
  have "w\<lparr>lk_server := s', lk_handler := Waits\<rparr> = w\<lparr>lk_server := s'\<rparr>" using rest by simp
  from run[unfolded this] show ?thesis by blast
qed

text \<open>A step of the server is replayed when its sections, run one after the other from \<open>w\<close>, reach the
  server state after the step, and each task they moved is ready for the next message or gone.\<close>

definition replayed :: "('db, 'ch, 'k) server_env \<Rightarrow> ('db, 'ch, 'k) locked \<Rightarrow> ('db, 'ch, 'k) server \<Rightarrow> bool" where
  "replayed Z w s' \<longleftrightarrow> (\<exists>ins tasks. run_steps (lock_step Z) ins w =
      Some (w\<lparr>lk_server := s', lk_tasks := tasks, lk_handler := Waits\<rparr>) \<and>
    (\<forall>c. tasks c \<noteq> lk_tasks w c \<longrightarrow> tasks c = Some Gone \<or> (\<exists>u. tasks c = Some (Ready u))))"

lemma replayed_run:
  assumes "lk_handler w = Waits" "run_steps (lock_step Z) ins w = Some (w\<lparr>lk_server := s'\<rparr>)"
  shows "replayed Z w s'"
  unfolding replayed_def using assms by (intro exI[of _ ins] exI[of _ "lk_tasks w"]) simp

lemma replayed_same: "lk_handler w = Waits \<Longrightarrow> replayed Z w (lk_server w)"
  using replayed_run[of w Z "[]"] by simp

lemma replayed_input:
  "lk_handler w = Waits \<Longrightarrow> lock_step Z i w = Some (w\<lparr>lk_server := s'\<rparr>) \<Longrightarrow> replayed Z w s'"
  using replayed_run[of w Z "[i]"] by simp

lemma replayed_task:
  assumes "lk_handler w = Waits" "t = Gone \<or> (\<exists>u. t = Ready u)"
    "run_steps (lock_step Z) ins w = Some (w\<lparr>lk_server := s', lk_tasks := (lk_tasks w)(c \<mapsto> t)\<rparr>)"
  shows "replayed Z w s'"
  unfolding replayed_def using assms by (intro exI[of _ ins] exI[of _ "(lk_tasks w)(c \<mapsto> t)"]) auto

lemma replayed_opens:
  assumes rest: "lk_handler w = Waits" and step: "server_step Z (Opens now c msg) (lk_server w) = Some s'"
  shows "replayed Z w s'"
proof (cases "\<exists>u. sv_owner (lk_server w) c = None \<and> msg = Binary u \<and> u \<noteq> []")
  case False
  then have "s' = lk_server w"
    using step by (cases msg) (auto simp: server_step_def open_socket_def register_message_def)
  then show ?thesis using replayed_same[OF rest] by simp
next
  case True
  then obtain u where u: "sv_owner (lk_server w) c = None" "msg = Binary u" "u \<noteq> []" by blast
  have "run_steps (lock_step Z) (Enters c (Binary u) # replicate 8 (Moves now c)) w =
      Some (w\<lparr>lk_server := s', lk_tasks := (lk_tasks w)(c \<mapsto> Ready u)\<rparr>)"
    using opens_sections[OF u(1,3)] step u(2) by simp
  then show ?thesis by (rule replayed_task[OF rest, rotated]) simp
qed

lemma replayed_says:
  assumes rest: "lk_handler w = Waits" and step: "server_step Z (Says clk token u msg) (lk_server w) = Some s'"
    and ready: "lk_tasks w ch = Some (Ready u)"
  shows "replayed Z w s'"
proof -
  obtain t where t: "run_steps (lock_step Z) (Hears clk token ch msg # replicate 3 (Moves 0 ch)) w =
      Some (w\<lparr>lk_server := s', lk_tasks := (lk_tasks w)(ch \<mapsto> t)\<rparr>)" "t = Gone \<or> t = Ready u"
    using says_sections[OF ready step] by blast
  show ?thesis by (rule replayed_task[OF rest _ t(1)]) (use t(2) in blast)
qed

lemma replayed_reports:
  assumes rest: "lk_handler w = Waits" and step: "server_step Z (Reports users) (lk_server w) = Some s'"
  shows "replayed Z w s'"
proof (cases "sv_handled (lk_server w) < length (nd_events (sv_node (lk_server w)))")
  case False
  then show ?thesis using step replayed_same[OF rest] by (simp add: server_step_def)
next
  case True
  obtain n where "run_steps (lock_step Z) (replicate n (Handles users)) w = Some (w\<lparr>lk_server := s'\<rparr>)"
    using reports_sections[OF rest True] step by blast
  then show ?thesis by (rule replayed_run[OF rest])
qed

text \<open>The operations of the server model are runs of sections. Whatever a task does in one step of
  \<open>Server\<close>, a connection's registration, drain and retrieval, a message with its relay, the end of
  a stream, the delivery of an event, its sections lead to the same state when no other task comes
  between, and the task is then ready for the next message, or gone. So every interleaving of the
  operations is also one of the sections.\<close>

theorem operations_are_sections:
  assumes rest: "lk_handler w = Waits" and step: "server_step Z inp (lk_server w) = Some s'"
    and speaker: "case inp of Says clk token u msg \<Rightarrow> lk_tasks w ch = Some (Ready u) | _ \<Rightarrow> True"
  shows "\<exists>ins tasks. run_steps (lock_step Z) ins w =
      Some (w\<lparr>lk_server := s', lk_tasks := tasks, lk_handler := Waits\<rparr>) \<and>
    (\<forall>c. tasks c \<noteq> lk_tasks w c \<longrightarrow> tasks c = Some Gone \<or> (\<exists>u. tasks c = Some (Ready u)))"
proof -
  have "replayed Z w s'"
  proof (cases inp)
    case (Opens now c msg)
    then show ?thesis using replayed_opens[OF rest] step by blast
  next
    case (Says clk token u msg)
    then show ?thesis using replayed_says[OF rest] step speaker by simp
  next
    case (Closes c)
    then show ?thesis using step by (intro replayed_input[OF rest, of _ "Drops c"]) (simp add: lock_step_def Let_def)
  next
    case (ForwardEnds u)
    then show ?thesis using step by (intro replayed_input[OF rest, of _ "Forwards u"]) (simp add: lock_step_def Let_def)
  next
    case (Loops now conn i)
    then show ?thesis using step by (intro replayed_input[OF rest, of _ "Turns now conn i"]) (simp add: lock_step_def Let_def)
  next
    case (Takes now conn)
    then show ?thesis using step by (intro replayed_input[OF rest, of _ "Fetches now conn"]) (simp add: lock_step_def Let_def)
  next
    case (Reports users)
    then show ?thesis using replayed_reports[OF rest] step by blast
  qed
  then show ?thesis unfolding replayed_def .
qed

theorem operations_are_sections_witness:
  "\<exists>s' ins tasks. server_step demo_server_env (Opens 0 3 (Binary demo_user)) demo_server = Some s' \<and>
    run_steps (lock_step demo_server_env) ins (lock_start demo_db (\<lambda>ch. True) [] Map.empty demo_node_env) =
      Some (lock_start demo_db (\<lambda>ch. True) [] Map.empty demo_node_env\<lparr>lk_server := s', lk_tasks := tasks\<rparr>)"
proof -
  let ?w = "lock_start demo_db (\<lambda>ch. True) [] (Map.empty :: bytes \<rightharpoonup> bytes) demo_node_env :: (toy_db, nat, bytes \<rightharpoonup> bytes) locked"
  have w: "lk_handler ?w = Waits" "lk_server ?w = demo_server" by (simp_all add: lock_start_def demo_server_def)
  obtain s' where s': "server_step demo_server_env (Opens 0 3 (Binary demo_user)) (lk_server ?w) = Some s'"
    by (simp add: server_step_def)
  obtain ins tasks where "run_steps (lock_step demo_server_env) ins ?w =
      Some (?w\<lparr>lk_server := s', lk_tasks := tasks, lk_handler := Waits\<rparr>)"
    using operations_are_sections[OF w(1) s'] by auto
  moreover have "?w\<lparr>lk_server := s', lk_tasks := tasks, lk_handler := Waits\<rparr> = ?w\<lparr>lk_server := s', lk_tasks := tasks\<rparr>"
    by (simp add: lock_start_def)
  ultimately show ?thesis using s' by (auto simp: w(2))
qed

end
