(* ===== verification/Locks_Race.thy ===== *)
theory Locks_Race
  imports Locks_Sections
begin

text \<open>
  What can happen between two sections after a restart: the node has forgotten the numbers it used,
  so a key that one task has read and is about to remove may be written again in between.
\<close>

section \<open>A mailbox with one record\<close>

lemma lone_record:
  assumes S: "sled_ok S" and r: "sl_get S db SLED_MAILBOX_TREE k = Some raw" "record_payload W u raw = Some p" "prefix u k"
    and only: "\<And>j. prefix u j \<Longrightarrow> j \<noteq> k \<Longrightarrow> sl_get S db SLED_MAILBOX_TREE j = None"
  obtains db' where "read_sled_backup W S db u = (db', [(k, p)])" "\<And>t j. sl_get S db' t j = sl_get S db t j"
proof -
  obtain db' recs where rb: "read_sled_backup W S db u = (db', recs)" by fastforce
  have "(j, q) \<in> set recs \<longleftrightarrow> j = k \<and> q = p" for j q
    using read_backup_spec(1)[OF S rb, of j q] r only[of j] by (cases "j = k") auto
  then have "set recs = {(k, p)}" by auto
  moreover have "distinct recs" using read_backup_spec(3)[OF S rb] by (simp add: distinct_map)
  ultimately have "length recs = 1" using distinct_card[of recs] by simp
  then obtain r where "recs = [r]" by (metis One_nat_def length_0_conv length_Suc_conv)
  then have recs: "recs = [(k, p)]" using \<open>set recs = {(k, p)}\<close> by simp
  have "sl_get S db' t j = sl_get S db t j" for t j
  proof (cases "j = k")
    case True
    then show ?thesis using read_backup_spec(2)[OF S rb, of t j] r by auto
  next
    case False
    then show ?thesis using read_backup_spec(2)[OF S rb, of t j] only[of j] by auto
  qed
  then show ?thesis using rb recs that by blast
qed

lemma registered_fields [simp]:
  "gw_db (register_client E t u ch g) = gw_db g" "gw_mailbox (register_client E t u ch g) = gw_mailbox g"
  "gw_alive (register_client E t u ch g) = gw_alive g" "gw_sent (register_client E t u ch g) = gw_sent g"
  "gw_clients (register_client E t u ch g) = (gw_clients g)(u \<mapsto> (case gw_clients g u of None \<Rightarrow> [] | Some s \<Rightarrow> s) @ [ch])"
  "gw_delivered (register_client E t u ch g) = (gw_delivered g)(u \<mapsto>
     hs_collect (if gw_mailbox g then load_delivered_hashes (ge_wire E) (ge_sled E) (gw_db g) u else []))"
  by (simp_all add: register_client_def Let_def send_cmd_def)

lemma register_cmds: "\<exists>cs. gw_cmds (register_client E t u ch g) = gw_cmds g @ cs"
  by (simp add: register_client_def Let_def send_cmd_def)

text \<open>A connection up to the moment it has read the record.\<close>

lemma enter_and_read:
  assumes u: "u \<noteq> []" "sv_owner (lk_server w) ch = None" "gw_mailbox (sv_gw (lk_server w))"
    and rb: "read_sled_backup (ge_wire (se_gw Z)) (ge_sled (se_gw Z)) (gw_db (sv_gw (lk_server w))) u = (db', [(k, p)])"
  shows "run_steps (lock_step Z) (Enters ch (Binary u) # replicate 5 (Moves t ch)) w =
    Some (w\<lparr>lk_server := (lk_server w)\<lparr>sv_owner := (sv_owner (lk_server w))(ch \<mapsto> u),
               sv_gw := (register_client (se_gw Z) t u ch (sv_gw (lk_server w)))\<lparr>gw_db := db'\<rparr>\<rparr>,
            lk_tasks := (lk_tasks w)(ch \<mapsto> Draining u [(k, p)])\<rparr>)"
proof -
  let ?g = "sv_gw (lk_server w)" and ?E = "se_gw Z"
  let ?w = "w\<lparr>lk_server := (lk_server w)\<lparr>sv_owner := (sv_owner (lk_server w))(ch \<mapsto> u)\<rparr>,
              lk_tasks := (lk_tasks w)(ch \<mapsto> Subscribing u)\<rparr>"
  have e: "lock_step Z (Enters ch (Binary u)) w = Some ?w" using u by (simp add: lock_step_def Let_def)
  have "sections ?E t ch 5 (Subscribing u, ?g) = sections ?E t ch 1 (Reading u, register_client ?E t u ch ?g)"
    using sections_add[of ?E t ch 4 1 "(Subscribing u, ?g)"] by (simp add: register_sections)
  also have "\<dots> = (Draining u [(k, p)], (register_client ?E t u ch ?g)\<lparr>gw_db := db'\<rparr>)"
    using u(3) rb by (simp add: task_section_def is_connecting_def connect_section_def)
  finally have "sections ?E t ch 5 (Subscribing u, ?g) = (Draining u [(k, p)], (register_client ?E t u ch ?g)\<lparr>gw_db := db'\<rparr>)" .
  moreover have "lk_tasks ?w ch = Some (Subscribing u)" by simp
  from moves_run[OF this, of Z 5 t] have "run_steps (lock_step Z) (replicate 5 (Moves t ch)) ?w =
      (let x = sections ?E t ch 5 (Subscribing u, ?g)
       in Some (?w\<lparr>lk_server := (lk_server ?w)\<lparr>sv_gw := snd x\<rparr>, lk_tasks := (lk_tasks ?w)(ch \<mapsto> fst x)\<rparr>))"
    by (simp del: fun_upd_apply)
  ultimately show ?thesis by (simp add: e Let_def del: fun_upd_apply)
qed

text \<open>Delivery and removal of the record, when it is new and when it has been sent before.\<close>

lemma drain_new_record:
  assumes S: "sled_ok (ge_sled E)"
    and g: "gw_mailbox g" "gw_clients g u = Some cs" "filter (gw_alive g) cs = live" "live \<noteq> []"
      "payload_hash (ge_wire E) p \<notin> set (hashes_of (gw_delivered g) u)"
  obtains g' where "sections E t ch 2 (Draining u [(k, p)], g) = (Retrieving u, g')"
    "\<And>j. sl_get (ge_sled E) (gw_db g') SLED_MAILBOX_TREE j =
       (if j = k then None else sl_get (ge_sled E) (gw_db g) SLED_MAILBOX_TREE j)"
    "gw_sent g' = gw_sent g @ map (\<lambda>c. (c, p)) live" "gw_cmds g' = gw_cmds g" "gw_clients g' = gw_clients g"
    "payload_hash (ge_wire E) p \<in> set (hashes_of (gw_delivered g') u)"
proof -
  let ?h = "payload_hash (ge_wire E) p"
  define g1 where "g1 = g\<lparr>gw_sent := gw_sent g @ map (\<lambda>c. (c, p)) live,
      gw_delivered := (gw_delivered g)(u \<mapsto> hs_insert ?h (hashes_of (gw_delivered g) u))\<rparr>"
  define g2 where "g2 = persist_delivered_set E u g1"
  have "drain_record E u (k, p) (([], 0), g) = (([k], 1), g1)"
    using g by (simp add: drain_record_def send_all_def Let_def g1_def)
  then have x: "sections E t ch 2 (Draining u [(k, p)], g) =
      (Retrieving u, g2\<lparr>gw_db := remove_sled_records (ge_sled E) (gw_db g2) [k]\<rparr>)"
    by (simp add: eval_nat_numeral task_section_def is_connecting_def connect_section_def g2_def)
  have k: "sl_get (ge_sled E) (gw_db g2) SLED_MAILBOX_TREE j = sl_get (ge_sled E) (gw_db g) SLED_MAILBOX_TREE j" for j
    using g(1) by (simp add: g2_def persist_delivered_set_def g1_def save_keeps_mailbox[OF S])
  show ?thesis
    by (rule that[OF x]) (simp_all add: get_remove_sled_records[OF S] k, simp_all add: g2_def g1_def hashes_of_def hs_insert_def)
qed

lemma drain_known_record:
  assumes S: "sled_ok (ge_sled E)" and g: "payload_hash (ge_wire E) p \<in> set (hashes_of (gw_delivered g) u)"
  obtains g' where "sections E t ch 2 (Draining u [(k, p)], g) = (Retrieving u, g')"
    "\<And>j. sl_get (ge_sled E) (gw_db g') SLED_MAILBOX_TREE j =
       (if j = k then None else sl_get (ge_sled E) (gw_db g) SLED_MAILBOX_TREE j)"
    "gw_sent g' = gw_sent g"
proof -
  have "drain_record E u (k, p) (([], 0), g) = (([k], 0), g)" using g by (simp add: drain_record_def)
  then have x: "sections E t ch 2 (Draining u [(k, p)], g) =
      (Retrieving u, g\<lparr>gw_db := remove_sled_records (ge_sled E) (gw_db g) [k]\<rparr>)"
    by (simp add: eval_nat_numeral task_section_def is_connecting_def connect_section_def)
  show ?thesis by (rule that[OF x]) (simp_all add: get_remove_sled_records[OF S])
qed

text \<open>A relay for a recipient without a connection, and the node takes its first command.\<close>

lemma relay_and_publish:
  assumes w: "lk_server w = s" "sv_gw s = g" "sv_state s = Idle" "sv_taken s = length (gw_cmds g)"
    and c: "lk_tasks w c = Some (Ready x)" "parse_relay d = Some (u, p)" "d ! 0 \<noteq> 0"
    and g: "gw_clients g u = None" "gw_p2p_tx g" "check_rate_limit_store (ge_round (se_gw Z)) clk x g = (True, g0)"
  obtains w' lim where
    "run_steps (lock_step Z) (Hears clk token c (Binary d) # replicate 3 (Moves t c) @ [Fetches now []]) w = Some w'"
    "sv_gw (lk_server w') = g\<lparr>gw_limiters := lim, gw_cmds := gw_cmds g @
       [Publish (w_hex (ge_wire (se_gw Z)) u) (forward_frame x p), MailboxStore u x p]\<rparr>"
    "sv_taken (lk_server w') = Suc (length (gw_cmds g))" "sv_state (lk_server w') = Idle"
    "nd_indices (sv_node (lk_server w')) = nd_indices (sv_node s)" "sv_owner (lk_server w') = sv_owner s"
proof -
  let ?E = "se_gw Z" and ?c1 = "Publish (w_hex (ge_wire (se_gw Z)) u) (forward_frame x p)" and ?c2 = "MailboxStore u x p"
  obtain lim where g0: "g0 = g\<lparr>gw_limiters := lim\<rparr>" using rate_limit_frame[OF g(3)] by blast
  have "live_channels g u = []" using g(1) by (simp add: live_channels_def)
  then have rel: "relay_or_p2p ?E clk x d g = g0\<lparr>gw_cmds := gw_cmds g @ [?c1, ?c2]\<rparr>"
    using relay_away[OF c(2) g(3) _ disjI1[OF g(1)]] g(2) by (simp add: send_cmd_def g0)
  let ?w1 = "w\<lparr>lk_server := s\<lparr>sv_gw := g0\<rparr>, lk_tasks := (lk_tasks w)(c \<mapsto> Relaying x u p)\<rparr>"
  let ?g = "g0\<lparr>gw_cmds := gw_cmds g @ [?c1, ?c2]\<rparr>"
  let ?w2 = "w\<lparr>lk_server := s\<lparr>sv_gw := ?g\<rparr>, lk_tasks := (lk_tasks w)(c \<mapsto> Ready x)\<rparr>"
  have h: "lock_step Z (Hears clk token c (Binary d)) w = Some ?w1"
    using w(1,2) c g(3) by (simp add: lock_step_def receive_message_def Let_def del: fun_upd_apply)
  have "lk_tasks ?w1 c = Some (Relaying x u p)" by simp
  from moves_run[OF this, of Z 3 t] have m: "run_steps (lock_step Z) (replicate 3 (Moves t c)) ?w1 = Some ?w2"
    using relay_sections[OF g(3) c(2), of t c] by (simp add: rel Let_def server.equality del: fun_upd_apply)
  define nd where "nd = call (PublishTopic (w_hex (ge_wire ?E) u) (forward_frame x p)) ((sv_node s)\<lparr>nd_db := gw_db ?g\<rparr>)"
  have n: "node_step (se_node Z) now [] (Command ?c1) Idle ((sv_node s)\<lparr>nd_db := gw_db ?g\<rparr>) = Some (Idle, nd)"
    by (simp add: node_step_def handle_command_def seed_index_def command_user_def check_state_timeout_def nd_def)
  let ?w3 = "?w2\<lparr>lk_server := (lk_server ?w2)\<lparr>sv_taken := Suc (length (gw_cmds g)), sv_state := Idle, sv_node := nd,
      sv_gw := ?g\<lparr>gw_db := nd_db nd\<rparr>\<rparr>\<rparr>"
  have "lock_step Z (Fetches now []) ?w2 = Some ?w3"
    using n w(3,4) by (simp add: lock_step_def server_step_def node_turn_def Let_def nth_append)
  then have r: "run_steps (lock_step Z) (Hears clk token c (Binary d) # replicate 3 (Moves t c) @ [Fetches now []]) w = Some ?w3"
    by (simp add: h m run_steps_append)
  show ?thesis
    by (rule that[OF r, of lim]) (simp_all add: nd_def g0)
qed

text \<open>The node, without an index for the user, stores the next message of a mailbox that is empty.\<close>

lemma store_under_one:
  assumes Z: "server_env_ok Z" "env_ok (se_node Z)" "ne_wire (se_node Z) = ge_wire (se_gw Z)" and u: "32 \<le> length u"
    and w: "sv_state (lk_server w) = Idle" "sv_taken (lk_server w) < length (gw_cmds (sv_gw (lk_server w)))"
      "gw_cmds (sv_gw (lk_server w)) ! sv_taken (lk_server w) = MailboxStore u x p"
    and nd: "nd_indices (sv_node (lk_server w)) u = None" "n + 11 < 2 ^ 64"
      "node_inv (se_node Z) n Idle ((sv_node (lk_server w))\<lparr>nd_db := gw_db (sv_gw (lk_server w))\<rparr>)"
    and none: "\<And>j. prefix u j \<Longrightarrow> sl_get (ge_sled (se_gw Z)) (gw_db (sv_gw (lk_server w))) SLED_MAILBOX_TREE j = None"
  obtains w' raw where "lock_step Z (Fetches now []) w = Some w'"
    "\<And>j. sl_get (ge_sled (se_gw Z)) (gw_db (sv_gw (lk_server w'))) SLED_MAILBOX_TREE j =
       (if j = seq_be_key u 1 then Some raw
        else sl_get (ge_sled (se_gw Z)) (gw_db (sv_gw (lk_server w))) SLED_MAILBOX_TREE j)"
    "record_payload (ge_wire (se_gw Z)) u raw = Some (forward_frame x p)"
    "lk_tasks w' = lk_tasks w" "gw_delivered (sv_gw (lk_server w')) = gw_delivered (sv_gw (lk_server w))"
    "gw_sent (sv_gw (lk_server w')) = gw_sent (sv_gw (lk_server w))"
proof -
  let ?s = "lk_server w" and ?E = "se_node Z" and ?S = "ge_sled (se_gw Z)"
  have eqs: "ne_sled ?E = ?S" "ne_wire ?E = ge_wire (se_gw Z)" "env_ok ?E" "sled_ok (ne_sled ?E)"
    using Z by (simp_all add: server_env_ok_def env_wf_def)
  define nd0 where "nd0 = (sv_node ?s)\<lparr>nd_db := gw_db (sv_gw ?s)\<rparr>"
  have "get_sled_max_seq (ne_sled ?E) (nd_db nd0) u = None"
    using get_sled_max_seq_spec(1)[OF eqs(4), of "nd_db nd0" u] none
    by (cases "get_sled_max_seq (ne_sled ?E) (nd_db nd0) u") (auto simp: backup_has_def nd0_def eqs(1) seq_be_key_def)
  then have one: "solo_seq ?E nd0 u = 1"
    using nd(1) by (simp add: solo_seq_def seed_index_def nd0_def command_user_def is_idle_def)
  have "node_inv ?E n Idle nd0" using nd(3) by (simp add: nd0_def)
  from solo_store[OF eqs(3) u this nd(2), of now x p] obtain nd' raw where
    st: "node_step ?E now [] (Command (MailboxStore u x p)) Idle nd0 = Some (Idle, nd')"
    and db: "\<And>t k. sl_get ?S (nd_db nd') t k = (if t = SLED_MAILBOX_TREE \<and> k = seq_be_key u 1 then Some raw
        else sl_get ?S (nd_db nd0) t k)"
    and raw: "record_payload (ge_wire (se_gw Z)) u raw = Some (forward_frame x p)"
    unfolding one eqs(1,2) forward_frame_mailbox by blast
  let ?w = "w\<lparr>lk_server := ?s\<lparr>sv_taken := Suc (sv_taken ?s), sv_state := Idle, sv_node := nd',
      sv_gw := (sv_gw ?s)\<lparr>gw_db := nd_db nd'\<rparr>\<rparr>\<rparr>"
  have "lock_step Z (Fetches now []) w = Some ?w"
    using st w by (simp add: lock_step_def server_step_def node_turn_def nd0_def Let_def)
  then show ?thesis by (rule that[of _ raw]) (simp_all add: db raw, simp add: nd0_def)
qed


text \<open>Two connections of the user open and read the record; neither has delivered it yet.\<close>

lemma both_read:
  assumes S: "sled_ok (ge_sled (se_gw Z))" and g: "sv_gw (lk_server w) = g"
    and user: "u \<noteq> []" "gw_clients g u = None" "gw_mailbox g" "prefix u k"
    and ab: "a \<noteq> b" "sv_owner (lk_server w) a = None" "sv_owner (lk_server w) b = None" "gw_alive g a" "gw_alive g b"
    and old: "sl_get (ge_sled (se_gw Z)) (gw_db g) SLED_MAILBOX_TREE k = Some raw" "record_payload (ge_wire (se_gw Z)) u raw = Some p"
      "payload_hash (ge_wire (se_gw Z)) p \<notin> set (load_delivered_hashes (ge_wire (se_gw Z)) (ge_sled (se_gw Z)) (gw_db g) u)"
    and only: "\<And>j. prefix u j \<Longrightarrow> j \<noteq> k \<Longrightarrow> sl_get (ge_sled (se_gw Z)) (gw_db g) SLED_MAILBOX_TREE j = None"
  obtains w' g' where
    "run_steps (lock_step Z) ((Enters a (Binary u) # replicate 5 (Moves t a)) @ (Enters b (Binary u) # replicate 5 (Moves t b))) w = Some w'"
    "lk_tasks w' a = Some (Draining u [(k, p)])" "lk_tasks w' b = Some (Draining u [(k, p)])"
    "lk_server w' = (lk_server w)\<lparr>sv_owner := (sv_owner (lk_server w))(a \<mapsto> u, b \<mapsto> u), sv_gw := g'\<rparr>"
    "gw_mailbox g'" "gw_clients g' u = Some [a, b]" "filter (gw_alive g') [a, b] = [a, b]"
    "payload_hash (ge_wire (se_gw Z)) p \<notin> set (hashes_of (gw_delivered g') u)" "gw_sent g' = gw_sent g"
    "\<And>t j. sl_get (ge_sled (se_gw Z)) (gw_db g') t j = sl_get (ge_sled (se_gw Z)) (gw_db g) t j"
    "prefix (gw_cmds g) (gw_cmds g')"
proof -
  let ?E = "se_gw Z" and ?W = "ge_wire (se_gw Z)" and ?S = "ge_sled (se_gw Z)"
  obtain db1 where db1: "read_sled_backup ?W ?S (gw_db g) u = (db1, [(k, p)])" "\<And>t j. sl_get ?S db1 t j = sl_get ?S (gw_db g) t j"
    using lone_record[OF S old(1,2) user(4)] only by metis
  obtain db2 where db2: "read_sled_backup ?W ?S db1 u = (db2, [(k, p)])" "\<And>t j. sl_get ?S db2 t j = sl_get ?S (gw_db g) t j"
    using lone_record[OF S _ old(2) user(4), of db1] old(1) only db1(2) by metis
  define g2 where "g2 = (register_client ?E t u a g)\<lparr>gw_db := db1\<rparr>"
  define w2 where "w2 = w\<lparr>lk_server := (lk_server w)\<lparr>sv_owner := (sv_owner (lk_server w))(a \<mapsto> u), sv_gw := g2\<rparr>,
      lk_tasks := (lk_tasks w)(a \<mapsto> Draining u [(k, p)])\<rparr>"
  have w2: "run_steps (lock_step Z) (Enters a (Binary u) # replicate 5 (Moves t a)) w = Some w2"
    unfolding w2_def g2_def g[symmetric] using ab(2) user(3) db1(1) by (intro enter_and_read[OF user(1)]) (simp_all add: g)
  define g3 where "g3 = (register_client ?E t u b g2)\<lparr>gw_db := db2\<rparr>"
  define w3 where "w3 = w2\<lparr>lk_server := (lk_server w2)\<lparr>sv_owner := (sv_owner (lk_server w2))(b \<mapsto> u), sv_gw := g3\<rparr>,
      lk_tasks := (lk_tasks w2)(b \<mapsto> Draining u [(k, p)])\<rparr>"
  have "run_steps (lock_step Z) (Enters b (Binary u) # replicate 5 (Moves t b)) w2 = Some w3"
    unfolding w3_def g3_def using enter_and_read[OF user(1), of w2 b Z db2 k p t] ab(1,3) user(3) db2(1)
    by (simp add: w2_def g2_def)
  with w2 have run: "run_steps (lock_step Z) ((Enters a (Binary u) # replicate 5 (Moves t a)) @
      (Enters b (Binary u) # replicate 5 (Moves t b))) w = Some w3"
    by (simp only: run_steps_append Option.bind.bind_lunit)
  have "load_delivered_hashes ?W ?S db1 u = load_delivered_hashes ?W ?S (gw_db g) u"
    by (simp add: load_delivered_hashes_def sledD(1)[OF S] db1(2))
  then have new: "payload_hash ?W p \<notin> set (hashes_of (gw_delivered g3) u)"
    using old(3) user(3) by (simp add: g3_def g2_def hashes_of_def hs_collect_spec)
  have cmds: "prefix (gw_cmds g) (gw_cmds g3)"
    using register_cmds[of ?E t u a g] register_cmds[of ?E t u b g2] by (auto simp: g3_def g2_def)
  show ?thesis
    by (rule that[OF run _ _ _ _ _ _ new _ _ cmds]) (use user(2,3) ab(1,4,5) db2(2) in \<open>simp_all add: w3_def w2_def g3_def g2_def\<close>)
qed

text \<open>The first connection delivers the record to both and removes it.\<close>

lemma first_delivers:
  assumes S: "sled_ok (ge_sled (se_gw Z))" and w: "lk_tasks w a = Some (Draining u [(k, p)])" "sv_gw (lk_server w) = g"
    and g: "gw_mailbox g" "gw_clients g u = Some [a, b]" "filter (gw_alive g) [a, b] = [a, b]"
      "payload_hash (ge_wire (se_gw Z)) p \<notin> set (hashes_of (gw_delivered g) u)"
  obtains w' g' where "run_steps (lock_step Z) (replicate 2 (Moves t a)) w = Some w'"
    "lk_tasks w' = (lk_tasks w)(a \<mapsto> Retrieving u)" "lk_server w' = (lk_server w)\<lparr>sv_gw := g'\<rparr>"
    "\<And>j. sl_get (ge_sled (se_gw Z)) (gw_db g') SLED_MAILBOX_TREE j =
       (if j = k then None else sl_get (ge_sled (se_gw Z)) (gw_db g) SLED_MAILBOX_TREE j)"
    "gw_sent g' = gw_sent g @ [(a, p), (b, p)]" "gw_cmds g' = gw_cmds g"
    "payload_hash (ge_wire (se_gw Z)) p \<in> set (hashes_of (gw_delivered g') u)"
proof (rule drain_new_record[OF S g(1-3) _ g(4), where t = t and ch = a and k = k])
  show "[a, b] \<noteq> []" by simp
next
  fix g'
  assume s: "sections (se_gw Z) t a 2 (Draining u [(k, p)], g) = (Retrieving u, g')"
    and m: "\<And>j. sl_get (ge_sled (se_gw Z)) (gw_db g') SLED_MAILBOX_TREE j =
       (if j = k then None else sl_get (ge_sled (se_gw Z)) (gw_db g) SLED_MAILBOX_TREE j)"
    and f: "gw_sent g' = gw_sent g @ map (\<lambda>c. (c, p)) [a, b]" "gw_cmds g' = gw_cmds g"
      "payload_hash (ge_wire (se_gw Z)) p \<in> set (hashes_of (gw_delivered g') u)"
  have run: "run_steps (lock_step Z) (replicate 2 (Moves t a)) w =
      Some (w\<lparr>lk_server := (lk_server w)\<lparr>sv_gw := g'\<rparr>, lk_tasks := (lk_tasks w)(a \<mapsto> Retrieving u)\<rparr>)"
    unfolding moves_run[OF w(1)] w(2) s by (simp add: Let_def)
  show ?thesis by (rule that[OF run _ _ m _ f(2,3)]) (simp_all add: f(1))
qed

text \<open>The other connection knows the payload as delivered and only removes the key it read before.\<close>

lemma second_removes:
  assumes "sled_ok (ge_sled (se_gw Z))" "lk_tasks w b = Some (Draining u [(k, p)])"
    "payload_hash (ge_wire (se_gw Z)) p \<in> set (hashes_of (gw_delivered (sv_gw (lk_server w))) u)"
  obtains g where "run_steps (lock_step Z) (replicate 2 (Moves t b)) w =
      Some (w\<lparr>lk_server := (lk_server w)\<lparr>sv_gw := g\<rparr>, lk_tasks := (lk_tasks w)(b \<mapsto> Retrieving u)\<rparr>)"
    "\<And>j. sl_get (ge_sled (se_gw Z)) (gw_db g) SLED_MAILBOX_TREE j =
       (if j = k then None else sl_get (ge_sled (se_gw Z)) (gw_db (sv_gw (lk_server w))) SLED_MAILBOX_TREE j)"
    "gw_sent g = gw_sent (sv_gw (lk_server w))"
proof -
  obtain g where g: "sections (se_gw Z) t b 2 (Draining u [(k, p)], sv_gw (lk_server w)) = (Retrieving u, g)"
    "\<And>j. sl_get (ge_sled (se_gw Z)) (gw_db g) SLED_MAILBOX_TREE j =
       (if j = k then None else sl_get (ge_sled (se_gw Z)) (gw_db (sv_gw (lk_server w))) SLED_MAILBOX_TREE j)"
    "gw_sent g = gw_sent (sv_gw (lk_server w))"
    using drain_known_record[OF assms(1,3)] by metis
  show ?thesis by (rule that[OF _ g(2,3)]) (simp add: moves_run[OF assms(2)] g(1) Let_def)
qed

text \<open>A message is relayed for a user who is away, the node takes the first of its two commands, and two
  connections of the user open and read the one record of the mailbox. The store command is the next
  one the node takes.\<close>

lemma relay_then_both_read:
  assumes S: "sled_ok (ge_sled (se_gw Z))"
    and w: "lk_server w = s" "sv_gw s = g" "sv_state s = Idle" "sv_taken s = length (gw_cmds g)"
    and c: "lk_tasks w c = Some (Ready x)" "parse_relay d = Some (u, p)" "d ! 0 \<noteq> 0"
      "check_rate_limit_store (ge_round (se_gw Z)) clk x g = (True, g0)"
    and user: "32 \<le> length u" "gw_clients g u = None" "gw_mailbox g" "gw_p2p_tx g"
    and ab: "a \<noteq> b" "sv_owner s a = None" "sv_owner s b = None" "gw_alive g a" "gw_alive g b"
    and old: "sl_get (ge_sled (se_gw Z)) (gw_db g) SLED_MAILBOX_TREE k = Some raw1" "prefix u k"
      "record_payload (ge_wire (se_gw Z)) u raw1 = Some p1"
      "payload_hash (ge_wire (se_gw Z)) p1 \<notin> set (load_delivered_hashes (ge_wire (se_gw Z)) (ge_sled (se_gw Z)) (gw_db g) u)"
    and only: "\<And>j. prefix u j \<Longrightarrow> j \<noteq> k \<Longrightarrow> sl_get (ge_sled (se_gw Z)) (gw_db g) SLED_MAILBOX_TREE j = None"
  obtains w' g' cs where "run_steps (lock_step Z)
      ((Hears clk token c (Binary d) # replicate 3 (Moves t c) @ [Fetches now []]) @
       (Enters a (Binary u) # replicate 5 (Moves t a)) @ (Enters b (Binary u) # replicate 5 (Moves t b))) w = Some w'"
    "lk_tasks w' a = Some (Draining u [(k, p1)])" "lk_tasks w' b = Some (Draining u [(k, p1)])"
    "sv_gw (lk_server w') = g'" "sv_state (lk_server w') = Idle" "sv_taken (lk_server w') = Suc (length (gw_cmds g))"
    "nd_indices (sv_node (lk_server w')) = nd_indices (sv_node s)"
    "gw_mailbox g'" "gw_clients g' u = Some [a, b]" "filter (gw_alive g') [a, b] = [a, b]"
    "payload_hash (ge_wire (se_gw Z)) p1 \<notin> set (hashes_of (gw_delivered g') u)" "gw_sent g' = gw_sent g"
    "\<And>t j. sl_get (ge_sled (se_gw Z)) (gw_db g') t j = sl_get (ge_sled (se_gw Z)) (gw_db g) t j"
    "gw_cmds g' = gw_cmds g @ [Publish (w_hex (ge_wire (se_gw Z)) u) (forward_frame x p), MailboxStore u x p] @ cs"
proof -
  let ?W = "ge_wire (se_gw Z)" and ?S = "ge_sled (se_gw Z)"
  have u: "u \<noteq> []" using user(1) by auto
  obtain w1 lim where w1: "run_steps (lock_step Z) (Hears clk token c (Binary d) # replicate 3 (Moves t c) @ [Fetches now []]) w = Some w1"
    and g1: "sv_gw (lk_server w1) = g\<lparr>gw_limiters := lim, gw_cmds := gw_cmds g @
       [Publish (w_hex ?W u) (forward_frame x p), MailboxStore u x p]\<rparr>"
    and s1: "sv_taken (lk_server w1) = Suc (length (gw_cmds g))" "sv_state (lk_server w1) = Idle"
      "nd_indices (sv_node (lk_server w1)) = nd_indices (sv_node s)" "sv_owner (lk_server w1) = sv_owner s"
    using relay_and_publish[OF w c(1,2,3) user(2,4) c(4)] by metis
  let ?h = "sv_gw (lk_server w1)"
  have h: "gw_clients ?h u = None" "gw_mailbox ?h" "sv_owner (lk_server w1) a = None" "sv_owner (lk_server w1) b = None"
    "gw_alive ?h a" "gw_alive ?h b" "gw_db ?h = gw_db g" "gw_sent ?h = gw_sent g"
    using user(2,3) ab by (simp_all add: s1 g1)
  obtain w3 g3 where w3: "run_steps (lock_step Z) ((Enters a (Binary u) # replicate 5 (Moves t a)) @
      (Enters b (Binary u) # replicate 5 (Moves t b))) w1 = Some w3"
    and t3: "lk_tasks w3 a = Some (Draining u [(k, p1)])" "lk_tasks w3 b = Some (Draining u [(k, p1)])"
    and s3: "lk_server w3 = (lk_server w1)\<lparr>sv_owner := (sv_owner (lk_server w1))(a \<mapsto> u, b \<mapsto> u), sv_gw := g3\<rparr>"
    and g3: "gw_mailbox g3" "gw_clients g3 u = Some [a, b]" "filter (gw_alive g3) [a, b] = [a, b]"
      "payload_hash ?W p1 \<notin> set (hashes_of (gw_delivered g3) u)" "gw_sent g3 = gw_sent ?h"
      "\<And>t j. sl_get ?S (gw_db g3) t j = sl_get ?S (gw_db g) t j" "prefix (gw_cmds ?h) (gw_cmds g3)"
    using both_read[OF S refl u h(1,2) old(2) ab(1) h(3-6), where t = t, unfolded h(7), OF old(1,3,4) only] by metis
  have run: "run_steps (lock_step Z)
      ((Hears clk token c (Binary d) # replicate 3 (Moves t c) @ [Fetches now []]) @
       (Enters a (Binary u) # replicate 5 (Moves t a)) @ (Enters b (Binary u) # replicate 5 (Moves t b))) w = Some w3"
    using w3 by (simp only: run_steps_append w1 Option.bind.bind_lunit)
  obtain cs where cs: "gw_cmds g3 = gw_cmds g @ [Publish (w_hex ?W u) (forward_frame x p), MailboxStore u x p] @ cs"
    using g3(7) by (auto simp: g1 prefix_def)
  show ?thesis
    by (rule that[OF run t3 _ _ _ _ g3(1-4) _ g3(6) cs]) (simp_all add: s3 s1 g3(5) h(8))
qed

section \<open>A message removed unread\<close>

text \<open>C26: Two connections that open at the same time can lose a message. After a restart the node has no
  index for a user whose mailbox holds one record, number 1, and a message is relayed for the user,
  who is away; the node is still to take the store command. Two connections of the user open and
  both read the record; the first delivers and removes it; the node, which finds the mailbox empty,
  stores the new message under number 1 again; then the second connection removes the key it read
  before. The mailbox is empty and only the old message has been sent. The code reads the backup and
  removes records without the lock, and removes by key alone.\<close>

theorem stale_removal_loses_message:
  assumes Z: "server_env_ok Z" "env_ok (se_node Z)" "ne_wire (se_node Z) = ge_wire (se_gw Z)"
    and w: "lk_server w = s" "sv_gw s = g" "sv_state s = Idle" "sv_taken s = length (gw_cmds g)"
    and node: "nd_indices (sv_node s) u = None" "node_inv (se_node Z) n Idle ((sv_node s)\<lparr>nd_db := gw_db g\<rparr>)" "n + 11 < 2 ^ 64"
    and c: "lk_tasks w c = Some (Ready x)" "parse_relay d = Some (u, p)" "d ! 0 \<noteq> 0"
      "check_rate_limit_store (ge_round (se_gw Z)) clk x g = (True, g0)"
    and user: "32 \<le> length u" "gw_clients g u = None" "gw_mailbox g" "gw_p2p_tx g"
    and ab: "a \<noteq> b" "sv_owner s a = None" "sv_owner s b = None" "gw_alive g a" "gw_alive g b"
    and old: "sl_get (ge_sled (se_gw Z)) (gw_db g) SLED_MAILBOX_TREE (seq_be_key u 1) = Some raw1"
      "record_payload (ge_wire (se_gw Z)) u raw1 = Some p1"
      "payload_hash (ge_wire (se_gw Z)) p1 \<notin> set (load_delivered_hashes (ge_wire (se_gw Z)) (ge_sled (se_gw Z)) (gw_db g) u)"
    and only: "\<forall>j. prefix u j \<and> j \<noteq> seq_be_key u 1 \<longrightarrow> sl_get (ge_sled (se_gw Z)) (gw_db g) SLED_MAILBOX_TREE j = None"
  shows "\<exists>w1 w2 raw. run_steps (lock_step Z)
      ((Hears clk token c (Binary d) # replicate 3 (Moves t c) @ [Fetches now []]) @
       (Enters a (Binary u) # replicate 5 (Moves t a)) @ (Enters b (Binary u) # replicate 5 (Moves t b)) @
       replicate 2 (Moves t a) @ [Fetches now []]) w = Some w1 \<and>
    sl_get (ge_sled (se_gw Z)) (gw_db (sv_gw (lk_server w1))) SLED_MAILBOX_TREE (seq_be_key u 1) = Some raw \<and>
    record_payload (ge_wire (se_gw Z)) u raw = Some (forward_frame x p) \<and>
    run_steps (lock_step Z) (replicate 2 (Moves t b)) w1 = Some w2 \<and>
    (\<forall>j. prefix u j \<longrightarrow> sl_get (ge_sled (se_gw Z)) (gw_db (sv_gw (lk_server w2))) SLED_MAILBOX_TREE j = None) \<and>
    gw_sent (sv_gw (lk_server w2)) = gw_sent g @ [(a, p1), (b, p1)]"
proof -
  let ?E = "se_gw Z" and ?W = "ge_wire (se_gw Z)" and ?S = "ge_sled (se_gw Z)" and ?k = "seq_be_key u 1"
  have S: "sled_ok ?S" and sl: "ne_sled (se_node Z) = ?S" using Z(1) by (simp_all add: server_env_ok_def env_wf_def)
  have u: "prefix u ?k" by (simp add: seq_be_key_def)
  have alone: "sl_get ?S (gw_db g) SLED_MAILBOX_TREE j = None" if "prefix u j" "j \<noteq> ?k" for j using only that by blast
  obtain w3 g3 cs where w3: "run_steps (lock_step Z)
      ((Hears clk token c (Binary d) # replicate 3 (Moves t c) @ [Fetches now []]) @
       (Enters a (Binary u) # replicate 5 (Moves t a)) @ (Enters b (Binary u) # replicate 5 (Moves t b))) w = Some w3"
    and t3: "lk_tasks w3 a = Some (Draining u [(?k, p1)])" "lk_tasks w3 b = Some (Draining u [(?k, p1)])"
    and s3: "sv_gw (lk_server w3) = g3" "sv_state (lk_server w3) = Idle" "sv_taken (lk_server w3) = Suc (length (gw_cmds g))"
      "nd_indices (sv_node (lk_server w3)) = nd_indices (sv_node s)"
    and g3: "gw_mailbox g3" "gw_clients g3 u = Some [a, b]" "filter (gw_alive g3) [a, b] = [a, b]"
      "payload_hash ?W p1 \<notin> set (hashes_of (gw_delivered g3) u)" "gw_sent g3 = gw_sent g"
      "\<And>t j. sl_get ?S (gw_db g3) t j = sl_get ?S (gw_db g) t j"
      "gw_cmds g3 = gw_cmds g @ [Publish (w_hex ?W u) (forward_frame x p), MailboxStore u x p] @ cs"
    by (rule relay_then_both_read[OF S w c user ab old(1) u old(2,3), where t = t and now = now and token = token])
      (assumption | rule alone that)+
  obtain w4 g4 where w4: "run_steps (lock_step Z) (replicate 2 (Moves t a)) w3 = Some w4"
    and t4: "lk_tasks w4 = (lk_tasks w3)(a \<mapsto> Retrieving u)" "lk_server w4 = (lk_server w3)\<lparr>sv_gw := g4\<rparr>"
    and g4: "\<And>j. sl_get ?S (gw_db g4) SLED_MAILBOX_TREE j = (if j = ?k then None else sl_get ?S (gw_db g3) SLED_MAILBOX_TREE j)"
      "gw_sent g4 = gw_sent g3 @ [(a, p1), (b, p1)]" "gw_cmds g4 = gw_cmds g3"
      "payload_hash ?W p1 \<in> set (hashes_of (gw_delivered g4) u)"
    using first_delivers[OF S t3(1) s3(1) g3(1-4), of t] by metis
  have empty: "sl_get ?S (gw_db g4) SLED_MAILBOX_TREE j = None" if "prefix u j" for j
    using that only by (simp add: g4(1) g3(6))
  have s4: "sv_gw (lk_server w4) = g4" "sv_state (lk_server w4) = Idle" "sv_taken (lk_server w4) = Suc (length (gw_cmds g))"
    "nd_indices (sv_node (lk_server w4)) = nd_indices (sv_node s)"
    using s3 by (simp_all add: t4(2))
  have "node_inv (se_node Z) n Idle ((sv_node s)\<lparr>nd_db := gw_db g4\<rparr>)"
    by (rule node_inv_shrinks[OF node(2)]) (simp add: sl g4(1) g3(6))
  then have inv: "node_inv (se_node Z) n Idle ((sv_node (lk_server w4))\<lparr>nd_db := gw_db g4\<rparr>)"
    by (rule node_inv_frame) (simp_all add: s4(4) is_idle_def)
  obtain w5 raw where w5: "lock_step Z (Fetches now []) w4 = Some w5"
    and g5: "\<And>j. sl_get ?S (gw_db (sv_gw (lk_server w5))) SLED_MAILBOX_TREE j =
        (if j = ?k then Some raw else sl_get ?S (gw_db g4) SLED_MAILBOX_TREE j)"
      "record_payload ?W u raw = Some (forward_frame x p)" "lk_tasks w5 = lk_tasks w4"
      "gw_delivered (sv_gw (lk_server w5)) = gw_delivered g4" "gw_sent (sv_gw (lk_server w5)) = gw_sent g4"
    using store_under_one[OF Z user(1), of w4 x p n now, unfolded s4] node(1,3) inv empty
    by (auto simp: g4(3) g3(7) nth_append)
  obtain g6 where g6: "run_steps (lock_step Z) (replicate 2 (Moves t b)) w5 =
      Some (w5\<lparr>lk_server := (lk_server w5)\<lparr>sv_gw := g6\<rparr>, lk_tasks := (lk_tasks w5)(b \<mapsto> Retrieving u)\<rparr>)"
    "\<And>j. sl_get ?S (gw_db g6) SLED_MAILBOX_TREE j =
       (if j = ?k then None else sl_get ?S (gw_db (sv_gw (lk_server w5))) SLED_MAILBOX_TREE j)"
    "gw_sent g6 = gw_sent (sv_gw (lk_server w5))"
    by (rule second_removes[OF S, where w = w5 and b = b and u = u and k = ?k and p = p1 and t = t]) (use ab(1) t3(2) g4(4) g5(3,4) in \<open>simp_all add: t4(1)\<close>)
  have last: "run_steps (lock_step Z) [Fetches now []] w4 = Some w5" by (simp add: w5)
  have run: "run_steps (lock_step Z)
      (((Hears clk token c (Binary d) # replicate 3 (Moves t c) @ [Fetches now []]) @
       (Enters a (Binary u) # replicate 5 (Moves t a)) @ (Enters b (Binary u) # replicate 5 (Moves t b))) @
       replicate 2 (Moves t a) @ [Fetches now []]) w = Some w5"
    unfolding run_steps_append[of _ "_ @ _ @ _"] w3 Option.bind.bind_lunit run_steps_append[of _ "replicate 2 _"] w4 by (rule last)
  show ?thesis
    by (intro exI conjI, rule run[unfolded append_assoc], rule g5(1)[THEN trans], simp, rule g5(2), rule g6(1))
      (simp_all add: g6(2,3) g5(1,5) g4(2) g3(5) empty)
qed

text \<open>The state after a restart, with a client \<open>[7]\<close> whose connection 9 is at the loop.\<close>

definition demo_locked :: "(toy_db, nat, bytes \<rightharpoonup> bytes) locked" where
  "demo_locked = lock_start demo_db (\<lambda>ch. True) [] Map.empty demo_node_env\<lparr>lk_tasks := [9 \<mapsto> Ready [7]]\<rparr>"

theorem stale_removal_loses_message_witness:
  "\<exists>w1 w2 raw. run_steps (lock_step demo_server_env)
      ((Hears (0, 0) [] 9 (Binary ([32, 0] @ demo_user @ [4, 5])) # replicate 3 (Moves 0 9) @ [Fetches 0 []]) @
       (Enters 3 (Binary demo_user) # replicate 5 (Moves 0 3)) @ (Enters 4 (Binary demo_user) # replicate 5 (Moves 0 4)) @
       replicate 2 (Moves 0 3) @ [Fetches 0 []]) demo_locked = Some w1 \<and>
    sl_get toy_sled (gw_db (sv_gw (lk_server w1))) SLED_MAILBOX_TREE (seq_be_key demo_user 1) = Some raw \<and>
    record_payload toy_wire demo_user raw = Some [1, 0, 7, 4, 5] \<and>
    run_steps (lock_step demo_server_env) (replicate 2 (Moves 0 4)) w1 = Some w2 \<and>
    sl_get toy_sled (gw_db (sv_gw (lk_server w2))) SLED_MAILBOX_TREE (seq_be_key demo_user 1) = None \<and>
    gw_sent (sv_gw (lk_server w2)) = [(3, [5]), (4, [5])]"
proof -
  let ?s = "lk_server demo_locked"
  have env: "ge_sled (se_gw demo_server_env) = toy_sled" "ge_wire (se_gw demo_server_env) = toy_wire"
    "se_node demo_server_env = demo_node_env" "ne_sled demo_node_env = toy_sled" "ne_wire demo_node_env = toy_wire"
    by (simp_all add: demo_server_env_def demo_env_def demo_node_env_def)
  have E: "env_ok (se_node demo_server_env)" "ne_wire (se_node demo_server_env) = ge_wire (se_gw demo_server_env)"
    using demo_node_ok(1) by (simp_all add: env)
  have s: "sv_state ?s = Idle" "sv_taken ?s = length (gw_cmds (sv_gw ?s))" "nd_indices (sv_node ?s) demo_user = None"
    "lk_tasks demo_locked 9 = Some (Ready [7])" "gw_clients (sv_gw ?s) demo_user = None" "gw_mailbox (sv_gw ?s)"
    "gw_p2p_tx (sv_gw ?s)" "sv_owner ?s 3 = None" "sv_owner ?s 4 = None" "gw_alive (sv_gw ?s) 3" "gw_alive (sv_gw ?s) 4"
    "gw_db (sv_gw ?s) = demo_db" "gw_sent (sv_gw ?s) = []" "gw_limiters (sv_gw ?s) = Map.empty"
    "nd_indices (sv_node ?s) = Map.empty"
    by (simp_all add: demo_locked_def lock_start_def server_start_def gateway_start_def dial_persisted_fields node_start_def)
  have inv: "node_inv (se_node demo_server_env) 1 Idle ((sv_node ?s)\<lparr>nd_db := gw_db (sv_gw ?s)\<rparr>)"
    using s(15) by (simp add: env s(12) node_inv_def demo_db_has)
  have n: "(1 :: nat) + 11 < 2 ^ 64" by simp
  have fr: "parse_relay ([32, 0] @ demo_user @ [4, 5]) = Some (demo_user, [4, 5])" "([32, 0] @ demo_user @ [4, 5]) ! 0 \<noteq> 0"
    by (simp_all add: parse_relay_def le_u16_def slice_def demo_user_def Let_def)
  have lim: "check_rate_limit_store (ge_round (se_gw demo_server_env)) (0, 0) [7] (sv_gw ?s) = (True, sv_gw ?s)"
    by (simp add: check_rate_limit_store_def s(14))
  have old: "sl_get toy_sled demo_db SLED_MAILBOX_TREE (seq_be_key demo_user 1) = Some [5]"
    "record_payload toy_wire demo_user [5] = Some [5]" "load_delivered_hashes toy_wire toy_sled demo_db demo_user = []"
    "\<forall>j. prefix demo_user j \<and> j \<noteq> seq_be_key demo_user 1 \<longrightarrow> sl_get toy_sled demo_db SLED_MAILBOX_TREE j = None"
    using demo_db_get demo_short_records
    by (simp_all add: env record_payload_def demo_node_env_def load_delivered_hashes_def toy_sled_def demo_db_def toy_norm_def
        bt_wf_def bt_get_def SLED_DELIVERED_TREE_def SLED_MAILBOX_TREE_def)
  have u: "prefix demo_user (seq_be_key demo_user 1)" by (simp add: seq_be_key_def)
  show ?thesis
    using stale_removal_loses_message[OF demo_server_env_ok E refl refl s(1,2,3) inv n s(4) fr lim demo_node_ok(2)
        s(5-7) _ s(8-11), unfolded env s(12,13), OF _ old(1,2) _ old(4), of "[]" 0 0] u
    by (fastforce simp: old(3) demo_forward)
qed

end
