(* ===== verification/Forward.thy ===== *)
theory Forward
  imports Server_Log Gateway_Props
begin

text \<open>
  \<open>server/src/ws.rs\<close>: the forwarding task of a connection, beside the tasks of \<open>Server\<close>. A task reads
  the payloads its channel accepted, in the order of the log \<open>gw_sent\<close>, and writes them and the pings
  to the socket. Channels no longer close by themselves: one closes when its task drops the receiver,
  after a failed write or when the connection's reader aborts it.
\<close>

definition WS_PING_INTERVAL_SECS :: nat where "WS_PING_INTERVAL_SECS = 30"

datatype ws_frame = BinaryFrame bytes | PingFrame

text \<open>
  Where the task is: in the select, in a write, behind the loop but before its lock section, behind
  that but still owning the receiver, or gone.
\<close>

datatype forward_phase = Selecting | Sending ws_frame | Leaving | Pruned | Finished

record forward =
  fw_session :: bytes
  fw_taken :: nat  \<comment> \<open>payloads received from the channel\<close>
  fw_wire :: "ws_frame list"  \<comment> \<open>frames the socket accepted, oldest first\<close>
  fw_phase :: forward_phase
  fw_next_ping :: nat  \<comment> \<open>deadline of the interval, in milliseconds\<close>
  fw_reading :: bool  \<comment> \<open>the connection still reads its client\<close>
  fw_aborted :: bool

text \<open>The interval starts now and its first tick has been taken.\<close>

definition forward_start :: "nat \<Rightarrow> bytes \<Rightarrow> forward" where
  "forward_start ms session =
     \<lparr>fw_session = session, fw_taken = 0, fw_wire = [], fw_phase = Selecting,
      fw_next_ping = ms + WS_PING_INTERVAL_SECS * 1000, fw_reading = True, fw_aborted = False\<rparr>"

text \<open>The payloads a channel accepted, oldest first.\<close>

definition channel_log :: "nat \<Rightarrow> 'db gateway \<Rightarrow> bytes list" where
  "channel_log ch g = map snd (filter (\<lambda>(c, d). c = ch) (gw_sent g))"

definition forward_receive :: "bytes list \<Rightarrow> forward \<Rightarrow> forward" where
  "forward_receive accepted f =
     (if fw_phase f = Selecting \<and> fw_taken f < length accepted then
        f\<lparr>fw_taken := Suc (fw_taken f), fw_phase := Sending (BinaryFrame (accepted ! fw_taken f))\<rparr>
      else f)"

text \<open>A late tick does not move the following ones.\<close>

definition forward_ping :: "nat \<Rightarrow> forward \<Rightarrow> forward" where
  "forward_ping ms f =
     (if fw_phase f = Selecting \<and> fw_next_ping f \<le> ms then
        f\<lparr>fw_next_ping := fw_next_ping f + WS_PING_INTERVAL_SECS * 1000, fw_phase := Sending PingFrame\<rparr>
      else f)"

definition forward_sent :: "bool \<Rightarrow> forward \<Rightarrow> forward" where
  "forward_sent ok f =
     (case fw_phase f of
        Sending fr \<Rightarrow> if ok then f\<lparr>fw_wire := fw_wire f @ [fr], fw_phase := Selecting\<rparr> else f\<lparr>fw_phase := Leaving\<rparr>
      | _ \<Rightarrow> f)"

text \<open>The channel ends when it is empty and the entry of the session holds no sender of it.\<close>

definition channel_ended :: "nat \<Rightarrow> 'db gateway \<Rightarrow> forward \<Rightarrow> bool" where
  "channel_ended ch g f =
     (fw_taken f = length (channel_log ch g) \<and>
      (case gw_clients g (fw_session f) of None \<Rightarrow> True | Some senders \<Rightarrow> ch \<notin> set senders))"

definition forward_ends :: "nat \<Rightarrow> 'db gateway \<Rightarrow> forward \<Rightarrow> forward" where
  "forward_ends ch g f =
     (if fw_phase f = Selecting \<and> channel_ended ch g f then f\<lparr>fw_phase := Leaving\<rparr> else f)"

text \<open>The receiver is dropped with the task, at its end or at any wait after the abort.\<close>

definition forward_droppable :: "forward \<Rightarrow> bool" where
  "forward_droppable f = (fw_phase f = Pruned \<or> fw_aborted f \<and> fw_phase f \<noteq> Finished)"


section \<open>Connections, their tasks and the rest of the server\<close>

record ('db, 'q, 'n) sockets =
  sk_server :: "('db, 'q, 'n) server"
  sk_tasks :: "nat \<rightharpoonup> forward"

text \<open>
  A socket opens with its first message, at a reading of the limiter's clock and one in
  milliseconds; a client's message arrives on its connection; a forwarding task receives, ticks,
  completes a write, finds its channel ended, runs its lock section, drops its receiver; the node
  or the event handler acts.
\<close>

datatype 'q socket_input =
    SocketOpens rat nat nat ws_message
  | SocketSays "rat \<times> rat" bytes nat ws_message
  | TaskReceives nat
  | TaskPings nat nat
  | SinkDone bool nat
  | ChannelEnds nat
  | TaskPrunes nat
  | TaskDrops nat
  | Background "'q server_input"

definition socket_opens ::
    "'db gw_env \<Rightarrow> rat \<Rightarrow> nat \<Rightarrow> nat \<Rightarrow> ws_message \<Rightarrow> ('db, 'q, 'n) sockets \<Rightarrow> ('db, 'q, 'n) sockets" where
  "socket_opens G now ms ch msg k =
     (if sv_owner (sk_server k) ch \<noteq> None then k
      else let s = open_socket G now ch msg (sk_server k)
           in k\<lparr>sk_server := s,
                sk_tasks := (case sv_owner s ch of None \<Rightarrow> sk_tasks k
                             | Some session \<Rightarrow> (sk_tasks k)(ch \<mapsto> forward_start ms session))\<rparr>)"

text \<open>The reader handles messages until the stream ends; then it cleans up and aborts the task.\<close>

definition reader_ends :: "ws_message \<Rightarrow> bool" where
  "reader_ends msg = (msg = StreamEnd \<or> msg = StreamError)"

definition socket_says ::
    "'db gw_env \<Rightarrow> 'n profile_ops \<Rightarrow> rat \<times> rat \<Rightarrow> bytes \<Rightarrow> nat \<Rightarrow> ws_message \<Rightarrow> ('db, 'q, 'n) sockets \<Rightarrow>
     ('db, 'q, 'n) sockets" where
  "socket_says G P clk token ch msg k =
     (case sk_tasks k ch of
        None \<Rightarrow> k
      | Some f \<Rightarrow>
          if \<not> fw_reading f then k
          else let (n, g) = client_message G P clk token (fw_session f) msg (sv_store (sk_server k)) (sv_gw (sk_server k))
               in k\<lparr>sk_server := (sk_server k)\<lparr>sv_store := n, sv_gw := g\<rparr>,
                    sk_tasks := (if reader_ends msg
                      then (sk_tasks k)(ch \<mapsto> f\<lparr>fw_reading := False, fw_aborted := True\<rparr>) else sk_tasks k)\<rparr>)"

text \<open>Steps of the task that touch nothing but the task.\<close>

definition task_step ::
    "('db gateway \<Rightarrow> forward \<Rightarrow> forward) \<Rightarrow> nat \<Rightarrow> ('db, 'q, 'n) sockets \<Rightarrow> ('db, 'q, 'n) sockets" where
  "task_step op ch k =
     (case sk_tasks k ch of
        None \<Rightarrow> k
      | Some f \<Rightarrow> k\<lparr>sk_tasks := (sk_tasks k)(ch \<mapsto> op (sv_gw (sk_server k)) f)\<rparr>)"

definition task_prunes :: "nat \<Rightarrow> ('db, 'q, 'n) sockets \<Rightarrow> ('db, 'q, 'n) sockets" where
  "task_prunes ch k =
     (case sk_tasks k ch of
        None \<Rightarrow> k
      | Some f \<Rightarrow>
          if fw_phase f = Leaving then
            k\<lparr>sk_server := (sk_server k)\<lparr>sv_gw := prune_client (fw_session f) (sv_gw (sk_server k))\<rparr>,
              sk_tasks := (sk_tasks k)(ch \<mapsto> f\<lparr>fw_phase := Pruned\<rparr>)\<rparr>
          else k)"

definition close_channel :: "nat \<Rightarrow> 'db gateway \<Rightarrow> 'db gateway" where
  "close_channel ch g = g\<lparr>gw_alive := (gw_alive g)(ch := False)\<rparr>"

definition task_drops :: "nat \<Rightarrow> ('db, 'q, 'n) sockets \<Rightarrow> ('db, 'q, 'n) sockets" where
  "task_drops ch k =
     (case sk_tasks k ch of
        None \<Rightarrow> k
      | Some f \<Rightarrow>
          if forward_droppable f then
            k\<lparr>sk_server := (sk_server k)\<lparr>sv_gw := close_channel ch (sv_gw (sk_server k))\<rparr>,
              sk_tasks := (sk_tasks k)(ch \<mapsto> f\<lparr>fw_phase := Finished\<rparr>)\<rparr>
          else k)"

definition background :: "'q server_input \<Rightarrow> bool" where
  "background i = (case i of Loops now conn inp \<Rightarrow> True | Takes now conn \<Rightarrow> True | Reports users \<Rightarrow> True | _ \<Rightarrow> False)"

definition sockets_step ::
    "('db, 'q, 'n) server_env \<Rightarrow> 'q socket_input \<Rightarrow> ('db, 'q, 'n) sockets \<Rightarrow> ('db, 'q, 'n) sockets option" where
  "sockets_step Z inp k =
     (case inp of
        SocketOpens now ms ch msg \<Rightarrow> Some (socket_opens (se_gw Z) now ms ch msg k)
      | SocketSays clk token ch msg \<Rightarrow> Some (socket_says (se_gw Z) (se_ops Z) clk token ch msg k)
      | TaskReceives ch \<Rightarrow> Some (task_step (\<lambda>g. forward_receive (channel_log ch g)) ch k)
      | TaskPings ms ch \<Rightarrow> Some (task_step (\<lambda>g. forward_ping ms) ch k)
      | SinkDone ok ch \<Rightarrow> Some (task_step (\<lambda>g. forward_sent ok) ch k)
      | ChannelEnds ch \<Rightarrow> Some (task_step (forward_ends ch) ch k)
      | TaskPrunes ch \<Rightarrow> Some (task_prunes ch k)
      | TaskDrops ch \<Rightarrow> Some (task_drops ch k)
      | Background i \<Rightarrow>
          (if background i then map_option (\<lambda>s. k\<lparr>sk_server := s\<rparr>) (server_step Z i (sk_server k)) else Some k))"

definition sockets_start ::
    "'db \<Rightarrow> node_command list \<Rightarrow> 'n \<Rightarrow> ('db, 'q) node_env \<Rightarrow> ('db, 'q, 'n) sockets" where
  "sockets_start db dials n E =
     \<lparr>sk_server = server_start db (\<lambda>ch. True) dials n E, sk_tasks = Map.empty\<rparr>"


section \<open>The actions of the server model a step stands for\<close>

definition server_inputs :: "'q socket_input \<Rightarrow> ('db, 'q, 'n) sockets \<Rightarrow> 'q server_input list" where
  "server_inputs inp k =
     (case inp of
        SocketOpens now ms ch msg \<Rightarrow> [Opens now ch msg]
      | SocketSays clk token ch msg \<Rightarrow>
          (case sk_tasks k ch of Some f \<Rightarrow> if fw_reading f then [Says clk token (fw_session f) msg] else [] | None \<Rightarrow> [])
      | TaskPrunes ch \<Rightarrow>
          (case sk_tasks k ch of Some f \<Rightarrow> if fw_phase f = Leaving then [ForwardEnds (fw_session f)] else [] | None \<Rightarrow> [])
      | TaskDrops ch \<Rightarrow>
          (case sk_tasks k ch of Some f \<Rightarrow> if forward_droppable f then [Closes ch] else [] | None \<Rightarrow> [])
      | Background i \<Rightarrow> if background i then [i] else []
      | _ \<Rightarrow> [])"

primrec server_run_inputs ::
    "('db, 'q, 'n) server_env \<Rightarrow> 'q socket_input list \<Rightarrow> ('db, 'q, 'n) sockets \<Rightarrow> 'q server_input list" where
  "server_run_inputs Z [] k = []"
| "server_run_inputs Z (i # is) k =
     server_inputs i k @ (case sockets_step Z i k of None \<Rightarrow> [] | Some k' \<Rightarrow> server_run_inputs Z is k')"

lemma sockets_step_server:
  assumes "sockets_step Z inp k = Some k'"
  shows "run_steps (server_step Z) (server_inputs inp k) (sk_server k) = Some (sk_server k')"
proof (cases inp)
  case (SocketOpens now ms ch msg)
  then show ?thesis
    using assms by (auto simp: sockets_step_def server_inputs_def server_step_def socket_opens_def open_socket_def Let_def)
next
  case (SocketSays clk token ch msg)
  then show ?thesis
    using assms by (auto simp: sockets_step_def server_inputs_def server_step_def socket_says_def Let_def
        split: option.split prod.split)
next
  case (TaskPrunes ch)
  then show ?thesis
    using assms by (auto simp: sockets_step_def server_inputs_def server_step_def task_prunes_def split: option.split)
next
  case (TaskDrops ch)
  then show ?thesis
    using assms by (auto simp: sockets_step_def server_inputs_def server_step_def task_drops_def close_channel_def
        split: option.split)
next
  case (Background i)
  then show ?thesis
    using assms by (auto simp: sockets_step_def server_inputs_def split: if_splits)
qed (use assms in \<open>auto simp: sockets_step_def server_inputs_def task_step_def split: option.split\<close>)

lemma sockets_run_server:
  assumes "run_steps (sockets_step Z) ins k = Some k'"
  shows "run_steps (server_step Z) (server_run_inputs Z ins k) (sk_server k) = Some (sk_server k')"
  using assms
proof (induction ins arbitrary: k)
  case Nil
  then show ?case by simp
next
  case (Cons i ins)
  then obtain k1 where k1: "sockets_step Z i k = Some k1" "run_steps (sockets_step Z) ins k1 = Some k'"
    by (auto simp: bind_eq_Some_conv)
  then show ?case using sockets_step_server[OF k1(1)] Cons.IH by (simp add: run_steps_append)
qed

end
