(* ===== verification/Forward_Flow.thy ===== *)
theory Forward_Flow
  imports Forward
begin

text \<open>
  What the operations of the gateway do to channels: the log of accepted sends grows at its end,
  liveness of a channel is not theirs to change, and the sender of a live channel stays in the
  entry of its session.
\<close>

definition gw_flow :: "'db gateway \<Rightarrow> 'db gateway \<Rightarrow> bool" where
  "gw_flow g g' \<longleftrightarrow> gw_alive g' = gw_alive g \<and> prefix (gw_sent g) (gw_sent g') \<and>
     (\<forall>v. set (live_channels g v) \<subseteq> set (live_channels g' v))"

lemma gw_flow_same:
  "gw_clients g' = gw_clients g \<Longrightarrow> gw_alive g' = gw_alive g \<Longrightarrow> prefix (gw_sent g) (gw_sent g') \<Longrightarrow> gw_flow g g'"
  by (simp add: gw_flow_def live_channels_def)

lemma gw_flow_refl [simp]: "gw_flow g g"
  by (simp add: gw_flow_same)

lemma gw_flow_trans: "gw_flow a b \<Longrightarrow> gw_flow b c \<Longrightarrow> gw_flow a c"
  by (force simp: gw_flow_def)

lemma gw_flow_upd:
  "gw_flow g h \<Longrightarrow> gw_clients h' = gw_clients h \<Longrightarrow> gw_alive h' = gw_alive h \<Longrightarrow> gw_sent h' = gw_sent h \<Longrightarrow>
    gw_flow g h'"
  using gw_flow_trans gw_flow_same by (metis prefix_order.refl)

lemma gw_flow_fold:
  assumes "\<And>x a. gw_flow (sel a) (sel (f x a))"
  shows "gw_flow (sel a) (sel (fold f xs a))"
proof (induction xs arbitrary: a)
  case Nil
  show ?case by simp
next
  case (Cons x xs)
  show ?case using gw_flow_trans[OF assms Cons] by simp
qed

lemma flow_send_all: "gw_flow g (snd (send_all chans d g))"
  by (simp add: send_all_eq gw_flow_same)

lemma flow_limit: "gw_flow g (snd (check_rate_limit_store fl clk client g))"
  by (auto simp: check_rate_limit_store_def gw_flow_same case_prod_beta Let_def split: option.split)

lemma flow_deliver: "gw_flow g (snd (deliver_local E r fwd g))"
  by (simp add: deliver_local_def send_all_eq gw_flow_same Let_def split: option.split)

lemma flow_relay: "gw_flow g (relay_or_p2p E clk sender d g)"
proof -
  have p: "prefix (gw_sent h) (gw_sent (snd (check_rate_limit_store fl clk c h)))" for fl clk c and h :: "'a gateway"
    using flow_limit[of h] by (simp add: gw_flow_def)
  have q: "prefix (gw_sent h) (gw_sent (snd (deliver_local E r f h)))" for r f h
    using flow_deliver[of h] by (simp add: gw_flow_def)
  have "prefix (gw_sent g) (gw_sent (relay_or_p2p E clk sender d g))"
    using p prefix_order.order_trans[OF p q]
    by (simp add: relay_or_p2p_def case_prod_beta Let_def split: option.split)
  then show ?thesis using relay_clients by (intro gw_flow_same) auto
qed

lemma flow_drain_record: "gw_flow (snd st) (snd (drain_record E session rec st))"
  by (auto simp: drain_record_def case_prod_beta Let_def send_all_eq gw_flow_same split: option.split)

lemma flow_drain: "gw_flow g (drain_local E session g)"
proof -
  obtain db1 pend where r: "read_sled_backup (ge_wire E) (ge_sled E) (gw_db g) session = (db1, pend)" by fastforce
  obtain rm n g1 where f: "fold (drain_record E session) pend (([], 0), g\<lparr>gw_db := db1\<rparr>) = ((rm, n), g1)"
    by (metis prod.collapse)
  have "gw_flow (g\<lparr>gw_db := db1\<rparr>) g1"
    using gw_flow_fold[of snd "drain_record E session", OF flow_drain_record] f by (metis snd_conv)
  then have "gw_flow g g1" using gw_flow_trans[of g "g\<lparr>gw_db := db1\<rparr>"] by (simp add: gw_flow_same)
  then show ?thesis by (simp add: drain_local_def r f Let_def gw_flow_upd)
qed

lemma flow_register: "gw_flow g (register_client E now session ch g)"
  by (auto simp: gw_flow_def register_client_def live_channels_def send_cmd_def Let_def split: option.split)

lemma flow_send: "gw_flow g h \<Longrightarrow> gw_flow g (send_cmd c h)"
  by (rule gw_flow_upd) simp_all

lemma flow_connect: "gw_flow g (connect_client E now session ch g)"
  by (simp add: connect_client_def flow_send gw_flow_trans[OF flow_register flow_drain])

lemma register_live: "gw_alive g ch \<Longrightarrow> ch \<in> set (live_channels (register_client E now session ch g) session)"
  by (simp add: register_client_def live_channels_def send_cmd_def Let_def)

lemma connect_live_channel:
  assumes "session \<noteq> []" "gw_alive g ch"
  shows "ch \<in> set (live_channels (connect_client E now session ch g) session)"
proof -
  have "gw_flow (register_client E now session ch g) (connect_client E now session ch g)"
    using assms(1) by (simp add: connect_client_def flow_send flow_drain)
  then show ?thesis using register_live[OF assms(2), of E now session] by (auto simp: gw_flow_def)
qed

text \<open>Pruning keeps what is alive, so the channels of all sessions stay.\<close>

lemma prune_live [simp]: "live_channels (prune_client session g) v = live_channels g v"
  by (simp add: prune_client_def live_channels_def Let_def split: option.split)

lemma prune_alive [simp]: "gw_alive (prune_client session g) = gw_alive g"
  "gw_sent (prune_client session g) = gw_sent g"
  by (simp_all add: prune_client_def Let_def split: option.split)

lemma flow_prune: "gw_flow g (prune_client session g)"
  by (simp add: gw_flow_def)

lemma flow_disconnect: "gw_flow g (disconnect_client E session g)"
  by (auto simp: disconnect_client_def Let_def intro: gw_flow_trans[OF gw_flow_same flow_prune])

lemma flow_profile: "gw_flow g (snd (handle_profile_operation Q token client opcode payload n g))"
  using flow_send_all by (auto simp: handle_profile_operation_def split: prod.split option.split)

lemma flow_client_message: "gw_flow g (snd (client_message E Q clk token session msg n g))"
  by (cases msg) (simp_all add: client_message_def handle_client_message_def flow_profile flow_relay flow_disconnect)

lemma flow_message_received: "gw_flow g (on_message_received E topic d g)"
  by (auto simp: on_message_received_def send_all_eq gw_flow_same Let_def split: option.split prod.split)

lemma flow_broadcast: "gw_flow g (on_broadcast users d g)"
  unfolding on_broadcast_def using gw_flow_fold[of "\<lambda>h. h"] flow_send_all by fastforce

lemma flow_deliver_backup: "gw_flow (snd st) (snd (deliver_backup E user senders rec st))"
  by (auto simp: deliver_backup_def case_prod_beta Let_def send_all_eq gw_flow_same)

lemma flow_deliver_fetched: "gw_flow (snd st) (snd (deliver_fetched E user senders p st))"
  by (auto simp: deliver_fetched_def case_prod_beta Let_def send_all_eq gw_flow_same)

lemma flow_retrieved: "gw_flow g (on_mailbox_retrieved E user messages g)"
proof -
  define ps where "ps = snd (handle_retrieval_result (ge_wire E) [] user messages)"
  obtain db1 recs where r: "(if ps = [] then read_sled_backup (ge_wire E) (ge_sled E) (gw_db g) user
      else (gw_db g, [])) = (db1, recs)" by fastforce
  let ?g0 = "g\<lparr>gw_db := db1\<rparr>"
  have g0: "gw_flow g ?g0" by (simp add: gw_flow_same)
  show ?thesis
  proof (cases "gw_clients ?g0 user")
    case None
    then show ?thesis
      using g0 by (simp add: on_mailbox_retrieved_def ps_def[symmetric] r Let_def)
  next
    case (Some senders)
    obtain r1 g1 where f1: "fold (deliver_backup E user senders) recs
        (\<lparr>rv_remove = [], rv_delivered = 0, rv_dupes = 0\<rparr>, ?g0) = (r1, g1)" by fastforce
    obtain r2 g2 where f2: "fold (deliver_fetched E user senders) ps (r1, g1) = (r2, g2)" by fastforce
    have "gw_flow ?g0 g1"
      using gw_flow_fold[of snd "deliver_backup E user senders", OF flow_deliver_backup] f1 by (metis snd_conv)
    moreover have "gw_flow g1 g2"
      using gw_flow_fold[of snd "deliver_fetched E user senders", OF flow_deliver_fetched] f2 by (metis snd_conv)
    ultimately have g2: "gw_flow g g2" using gw_flow_trans[OF g0] gw_flow_trans by blast
    have "gw_clients g user = Some senders" using Some by simp
    then show ?thesis
      using g0 g2 by (simp add: on_mailbox_retrieved_def ps_def[symmetric] r f1 f2 Let_def gw_flow_upd split: option.split)
  qed
qed

lemma flow_event: "gw_flow g (handle_p2p_event E users ev g)"
  using flow_message_received flow_broadcast flow_retrieved
  by (cases ev) (auto simp: handle_p2p_event_def set_connected_bootstrap_def gw_flow_same)

text \<open>Every step of the server but the closing of a channel.\<close>

lemma node_turn_gateway:
  "node_turn E now conn inp s = Some s' \<Longrightarrow> \<exists>db. sv_gw s' = (sv_gw s)\<lparr>gw_db := db\<rparr> \<and> sv_owner s' = sv_owner s"
  by (auto simp: node_turn_def)

lemma flow_open: "gw_flow (sv_gw s) (sv_gw (open_socket G now ch msg s))"
  using flow_connect by (auto simp: open_socket_def register_message_def split: prod.split option.split ws_message.splits if_splits)

lemma flow_background:
  assumes "server_step Z inp s = Some s'" "background inp"
  shows "gw_flow (sv_gw s) (sv_gw s') \<and> sv_owner s' = sv_owner s"
proof (cases inp)
  case (Loops now conn i)
  then show ?thesis
    using assms node_turn_gateway[of "se_node Z" now conn i s s'] by (auto simp: server_step_def gw_flow_same)
next
  case (Takes now conn)
  then show ?thesis
    using assms node_turn_gateway[of "se_node Z" now conn _ "s\<lparr>sv_taken := Suc (sv_taken s)\<rparr>" s']
    by (fastforce simp: server_step_def gw_flow_same split: if_splits)
next
  case (Reports users)
  then show ?thesis using assms flow_event by (auto simp: server_step_def split: if_splits)
qed (use assms in \<open>simp_all add: background_def\<close>)

end
