(* ===== verification/Forward_Theorems.thy ===== *)
theory Forward_Theorems
  imports Forward_Flow Server_Theorems
begin

text \<open>
  Properties of the forwarding tasks: each writes the payloads its channel accepted in order and at
  most once, whatever the other tasks do; what the server promises up to the channel therefore holds
  up to the socket, as long as the task is alive; and what a task has not written when it ends is
  lost.
\<close>

section \<open>What a task has written\<close>

fun written :: "ws_frame list \<Rightarrow> bytes list" where
  "written [] = []"
| "written (BinaryFrame d # fs) = d # written fs"
| "written (PingFrame # fs) = written fs"

lemma written_append [simp]: "written (xs @ ys) = written xs @ written ys"
  by (induction xs rule: written.induct) simp_all

lemma set_written: "d \<in> set (written fs) \<longleftrightarrow> BinaryFrame d \<in> set fs"
  by (induction fs rule: written.induct) auto

definition in_hand :: "forward \<Rightarrow> bytes list" where
  "in_hand f = (case fw_phase f of Sending fr \<Rightarrow> written [fr] | _ \<Rightarrow> [])"

definition at_work :: "forward \<Rightarrow> bool" where
  "at_work f = (case fw_phase f of Selecting \<Rightarrow> True | Sending fr \<Rightarrow> True | _ \<Rightarrow> False)"

lemma at_work_simps [simp]:
  "fw_phase f = Selecting \<Longrightarrow> at_work f" "fw_phase f = Sending fr \<Longrightarrow> at_work f"
  "fw_phase f = Leaving \<Longrightarrow> \<not> at_work f" "fw_phase f = Pruned \<Longrightarrow> \<not> at_work f" "fw_phase f = Finished \<Longrightarrow> \<not> at_work f"
  by (simp_all add: at_work_def)

lemma in_hand_simps [simp]:
  "fw_phase f = Selecting \<Longrightarrow> in_hand f = []" "fw_phase f = Sending fr \<Longrightarrow> in_hand f = written [fr]"
  "\<not> at_work f \<Longrightarrow> in_hand f = []"
  by (simp_all add: in_hand_def at_work_def split: forward_phase.splits)

definition task_ok :: "'db gateway \<Rightarrow> nat \<Rightarrow> forward \<Rightarrow> bool" where
  "task_ok g ch f \<longleftrightarrow>
     fw_taken f \<le> length (channel_log ch g) \<and>
     (\<exists>lost. written (fw_wire f) @ in_hand f @ lost = take (fw_taken f) (channel_log ch g) \<and>
        length lost \<le> (if at_work f then 0 else 1)) \<and>
     (gw_alive g ch \<longleftrightarrow> fw_phase f \<noteq> Finished) \<and>
     (fw_phase f \<noteq> Finished \<longrightarrow> ch \<in> set (live_channels g (fw_session f)))"

definition sockets_inv :: "('db, 'q, 'n) sockets \<Rightarrow> bool" where
  "sockets_inv k \<longleftrightarrow>
     (\<forall>ch. sk_tasks k ch = None \<longrightarrow> sv_owner (sk_server k) ch = None \<and> gw_alive (sv_gw (sk_server k)) ch) \<and>
     (\<forall>ch f. sk_tasks k ch = Some f \<longrightarrow>
        sv_owner (sk_server k) ch = Some (fw_session f) \<and> task_ok (sv_gw (sk_server k)) ch f)"

lemma channel_log_prefix: "prefix (gw_sent g) (gw_sent g') \<Longrightarrow> prefix (channel_log ch g) (channel_log ch g')"
  by (auto simp: channel_log_def prefix_def)

lemma task_ok_flow:
  assumes fl: "gw_flow g g'" and ok: "task_ok g ch f"
  shows "task_ok g' ch f"
proof -
  obtain xs where xs: "channel_log ch g' = channel_log ch g @ xs"
    using fl channel_log_prefix[of g g' ch] by (auto simp: gw_flow_def prefix_def)
  then have "take (fw_taken f) (channel_log ch g') = take (fw_taken f) (channel_log ch g)"
    using ok by (simp add: task_ok_def)
  with ok fl xs show ?thesis by (auto simp: task_ok_def gw_flow_def)
qed

lemma inv_gateway:
  assumes "sockets_inv k" "gw_flow (sv_gw (sk_server k)) (sv_gw s)" "sv_owner s = sv_owner (sk_server k)"
  shows "sockets_inv (k\<lparr>sk_server := s\<rparr>)"
  using assms task_ok_flow[OF assms(2)] by (auto simp: sockets_inv_def gw_flow_def)

lemma inv_task:
  assumes "sockets_inv k" "sk_tasks k ch = Some f" "fw_session f' = fw_session f"
    and "task_ok (sv_gw (sk_server k)) ch f \<Longrightarrow> task_ok (sv_gw (sk_server k)) ch f'"
  shows "sockets_inv (k\<lparr>sk_tasks := (sk_tasks k)(ch \<mapsto> f')\<rparr>)"
  using assms by (simp add: sockets_inv_def)

lemma inv_both:
  assumes "sockets_inv k" "sk_tasks k ch = Some f" "fw_session f' = fw_session f"
    and "gw_flow (sv_gw (sk_server k)) (sv_gw s)" "sv_owner s = sv_owner (sk_server k)"
    and "task_ok (sv_gw s) ch f \<Longrightarrow> task_ok (sv_gw s) ch f'"
  shows "sockets_inv (k\<lparr>sk_server := s, sk_tasks := (sk_tasks k)(ch \<mapsto> f')\<rparr>)"
  using inv_task[of "k\<lparr>sk_server := s\<rparr>" ch f f'] inv_gateway[OF assms(1,4,5)] assms(2,3,6) by simp

lemma task_receive_ok: "task_ok g ch f \<Longrightarrow> task_ok g ch (forward_receive (channel_log ch g) f)"
  by (auto simp: task_ok_def forward_receive_def in_hand_def at_work_def take_Suc_conv_app_nth split: forward_phase.splits if_splits)

lemma task_ping_ok: "task_ok g ch f \<Longrightarrow> task_ok g ch (forward_ping ms f)"
  by (auto simp: task_ok_def forward_ping_def in_hand_def at_work_def)

lemma written_one: "length (written [fr]) \<le> 1"
  by (cases fr) simp_all

lemma task_sent_ok: "task_ok g ch f \<Longrightarrow> task_ok g ch (forward_sent ok f)"
  using written_one by (auto simp: task_ok_def forward_sent_def in_hand_def at_work_def split: forward_phase.splits)

text \<open>A channel whose task is in its loop is registered, so its end is never seen.\<close>

lemma registered_not_ended: "ch \<in> set (live_channels g (fw_session f)) \<Longrightarrow> \<not> channel_ended ch g f"
  by (auto simp: live_channels_def channel_ended_def split: option.splits)

lemma task_ends_ok: "task_ok g ch f \<Longrightarrow> forward_ends ch g f = f"
  using registered_not_ended[of ch g f] by (auto simp: task_ok_def forward_ends_def)

lemma task_phase_ok:
  assumes "task_ok g ch f" "fw_phase f \<noteq> Finished" "f' = f\<lparr>fw_phase := ph\<rparr>" "ph = Leaving \<or> ph = Pruned"
  shows "task_ok g ch f'"
proof -
  obtain lost where l: "written (fw_wire f) @ in_hand f @ lost = take (fw_taken f) (channel_log ch g)"
    "length lost \<le> (if at_work f then 0 else 1)" using assms(1) by (auto simp: task_ok_def)
  have "length (in_hand f @ lost) \<le> 1"
    using l(2) written_one by (cases "fw_phase f") (auto split: if_splits)
  then show ?thesis
    using assms l(1) by (auto simp: task_ok_def at_work_def in_hand_def)
qed

lemma task_drop_ok:
  assumes "task_ok g ch f" "f' = f\<lparr>fw_phase := Finished\<rparr>"
  shows "task_ok (close_channel ch g) ch f'"
proof -
  obtain lost where l: "written (fw_wire f) @ in_hand f @ lost = take (fw_taken f) (channel_log ch g)"
    "length lost \<le> (if at_work f then 0 else 1)" using assms(1) by (auto simp: task_ok_def)
  have "length (in_hand f @ lost) \<le> 1"
    using l(2) written_one by (cases "fw_phase f") (auto split: if_splits)
  then show ?thesis
    using assms l(1) by (auto simp: task_ok_def at_work_def in_hand_def close_channel_def channel_log_def)
qed

lemma close_other: "task_ok g c f \<Longrightarrow> c \<noteq> ch \<Longrightarrow> task_ok (close_channel ch g) c f"
  by (auto simp: task_ok_def close_channel_def channel_log_def live_channels_def split: option.splits)

text \<open>Every step keeps the invariant.\<close>

lemma opens_inv:
  assumes inv: "sockets_inv k"
  shows "sockets_inv (socket_opens G now ms ch msg k)"
proof (cases "sv_owner (sk_server k) ch")
  case None
  let ?s = "open_socket G now ch msg (sk_server k)"
  have free: "sk_tasks k ch = None" "gw_alive (sv_gw (sk_server k)) ch"
    using inv None by (cases "sk_tasks k ch"; force simp: sockets_inv_def)+
  have fl: "gw_flow (sv_gw (sk_server k)) (sv_gw ?s)" by (rule flow_open)
  show ?thesis
  proof (cases "sv_owner ?s ch")
    case None
    then have "sv_owner ?s = sv_owner (sk_server k)"
      by (auto simp: open_socket_def split: prod.splits option.splits if_splits)
    then show ?thesis
      using inv_gateway[OF inv fl] None \<open>sv_owner (sk_server k) ch = None\<close> by (simp add: socket_opens_def Let_def)
  next
    case (Some u)
    then have u: "u \<noteq> []" "msg = Binary u" "sv_owner ?s = (sv_owner (sk_server k))(ch \<mapsto> u)"
      "sv_gw ?s = connect_client G now u ch (sv_gw (sk_server k))"
      using \<open>sv_owner (sk_server k) ch = None\<close>
      by (auto simp: open_socket_def register_message_def split: ws_message.splits if_splits)
    have "task_ok (sv_gw ?s) ch (forward_start ms u)"
      using connect_live_channel[OF u(1) free(2), of G now] free(2) fl
      by (simp add: task_ok_def forward_start_def in_hand_def at_work_def gw_flow_def u(4))
    then show ?thesis
      using inv fl u(3) \<open>sv_owner (sk_server k) ch = None\<close> task_ok_flow[OF fl]
      by (simp add: sockets_inv_def socket_opens_def Let_def forward_start_def gw_flow_def)
  qed
qed (use inv in \<open>simp add: socket_opens_def\<close>)

lemma says_inv:
  assumes inv: "sockets_inv k"
  shows "sockets_inv (socket_says G P clk token ch msg k)"
proof (cases "sk_tasks k ch")
  case (Some f)
  let ?s = "sk_server k"
  obtain n g where c: "client_message G P clk token (fw_session f) msg (sv_store ?s) (sv_gw ?s) = (n, g)" by fastforce
  have fl: "gw_flow (sv_gw ?s) (sv_gw (?s\<lparr>sv_store := n, sv_gw := g\<rparr>))"
    using flow_client_message[of "sv_gw ?s" G P clk token "fw_session f" msg "sv_store ?s"] by (simp add: c)
  show ?thesis
    using inv inv_gateway[OF inv fl] inv_both[OF inv Some _ fl, of "f\<lparr>fw_reading := False, fw_aborted := True\<rparr>"]
    by (auto simp: socket_says_def Some c Let_def task_ok_def in_hand_def at_work_def)
qed (use inv in \<open>simp add: socket_says_def\<close>)

lemma task_inv:
  assumes inv: "sockets_inv k"
    and op: "\<And>g f. fw_session (op g f) = fw_session f" "\<And>g f. task_ok g ch f \<Longrightarrow> task_ok g ch (op g f)"
  shows "sockets_inv (task_step op ch k)"
  using inv inv_task[OF inv _ op(1)] op(2) by (cases "sk_tasks k ch") (simp_all add: task_step_def)

lemma prunes_inv:
  assumes inv: "sockets_inv k"
  shows "sockets_inv (task_prunes ch k)"
proof (cases "sk_tasks k ch")
  case (Some f)
  let ?s = "(sk_server k)\<lparr>sv_gw := prune_client (fw_session f) (sv_gw (sk_server k))\<rparr>"
  have "gw_flow (sv_gw (sk_server k)) (sv_gw ?s)" using flow_prune by simp
  then show ?thesis
    using inv inv_both[OF inv Some, of "f\<lparr>fw_phase := Pruned\<rparr>" ?s]
      task_phase_ok[of "sv_gw ?s" ch f "f\<lparr>fw_phase := Pruned\<rparr>" Pruned]
    by (cases "fw_phase f = Leaving") (simp_all add: task_prunes_def Some)
qed (use inv in \<open>simp add: task_prunes_def\<close>)

lemma drops_inv:
  assumes inv: "sockets_inv k"
  shows "sockets_inv (task_drops ch k)"
proof (cases "sk_tasks k ch")
  case (Some f)
  let ?g = "sv_gw (sk_server k)"
  have one: "task_ok (close_channel ch ?g) ch (f\<lparr>fw_phase := Finished\<rparr>)"
    using task_drop_ok[of ?g ch f] inv Some by (simp add: sockets_inv_def)
  have others: "task_ok (close_channel ch ?g) c h" if "sk_tasks k c = Some h" "c \<noteq> ch" for c h
    using close_other[of ?g c h ch] that inv by (simp add: sockets_inv_def)
  have alive: "gw_alive (close_channel ch ?g) c = gw_alive ?g c" if "c \<noteq> ch" for c
    using that by (simp add: close_channel_def)
  show ?thesis
    using inv Some one others alive by (auto simp: task_drops_def sockets_inv_def)
qed (use inv in \<open>simp add: task_drops_def\<close>)

lemma sockets_step_inv:
  assumes inv: "sockets_inv k" and r: "sockets_step Z inp k = Some k'"
  shows "sockets_inv k'"
proof (cases inp)
  case (Background i)
  then show ?thesis
    using assms flow_background[of Z i "sk_server k"] inv_gateway[OF inv] by (auto simp: sockets_step_def split: if_splits)
next
  case (TaskReceives ch)
  have "sockets_inv (task_step (\<lambda>g. forward_receive (channel_log ch g)) ch k)"
    by (rule task_inv[OF inv]) (simp add: forward_receive_def, rule task_receive_ok)
  then show ?thesis using r by (simp add: sockets_step_def TaskReceives)
next
  case (TaskPings ms ch)
  have "sockets_inv (task_step (\<lambda>g. forward_ping ms) ch k)"
    by (rule task_inv[OF inv]) (simp add: forward_ping_def, rule task_ping_ok)
  then show ?thesis using r by (simp add: sockets_step_def TaskPings)
next
  case (SinkDone ok ch)
  have "sockets_inv (task_step (\<lambda>g. forward_sent ok) ch k)"
    by (rule task_inv[OF inv]) (simp add: forward_sent_def split: forward_phase.split, rule task_sent_ok)
  then show ?thesis using r by (simp add: sockets_step_def SinkDone)
next
  case (ChannelEnds ch)
  have "sockets_inv (task_step (forward_ends ch) ch k)"
    by (rule task_inv[OF inv]) (simp add: forward_ends_def, simp add: task_ends_ok)
  then show ?thesis using r by (simp add: sockets_step_def ChannelEnds)
qed (use assms opens_inv says_inv prunes_inv drops_inv in \<open>auto simp: sockets_step_def\<close>)

interpretation sockets_machine: machine "sockets_step Z" sockets_inv
  by unfold_locales (rule sockets_step_inv)

lemma sockets_start_inv: "sockets_inv (sockets_start db dials n E)"
  by (simp add: sockets_inv_def sockets_start_def server_start_def gateway_start_def)


text \<open>A server with one message for a user in its mailbox, for the examples.\<close>

definition demo_sockets :: "(toy_db, nat, bytes \<rightharpoonup> bytes) sockets" where
  "demo_sockets = sockets_start demo_db [] Map.empty demo_node_env"

lemma demo_connects:
  obtains k where "run_steps (sockets_step demo_server_env) [SocketOpens 0 0 3 (Binary demo_user)] demo_sockets = Some k"
    "sk_tasks k 3 = Some (forward_start 0 demo_user)"
proof -
  let ?k = "socket_opens (se_gw demo_server_env) 0 0 3 (Binary demo_user) demo_sockets"
  have "run_steps (sockets_step demo_server_env) [SocketOpens 0 0 3 (Binary demo_user)] demo_sockets = Some ?k"
    by (simp add: sockets_step_def)
  moreover have "sk_tasks ?k 3 = Some (forward_start 0 demo_user)"
    by (simp add: socket_opens_def demo_sockets_def sockets_start_def server_start_def open_socket_def
        register_message_def demo_user_def Let_def)
  ultimately show ?thesis by (rule that)
qed

section \<open>Theorems\<close>

text \<open>The connections with their forwarding tasks refine the server model, in which channels close
  by themselves: every run of opening sockets, client messages, steps of the tasks and of the rest
  of the server is a run of the server model, with the closings and prunings where the tasks do
  them, and both have the same server state. So every theorem about all runs of the server model
  holds of the real connections.\<close>

theorem connections_refine_server:
  assumes "run_steps (sockets_step Z) ins (sockets_start db dials n E) = Some k"
  shows "run_steps (server_step Z) (server_run_inputs Z ins (sockets_start db dials n E))
    (server_start db (\<lambda>ch. True) dials n E) = Some (sk_server k)"
  using sockets_run_server[OF assms] by (simp add: sockets_start_def)

theorem connections_refine_server_witness:
  "\<exists>k. run_steps (sockets_step demo_server_env) [SocketOpens 0 0 3 (Binary demo_user)] demo_sockets = Some k \<and>
    run_steps (server_step demo_server_env) [Opens 0 3 (Binary demo_user)] demo_server = Some (sk_server k)"
proof -
  obtain k where k: "run_steps (sockets_step demo_server_env) [SocketOpens 0 0 3 (Binary demo_user)] demo_sockets = Some k"
    by (rule demo_connects)
  have "server_run_inputs demo_server_env [SocketOpens 0 0 3 (Binary demo_user)] demo_sockets = [Opens 0 3 (Binary demo_user)]"
    by (simp add: server_inputs_def split: option.split)
  then show ?thesis
    using k connections_refine_server[OF k[unfolded demo_sockets_def]] by (auto simp: demo_sockets_def demo_server_def)
qed

text \<open>C8: A socket carries what its channel accepted. In every run of the server from its start, with
  any number of connections, any interleaving, failing writes, aborts and closings: the payloads
  written to a socket, then the one in the task's hands, then those it has not received yet are the
  payloads its channel accepted, in order, each once; pings in between change nothing; only a task
  that has left its loop may have lost one payload in a failed write. The channel is open exactly as
  long as the task has not dropped it, and never ends before: the task's branch for an ended channel
  is never taken.\<close>

theorem forwarding_fifo:
  assumes run: "run_steps (sockets_step Z) ins (sockets_start db dials n E) = Some k"
    and f: "sk_tasks k ch = Some f"
  shows "let g = sv_gw (sk_server k); log = channel_log ch g in
    (\<exists>lost. written (fw_wire f) @ in_hand f @ lost @ drop (fw_taken f) log = log \<and>
       length lost \<le> (if at_work f then 0 else 1)) \<and>
    (gw_alive g ch \<longleftrightarrow> fw_phase f \<noteq> Finished) \<and> (fw_phase f \<noteq> Finished \<longrightarrow> \<not> channel_ended ch g f)"
proof -
  let ?g = "sv_gw (sk_server k)"
  have ok: "task_ok ?g ch f"
    using sockets_machine.run_inv[OF run sockets_start_inv] f by (simp add: sockets_inv_def)
  then obtain lost where l: "written (fw_wire f) @ in_hand f @ lost = take (fw_taken f) (channel_log ch ?g)"
    "length lost \<le> (if at_work f then 0 else 1)" by (auto simp: task_ok_def)
  have "written (fw_wire f) @ in_hand f @ lost @ drop (fw_taken f) (channel_log ch ?g) = channel_log ch ?g"
    using arg_cong[OF l(1), of "\<lambda>xs. xs @ drop (fw_taken f) (channel_log ch ?g)"] by simp
  then show ?thesis using ok l(2) registered_not_ended[of ch ?g f] by (auto simp: task_ok_def Let_def)
qed

theorem forwarding_fifo_witness:
  "\<exists>k. run_steps (sockets_step demo_server_env) [SocketOpens 0 0 3 (Binary demo_user)] demo_sockets = Some k \<and>
    sk_tasks k 3 = Some (forward_start 0 demo_user) \<and> gw_alive (sv_gw (sk_server k)) 3 \<and>
    \<not> channel_ended 3 (sv_gw (sk_server k)) (forward_start 0 demo_user)"
proof -
  obtain k where k: "run_steps (sockets_step demo_server_env) [SocketOpens 0 0 3 (Binary demo_user)] demo_sockets = Some k"
    "sk_tasks k 3 = Some (forward_start 0 demo_user)" by (rule demo_connects)
  have "fw_phase (forward_start 0 demo_user) = Selecting" by (simp add: forward_start_def)
  then show ?thesis using k forwarding_fifo[OF k(1)[unfolded demo_sockets_def] k(2)] by (simp add: Let_def)
qed

lemma server_run_inputs_append:
  "run_steps (sockets_step Z) is k = Some k' \<Longrightarrow>
    server_run_inputs Z (is @ js) k = server_run_inputs Z is k @ server_run_inputs Z js k'"
  by (induction "is" arbitrary: k) (auto split: option.split simp: bind_eq_Some_conv)

lemma server_run_inputs_length: "length (server_run_inputs Z is k) \<le> length is"
proof (induction "is" arbitrary: k)
  case (Cons i "is")
  have "length (server_inputs i k) \<le> 1" by (simp add: server_inputs_def split: socket_input.split option.split)
  with Cons[of "the (sockets_step Z i k)"] show ?case by (auto split: option.split)
qed simp

text \<open>What a task that is in its loop has accepted is on the socket, in its hands or waiting.\<close>

lemma accepted_accounted:
  assumes ok: "task_ok g ch f" and q: "(ch, q) \<in> set (gw_sent g)"
  shows "BinaryFrame q \<in> set (fw_wire f) \<or> (at_work f \<and> q \<in> set (in_hand f @ drop (fw_taken f) (channel_log ch g))) \<or>
    \<not> at_work f"
proof (cases "at_work f")
  case True
  then have "written (fw_wire f) @ in_hand f = take (fw_taken f) (channel_log ch g)"
    using ok by (auto simp: task_ok_def)
  then have "channel_log ch g = (written (fw_wire f) @ in_hand f) @ drop (fw_taken f) (channel_log ch g)" by simp
  moreover have "q \<in> set (channel_log ch g)" using q by (force simp: channel_log_def)
  ultimately have "q \<in> set ((written (fw_wire f) @ in_hand f) @ drop (fw_taken f) (channel_log ch g))" by metis
  then show ?thesis using True set_written by auto
qed simp

text \<open>C3: No message is lost on its way to the socket, in a calm run of the server with its connections
  and forwarding tasks: clients connect with session ids of at least 32 bytes, a retrieval reports a
  user id of at least 32 bytes, every event of the node is handled while each registered session has
  a live connection, and the backup's numbers stay below their bound. In such a run a record of the
  mailbox backup that opens to a payload at some moment is still there at every later moment, or a
  payload with its hash was delivered before the start, or the channel of a connection of a session
  whose id is a prefix of the record's key has accepted a payload with its hash, and that payload is
  written to the socket, in the hands or the queue of the forwarding task, or the task that had it
  has left its loop. Outside such runs \<open>failed_lookup_wipes_mailboxes\<close> and
  \<open>closed_connection_swallows\<close> show what gets lost.\<close>

theorem no_message_lost_to_socket:
  assumes Z: "server_env_ok Z"
    and run: "run_steps (sockets_step Z) ins1 (sockets_start db dials st (se_node Z)) = Some k1"
      "run_steps (sockets_step Z) ins2 k1 = Some k2"
    and calm: "calm_run Z (server_run_inputs Z (ins1 @ ins2) (sockets_start db dials st (se_node Z)))
      (server_start db (\<lambda>ch. True) dials st (se_node Z))"
    and numbers: "\<forall>u s. backup_has (se_node Z) db u s \<longrightarrow> unat s \<le> n" "n + 10 * length (ins1 @ ins2) + 11 < 2 ^ 64"
    and rec: "sl_get (ge_sled (se_gw Z)) (gw_db (sv_gw (sk_server k1))) SLED_MAILBOX_TREE k = Some raw" "32 \<le> length k"
      "record_payload (ge_wire (se_gw Z)) (take 32 k) raw = Some p"
  shows "sl_get (ge_sled (se_gw Z)) (gw_db (sv_gw (sk_server k2))) SLED_MAILBOX_TREE k = Some raw \<or>
    (\<exists>v. prefix v k \<and>
       (payload_hash (ge_wire (se_gw Z)) p \<in> set (load_delivered_hashes (ge_wire (se_gw Z)) (ge_sled (se_gw Z)) db v) \<or>
        (\<exists>ch f q. sk_tasks k2 ch = Some f \<and> fw_session f = v \<and>
           payload_hash (ge_wire (se_gw Z)) q = payload_hash (ge_wire (se_gw Z)) p \<and>
           q \<in> set (channel_log ch (sv_gw (sk_server k2))) \<and>
           (BinaryFrame q \<in> set (fw_wire f) \<or>
            at_work f \<and> q \<in> set (in_hand f @ drop (fw_taken f) (channel_log ch (sv_gw (sk_server k2)))) \<or>
            \<not> at_work f))))"
proof -
  let ?k0 = "sockets_start db dials st (se_node Z)"
  let ?i1 = "server_run_inputs Z ins1 ?k0" and ?i2 = "server_run_inputs Z ins2 k1"
  have all: "server_run_inputs Z (ins1 @ ins2) ?k0 = ?i1 @ ?i2" by (rule server_run_inputs_append[OF run(1)])
  have r1: "run_steps (server_step Z) ?i1 (server_start db (\<lambda>ch. True) dials st (se_node Z)) = Some (sk_server k1)"
    using sockets_run_server[OF run(1)] by (simp add: sockets_start_def)
  have len: "length (?i1 @ ?i2) \<le> length (ins1 @ ins2)"
    using server_run_inputs_length[of Z "ins1 @ ins2" ?k0] by (simp add: all)
  have inv: "sockets_inv k2"
    using sockets_machine.run_inv[OF run(2)] sockets_machine.run_inv[OF run(1) sockets_start_inv] by blast
  note kept = stored_message_kept[OF Z r1 sockets_run_server[OF run(2)] calm[unfolded all] numbers(1) _ rec]
  have task: "\<exists>f. sk_tasks k2 ch = Some f \<and> fw_session f = v \<and> q \<in> set (channel_log ch (sv_gw (sk_server k2))) \<and>
      (BinaryFrame q \<in> set (fw_wire f) \<or>
       at_work f \<and> q \<in> set (in_hand f @ drop (fw_taken f) (channel_log ch (sv_gw (sk_server k2)))) \<or> \<not> at_work f)"
    if c: "(ch, q) \<in> set (gw_sent (sv_gw (sk_server k2)))" "sv_owner (sk_server k2) ch = Some v" for ch q v
  proof -
    obtain f where f: "sk_tasks k2 ch = Some f" using inv c(2) by (cases "sk_tasks k2 ch") (auto simp: sockets_inv_def)
    then have "fw_session f = v" "task_ok (sv_gw (sk_server k2)) ch f" using inv c(2) by (auto simp: sockets_inv_def)
    moreover have "q \<in> set (channel_log ch (sv_gw (sk_server k2)))" using c(1) by (force simp: channel_log_def)
    ultimately show ?thesis using f accepted_accounted[OF _ c(1)] by blast
  qed
  have "n + 10 * length (?i1 @ ?i2) + 11 < 2 ^ 64" using len numbers(2) by linarith
  from kept[OF this] show ?thesis
  proof (elim disjE exE conjE, goal_cases)
    case (3 v ch q)
    then show ?case using task[of ch q v] by blast
  qed blast+
qed

theorem no_message_lost_to_socket_witness:
  "\<exists>k. run_steps (sockets_step demo_server_env) [SocketOpens 0 0 3 (Binary demo_user)] demo_sockets = Some k \<and>
    (sl_get toy_sled (gw_db (sv_gw (sk_server k))) SLED_MAILBOX_TREE (seq_be_key demo_user 1) = Some [5] \<or>
     (\<exists>ch f q. sk_tasks k ch = Some f \<and> prefix (fw_session f) (seq_be_key demo_user 1) \<and>
        payload_hash toy_wire q = payload_hash toy_wire [5] \<and> q \<in> set (channel_log ch (sv_gw (sk_server k)))))"
proof -
  let ?i = "[SocketOpens 0 0 3 (Binary demo_user)] :: nat socket_input list"
  have env: "ge_sled (se_gw demo_server_env) = toy_sled" "ge_wire (se_gw demo_server_env) = toy_wire"
    "se_node demo_server_env = demo_node_env"
    by (simp_all add: demo_server_env_def demo_env_def)
  obtain k where k: "run_steps (sockets_step demo_server_env) ?i demo_sockets = Some k" by (rule demo_connects)
  have "server_run_inputs demo_server_env ([] @ ?i) demo_sockets = [Opens 0 3 (Binary demo_user)]"
    by (simp add: server_inputs_def split: option.split)
  then have c: "calm_run demo_server_env (server_run_inputs demo_server_env ([] @ ?i) demo_sockets) demo_server"
    by (simp add: calm_def demo_node_ok(2) split: option.split)
  have n: "(1 :: nat) + 10 * length ([] @ ?i) + 11 < 2 ^ 64" by simp
  have b: "\<forall>u s. backup_has demo_node_env demo_db u s \<longrightarrow> unat s \<le> 1" by (simp add: demo_db_has)
  have rec: "sl_get toy_sled (gw_db (sv_gw (sk_server demo_sockets))) SLED_MAILBOX_TREE (seq_be_key demo_user 1) = Some [5]"
    using demo_db_get[of "seq_be_key demo_user 1"]
    by (simp add: demo_sockets_def sockets_start_def server_start_def gateway_start_def demo_node_env_def)
  have l: "32 \<le> length (seq_be_key demo_user 1)" by (simp add: seq_be_key_def demo_user_def)
  have p: "record_payload toy_wire (take 32 (seq_be_key demo_user 1)) [5] = Some [5]"
    using demo_short_records by (simp add: record_payload_def demo_node_env_def)
  have old: "load_delivered_hashes toy_wire toy_sled demo_db v = []" for v
    by (simp add: load_delivered_hashes_def toy_sled_def demo_db_def toy_norm_def bt_wf_def bt_get_def
        SLED_DELIVERED_TREE_def SLED_MAILBOX_TREE_def)
  have start: "sockets_start demo_db [] Map.empty demo_node_env = demo_sockets"
    "server_start demo_db (\<lambda>ch. True) [] Map.empty demo_node_env = demo_server"
    by (simp_all add: demo_sockets_def demo_server_def)
  show ?thesis
    using no_message_lost_to_socket[OF demo_server_env_ok, of "[]" demo_db "[]" Map.empty demo_sockets ?i k 1
        "seq_be_key demo_user 1" "[5]" "[5]", unfolded env start]
      k c n rec l p b
    by (auto simp: old)
qed

section \<open>What a task has not written\<close>

text \<open>
  A first connection drains the mailbox, ends, and a second one opens: the mailbox is empty, nothing
  is sent, and the payload stays marked.
\<close>

lemma connect_mailbox:
  assumes E: "env_wf E" and mb: "gw_mailbox g" and u: "u \<noteq> []" and ch: "gw_alive g ch"
  shows "gw_mailbox (connect_client E now u ch g)"
proof -
  let ?r = "register_client E now u ch g"
  note reg = register_fields[OF mb, of E now u ch]
  obtain db1 recs where r: "read_sled_backup (ge_wire E) (ge_sled E) (gw_db ?r) u = (db1, recs)" by fastforce
  have "live_channels ?r u \<noteq> []" using reg(1) ch by simp
  then obtain hs db sent d where "drain_local E u ?r = ?r\<lparr>gw_sent := sent, gw_db := db, gw_delivered := d\<rparr>"
    using drain_live[OF E reg(5) _ r] by metis
  then have "gw_mailbox (drain_local E u ?r)" using reg(5) by simp
  then show ?thesis using u by (simp add: connect_client_def)
qed

lemma reconnect_finds_nothing:
  fixes t' :: rat
  assumes G: "env_wf G" and g: "gw_mailbox g" "gw_alive g ch" "gw_alive g ch2" "ch2 \<noteq> ch" "live_channels g u = []" "u \<noteq> []"
    and k: "prefix u k" "sl_get (ge_sled G) (gw_db g) SLED_MAILBOX_TREE k = Some raw"
      "record_payload (ge_wire G) u raw = Some p" "payload_hash (ge_wire G) p \<notin> set (persisted G g u)"
    and coll: "\<forall>k v q. prefix u k \<and> mail G g k = Some v \<and> record_payload (ge_wire G) u v = Some q \<and>
      payload_hash (ge_wire G) q = payload_hash (ge_wire G) p \<longrightarrow> q = p"
    and few: "length (hashes_of (gw_delivered (connect_client G t u ch g)) u) \<le> MAX_PERSISTED_HASHES"
  defines "g1 \<equiv> connect_client G t u ch g"
    and "g3 \<equiv> connect_client G t' u ch2 (close_channel ch (disconnect_client G u (connect_client G t u ch g)))"
  shows "\<exists>sent. gw_sent g1 = gw_sent g @ map (Pair ch) sent \<and> p \<in> set sent" "gw_sent g3 = gw_sent g1" "prefix u j \<Longrightarrow> mail G g3 j = None"
    "payload_hash (ge_wire G) p \<in> set (hashes_of (gw_delivered g3) u)"
proof -
  let ?h = "payload_hash (ge_wire G) p"
  define g2 where "g2 = close_channel ch (disconnect_client G u g1)"
  have S: "sled_ok (ge_sled G)" using G by (simp add: env_wf_def)
  have "\<exists>sent. gw_sent g1 = gw_sent g @ map (Pair ch) sent \<and> p \<in> set sent \<and> (\<forall>k. prefix u k \<longrightarrow> mail G g1 k = None)"
    unfolding g1_def
  proof (rule connect_delivers[OF G g(1,2,5,6) k, where t = t])
    show "q = p" if "prefix u k'" "mail G g k' = Some v" "record_payload (ge_wire G) u v = Some q"
      "payload_hash (ge_wire G) q = payload_hash (ge_wire G) p" for k' v q
      using coll that by blast
  qed blast
  then obtain sent where sent: "gw_sent g1 = gw_sent g @ map (Pair ch) sent" "p \<in> set sent"
    "\<And>k. prefix u k \<Longrightarrow> mail G g1 k = None" by blast
  then show "\<exists>sent. gw_sent g1 = gw_sent g @ map (Pair ch) sent \<and> p \<in> set sent" by blast
  obtain db1 recs where r: "read_sled_backup (ge_wire G) (ge_sled G) (gw_db g) u = (db1, recs)" by fastforce
  have "(k, p) \<in> set recs" using read_backup_spec(1)[OF S r] k by blast
  then have h1: "?h \<in> set (hashes_of (gw_delivered g1) u)"
    using connect_live(2)[OF G g(1,6,2) r, of t] unfolding g1_def by force
  then obtain hs where hs: "gw_delivered g1 u = Some hs" "length hs \<le> MAX_PERSISTED_HASHES" "?h \<in> set hs"
    using few by (auto simp: hashes_of_def g1_def split: option.splits)
  have fl: "gw_flow g g1" unfolding g1_def by (rule flow_connect)
  have mb: "gw_mailbox g1" unfolding g1_def by (rule connect_mailbox[OF G g(1,6,2)])
  have d2: "gw_mailbox g2" "gw_alive g2 ch2" "gw_sent g2 = gw_sent g1" "persisted G g2 u = hs"
    using disconnect_persists[OF G mb hs(1)] flow_disconnect[of g1 G u] fl g(3,4) trim_hashes_spec(3)[OF hs(2)]
    by (auto simp: g2_def close_channel_def persisted_def gw_flow_def)
  have gone: "prefix u k \<Longrightarrow> mail G g2 k = None" for k
    using sent(3) persist_keeps_mailbox[OF G, of u g1 k]
    by (simp add: g2_def close_channel_def disconnect_client_def Let_def prune_client_def split: option.split)
  obtain db2 recs2 where r2: "read_sled_backup (ge_wire G) (ge_sled G) (gw_db g2) u = (db2, recs2)" by fastforce
  have "(k, q) \<notin> set recs2" for k q using read_backup_spec(1)[OF S r2, of k q] gone[of k] by auto
  then have none: "recs2 = []" by (cases recs2) auto
  have g3: "g3 = connect_client G t' u ch2 g2" by (simp add: g3_def g2_def g1_def)
  note l = connect_live[OF G d2(1) g(6) d2(2) r2, of t']
  show "gw_sent g3 = gw_sent g1" using l(1) d2(3) by (simp add: none g3)
  show "mail G g3 j = None" if "prefix u j"
    using l(3)[of j] read_backup_spec(2)[OF S r2, of SLED_MAILBOX_TREE j] gone[OF that] by (simp add: none g3)
  show "?h \<in> set (hashes_of (gw_delivered g3) u)" using l(2) hs(3) d2(4) by (simp add: none g3)
qed

text \<open>C24: What the forwarding task has not written is lost. A message waits in the mailbox of a user; the
  user connects, and the drain hands the message to the channel, which accepts it, removes the
  record and marks the message as delivered. If the client closes before the forwarding task gets to
  it, the task is aborted and the message was never written to the socket; yet when the user
  reconnects nothing is sent, the mailbox is empty, and a copy fetched from the DHT is dropped as a
  duplicate. The comment at the drain says that a client dropping mid-drain can never lose messages.\<close>

theorem unwritten_payload_lost:
  assumes Z: "env_wf (se_gw Z)"
    and g: "gw_mailbox (sv_gw (sk_server k))" "gw_alive (sv_gw (sk_server k)) ch" "gw_alive (sv_gw (sk_server k)) ch2"
      "live_channels (sv_gw (sk_server k)) u = []" "u \<noteq> []"
    and free: "sv_owner (sk_server k) ch = None" "sv_owner (sk_server k) ch2 = None" "ch2 \<noteq> ch"
    and rec: "prefix u j" "mail (se_gw Z) (sv_gw (sk_server k)) j = Some raw"
      "record_payload (ge_wire (se_gw Z)) u raw = Some p"
      "payload_hash (ge_wire (se_gw Z)) p \<notin> set (persisted (se_gw Z) (sv_gw (sk_server k)) u)"
    and coll: "\<forall>j v q. prefix u j \<and> mail (se_gw Z) (sv_gw (sk_server k)) j = Some v \<and>
      record_payload (ge_wire (se_gw Z)) u v = Some q \<and>
      payload_hash (ge_wire (se_gw Z)) q = payload_hash (ge_wire (se_gw Z)) p \<longrightarrow> q = p"
    and few: "length (hashes_of (gw_delivered (connect_client (se_gw Z) t u ch (sv_gw (sk_server k)))) u)
      \<le> MAX_PERSISTED_HASHES"
  shows "\<exists>k' f. run_steps (sockets_step Z)
      [SocketOpens t ms ch (Binary u), SocketSays clk token ch StreamEnd, TaskDrops ch,
       SocketOpens t' ms' ch2 (Binary u)] k = Some k' \<and>
    sk_tasks k' ch = Some f \<and> fw_phase f = Finished \<and> fw_wire f = [] \<and>
    p \<in> set (channel_log ch (sv_gw (sk_server k'))) \<and>
    channel_log ch2 (sv_gw (sk_server k')) = channel_log ch2 (sv_gw (sk_server k)) \<and>
    (\<forall>j. prefix u j \<longrightarrow> mail (se_gw Z) (sv_gw (sk_server k')) j = None) \<and>
    gw_sent (handle_p2p_event (se_gw Z) users (MailboxRetrieved u [raw]) (sv_gw (sk_server k'))) =
      gw_sent (sv_gw (sk_server k'))"
proof -
  let ?s = "sk_server k" and ?G = "se_gw Z"
  define g1 where "g1 = connect_client ?G t u ch (sv_gw ?s)"
  define g3 where "g3 = connect_client ?G t' u ch2 (close_channel ch (disconnect_client ?G u g1))"
  note sent1 = reconnect_finds_nothing(1)[OF Z g(1-3) free(3) g(4,5) rec coll few, folded g1_def]
  note lost = reconnect_finds_nothing(2-4)[OF Z g(1-3) free(3) g(4,5) rec coll few, where t' = t', folded g1_def, folded g3_def]
  let ?s3 = "?s\<lparr>sv_gw := g3, sv_owner := (sv_owner ?s)(ch \<mapsto> u, ch2 \<mapsto> u)\<rparr>"
  let ?f = "(forward_start ms u)\<lparr>fw_reading := False, fw_aborted := True, fw_phase := Finished\<rparr>"
  let ?k = "k\<lparr>sk_server := ?s3, sk_tasks := (sk_tasks k)(ch \<mapsto> ?f, ch2 \<mapsto> forward_start ms' u)\<rparr>"
  have "run_steps (sockets_step Z) [SocketOpens t ms ch (Binary u), SocketSays clk token ch StreamEnd, TaskDrops ch,
      SocketOpens t' ms' ch2 (Binary u)] k = Some ?k"
    using free g(5)
    by (simp add: sockets_step_def socket_opens_def open_socket_def register_message_def socket_says_def
        client_message_def reader_ends_def task_drops_def forward_droppable_def forward_start_def Let_def
        g1_def[symmetric] g3_def[symmetric])
  moreover obtain sent where "gw_sent g3 = gw_sent (sv_gw ?s) @ map (Pair ch) sent" "p \<in> set sent"
    using sent1 lost(1) by auto
  then have "channel_log ch2 g3 = channel_log ch2 (sv_gw ?s)" "p \<in> set (channel_log ch g3)"
    using free(3) by (auto simp: channel_log_def filter_map comp_def)
  moreover have "gw_sent (handle_p2p_event ?G users (MailboxRetrieved u [raw]) g3) = gw_sent g3"
    by (rule seen_not_fetched[OF lost(3) rec(3)])
  ultimately show ?thesis
    using lost(2) free(3) by (intro exI[of _ ?k] exI[of _ ?f]) (simp add: forward_start_def)
qed

theorem unwritten_payload_lost_witness:
  "\<exists>k f. run_steps (sockets_step demo_server_env)
      [SocketOpens 0 0 3 (Binary [9]), SocketSays (0, 0) [] 3 StreamEnd, TaskDrops 3, SocketOpens 0 0 4 (Binary [9])]
      (sockets_start (gw_db demo_gateway) [] Map.empty demo_node_env) = Some k \<and>
    sk_tasks k 3 = Some f \<and> fw_wire f = [] \<and> [5, 6] \<in> set (channel_log 3 (sv_gw (sk_server k))) \<and>
    channel_log 4 (sv_gw (sk_server k)) = []"
proof -
  let ?k = "sockets_start (gw_db demo_gateway) [] Map.empty demo_node_env :: (toy_db, nat, bytes \<rightharpoonup> bytes) sockets"
  let ?g = "sv_gw (sk_server ?k)"
  have env: "se_gw demo_server_env = demo_env" by (simp add: demo_server_env_def)
  have g: "gw_mailbox ?g" "gw_alive ?g ch" "live_channels ?g [9] = []" "gw_sent ?g = []" "gw_db ?g = gw_db demo_gateway"
    "sv_owner (sk_server ?k) ch = None" "gw_clients ?g = Map.empty" for ch
    by (simp_all add: sockets_start_def server_start_def gateway_start_def live_channels_def)
  have S: "sled_ok (ge_sled demo_env)" using demo_env_wf by (simp add: env_wf_def)
  have rb: "read_sled_backup (ge_wire demo_env) (ge_sled demo_env) (gw_db ?g) [9] = (gw_db ?g, [([9, 1], [5, 6])])"
    unfolding g(5) by (rule demo_backup)
  have rec: "prefix [9] k \<and> mail demo_env ?g k = Some v \<and> record_payload (ge_wire demo_env) [9] v = Some q \<longleftrightarrow>
      k = [9, 1] \<and> mail demo_env ?g k = Some v \<and> q = [5, 6] \<and> record_payload (ge_wire demo_env) [9] v = Some q" for k v q
    using read_backup_spec(1)[OF S rb, of k q] by auto
  have "\<exists>v. mail demo_env ?g [9, 1] = Some v \<and> record_payload (ge_wire demo_env) [9] v = Some [5, 6]"
    using read_backup_spec(1)[OF S rb, of "[9, 1]" "[5, 6]"] by auto
  then obtain v where v: "mail demo_env ?g [9, 1] = Some v" "record_payload (ge_wire demo_env) [9] v = Some [5, 6]" by blast
  have pers: "persisted demo_env ?g [9] = []"
    unfolding persisted_def g(5)
    by (simp add: demo_env_def demo_gateway_def load_delivered_hashes_def toy_sled_def
        toy_norm_def bt_wf_def bt_get_def SLED_MAILBOX_TREE_def SLED_DELIVERED_TREE_def)
  have few: "length (hashes_of (gw_delivered (connect_client demo_env 0 [9] 3 ?g)) [9]) \<le> MAX_PERSISTED_HASHES"
    using rb pers g(1,2)
    by (simp add: connect_client_def register_client_def drain_local_def drain_record_def send_all_eq persisted_def
        hs_collect_def hashes_of_def hs_insert_def send_cmd_def Let_def MAX_PERSISTED_HASHES_def g(7))
  have coll: "\<forall>j w q. prefix [9] j \<and> mail demo_env ?g j = Some w \<and> record_payload (ge_wire demo_env) [9] w = Some q \<and>
      payload_hash (ge_wire demo_env) q = payload_hash (ge_wire demo_env) [5, 6] \<longrightarrow> q = [5, 6]"
    using rec by blast
  have new: "payload_hash (ge_wire demo_env) [5, 6] \<notin> set (persisted demo_env ?g [9])" by (simp add: pers)
  have ch: "(4 :: nat) \<noteq> 3" "[9 :: u8] \<noteq> []" "prefix [9 :: u8] [9, 1]" by simp_all
  from unwritten_payload_lost[of demo_server_env, unfolded env,
      OF demo_env_wf g(1,2,2,3) ch(2) g(6,6) ch(1,3) v new coll few, of 0 "(0, 0)" "[]" 0 0 "[]"]
  show ?thesis using g(4) by (force simp: channel_log_def)
qed

lemma catch_up_round:
  fixes k :: "('db, 'q, 'n) sockets"
  assumes f: "sk_tasks k ch = Some f" "fw_phase f = Selecting"
    and i: "i = TaskReceives ch \<or> (\<exists>ms. i = TaskPings ms ch)"
  shows "\<exists>f'. run_steps (sockets_step Z) [i, SinkDone True ch] k = Some (k\<lparr>sk_tasks := (sk_tasks k)(ch \<mapsto> f')\<rparr>) \<and>
    fw_phase f' = Selecting \<and> fw_taken f' =
      (if i = TaskReceives ch \<and> fw_taken f < length (channel_log ch (sv_gw (sk_server k)))
       then Suc (fw_taken f) else fw_taken f)"
  using i
proof (elim disjE exE, goal_cases)
  case 1
  then show ?case
    using f by (intro exI[of _ "forward_sent True (forward_receive (channel_log ch (sv_gw (sk_server k))) f)"])
      (simp add: sockets_step_def task_step_def forward_receive_def forward_sent_def)
next
  case (2 ms)
  then show ?case
    using f by (intro exI[of _ "forward_sent True (forward_ping ms f)"])
      (simp add: sockets_step_def task_step_def forward_ping_def forward_sent_def)
qed

lemma catch_up_rounds:
  fixes k :: "('db, 'q, 'n) sockets"
  assumes "sk_tasks k ch = Some f" "fw_phase f = Selecting"
    and "set rounds \<subseteq> insert (TaskReceives ch) (range (\<lambda>ms. TaskPings ms ch))"
  shows "\<exists>f'. run_steps (sockets_step Z) (concat (map (\<lambda>i. [i, SinkDone True ch]) rounds)) k =
      Some (k\<lparr>sk_tasks := (sk_tasks k)(ch \<mapsto> f')\<rparr>) \<and> fw_phase f' = Selecting \<and>
    fw_taken f' = max (fw_taken f) (min (length (channel_log ch (sv_gw (sk_server k))))
      (fw_taken f + count_list rounds (TaskReceives ch)))"
  using assms
proof (induction rounds arbitrary: k f)
  case Nil
  then have "(sk_tasks k)(ch \<mapsto> f) = sk_tasks k" by (intro fun_upd_idem)
  then show ?case using Nil.prems by (intro exI[of _ f]) (simp del: fun_upd_apply)
next
  case (Cons i rounds)
  have "i = TaskReceives ch \<or> (\<exists>ms. i = TaskPings ms ch)" using Cons.prems(3) by auto
  from catch_up_round[OF Cons.prems(1,2) this] obtain f1 where f1:
    "run_steps (sockets_step Z) [i, SinkDone True ch] k = Some (k\<lparr>sk_tasks := (sk_tasks k)(ch \<mapsto> f1)\<rparr>)"
    "fw_phase f1 = Selecting" "fw_taken f1 =
      (if i = TaskReceives ch \<and> fw_taken f < length (channel_log ch (sv_gw (sk_server k)))
       then Suc (fw_taken f) else fw_taken f)" by blast
  have "\<exists>f'. run_steps (sockets_step Z) (concat (map (\<lambda>i. [i, SinkDone True ch]) rounds))
      (k\<lparr>sk_tasks := (sk_tasks k)(ch \<mapsto> f1)\<rparr>) = Some (k\<lparr>sk_tasks := (sk_tasks k)(ch \<mapsto> f')\<rparr>) \<and> fw_phase f' = Selecting \<and>
    fw_taken f' = max (fw_taken f1) (min (length (channel_log ch (sv_gw (sk_server k))))
      (fw_taken f1 + count_list rounds (TaskReceives ch)))"
    using Cons.IH[of "k\<lparr>sk_tasks := (sk_tasks k)(ch \<mapsto> f1)\<rparr>" f1] f1(2) Cons.prems(3)
    by (simp add: fun_upd_same del: fun_upd_apply)
  then obtain f' where f': "run_steps (sockets_step Z) (concat (map (\<lambda>i. [i, SinkDone True ch]) rounds))
      (k\<lparr>sk_tasks := (sk_tasks k)(ch \<mapsto> f1)\<rparr>) = Some (k\<lparr>sk_tasks := (sk_tasks k)(ch \<mapsto> f')\<rparr>)" "fw_phase f' = Selecting"
    "fw_taken f' = max (fw_taken f1) (min (length (channel_log ch (sv_gw (sk_server k))))
      (fw_taken f1 + count_list rounds (TaskReceives ch)))" by blast
  have "run_steps (sockets_step Z) (concat (map (\<lambda>i. [i, SinkDone True ch]) (i # rounds))) k =
      Some (k\<lparr>sk_tasks := (sk_tasks k)(ch \<mapsto> f')\<rparr>)"
    by (simp only: list.map concat.simps run_steps_append f1(1) f'(1) Option.bind.simps)
  moreover have "fw_taken f' = max (fw_taken f) (min (length (channel_log ch (sv_gw (sk_server k))))
      (fw_taken f + count_list (i # rounds) (TaskReceives ch)))"
    using f'(3) f1(3) by (auto simp: max_def min_def)
  ultimately show ?case using f'(2) by blast
qed

lemma catch_up_written:
  assumes inv: "sockets_inv k" and f: "sk_tasks k ch = Some f" "fw_phase f = Selecting"
    and rounds: "set rounds \<subseteq> insert (TaskReceives ch) (range (\<lambda>ms. TaskPings ms ch))"
      "length (channel_log ch (sv_gw (sk_server k))) - fw_taken f \<le> count_list rounds (TaskReceives ch)"
  obtains f' where "run_steps (sockets_step Z) (concat (map (\<lambda>i. [i, SinkDone True ch]) rounds)) k =
      Some (k\<lparr>sk_tasks := (sk_tasks k)(ch \<mapsto> f')\<rparr>)"
    "fw_phase f' = Selecting" "fw_taken f' = length (channel_log ch (sv_gw (sk_server k)))"
    "written (fw_wire f') = channel_log ch (sv_gw (sk_server k))"
proof -
  obtain f' where f': "run_steps (sockets_step Z) (concat (map (\<lambda>i. [i, SinkDone True ch]) rounds)) k =
      Some (k\<lparr>sk_tasks := (sk_tasks k)(ch \<mapsto> f')\<rparr>)" "fw_phase f' = Selecting"
    "fw_taken f' = max (fw_taken f) (min (length (channel_log ch (sv_gw (sk_server k)))) (fw_taken f + count_list rounds (TaskReceives ch)))"
    using catch_up_rounds[OF f rounds(1)] by blast
  have "fw_taken f \<le> length (channel_log ch (sv_gw (sk_server k)))" using inv f(1) by (auto simp: sockets_inv_def task_ok_def)
  then have all: "fw_taken f' = length (channel_log ch (sv_gw (sk_server k)))" using f'(3) rounds(2) by simp
  have "task_ok (sv_gw (sk_server k)) ch f'"
    using sockets_machine.run_inv[OF f'(1) inv] by (simp add: sockets_inv_def)
  then show ?thesis using f'(2) all by (intro that[OF f'(1,2) all]) (auto simp: task_ok_def)
qed

text \<open>One round for every payload that waits suffices.\<close>

lemma count_list_replicate_same [simp]: "count_list (replicate n x) x = n"
  by (induction n) simp_all

lemma catch_up_replicate:
  assumes "sockets_inv k" "sk_tasks k ch = Some f" "fw_phase f = Selecting" "fw_taken f = 0"
  obtains f' where "run_steps (sockets_step Z) (concat (map (\<lambda>i. [i, SinkDone True ch])
      (replicate (length (channel_log ch (sv_gw (sk_server k)))) (TaskReceives ch)))) k =
      Some (k\<lparr>sk_tasks := (sk_tasks k)(ch \<mapsto> f')\<rparr>)"
    "written (fw_wire f') = channel_log ch (sv_gw (sk_server k))"
  by (rule catch_up_written[OF assms(1-3),
        of "replicate (length (channel_log ch (sv_gw (sk_server k)))) (TaskReceives ch)"]) (auto simp: assms(4))

text \<open>C25: Forwarding catches up. From any state of any run in which the task of a connection waits in its
  select, let it go around its loop with successful writes, receiving and pinging in any order, at
  least as many receives as payloads wait: then everything its channel accepted is on the socket, in
  order, and nothing waits.\<close>

theorem forwarding_catches_up:
  assumes run: "run_steps (sockets_step Z) ins (sockets_start db dials n E) = Some k"
    and f: "sk_tasks k ch = Some f" "fw_phase f = Selecting"
    and rounds: "set rounds \<subseteq> insert (TaskReceives ch) (range (\<lambda>ms. TaskPings ms ch))"
      "length (channel_log ch (sv_gw (sk_server k))) - fw_taken f \<le> count_list rounds (TaskReceives ch)"
  shows "\<exists>k' f'. run_steps (sockets_step Z) (concat (map (\<lambda>i. [i, SinkDone True ch]) rounds)) k = Some k' \<and>
    sk_tasks k' ch = Some f' \<and> fw_phase f' = Selecting \<and> fw_taken f' = length (channel_log ch (sv_gw (sk_server k'))) \<and>
    written (fw_wire f') = channel_log ch (sv_gw (sk_server k')) \<and>
    channel_log ch (sv_gw (sk_server k')) = channel_log ch (sv_gw (sk_server k))"
proof -
  have "sockets_inv k" by (rule sockets_machine.run_inv[OF run sockets_start_inv])
  from catch_up_written[OF this f rounds] obtain f' where
    "run_steps (sockets_step Z) (concat (map (\<lambda>i. [i, SinkDone True ch]) rounds)) k =
      Some (k\<lparr>sk_tasks := (sk_tasks k)(ch \<mapsto> f')\<rparr>)" "fw_phase f' = Selecting"
    "fw_taken f' = length (channel_log ch (sv_gw (sk_server k)))" "written (fw_wire f') = channel_log ch (sv_gw (sk_server k))"
    by blast
  then show ?thesis by (intro exI[of _ "k\<lparr>sk_tasks := (sk_tasks k)(ch \<mapsto> f')\<rparr>"] exI[of _ f']) simp
qed

theorem forwarding_catches_up_witness:
  "\<exists>k k' f'. run_steps (sockets_step demo_server_env) [SocketOpens 0 0 3 (Binary demo_user)] demo_sockets = Some k \<and>
    run_steps (sockets_step demo_server_env)
      (concat (map (\<lambda>i. [i, SinkDone True 3])
        (TaskPings 40000 3 # replicate (length (channel_log 3 (sv_gw (sk_server k)))) (TaskReceives 3)))) k = Some k' \<and>
    sk_tasks k' 3 = Some f' \<and> written (fw_wire f') = channel_log 3 (sv_gw (sk_server k'))"
proof -
  obtain k where k: "run_steps (sockets_step demo_server_env) [SocketOpens 0 0 3 (Binary demo_user)] demo_sockets = Some k"
    "sk_tasks k 3 = Some (forward_start 0 demo_user)" by (rule demo_connects)
  let ?n = "length (channel_log 3 (sv_gw (sk_server k)))"
  let ?r = "TaskPings 40000 3 # replicate ?n (TaskReceives 3) :: nat socket_input list"
  have c: "?n - fw_taken (forward_start 0 demo_user) \<le> count_list ?r (TaskReceives 3)" by simp
  have s: "set ?r \<subseteq> insert (TaskReceives 3) (range (\<lambda>ms. TaskPings ms 3))" by auto
  have "fw_phase (forward_start 0 demo_user) = Selecting" by (simp add: forward_start_def)
  from forwarding_catches_up[OF k(1)[unfolded demo_sockets_def] k(2) this s c] k(1) show ?thesis by blast
qed

end
