(* ===== verification/Spec2Isabelle.thy ===== *)
theory Spec2Isabelle
  imports Ratchet_Props Identity_Props Storage_Props Node_Theorems Server_Theorems
    Startup Server_Alive Bounded_Theorems Profile_Races Profile_System Locks_Theorems Locks_Race Forward_Theorems
begin

text \<open>
  VurnChat is an end-to-end encrypted messenger whose server relays packages it cannot read. This
  development models its two Rust crates. \<open>core/src\<close> is the cryptographic library of the clients:
  identities, first contact, the double ratchet, signatures. \<open>server/src\<close> is the relay: a WebSocket
  gateway, a libp2p node that keeps mailboxes and profiles in a distributed hash table, and a local
  sled database shared by both.

  \<^bold>\<open>How the parts interact.\<close> A client builds an identity bundle (\<open>identity.rs\<close>) and publishes it
  under a blind index of its user name or hands it over in an invite. Another client runs the
  bootstrap (\<open>bootstrap.rs\<close>) on the bundle, starts a ratchet session (\<open>ratchet.rs\<close>) and sends the
  first message in an init envelope. Packages travel as relay frames to the gateway (\<open>ws.rs\<close>), which
  sends them to the recipient's connections or hands them to the node (\<open>p2p/node.rs\<close>) as
  \<open>Publish\<close> and \<open>MailboxStore\<close> commands. The node numbers a mailbox message, signs it
  (\<open>p2p/dht.rs\<close>), puts it into the DHT and into the backup tree of the database; the gateway reads
  that tree (\<open>mailbox.rs\<close>) when the recipient connects, and \<open>main.rs\<close> delivers what the node reports.

  \<^bold>\<open>Where things are.\<close>
  \<^item> \<open>Vurn_Prelude\<close>, \<open>Codec\<close>, \<open>Ordered_Map\<close>, \<open>Text\<close>, \<open>Machine\<close>: machine integers and byte strings, the
    question-mark operator, readers and the codec locale, \<open>BTreeMap\<close>, text formatting and parsing,
    and runs of step functions that may stop.
  \<^item> \<open>Crypto_Env\<close>, \<open>Server_Env\<close>: the code outside this repository as parameters. The record \<open>crypto\<close> has
    HMAC, SHA-256, X25519, ML-KEM, AES-256-GCM, ML-DSA, PBKDF2, base64, lower-casing and QR
    rendering; \<open>wire\<close> has Ed25519, bincode, hex and the standard hash; \<open>sled\<close> the database. Their laws
    (\<open>hmac_ok\<close>, \<open>kem_ok\<close>, \<open>aead_ok\<close>, \<open>sled_ok\<close> and so on) state lengths, determinism and round trips,
    never security; \<open>toy_crypto\<close>, \<open>toy_wire\<close> and \<open>toy_sled\<close> satisfy them and serve the witnesses.
  \<^item> \<open>Ratchet_Keys\<close>, \<open>Ratchet\<close>, \<open>Ratchet_Persist\<close>: \<open>ratchet.rs\<close>. A method that mutates the session
    returns the session beside its result, so a session changed before an error is visible.
  \<^item> \<open>Cipher\<close>: \<open>lib.rs\<close>; \<open>Signing\<close>: \<open>signing.rs\<close>; \<open>Identity\<close> and \<open>Profile\<close>: \<open>identity.rs\<close>; \<open>Bootstrap\<close>:
    \<open>bootstrap.rs\<close>.
  \<^item> \<open>Dht\<close>: \<open>p2p/dht.rs\<close>; \<open>Mailbox\<close>: \<open>mailbox.rs\<close>; \<open>Node\<close>: \<open>p2p/node.rs\<close>, where \<open>node_step\<close> is one turn of
    the event loop; \<open>Rate_Limit\<close> and \<open>Gateway\<close>: \<open>ws.rs\<close>; \<open>Events\<close>: \<open>main.rs\<close>.
  \<^item> \<open>Server\<close>: the tasks together. \<open>server_step\<close> is one action of one of them (a socket opens, a client's
    message, a channel dies, a turn of the node, an event is handled), so that runs are the
    interleavings; the log of commands and the log of events are the queues between the tasks.
  \<^item> \<open>Forward\<close>: the forwarding task of a connection (\<open>ws.rs\<close>), which writes payloads and pings to the
    socket, and the connections with their tasks beside the rest of \<open>Server\<close>. A channel's queue is what
    its log of accepted sends has beyond the task's counter.
  \<^item> \<open>Swarm\<close>: the edge of \<open>p2p/node.rs\<close> to libp2p. \<open>p2p_node_new\<close> is \<open>P2PNode::new\<close> with its settings and
    its errors; the raw events of the behaviours are dispatched as the code does it, and
    \<open>raw_event_classified\<close> relates that to the classified events \<open>Node\<close> starts from.
  \<^item> \<open>Tls\<close>: \<open>load_tls_config\<close>, \<open>cert_reload_task\<close> and the accept loop \<open>run_tls_server\<close> of \<open>main.rs\<close>, a step
    function over numbered connections; files, PEM and rustls are parameters.
  \<^item> \<open>Startup\<close>: \<open>main\<close> from the command line to the serving front (\<open>server_main\<close>), the HTTP routes and the
    health check of \<open>ws.rs\<close>, and \<open>hex_fmt\<close>.
  \<^item> \<open>Bounded\<close>: the same tasks over queues of 256 entries. A task that sends to a full queue waits;
    \<open>wired_step\<close> splits the node's turn where it may wait.
  \<^item> \<open>Profile_Tasks\<close>: the profile handlers of \<open>ws.rs\<close> as tasks that wait for the node's answers, any
    number of them over one record store; \<open>Profile_System\<close>: the same tasks with the real command queue
    and the real event loop, where a command takes effect when the node takes it.
  \<^item> \<open>Locks\<close>: the tasks of \<open>Server\<close> at the grain of the state lock. A handler is a program of sections; a
    point says which is next and what the task has read, and \<open>lock_step\<close> runs one section of one task.

  \<^bold>\<open>What is shown.\<close>
  \<^item> Ratchet (\<open>Ratchet_Inv\<close>, \<open>Ratchet_Recv\<close>, \<open>Ratchet_Conv\<close>, \<open>Ratchet_Burst\<close>, \<open>Ratchet_Props\<close>): sessions stay
    well-formed; two matching sessions decrypt every message of a conversation and, after it, the next
    messages of the side that spoke last in every order of arrival; the receiving side refines an abstract receiver; saved bytes restore the
    session; what a forged package does.
  \<^item> Core formats (\<open>Identity_Props\<close>): round trips of the cipher, bundles, profiles and invites;
    signatures accept exactly what they should; no session starts on an unsigned prekey.
  \<^item> Storage (\<open>Storage_Props\<close>): record keys, envelopes, the backup, the persisted delivered set.
  \<^item> Node (\<open>Node_Inv\<close>, \<open>Node_Probe\<close>, \<open>Node_Props\<close>, \<open>Node_Theorems\<close>): no run overwrites a backup record;
    how a probe ends, with the answers libp2p documents (\<open>kad_answer\<close>: a query that finds nothing fails
    with \<open>NotFound\<close>): the code takes that for a failure, so a probe of a mailbox whose records all
    verify ends with index 0, and only a record that does not verify ends it with the exact length;
    collecting asks in order and is exact; reconnection.
  \<^item> Gateway (\<open>Gateway_Props\<close>, \<open>Profile_Store\<close>, \<open>Events_Props\<close>): relaying and draining deliver once
    and lose nothing; what was delivered before the end of a session's connections is not sent to its
    next one; the rate limit of any period; update tokens guard profiles; event routing; the command line.
  \<^item> Server (\<open>Server_Inv\<close>, \<open>Server_Run\<close>, \<open>Server_Theorems\<close>): every operation of the gateway makes \<open>progress\<close>,
    the node's steps and the gateway's keep the invariant \<open>server_inv\<close> together, and so no interleaving
    loses a stored message, in the circumstances \<open>calm_run\<close> names; two theorems show what happens
    outside them. \<open>Server_Log\<close> and \<open>Server_Alive\<close>: the logs only grow, and the server never stops while
    recipient ids have full length.
  \<^item> Sockets (\<open>Forward_Flow\<close>, \<open>Forward_Theorems\<close>): the connections refine \<open>Server\<close>, so its theorems hold
    of them; a socket carries what its channel accepted, in order and once; so nothing is lost up to
    the socket while the task is in its loop; what it has not written when it ends is lost.
  \<^item> Around it (\<open>Tls\<close>, \<open>Startup\<close>, \<open>Bounded_Theorems\<close>, \<open>Profile_Races\<close>): certificates are replaced without
    touching a connection, TLS is never dropped silently, what the health check tells, when the
    bounded queues block for good, and which interleavings of profile requests the code withstands. \<open>Profile_Node\<close> ties them to
    the node: with a truthful network its event loop refines the record store they are stated over;
    \<open>Profile_System\<close> has the update token's protection for handlers, queue and node together.
  \<^item> Between the locks (\<open>Node_Fresh\<close>, \<open>Locks_Inv\<close>, \<open>Locks_Theorems\<close>, \<open>Locks_Sections\<close>, \<open>Locks_Race\<close>):
    what a task has read stays true whatever the others do, because the node never writes a key it
    remembers, so nothing is lost between sections either, if the mailbox was empty at the start;
    after a restart with mail a race loses a message; every step of \<open>Server\<close> is a run of sections.
  \<^item> This theory: first contact over the whole core, and a message from the relay through the node
    to the socket of its recipient's next connection.

  Some theorems state defects. They are true of the code and marked by their names:
  \<open>forged_package_burns_number\<close>, \<open>new_chain_ignores_number\<close>, \<open>short_recipient_stops_node\<close>,
  \<open>failed_lookup_wipes_mailboxes\<close>,
  \<open>closed_connection_swallows\<close>, \<open>unwritten_payload_lost\<close>, \<open>queues_deadlock\<close>, \<open>registration_race\<close>,
  \<open>stale_removal_loses_message\<close>, \<open>probe_finds_no_mailbox\<close>, and, beside the
  numbered properties, \<open>expired_lookup_takes_over\<close>, \<open>failed_query_resets\<close>,
  \<open>probe_timeout_loses_messages\<close>, \<open>finished_query_skips\<close>, \<open>short_id_destroys\<close>, \<open>second_connection_forgets\<close>, \<open>unaccepted_record_lost\<close>,
  \<open>trimming_drops_smallest\<close>, \<open>long_recipient_registers\<close>, \<open>accept_error_stops\<close> and \<open>kem_only_invite_rejected\<close>.

  \<^bold>\<open>Interfaces.\<close> \<open>codec\<close> and \<open>ext_codec\<close> (writers and readers that round-trip), \<open>finite_map\<close>
  (\<open>BTreeMap\<close> and \<open>HashMap\<close>), \<open>key_scheme\<close> and \<open>disjoint_schemes\<close> (record keys), \<open>machine\<close> and
  \<open>live_machine\<close> (step functions with an invariant), \<open>profile_store\<close> and \<open>open_profile_store\<close> (what the
  profile handlers need of the node) are locales, each interpreted on the model's own definitions.

  \<^bold>\<open>Conventions and bounds.\<close> Integers have their width (\<open>u8\<close> to \<open>u64\<close>) and wrap as in a release
  build; runs of the node therefore carry a bound on the numbers used (\<open>node_bounded\<close>), below
  \<open>2 ^ 64\<close>. Recursion is structural or has a measure; no definition uses fuel. A panic ends its task and
  is \<open>None\<close> (\<open>node_step\<close>, \<open>sign_envelope\<close>, \<open>start_alice\<close>).
  Random values are arguments. \<open>Instant\<close> values are naturals in milliseconds in the node and rationals
  in the limiter, whose \<open>f64\<close> rounding is a parameter. A \<open>HashMap\<close> is a function, or an association
  list where it is iterated or its size matters; a \<open>HashSet\<close> is a list without duplicates.
  The counter of reconnection attempts (\<open>u32\<close>) is a natural number. A scan of a sled tree is a list: errors of
  single items do not occur. White space on the command line is ASCII white space.
  An operation of the gateway that takes its lock several times is one step in \<open>Server\<close>; \<open>Locks\<close>
  takes it apart, a profile request and a turn of the node excepted. The queues of \<open>Server\<close> have no bound; \<open>Bounded\<close> has the bound of the code. Profile requests are one step in
  \<open>Server\<close>, against an abstract node, and tasks with waits in \<open>Profile_Tasks\<close>, where a command takes
  effect when it is sent, and in \<open>Profile_System\<close>, where it does when the node takes it. In \<open>Server\<close> and
  the theories on it but \<open>Forward\<close>, a channel may close at any time (\<open>gw_alive\<close>).

  \<^bold>\<open>Not modelled.\<close> What axum, hyper, rustls, tokio and libp2p do inside; their documented contracts are
  the parameters: a socket is the result of each write to it. The moment of the shutdown signal on the plain front, whose connections
  axum drains. The text of log lines other than \<open>hex_fmt\<close>, the help text, re-exports and tests.
\<close>

section \<open>First contact\<close>

text \<open>The package the initiator sends first names its ephemeral key, which the responder needs.\<close>

lemma first_package_key:
  assumes C: "crypto_ok C" and f: "has_floor C a b" and pt: "length pt \<le> aead_max"
  obtains a' pkg where "encrypt C R pt a = (a', Inr pkg)" "package_sender_key pkg = Some (fst (dh_s a))" "pkg \<noteq> []"
proof -
  obtain k where k: "ck_s a = Some k" using f by (auto simp: has_floor_def Let_def)
  have "length (fst (dh_s a)) = 32"
    using f C floor_len[of C "dh_s a"] by (simp add: has_floor_def Let_def crypto_ok_def)
  moreover have "kem_link C a b" "session_id b = session_id a" "length (session_id a) = 32"
    using f by (simp_all add: has_floor_def Let_def)
  ultimately obtain pkg h ct where p: "encrypt C R pt a = (after_send C R k a, Inr pkg)"
    "parse_header pkg = Inr (h, ct)" "h_dh h = fst (dh_s a)"
    using encrypt_open[OF C k _ _ _ _ pt, of b R] by metis
  then have "pkg \<noteq> []" by (auto simp: parse_header_def)
  with p show ?thesis using that by (simp add: package_sender_key_def)
qed

text \<open>C1: First contact works from end to end: an initiator who knows only the responder's published
  bundle and a responder who knows nothing agree on the session from one envelope, which carries
  the initiator's bundle, the two ciphertexts and the first message; and from then on every message
  of the conversation, whoever sends next and however often, decrypts to what was sent.\<close>

theorem first_contact:
  assumes C: "crypto_ok C" "sha_ok C" and parties: "party_ok C a" "party_ok C b"
    and keys: "dh_pair C ek" "valid_kem_pair C (fst kem) (snd kem)"
    and ok: "conv_ok C ((True, pt, R) # ts) [fst ek, spk_x (p_bundle b)]"
  shows "\<exists>out s s' pkg q root sid ekp.
    initiator_bootstrap C r1 r2 (p_ik_x a) ek (p_bundle b) = Inr out \<and>
    start_alice C (initiator_start out ek (p_bundle b) kem) = Some s \<and>
    encrypt C R pt s = (s', Inr pkg) \<and>
    parse_init_envelope (build_init_envelope (p_bundle a) (io_ct_spk out) (io_ct_ik out) pkg) = Inr q \<and>
    package_sender_key (pi_package q) = Some ekp \<and>
    responder_bootstrap C (p_ik_x b) (p_spk_x b) (p_ik_kem_sk b) (p_spk_kem_sk b) (pi_bundle q) ekp
      (pi_ct_spk q) (pi_ct_ik q) = Inr (root, sid) \<and>
    conv_run C ((True, pt, R) # ts) s (start_bob C rnd (responder_start (root, sid) (p_spk_x b))) =
      map (\<lambda>(who, pt, R). Inr pt) ((True, pt, R) # ts)"
proof -
  have ok': "dh_ok C" "kem_ok C" using C(1) by (simp_all add: crypto_ok_def)
  obtain out where out: "initiator_bootstrap C r1 r2 (p_ik_x a) ek (p_bundle b) = Inr out"
    "responder_bootstrap C (p_ik_x b) (p_spk_x b) (p_ik_kem_sk b) (p_spk_kem_sk b) (p_bundle a) (fst ek)
      (io_ct_spk out) (io_ct_ik out) = Inr (io_root out, io_session_id out)"
    "length (io_ct_spk out) = KEM_CT_LEN" "length (io_ct_ik out) = KEM_CT_LEN"
    "io_session_id out = session_id_from C (ik_x (p_bundle a)) (ik_x (p_bundle b))"
    using bootstrap_agreement[OF ok' parties keys(1)] by metis
  let ?sa = "initiator_start out ek (p_bundle b) kem"
  let ?sb = "responder_start (io_root out, io_session_id out) (p_spk_x b)"
  have m: "matching_starts C ?sa ?sb" by (rule bootstrap_starts_match[OF C(2) parties(2) keys out(5)])
  have pubs: "[fst (st_our_dh ?sa), fst (st_our_dh ?sb)] = [fst ek, spk_x (p_bundle b)]"
    using parties(2) by (simp add: initiator_start_def responder_start_def party_ok_def)
  obtain s where s: "start_alice C ?sa = Some s"
    "conv_run C ((True, pt, R) # ts) s (start_bob C rnd ?sb) = map (\<lambda>(who, pt, R). Inr pt) ((True, pt, R) # ts)"
    using conversation[OF C(1) m ok[folded pubs]] by blast
  have fl: "has_floor C s (start_bob C rnd ?sb)" "dh_s s = ek"
    using start_floor[OF C(1) m, of rnd] s(1) by (auto simp: initiator_start_def)
  have "length pt \<le> aead_max" using ok by (simp add: conv_ok_def)
  then obtain s' pkg where pkg: "encrypt C R pt s = (s', Inr pkg)" "package_sender_key pkg = Some (fst ek)" "pkg \<noteq> []"
    using first_package_key[OF C(1) fl(1)] fl(2) by metis
  have "bundle_ok (p_bundle a)" using parties(1) by (simp add: party_ok_def)
  from envelope_roundtrip[OF this out(3,4) pkg(3)] out(1,2) s pkg(1,2) show ?thesis
    by (intro exI[of _ out] exI[of _ s] exI[of _ s'] exI[of _ pkg] exI conjI) (assumption | simp)+
qed

theorem first_contact_witness:
  "\<exists>out s b. initiator_bootstrap toy_crypto [] [] (p_ik_x demo_party) (replicate 32 4, replicate 32 4)
      (p_bundle demo_party) = Inr out \<and>
    conv_run toy_crypto [(True, [1], demo_rand 3), (False, [2], demo_rand 5), (True, [3], demo_rand 6)] s b =
      [Inr [1], Inr [2], Inr [3]]"
proof -
  let ?ts = "[(False, [2], demo_rand 5), (True, [3], demo_rand 6)]"
  have "dh_pair toy_crypto (replicate 32 4, replicate 32 4)" by (simp add: dh_pair_def toy_pad32)
  moreover have "valid_kem_pair toy_crypto (fst (replicate 1568 0, replicate 3168 0)) (snd (replicate 1568 (0 :: u8), replicate 3168 0))"
    using toy_kem_pair by simp
  moreover have "conv_ok toy_crypto ((True, [1], demo_rand 3) # ?ts)
      [fst (replicate 32 4, replicate 32 (4 :: u8)), spk_x (p_bundle demo_party)]"
    by (simp add: conv_ok_def demo_rand_def toy_pad32 demo_party_def demo_bundle_def aead_max_def)
  ultimately show ?thesis
    using first_contact[OF toy_crypto_ok toy_ok(2) demo_party_ok demo_party_ok, of _ _ "[1]" "demo_rand 3" ?ts "[]" "[]"]
    by fastforce
qed

section \<open>Messages for recipients who are away\<close>

text \<open>A message for a recipient without a connection travels from the relay through the node's
  backup to the recipient's next connection: the node, idle and without peers, processes the two
  commands the relay queued; when the recipient then connects, its new connection is sent the frame
  exactly once, among the other payloads waiting for it, none of them twice; and the mailbox of the
  recipient is empty afterwards. This needs that the frame was not delivered before and that no
  other waiting payload has the same 64-bit hash.\<close>

lemma offline_delivery:
  assumes G: "env_wf G" and E: "env_ok E" "ne_wire E = ge_wire G" "ne_sled E = ge_sled G"
    and g: "gw_clients g r = None" "gw_p2p_tx g" "gw_mailbox g" "gw_alive g ch"
    and nd: "nd_db nd = gw_db g" "node_inv E n Idle nd" "n + 11 < 2 ^ 64"
    and frame: "parse_relay d = Some (r, p)" "32 \<le> length r"
    and lim: "check_rate_limit_store (ge_round G) clk s g = (True, g0)"
    and new: "payload_hash (ge_wire G) (forward_frame s p) \<notin> set (persisted G g r)"
    and coll: "\<forall>k v q. prefix r k \<and> sl_get (ge_sled G) (gw_db g) SLED_MAILBOX_TREE k = Some v \<and>
      record_payload (ge_wire G) r v = Some q \<and>
      payload_hash (ge_wire G) q = payload_hash (ge_wire G) (forward_frame s p) \<longrightarrow> q = forward_frame s p"
  shows "\<exists>c1 c2 nd1 nd2 sent. let g1 = relay_or_p2p G clk s d g;
      g2 = connect_client G t r ch (g1\<lparr>gw_db := nd_db nd2\<rparr>) in
    gw_cmds g1 = gw_cmds g @ [c1, c2] \<and> gw_sent g1 = gw_sent g \<and>
    node_step E now [] (Command c1) Idle nd = Some (Idle, nd1) \<and>
    node_step E now' [] (Command c2) Idle nd1 = Some (Idle, nd2) \<and>
    gw_sent g2 = gw_sent g @ map (Pair ch) sent \<and> distinct sent \<and> forward_frame s p \<in> set sent \<and>
    (\<forall>k. prefix r k \<longrightarrow> sl_get (ge_sled G) (gw_db g2) SLED_MAILBOX_TREE k = None)"
proof -
  let ?fwd = "forward_frame s p" and ?W = "ge_wire G" and ?S = "ge_sled G"
  let ?c1 = "Publish (w_hex ?W r) ?fwd" and ?c2 = "MailboxStore r s p"
  have S: "sled_ok ?S" using G by (simp add: env_wf_def)
  obtain l where g0: "g0 = g\<lparr>gw_limiters := l\<rparr>" using rate_limit_frame[OF lim] by blast
  define g1 where "g1 = relay_or_p2p G clk s d g"
  have away: "live_channels g r = []" using g(1) by (simp add: live_channels_def)
  have g1: "g1 = g0\<lparr>gw_cmds := gw_cmds g @ [?c1, ?c2]\<rparr>"
    unfolding g1_def relay_away[OF frame(1) lim away disjI1[OF g(1)]] using g(2) by (simp add: send_cmd_def g0)
  define nd1 where "nd1 = call (PublishTopic (w_hex ?W r) ?fwd) nd"
  have s1: "node_step E now [] (Command ?c1) Idle nd = Some (Idle, nd1)"
    by (simp add: node_step_def handle_command_def seed_index_def command_user_def check_state_timeout_def nd1_def)
  have inv1: "node_inv E n Idle nd1" by (rule node_inv_frame[OF nd(2)]) (simp_all add: nd1_def)
  have db1: "nd_db nd1 = gw_db g" using nd(1) by (simp add: nd1_def)
  obtain nd2 raw where s2: "node_step E now' [] (Command ?c2) Idle nd1 = Some (Idle, nd2)"
    and db2: "\<And>t k. sl_get ?S (nd_db nd2) t k =
       (if t = SLED_MAILBOX_TREE \<and> k = seq_be_key r (solo_seq E nd1 r) then Some raw else sl_get ?S (gw_db g) t k)"
    and raw: "record_payload ?W r raw = Some ?fwd"
    using solo_store[OF E(1) frame(2) inv1 nd(3), of now' s p]
    unfolding E(2,3) db1 forward_frame_mailbox by blast
  define h where "h = g1\<lparr>gw_db := nd_db nd2\<rparr>"
  have h: "gw_mailbox h" "gw_alive h ch" "gw_db h = nd_db nd2" "gw_sent h = gw_sent g" "live_channels h r = []"
    using g(1,3,4) by (simp_all add: h_def g1 g0 live_channels_def)
  have "sl_get ?S (nd_db nd2) SLED_DELIVERED_TREE r = sl_get ?S (gw_db g) SLED_DELIVERED_TREE r"
    unfolding db2 by (simp add: SLED_DELIVERED_TREE_def SLED_MAILBOX_TREE_def)
  then have pers: "persisted G h r = persisted G g r"
    by (simp add: persisted_def load_delivered_hashes_def sledD(1)[OF S] h(3))
  have r: "r \<noteq> []" using frame(2) by auto
  obtain sent where sent: "gw_sent (connect_client G t r ch h) = gw_sent h @ map (Pair ch) sent" "distinct sent"
    "?fwd \<in> set sent"
    "\<And>k. prefix r k \<Longrightarrow> sl_get ?S (gw_db (connect_client G t r ch h)) SLED_MAILBOX_TREE k = None"
  proof (rule connect_delivers[OF G h(1,2,5) r, where t = t])
    show "prefix r (seq_be_key r (solo_seq E nd1 r))" by (simp add: seq_be_key_def)
    show "sl_get ?S (gw_db h) SLED_MAILBOX_TREE (seq_be_key r (solo_seq E nd1 r)) = Some raw" by (simp add: h(3) db2)
    show "record_payload ?W r raw = Some ?fwd" by (rule raw)
    show "payload_hash ?W ?fwd \<notin> set (persisted G h r)" using new by (simp add: pers)
    show "q = ?fwd" if "prefix r k" "sl_get ?S (gw_db h) SLED_MAILBOX_TREE k = Some v" "record_payload ?W r v = Some q"
      "payload_hash ?W q = payload_hash ?W ?fwd" for k v q
      using that coll raw by (auto simp: h(3) db2 split: if_splits)
  qed (blast intro: that)
  have "gw_cmds g1 = gw_cmds g @ [?c1, ?c2]" "gw_sent g1 = gw_sent g" by (simp_all add: g1 g0)
  then show ?thesis
    unfolding g1_def[symmetric] Let_def using s1 s2 sent h(4)
    by (intro exI[of _ ?c1] exI[of _ ?c2] exI[of _ nd1] exI[of _ nd2] exI[of _ sent])
      (simp add: h_def[symmetric])
qed

lemma limit_cong:
  assumes "check_rate_limit_store fl clk c g = (b, g0)" "gw_limiters h = gw_limiters g"
  shows "\<exists>h0. check_rate_limit_store fl clk c h = (b, h0)"
  using assms by (cases "gw_limiters g c") (auto simp: check_rate_limit_store_def Let_def case_prod_beta)

definition demo_away :: "toy_db gateway" where
  "demo_away = demo_gateway\<lparr>gw_clients := Map.empty, gw_db := demo_db\<rparr>"

lemma demo_away_backup:
  assumes "sl_get toy_sled demo_db SLED_MAILBOX_TREE k = Some v" "record_payload toy_wire u v = Some q"
  shows "q = [5]"
  using assms demo_db_get[of k] demo_short_records
  by (simp add: demo_node_env_def record_payload_def split: if_splits)

lemma demo_away_ready:
  "parse_relay ([32, 0] @ demo_user @ [4, 5]) = Some (demo_user, [4, 5])"
  "\<exists>g0. check_rate_limit_store (ge_round demo_env) (0, 0) [7] (demo_away\<lparr>gw_clients := cl\<rparr>) = (True, g0)"
  "persisted demo_env (demo_away\<lparr>gw_clients := cl\<rparr>) demo_user = []"
  "prefix demo_user j \<Longrightarrow> mail demo_env (demo_away\<lparr>gw_clients := cl\<rparr>) j = Some v \<Longrightarrow>
    record_payload (ge_wire demo_env) demo_user v = Some q \<Longrightarrow>
    payload_hash (ge_wire demo_env) q \<noteq> payload_hash (ge_wire demo_env) (forward_frame [7] [4, 5])"
proof -
  show "parse_relay ([32, 0] @ demo_user @ [4, 5]) = Some (demo_user, [4, 5])"
    by (simp add: parse_relay_def le_u16_def slice_def demo_user_def Let_def)
  show "\<exists>g0. check_rate_limit_store (ge_round demo_env) (0, 0) [7] (demo_away\<lparr>gw_clients := cl\<rparr>) = (True, g0)"
    by (rule limit_cong[OF demo_limit]) (simp add: demo_away_def)
  show "persisted demo_env (demo_away\<lparr>gw_clients := cl\<rparr>) demo_user = []"
    by (simp add: persisted_def load_delivered_hashes_def demo_env_def demo_away_def toy_sled_def demo_db_def
        toy_norm_def bt_wf_def bt_get_def SLED_DELIVERED_TREE_def SLED_MAILBOX_TREE_def)
  have "payload_hash toy_wire [5] \<noteq> payload_hash toy_wire [1, 0, 7, 4, 5]"
    by (simp add: payload_hash_def toy_wire_def)
  then show "payload_hash (ge_wire demo_env) q \<noteq> payload_hash (ge_wire demo_env) (forward_frame [7] [4, 5])"
    if "prefix demo_user j" "mail demo_env (demo_away\<lparr>gw_clients := cl\<rparr>) j = Some v"
      "record_payload (ge_wire demo_env) demo_user v = Some q"
    using that demo_away_backup[of j v demo_user q] by (simp add: demo_env_def demo_away_def demo_forward)
qed

text \<open>A relayed frame of a connection and the node's two turns, as steps of the whole.\<close>

lemma relay_and_turns:
  assumes k: "sv_state (sk_server k) = Idle" "sv_taken (sk_server k) = length (gw_cmds (sv_gw (sk_server k)))"
    and sender: "sk_tasks k c = Some fs" "fw_reading fs" "d ! 0 \<noteq> 0"
    and g1: "relay_or_p2p (se_gw Z) clk (fw_session fs) d (sv_gw (sk_server k)) = g1" "gw_db g1 = gw_db (sv_gw (sk_server k))"
      "gw_cmds g1 = gw_cmds (sv_gw (sk_server k)) @ [c1, c2]"
    and turns: "node_step (se_node Z) now [] (Command c1) Idle ((sv_node (sk_server k))\<lparr>nd_db := gw_db (sv_gw (sk_server k))\<rparr>) = Some (Idle, nd1)"
      "node_step (se_node Z) now' [] (Command c2) Idle nd1 = Some (Idle, nd2)"
  obtains s where "run_steps (sockets_step Z)
      [SocketSays clk token c (Binary d), Background (Takes now []), Background (Takes now' [])] k = Some (k\<lparr>sk_server := s\<rparr>)"
    "sv_gw s = g1\<lparr>gw_db := nd_db nd2\<rparr>" "sv_owner s = sv_owner (sk_server k)"
proof -
  let ?s1 = "(sk_server k)\<lparr>sv_gw := g1\<rparr>"
  let ?s2 = "?s1\<lparr>sv_taken := Suc (sv_taken (sk_server k)), sv_state := Idle, sv_node := nd1, sv_gw := g1\<lparr>gw_db := nd_db nd1\<rparr>\<rparr>"
  let ?s3 = "?s2\<lparr>sv_taken := Suc (Suc (sv_taken (sk_server k))), sv_state := Idle, sv_node := nd2, sv_gw := g1\<lparr>gw_db := nd_db nd2\<rparr>\<rparr>"
  have "sockets_step Z (SocketSays clk token c (Binary d)) k = Some (k\<lparr>sk_server := ?s1\<rparr>)"
    using sender g1(1) by (simp add: sockets_step_def socket_says_def client_message_def handle_client_message_def reader_ends_def)
  moreover have "sockets_step Z (Background (Takes now [])) (k\<lparr>sk_server := ?s1\<rparr>) = Some (k\<lparr>sk_server := ?s2\<rparr>)"
    using k g1(2,3) turns(1) by (simp add: sockets_step_def background_def server_step_def node_turn_def nth_append)
  moreover have "sockets_step Z (Background (Takes now' [])) (k\<lparr>sk_server := ?s2\<rparr>) = Some (k\<lparr>sk_server := ?s3\<rparr>)"
    using k g1(3) turns(2) by (simp add: sockets_step_def background_def server_step_def node_turn_def nth_append)
  ultimately show ?thesis by (intro that[of ?s3]) simp_all
qed

text \<open>C7: A message reaches the socket of a recipient who was away, on a node without peers that is idle
  and has taken all commands. In any state that satisfies the invariants, let a registered client whose
  rate limit admits it send a frame for a recipient with an id of at least 32 bytes and no
  connection, let the node take the two commands of the relay, let the recipient connect and its
  forwarding task write: the socket carries the frame exactly once, among the other payloads that
  waited, none of them twice, and the mailbox is empty. The frame was not delivered before, and no
  other waiting payload has the same 64-bit hash. With peers the first message for a recipient starts
  a probe, which loses it when it times out (\<open>probe_timeout_loses_messages\<close>).\<close>

theorem message_reaches_socket:
  assumes Z: "server_env_ok Z" "env_ok (se_node Z)" "ne_wire (se_node Z) = ge_wire (se_gw Z)"
    and k: "sockets_inv k" "sv_state (sk_server k) = Idle" "sv_taken (sk_server k) = length (gw_cmds (sv_gw (sk_server k)))"
    and nd: "node_inv (se_node Z) n Idle ((sv_node (sk_server k))\<lparr>nd_db := gw_db (sv_gw (sk_server k))\<rparr>)" "n + 11 < 2 ^ 64"
    and sender: "sk_tasks k c = Some fs" "fw_reading fs"
    and frame: "parse_relay d = Some (r, p)" "32 \<le> length r" "d ! 0 \<noteq> 0"
    and lim: "check_rate_limit_store (ge_round (se_gw Z)) clk (fw_session fs) (sv_gw (sk_server k)) = (True, g0)"
    and g: "gw_clients (sv_gw (sk_server k)) r = None" "gw_p2p_tx (sv_gw (sk_server k))" "gw_mailbox (sv_gw (sk_server k))"
    and fresh: "sk_tasks k ch = None" "channel_log ch (sv_gw (sk_server k)) = []"
    and new: "payload_hash (ge_wire (se_gw Z)) (forward_frame (fw_session fs) p) \<notin> set (persisted (se_gw Z) (sv_gw (sk_server k)) r)"
    and coll: "\<forall>j v q. prefix r j \<and> mail (se_gw Z) (sv_gw (sk_server k)) j = Some v \<and>
      record_payload (ge_wire (se_gw Z)) r v = Some q \<and>
      payload_hash (ge_wire (se_gw Z)) q = payload_hash (ge_wire (se_gw Z)) (forward_frame (fw_session fs) p) \<longrightarrow>
      q = forward_frame (fw_session fs) p"
  shows "\<exists>k' f sent. run_steps (sockets_step Z)
      ([SocketSays clk token c (Binary d), Background (Takes now []), Background (Takes now' []),
        SocketOpens t ms ch (Binary r)] @
       concat (map (\<lambda>i. [i, SinkDone True ch]) (replicate (length sent) (TaskReceives ch)))) k = Some k' \<and>
    sk_tasks k' ch = Some f \<and> written (fw_wire f) = sent \<and> distinct sent \<and> forward_frame (fw_session fs) p \<in> set sent \<and>
    (\<forall>j. prefix r j \<longrightarrow> mail (se_gw Z) (sv_gw (sk_server k')) j = None)"
proof -
  let ?s = "sk_server k" and ?G = "se_gw Z"
  let ?g = "sv_gw ?s" and ?u = "fw_session fs" and ?nd = "(sv_node (sk_server k))\<lparr>nd_db := gw_db (sv_gw (sk_server k))\<rparr>"
  have G: "env_wf ?G" "ne_sled (se_node Z) = ge_sled ?G" using Z(1) by (simp_all add: server_env_ok_def)
  have ch: "gw_alive ?g ch" "sv_owner ?s ch = None" using k(1) fresh(1) by (auto simp: sockets_inv_def)
  define g1 where "g1 = relay_or_p2p ?G clk ?u d ?g"
  obtain c1 c2 nd1 nd2 sent where o: "gw_cmds g1 = gw_cmds ?g @ [c1, c2]" "gw_sent g1 = gw_sent ?g"
    "node_step (se_node Z) now [] (Command c1) Idle ?nd = Some (Idle, nd1)"
    "node_step (se_node Z) now' [] (Command c2) Idle nd1 = Some (Idle, nd2)"
    "gw_sent (connect_client ?G t r ch (g1\<lparr>gw_db := nd_db nd2\<rparr>)) = gw_sent ?g @ map (Pair ch) sent"
    "distinct sent" "forward_frame ?u p \<in> set sent"
    "\<And>j. prefix r j \<Longrightarrow> mail ?G (connect_client ?G t r ch (g1\<lparr>gw_db := nd_db nd2\<rparr>)) j = None"
    using offline_delivery[OF G(1) Z(2,3) G(2) g ch(1) _ nd frame(1,2) lim new coll, of t now now']
    unfolding g1_def[symmetric] Let_def by auto
  obtain l where l: "g0 = ?g\<lparr>gw_limiters := l\<rparr>" using rate_limit_frame[OF lim] by blast
  have db1: "gw_db g1 = gw_db ?g"
    using relay_away[OF frame(1) lim] g(1) by (simp add: g1_def live_channels_def l)
  obtain s3 where s3: "run_steps (sockets_step Z)
      [SocketSays clk token c (Binary d), Background (Takes now []), Background (Takes now' [])] k = Some (k\<lparr>sk_server := s3\<rparr>)"
    "sv_gw s3 = g1\<lparr>gw_db := nd_db nd2\<rparr>" "sv_owner s3 = sv_owner ?s"
    by (rule relay_and_turns[OF k(2,3) sender frame(3) g1_def[symmetric] db1 o(1,3,4)])
  let ?k3 = "k\<lparr>sk_server := s3\<rparr>"
  have "r \<noteq> []" using frame(2) by auto
  then obtain k4 where k4: "sockets_step Z (SocketOpens t ms ch (Binary r)) ?k3 = Some k4"
    "sk_tasks k4 ch = Some (forward_start ms r)" "sv_gw (sk_server k4) = connect_client ?G t r ch (g1\<lparr>gw_db := nd_db nd2\<rparr>)"
    using ch(2) s3(2,3) by (simp add: sockets_step_def socket_opens_def open_socket_def register_message_def Let_def)
  have run4: "run_steps (sockets_step Z) [SocketSays clk token c (Binary d), Background (Takes now []), Background (Takes now' []),
      SocketOpens t ms ch (Binary r)] k = Some k4"
  proof -
    have "run_steps (sockets_step Z) ([SocketSays clk token c (Binary d), Background (Takes now []), Background (Takes now' [])] @
        [SocketOpens t ms ch (Binary r)]) k = Some k4"
      unfolding run_steps_append s3(1) by (simp add: k4(1))
    then show ?thesis by simp
  qed
  have log: "channel_log ch (sv_gw (sk_server k4)) = sent"
    using fresh(2) unfolding k4(3) channel_log_def o(5) by (simp add: filter_map comp_def)
  have "sockets_inv k4" using sockets_machine.run_inv[OF run4 k(1)] .
  from catch_up_replicate[OF this k4(2), of Z] obtain f where
    f: "run_steps (sockets_step Z) (concat (map (\<lambda>i. [i, SinkDone True ch]) (replicate (length sent) (TaskReceives ch)))) k4 =
      Some (k4\<lparr>sk_tasks := (sk_tasks k4)(ch \<mapsto> f)\<rparr>)" "written (fw_wire f) = sent"
    unfolding log by (auto simp: forward_start_def)
  have "run_steps (sockets_step Z) ([SocketSays clk token c (Binary d), Background (Takes now []), Background (Takes now' []),
      SocketOpens t ms ch (Binary r)] @ concat (map (\<lambda>i. [i, SinkDone True ch]) (replicate (length sent) (TaskReceives ch)))) k =
      Some (k4\<lparr>sk_tasks := (sk_tasks k4)(ch \<mapsto> f)\<rparr>)"
    by (simp only: run_steps_append run4 f(1) Option.bind.simps)
  then show ?thesis
    using o(6,7,8) k4(3) f(2) by (intro exI[of _ "k4\<lparr>sk_tasks := (sk_tasks k4)(ch \<mapsto> f)\<rparr>"] exI[of _ f] exI[of _ sent]) simp
qed

definition demo_connected :: "(toy_db, nat, bytes \<rightharpoonup> bytes) sockets" where
  "demo_connected = \<lparr>sk_server = \<lparr>sv_gw = demo_away\<lparr>gw_clients := [[7] \<mapsto> [9]]\<rparr>, sv_node = node_start demo_db, sv_state = Idle,
     sv_store = Map.empty, sv_taken = 0, sv_handled = 0, sv_owner = [9 \<mapsto> [7]]\<rparr>, sk_tasks = [9 \<mapsto> forward_start 0 [7]]\<rparr>"

theorem message_reaches_socket_witness:
  "\<exists>k' f sent. run_steps (sockets_step demo_server_env)
      ([SocketSays (0, 0) [] 9 (Binary ([32, 0] @ demo_user @ [4, 5])), Background (Takes 0 []), Background (Takes 0 []),
        SocketOpens 0 0 3 (Binary demo_user)] @
       concat (map (\<lambda>i. [i, SinkDone True 3]) (replicate (length sent) (TaskReceives 3)))) demo_connected = Some k' \<and>
    sk_tasks k' 3 = Some f \<and> written (fw_wire f) = sent \<and> distinct sent \<and> [1, 0, 7, 4, 5] \<in> set sent"
proof -
  let ?k = demo_connected and ?g = "demo_away\<lparr>gw_clients := [[7] \<mapsto> [9]]\<rparr>"
  have env: "se_gw demo_server_env = demo_env" "se_node demo_server_env = demo_node_env"
    by (simp_all add: demo_server_env_def)
  have W: "ne_wire demo_node_env = ge_wire demo_env" by (simp add: demo_node_env_def demo_env_def)
  have k: "sv_gw (sk_server ?k) = ?g" "sv_state (sk_server ?k) = Idle" "sv_taken (sk_server ?k) = length (gw_cmds ?g)"
    "sv_node (sk_server ?k) = node_start demo_db" "sk_tasks ?k 9 = Some (forward_start 0 [7])" "sk_tasks ?k 3 = None"
    by (simp_all add: demo_connected_def demo_away_def demo_gateway_def)
  have fs: "fw_session (forward_start 0 [7]) = [7]" "fw_reading (forward_start 0 [7])" by (simp_all add: forward_start_def)
  have live: "live_channels ?g [7] = [9]" "gw_alive ?g = (\<lambda>ch. True)" "channel_log c ?g = []" for c
    by (simp_all add: live_channels_def demo_away_def demo_gateway_def channel_log_def)
  then have inv: "sockets_inv ?k"
    by (simp add: sockets_inv_def demo_connected_def task_ok_def forward_start_def)
  have same: "(node_start demo_db)\<lparr>nd_db := gw_db ?g\<rparr> = node_start demo_db" by (simp add: demo_away_def node_start_def)
  have nd: "node_inv demo_node_env 1 Idle ((node_start demo_db)\<lparr>nd_db := gw_db ?g\<rparr>)"
    unfolding same by (rule node_start_inv) (simp add: demo_db_has)
  obtain g0 where lim: "check_rate_limit_store (ge_round demo_env) (0, 0) [7] ?g = (True, g0)" using demo_away_ready(2) by blast
  have "length demo_user \<noteq> length [7 :: u8]" using demo_node_ok(2) by simp
  then have "demo_user \<noteq> [7]" by metis
  then have g: "gw_clients ?g demo_user = None" "gw_p2p_tx ?g" "gw_mailbox ?g" "(1 :: nat) + 11 < 2 ^ 64"
    "([32, 0] @ demo_user @ [4, 5]) ! 0 \<noteq> 0"
    by (simp_all add: demo_away_def demo_gateway_def)
  have new: "payload_hash (ge_wire demo_env) (forward_frame [7] [4, 5]) \<notin> set (persisted demo_env ?g demo_user)"
    by (simp add: demo_away_ready(3))
  have coll: "\<forall>j v q. prefix demo_user j \<and> mail demo_env ?g j = Some v \<and> record_payload (ge_wire demo_env) demo_user v = Some q \<and>
      payload_hash (ge_wire demo_env) q = payload_hash (ge_wire demo_env) (forward_frame [7] [4, 5]) \<longrightarrow> q = forward_frame [7] [4, 5]"
    using demo_away_ready(4) by blast
  show ?thesis
    using message_reaches_socket[of demo_server_env ?k 1 9, unfolded env k, OF demo_server_env_ok demo_node_ok(1) W inv refl refl
        nd g(4) refl fs(2) demo_away_ready(1) demo_node_ok(2) g(5), unfolded fs, OF lim g(1-3) k(6) live(3) new coll, of "[]" 0 0 0 0]
    unfolding demo_forward by blast
qed



end
